(* ===== verification/Prelude.thy ===== *)
theory Prelude
  imports Main "HOL-Library.Word" "HOL-Library.Char_ord" "HOL-Library.List_Lexorder"
    "HOL-Library.Product_Lexorder"
begin

text \<open>
  What the components of the development share: the names of the machine types, the named
  collections of facts, the two map representations of the Rust code (\<open>BTreeMap\<close>, kept as an
  association list sorted by key, and \<open>IndexMap\<close>, kept as an association list in insertion
  order) behind one interface \<open>assoc_store\<close>, and the interface \<open>inv_machine\<close> of a state machine
  whose operations keep an invariant.
\<close>

section \<open>Machine types and fact collections\<close>

text \<open>
  A \<open>u64\<close> whose wrap-around matters (hashes, seeds) is a \<open>64 word\<close>. A \<open>u64\<close> or \<open>usize\<close> that only
  counts events, names an object or holds a virtual time is a \<open>nat\<close>: it would need \<open>2 ^ 64\<close>
  increments to wrap.
\<close>

type_synonym u64 = "64 word"

definition u64_max :: nat where
  "u64_max = 2 ^ 64 - 1"

named_theorems store_simps \<open>look-up laws of the map representations\<close>
named_theorems frame_simps \<open>fields an operation does not change\<close>

section \<open>Maps: the interface and its two representations\<close>

locale assoc_store =
  fixes put :: "'k \<Rightarrow> 'v \<Rightarrow> ('k \<times> 'v) list \<Rightarrow> ('k \<times> 'v) list"
    and ok :: "('k \<times> 'v) list \<Rightarrow> bool"
  assumes get_put: "map_of (put k v m) = (map_of m)(k \<mapsto> v)"
    and ok_nil: "ok []"
    and ok_put: "ok m \<Longrightarrow> ok (put k v m)"
    and ok_filter: "ok m \<Longrightarrow> ok (filter P m)"
    and ok_distinct: "ok m \<Longrightarrow> distinct (map fst m)"
begin

lemma get_put_same: "map_of (put k v m) k = Some v"
  by (simp add: get_put)

lemma get_put_other: "k \<noteq> k' \<Longrightarrow> map_of (put k v m) k' = map_of m k'"
  by (simp add: get_put)

lemma dom_put: "dom (map_of (put k v m)) = insert k (dom (map_of m))"
  by (simp add: get_put)

lemma keys_put: "fst ` set (put k v m) = insert k (fst ` set m)"
proof -
  have "dom (map_of (put k v m)) = insert k (dom (map_of m))" by (rule dom_put)
  then show ?thesis by (simp add: dom_map_of_conv_image_fst)
qed

lemma entry_iff: "ok m \<Longrightarrow> (k, v) \<in> set m \<longleftrightarrow> map_of m k = Some v"
  using ok_distinct by simp

lemma set_put: "ok m \<Longrightarrow> (k', v') \<in> set (put k v m) \<longleftrightarrow>
    (if k' = k then v' = v else (k', v') \<in> set m)"
  using ok_put entry_iff get_put by auto

text \<open>Puts in a row: the last one of a key wins, every other key is untouched.\<close>

lemma get_fold_put:
  "map_of (fold (\<lambda>(k, v). put k v) kvs m) = map_of m ++ map_of (rev kvs)"
proof (induction kvs arbitrary: m)
  case Nil
  then show ?case by simp
next
  case (Cons kv kvs)
  obtain k v where kv: "kv = (k, v)" by fastforce
  have "map_of (fold (\<lambda>(k, v). put k v) kvs (put k v m)) =
      map_of (put k v m) ++ map_of (rev kvs)"
    by (rule Cons.IH)
  then show ?case by (simp add: kv get_put)
qed

lemma ok_fold_put: "ok m \<Longrightarrow> ok (fold (\<lambda>(k, v). put k v) kvs m)"
  by (induction kvs arbitrary: m) (auto simp: ok_put)

end

text \<open>\<open>BTreeMap\<close>: sorted by key.\<close>

fun bt_put :: "'k::linorder \<Rightarrow> 'v \<Rightarrow> ('k \<times> 'v) list \<Rightarrow> ('k \<times> 'v) list" where
  "bt_put k v [] = [(k, v)]"
| "bt_put k v ((k', v') # m) =
     (if k < k' then (k, v) # (k', v') # m
      else if k = k' then (k, v) # m
      else (k', v') # bt_put k v m)"

definition bt_ok :: "('k::linorder \<times> 'v) list \<Rightarrow> bool" where
  "bt_ok m \<longleftrightarrow> sorted_wrt (<) (map fst m)"

text \<open>\<open>IndexMap\<close>: in the order each key was first set.\<close>

fun ix_put :: "'k \<Rightarrow> 'v \<Rightarrow> ('k \<times> 'v) list \<Rightarrow> ('k \<times> 'v) list" where
  "ix_put k v [] = [(k, v)]"
| "ix_put k v ((k', v') # m) = (if k = k' then (k, v) # m else (k', v') # ix_put k v m)"

definition ix_ok :: "('k \<times> 'v) list \<Rightarrow> bool" where
  "ix_ok m \<longleftrightarrow> distinct (map fst m)"

text \<open>Removing a key is the same filter in both.\<close>

definition del_key :: "'k \<Rightarrow> ('k \<times> 'v) list \<Rightarrow> ('k \<times> 'v) list" where
  "del_key k m = filter (\<lambda>(k', _). k' \<noteq> k) m"

lemma get_filter_keys: "map_of (filter (\<lambda>(k, _). P k) m) = (\<lambda>k. if P k then map_of m k else None)"
  by (induction m) (auto simp: fun_eq_iff)

lemma get_filter_keys':
  "map_of (filter (\<lambda>e. P (fst e)) m) = (\<lambda>k. if P k then map_of m k else None)"
  by (induction m) (auto simp: fun_eq_iff)

lemma get_del_key [store_simps]: "map_of (del_key k m) = (map_of m)(k := None)"
  by (auto simp: del_key_def get_filter_keys fun_eq_iff)

lemma bt_put_fst: "fst ` set (bt_put k v m) = insert k (fst ` set m)"
  by (induction m rule: bt_put.induct) auto

lemma ix_put_fst: "fst ` set (ix_put k v m) = insert k (fst ` set m)"
  by (induction k v m rule: ix_put.induct) auto

interpretation bt: assoc_store "bt_put :: 'k::linorder \<Rightarrow> 'v \<Rightarrow> _" bt_ok
proof unfold_locales
  fix k :: 'k and v :: 'v and m :: "('k \<times> 'v) list" and P
  show "map_of (bt_put k v m) = (map_of m)(k \<mapsto> v)"
    by (induction m) auto
  show "bt_ok ([] :: ('k \<times> 'v) list)" by (simp add: bt_ok_def)
  show "bt_ok m \<Longrightarrow> bt_ok (bt_put k v m)"
    by (induction m) (fastforce simp: bt_ok_def bt_put_fst dest: bspec)+
  show "bt_ok m \<Longrightarrow> bt_ok (filter P m)"
    by (induction m) (auto simp: bt_ok_def)
  show "bt_ok m \<Longrightarrow> distinct (map fst m)"
    by (simp add: bt_ok_def strict_sorted_iff)
qed

interpretation ix: assoc_store "ix_put :: 'k \<Rightarrow> 'v \<Rightarrow> _" ix_ok
proof unfold_locales
  fix k :: 'k and v :: 'v and m :: "('k \<times> 'v) list" and P
  show "map_of (ix_put k v m) = (map_of m)(k \<mapsto> v)"
    by (induction m) auto
  show "ix_ok ([] :: ('k \<times> 'v) list)" by (simp add: ix_ok_def)
  show "ix_ok m \<Longrightarrow> ix_ok (ix_put k v m)"
    by (induction m) (force simp: ix_ok_def ix_put_fst)+
  show "ix_ok m \<Longrightarrow> ix_ok (filter P m)"
    by (simp add: ix_ok_def distinct_map_filter)
  show "ix_ok m \<Longrightarrow> distinct (map fst m)"
    by (simp add: ix_ok_def)
qed

lemmas [store_simps] = bt.get_put ix.get_put bt.dom_put ix.dom_put

lemma bt_ok_del_key [simp]: "bt_ok m \<Longrightarrow> bt_ok (del_key k m)"
  by (simp add: del_key_def bt.ok_filter)

section \<open>State machines whose operations keep an invariant\<close>

text \<open>
  A component is a start state and a step per operation; \<open>pre\<close> is what a caller owes before an
  operation. The client fact is that every run of operations from the start state whose
  preconditions were met ends in a state that satisfies the invariant.
\<close>

fun run_ops :: "('op \<Rightarrow> 's \<Rightarrow> 's) \<Rightarrow> 'op list \<Rightarrow> 's \<Rightarrow> 's" where
  "run_ops step [] s = s"
| "run_ops step (op # ops) s = run_ops step ops (step op s)"

fun obliged :: "('op \<Rightarrow> 's \<Rightarrow> 's) \<Rightarrow> ('op \<Rightarrow> 's \<Rightarrow> bool) \<Rightarrow> 'op list \<Rightarrow> 's \<Rightarrow> bool" where
  "obliged step pre [] s = True"
| "obliged step pre (op # ops) s = (pre op s \<and> obliged step pre ops (step op s))"

locale inv_machine =
  fixes start :: 's
    and step :: "'op \<Rightarrow> 's \<Rightarrow> 's"
    and pre :: "'op \<Rightarrow> 's \<Rightarrow> bool"
    and inv :: "'s \<Rightarrow> bool"
  assumes inv_start: "inv start"
    and inv_step: "inv s \<Longrightarrow> pre op s \<Longrightarrow> inv (step op s)"
begin

lemma inv_run: "inv s \<Longrightarrow> obliged step pre ops s \<Longrightarrow> inv (run_ops step ops s)"
  by (induction ops arbitrary: s) (auto intro: inv_step)

lemma inv_reachable: "obliged step pre ops start \<Longrightarrow> inv (run_ops step ops start)"
  by (rule inv_run [OF inv_start])

end

section \<open>Generic lemmas\<close>

lemma option_case_distrib: "f (case x of None \<Rightarrow> a | Some y \<Rightarrow> b y) =
    (case x of None \<Rightarrow> f a | Some y \<Rightarrow> f (b y))"
  by (cases x) auto

lemma sorted_hd_le: "sorted (x # xs) \<Longrightarrow> y \<in> set (x # xs) \<Longrightarrow> x \<le> y"
  by auto

lemma map_of_ran_entry: "map_of m k = Some v \<Longrightarrow> v \<in> snd ` set m"
  by (metis image_eqI map_of_SomeD snd_conv)

section \<open>Fallible operations on a state\<close>

text \<open>The \<open>?\<close> of the Rust code: an error returns at once, with the state it left.\<close>

definition and_then :: "('e + 'a) \<times> 's \<Rightarrow> ('a \<Rightarrow> 's \<Rightarrow> ('e + 'b) \<times> 's) \<Rightarrow> ('e + 'b) \<times> 's" where
  "and_then r k = (case r of (Inl e, s) \<Rightarrow> (Inl e, s) | (Inr x, s) \<Rightarrow> k x s)"

lemma and_then_simps [simp]:
  "and_then (Inl e, s) k = (Inl e, s)" "and_then (Inr x, s) k = k x s"
  by (simp_all add: and_then_def)

lemma and_then_ok:
  "and_then r k = (Inr y, s') \<longleftrightarrow> (\<exists>x s. r = (Inr x, s) \<and> k x s = (Inr y, s'))"
  by (cases r; cases "fst r") auto

lemma snd_and_then: "snd (and_then r k) = (case fst r of Inl _ \<Rightarrow> snd r | Inr x \<Rightarrow> snd (k x (snd r)))"
  by (cases r; cases "fst r") auto

text \<open>A decimal numeral, as \<open>{}\<close> prints it.\<close>

fun show_nat :: "nat \<Rightarrow> string" where
  "show_nat n = (if n < 10 then [char_of (48 + n)] else show_nat (n div 10) @ [char_of (48 + n mod 10)])"

declare show_nat.simps [simp del]

text \<open>\<open>join\<close> of a list of strings.\<close>

fun join :: "string \<Rightarrow> string list \<Rightarrow> string" where
  "join sep [] = []"
| "join sep [x] = x"
| "join sep (x # xs) = x @ sep @ join sep xs"

text \<open>\<open>str::split\<close> at a character.\<close>

fun split_on :: "char \<Rightarrow> string \<Rightarrow> string list" where
  "split_on c [] = [[]]"
| "split_on c (x # xs) =
     (if x = c then [] # split_on c xs
      else (case split_on c xs of [] \<Rightarrow> [[x]] | p # ps \<Rightarrow> (x # p) # ps))"

lemma split_on_nonempty [simp]: "split_on c s \<noteq> []"
  by (induction s) (auto split: list.splits)

lemma split_on_no_sep: "p \<in> set (split_on c s) \<Longrightarrow> c \<notin> set p"
proof (induction s arbitrary: p)
  case (Cons x xs)
  then show ?case by (cases "split_on c xs") (auto split: if_splits)
qed simp

end
