(* ===== verification/F64.thy ===== *)
theory F64
  imports Prelude
begin

text \<open>
  Rust's \<open>f64\<close>, the IEEE binary64 format with rounding to nearest, ties to even: the values, the
  arithmetic and the comparisons the modelled code uses. A finite value \<open>Fin s m e\<close> is
  \<open>(-1)^s * m * 2^e\<close>, in the one canonical form that \<open>f64_ok\<close> describes, so equal bits are equal
  values of the type. All NaNs are one value: the modelled code never looks at a NaN's payload.
\<close>

section \<open>Values\<close>

datatype f64 = NaN | Inf bool | Fin bool int int

fun f64_ok :: "f64 \<Rightarrow> bool" where
  "f64_ok NaN = True"
| "f64_ok (Inf s) = True"
| "f64_ok (Fin s m e) = (0 \<le> m \<and> m < 2 ^ 53 \<and> -1074 \<le> e \<and> e \<le> 971 \<and> (m < 2 ^ 52 \<longrightarrow> e = -1074))"

definition f64_zero :: f64 where
  "f64_zero = Fin False 0 (-1074)"

definition f64_one :: f64 where
  "f64_one = Fin False (2 ^ 52) (-52)"

fun is_finite :: "f64 \<Rightarrow> bool" where
  "is_finite (Fin _ _ _) = True"
| "is_finite _ = False"

fun is_nan :: "f64 \<Rightarrow> bool" where
  "is_nan NaN = True"
| "is_nan _ = False"

section \<open>Rounding\<close>

text \<open>The number of binary digits of \<open>n\<close>.\<close>

function bit_len :: "int \<Rightarrow> int" where
  "bit_len n = (if n \<le> 0 then 0 else 1 + bit_len (n div 2))"
  by pat_completeness auto
termination
  by (relation "measure nat") auto

declare bit_len.simps [simp del]

text \<open>\<open>round_ratio s a b\<close> is the \<open>f64\<close> nearest to \<open>(-1)^s * a / b\<close>, for \<open>b > 0\<close>.\<close>

definition half_even :: "int \<Rightarrow> int \<Rightarrow> int" where
  "half_even a b =
     (let m = a div b; r = a mod b
      in if 2 * r > b \<or> (2 * r = b \<and> odd m) then m + 1 else m)"

definition round_ratio :: "bool \<Rightarrow> int \<Rightarrow> int \<Rightarrow> f64" where
  "round_ratio s a b =
     (if a = 0 then Fin s 0 (-1074)
      else
        let k = bit_len a - bit_len b;
            ge = (if k \<ge> 0 then a \<ge> b * 2 ^ nat k else a * 2 ^ nat (- k) \<ge> b);
            l = (if ge then k else k - 1);
            e = max (l - 52) (-1074);
            m = (if e \<ge> 0 then half_even a (b * 2 ^ nat e) else half_even (a * 2 ^ nat (- e)) b);
            (m', e') = (if m = 2 ^ 53 then (2 ^ 52, e + 1) else (m, e))
        in if e' > 971 then Inf s else Fin s m' e')"

text \<open>The rounding of the integer \<open>n\<close> times \<open>2 ^ e\<close>; \<open>z\<close> is the sign of a zero.\<close>

definition round_scaled :: "bool \<Rightarrow> int \<Rightarrow> int \<Rightarrow> f64" where
  "round_scaled z n e =
     (let s = (if n = 0 then z else n < 0); a = \<bar>n\<bar>
      in if e \<ge> 0 then round_ratio s (a * 2 ^ nat e) 1 else round_ratio s a (2 ^ nat (- e)))"

definition of_i64 :: "int \<Rightarrow> f64" where
  "of_i64 n = round_scaled False n 0"

section \<open>Arithmetic\<close>

definition with_sign :: "bool \<Rightarrow> int \<Rightarrow> int" where
  "with_sign s m = (if s then - m else m)"

definition sign_xor :: "bool \<Rightarrow> bool \<Rightarrow> bool" where
  "sign_xor s s' = (s \<noteq> s')"

text \<open>Two finite values at a common exponent: the mantissas there and the exponent.\<close>

definition aligned :: "bool \<Rightarrow> int \<Rightarrow> int \<Rightarrow> bool \<Rightarrow> int \<Rightarrow> int \<Rightarrow> int \<times> int \<times> int" where
  "aligned s m e s' m' e' =
     (let c = min e e' in (with_sign s m * 2 ^ nat (e - c), with_sign s' m' * 2 ^ nat (e' - c), c))"

fun f64_neg :: "f64 \<Rightarrow> f64" where
  "f64_neg NaN = NaN"
| "f64_neg (Inf s) = Inf (\<not> s)"
| "f64_neg (Fin s m e) = Fin (\<not> s) m e"

fun f64_add :: "f64 \<Rightarrow> f64 \<Rightarrow> f64" where
  "f64_add NaN _ = NaN"
| "f64_add _ NaN = NaN"
| "f64_add (Inf s) (Inf s') = (if s = s' then Inf s else NaN)"
| "f64_add (Inf s) _ = Inf s"
| "f64_add _ (Inf s) = Inf s"
| "f64_add (Fin s m e) (Fin s' m' e') =
     (let (a, b, c) = aligned s m e s' m' e' in round_scaled (s \<and> s') (a + b) c)"

definition f64_sub :: "f64 \<Rightarrow> f64 \<Rightarrow> f64" where
  "f64_sub x y = f64_add x (f64_neg y)"

fun f64_mul :: "f64 \<Rightarrow> f64 \<Rightarrow> f64" where
  "f64_mul NaN _ = NaN"
| "f64_mul _ NaN = NaN"
| "f64_mul (Inf s) (Inf s') = Inf (sign_xor s s')"
| "f64_mul (Inf s) (Fin s' m e) = (if m = 0 then NaN else Inf (sign_xor s s'))"
| "f64_mul (Fin s m e) (Inf s') = (if m = 0 then NaN else Inf (sign_xor s s'))"
| "f64_mul (Fin s m e) (Fin s' m' e') =
     round_scaled (sign_xor s s') (with_sign s m * with_sign s' m') (e + e')"

fun f64_div :: "f64 \<Rightarrow> f64 \<Rightarrow> f64" where
  "f64_div NaN _ = NaN"
| "f64_div _ NaN = NaN"
| "f64_div (Inf s) (Inf s') = NaN"
| "f64_div (Inf s) (Fin s' m e) = Inf (sign_xor s s')"
| "f64_div (Fin s m e) (Inf s') = Fin (sign_xor s s') 0 (-1074)"
| "f64_div (Fin s m e) (Fin s' m' e') =
     (if m' = 0 then (if m = 0 then NaN else Inf (sign_xor s s'))
      else if e \<ge> e' then round_ratio (sign_xor s s') (m * 2 ^ nat (e - e')) m'
      else round_ratio (sign_xor s s') m (m' * 2 ^ nat (e' - e)))"

text \<open>Rust's \<open>%\<close>: the exact remainder of the truncated quotient, with the dividend's sign.\<close>

fun f64_rem :: "f64 \<Rightarrow> f64 \<Rightarrow> f64" where
  "f64_rem NaN _ = NaN"
| "f64_rem _ NaN = NaN"
| "f64_rem (Inf _) _ = NaN"
| "f64_rem (Fin s m e) (Inf _) = Fin s m e"
| "f64_rem (Fin s m e) (Fin s' m' e') =
     (if m' = 0 then NaN
      else let (a, b, c) = aligned False m e False m' e'
           in round_scaled s (with_sign s (a mod b)) c)"

section \<open>Comparisons\<close>

text \<open>\<open>partial_cmp\<close>: None when an operand is NaN, else the sign of the difference.\<close>

fun f64_cmp :: "f64 \<Rightarrow> f64 \<Rightarrow> int option" where
  "f64_cmp NaN _ = None"
| "f64_cmp _ NaN = None"
| "f64_cmp (Inf s) (Inf s') = Some (if s = s' then 0 else if s then -1 else 1)"
| "f64_cmp (Inf s) _ = Some (if s then -1 else 1)"
| "f64_cmp _ (Inf s) = Some (if s then 1 else -1)"
| "f64_cmp (Fin s m e) (Fin s' m' e') =
     (let (a, b, c) = aligned s m e s' m' e' in Some (sgn (a - b)))"

definition f64_eq :: "f64 \<Rightarrow> f64 \<Rightarrow> bool" where
  "f64_eq x y \<longleftrightarrow> f64_cmp x y = Some 0"

definition f64_lt :: "f64 \<Rightarrow> f64 \<Rightarrow> bool" where
  "f64_lt x y \<longleftrightarrow> f64_cmp x y = Some (-1)"

definition f64_le :: "f64 \<Rightarrow> f64 \<Rightarrow> bool" where
  "f64_le x y \<longleftrightarrow> f64_cmp x y = Some (-1) \<or> f64_cmp x y = Some 0"

text \<open>\<open>f.fract() == 0.0\<close> and, for such a value, \<open>f as i64\<close> (the range is the caller's test).\<close>

fun is_integral :: "f64 \<Rightarrow> bool" where
  "is_integral (Fin s m e) = (e \<ge> 0 \<or> m mod 2 ^ nat (- e) = 0)"
| "is_integral _ = False"

fun to_int :: "f64 \<Rightarrow> int" where
  "to_int (Fin s m e) = with_sign s (if e \<ge> 0 then m * 2 ^ nat e else m div 2 ^ nat (- e))"
| "to_int _ = 0"

text \<open>\<open>p.clamp(lo, hi)\<close>, which keeps a NaN.\<close>

definition f64_clamp :: "f64 \<Rightarrow> f64 \<Rightarrow> f64 \<Rightarrow> f64" where
  "f64_clamp lo hi x = (if f64_lt x lo then lo else if f64_lt hi x then hi else x)"

section \<open>Laws of the comparisons\<close>

lemma with_sign_not [simp]: "with_sign (\<not> s) m = - with_sign s m"
  by (simp add: with_sign_def)

lemma f64_cmp_antisym: "f64_cmp y x = map_option uminus (f64_cmp x y)"
  by (cases x; cases y) (auto simp: aligned_def Let_def min.commute sgn_if)

lemma f64_cmp_refl: "\<not> is_nan x \<Longrightarrow> f64_cmp x x = Some 0"
  by (cases x) (auto simp: aligned_def Let_def)

lemma f64_cmp_range: "f64_cmp x y = Some c \<Longrightarrow> c = -1 \<or> c = 0 \<or> c = 1"
  by (cases x; cases y) (auto simp: aligned_def Let_def sgn_if split: if_splits)

lemma f64_eq_sym: "f64_eq x y = f64_eq y x"
  using f64_cmp_antisym [of x y] by (auto simp: f64_eq_def)

lemma f64_lt_irrefl [simp]: "\<not> f64_lt x x"
  by (cases "is_nan x") (auto simp: f64_lt_def f64_cmp_refl elim: is_nan.elims)

lemma f64_lt_asym: "f64_lt x y \<Longrightarrow> \<not> f64_lt y x"
  using f64_cmp_antisym [of x y] by (auto simp: f64_lt_def)

lemma f64_lt_not_eq: "f64_lt x y \<Longrightarrow> \<not> f64_eq x y"
  by (auto simp: f64_lt_def f64_eq_def)

lemma is_finite_not_nan: "is_finite x \<Longrightarrow> \<not> is_nan x"
  by (cases x) auto

lemma f64_add_commute: "f64_add x y = f64_add y x"
  by (cases x; cases y) (auto simp: aligned_def Let_def min.commute conj_commute add.commute)

lemma sign_xor_commute: "sign_xor s s' = sign_xor s' s"
  by (auto simp: sign_xor_def)

lemma f64_mul_commute: "f64_mul x y = f64_mul y x"
  by (cases x; cases y) (auto simp: mult.commute add.commute sign_xor_commute)

end
