(* ===== verification/Draws.thy ===== *)
theory Draws
  imports F64
begin

text \<open>
  The simulator's random draws (\<open>src/sim/sched.rs\<close>): \<open>split\<close>, the splitmix64 step every stream
  is derived with, the small generator \<open>Mix\<close>, and \<open>Keyed\<close>, the table that gives the k-th draw at
  a place in an instant its own generator. The rand crate's distributions over a generator are a
  parameter (\<open>rand_lib\<close>).
\<close>

unbundle bit_operations_syntax

section \<open>split\<close>

definition split :: "u64 \<Rightarrow> u64 \<Rightarrow> u64" where
  "split seed stream =
     (let z = seed XOR (stream * 0x9E3779B97F4A7C15);
          z = z + 0x9E3779B97F4A7C15;
          z = (z XOR (drop_bit 30 z)) * 0xBF58476D1CE4E5B9;
          z = (z XOR (drop_bit 27 z)) * 0x94D049BB133111EB
      in z XOR (drop_bit 31 z))"

section \<open>Mix\<close>

type_synonym mix = u64

definition mix_new :: "u64 \<Rightarrow> mix" where
  "mix_new key = key"

definition mix_next_u64 :: "mix \<Rightarrow> u64 \<times> mix" where
  "mix_next_u64 g = (let g' = g + 0x9E3779B97F4A7C15 in (split g' 0, g'))"

definition mix_next_u32 :: "mix \<Rightarrow> 32 word \<times> mix" where
  "mix_next_u32 g = (let (v, g') = mix_next_u64 g in (ucast (drop_bit 32 v), g'))"

text \<open>\<open>v.to_le_bytes()\<close> and the fill of a buffer of \<open>n\<close> bytes, eight at a time.\<close>

definition to_le_bytes :: "u64 \<Rightarrow> 8 word list" where
  "to_le_bytes v = map (\<lambda>i. ucast (drop_bit (8 * i) v)) [0, 1, 2, 3, 4, 5, 6, 7]"

function mix_fill_bytes :: "nat \<Rightarrow> mix \<Rightarrow> 8 word list \<times> mix" where
  "mix_fill_bytes n g =
     (if n = 0 then ([], g)
      else let (v, g') = mix_next_u64 g;
               (rest, g'') = mix_fill_bytes (n - 8) g'
           in (take n (to_le_bytes v) @ rest, g''))"
  by pat_completeness auto
termination
  by (relation "measure fst") auto

declare mix_fill_bytes.simps [simp del]

text \<open>
  The rand crate over a \<open>Mix\<close>: \<open>random::<f64>()\<close>, \<open>random::<u64>()\<close>, \<open>random_range(lo..=hi)\<close> and
  \<open>random_range(0..n)\<close>. Its documented promise is that a range's draw lies in the range.
\<close>

record rand_lib =
  gen_f64 :: "mix \<Rightarrow> f64 \<times> mix"
  gen_u64 :: "mix \<Rightarrow> u64 \<times> mix"
  gen_range :: "nat \<Rightarrow> nat \<Rightarrow> mix \<Rightarrow> nat \<times> mix"
  gen_index :: "nat \<Rightarrow> mix \<Rightarrow> nat \<times> mix"

definition rand_in_range :: "rand_lib \<Rightarrow> bool" where
  "rand_in_range R \<longleftrightarrow>
     (\<forall>lo hi g. lo \<le> hi \<longrightarrow> lo \<le> fst (gen_range R lo hi g) \<and> fst (gen_range R lo hi g) \<le> hi) \<and>
     (\<forall>n g. 0 < n \<longrightarrow> fst (gen_index R n g) < n)"

text \<open>One library that keeps the promise, to evaluate examples with.\<close>

definition mod_rand :: rand_lib where
  "mod_rand =
     \<lparr>gen_f64 = (\<lambda>g. let (v, g') = mix_next_u64 g in
                   (round_scaled False (uint (drop_bit 11 v)) (-53), g')),
      gen_u64 = mix_next_u64,
      gen_range = (\<lambda>lo hi g. let (v, g') = mix_next_u64 g in (lo + unat v mod (hi - lo + 1), g')),
      gen_index = (\<lambda>n g. let (v, g') = mix_next_u64 g in (unat v mod n, g'))\<rparr>"

lemma mod_rand_in_range: "rand_in_range mod_rand"
proof -
  have "unat v mod (hi - lo + 1) < hi - lo + 1" for v :: u64 and lo hi :: nat by simp
  then have "lo \<le> hi \<Longrightarrow> lo + unat v mod (hi - lo + 1) \<le> hi" for v :: u64 and lo hi :: nat
    by (metis Suc_eq_plus1 add_le_cancel_left le_add_diff_inverse less_Suc_eq_le)
  then show ?thesis
    by (auto simp: rand_in_range_def mod_rand_def mix_next_u64_def Let_def)
qed

section \<open>Keyed\<close>

record keyed =
  k_seed :: u64
  k_counts :: "u64 \<Rightarrow> (nat \<times> nat) option"

definition keyed_new :: "u64 \<Rightarrow> keyed" where
  "keyed_new seed = \<lparr>k_seed = seed, k_counts = (\<lambda>_. None)\<rparr>"

text \<open>The number the next draw at \<open>place\<close> in instant \<open>t\<close> takes.\<close>

definition next_count :: "('p \<Rightarrow> (nat \<times> nat) option) \<Rightarrow> 'p \<Rightarrow> nat \<Rightarrow> nat" where
  "next_count counts place t =
     (case counts place of Some (t', c) \<Rightarrow> if t' \<noteq> t then 0 else c | None \<Rightarrow> 0)"

definition draw_key :: "u64 \<Rightarrow> u64 \<Rightarrow> nat \<Rightarrow> nat \<Rightarrow> u64" where
  "draw_key seed place t k = split (split (split seed place) (of_nat t)) (of_nat k)"

definition keyed_at :: "u64 \<Rightarrow> nat \<Rightarrow> keyed \<Rightarrow> mix \<times> keyed" where
  "keyed_at place t d =
     (let k = next_count (k_counts d) place t
      in (draw_key (k_seed d) place t k, d\<lparr>k_counts := (k_counts d)(place \<mapsto> (t, k + 1))\<rparr>))"

text \<open>A run of draws: what each visit (place, instant) was given.\<close>

fun keyed_run :: "(u64 \<times> nat) list \<Rightarrow> keyed \<Rightarrow> mix list \<times> keyed" where
  "keyed_run [] d = ([], d)"
| "keyed_run ((p, t) # vs) d =
     (let (m, d') = keyed_at p t d; (ms, d'') = keyed_run vs d' in (m # ms, d''))"

section \<open>Facts about split\<close>

lemma drop_bit_fix_zero:
  fixes d :: "'a::len word"
  assumes "0 < n" and "drop_bit n d = d"
  shows "d = 0"
proof -
  have "unat d div 2 ^ n = unat d"
    using assms(2) by (metis unat_drop_bit_eq drop_bit_eq_div)
  moreover have "(2::nat) \<le> 2 ^ n" using assms(1) by (metis one_le_numeral power_increasing power_one_right Suc_leI One_nat_def)
  ultimately have "unat d = 0"
    by (metis div_less_dividend gr_zeroI less_le_trans nat_neq_iff one_less_numeral_iff semiring_norm(76))
  then show ?thesis by (rule unat_eq_zero [THEN iffD1])
qed

lemma xor_cancel: "a XOR c = b XOR c \<Longrightarrow> a = b" for a b c :: "'a::len word"
  by (metis xor.assoc xor.right_neutral xor_self_eq)

lemma xorshift_inj:
  fixes x y :: "'a::len word"
  assumes "0 < n" and "x XOR drop_bit n x = y XOR drop_bit n y"
  shows "x = y"
proof -
  let ?d = "x XOR y"
  have "?d XOR drop_bit n ?d = (x XOR drop_bit n x) XOR (y XOR drop_bit n y)"
    by (simp add: drop_bit_xor ac_simps)
  also have "\<dots> = 0" using assms(2) by simp
  finally have "drop_bit n ?d = ?d"
    by (metis xor.right_neutral xor_self_eq xor.assoc)
  then have "?d = 0" using assms(1) drop_bit_fix_zero by blast
  then show ?thesis by (metis xor.right_neutral xor_self_eq xor.assoc)
qed

lemma mult_inj:
  fixes c c' x y :: "'a::len word"
  assumes "c * c' = 1" and "x * c = y * c"
  shows "x = y"
  using assms by (metis mult.assoc mult.right_neutral)

lemma finish_inj:
  fixes x y :: u64
  assumes "(let z = (x XOR (drop_bit 30 x)) * 0xBF58476D1CE4E5B9;
                z = (z XOR (drop_bit 27 z)) * 0x94D049BB133111EB in z XOR (drop_bit 31 z)) =
           (let z = (y XOR (drop_bit 30 y)) * 0xBF58476D1CE4E5B9;
                z = (z XOR (drop_bit 27 z)) * 0x94D049BB133111EB in z XOR (drop_bit 31 z))"
  shows "x = y"
proof -
  have c1: "(0xBF58476D1CE4E5B9 :: u64) * 0x96DE1B173F119089 = 1" by simp
  have c2: "(0x94D049BB133111EB :: u64) * 0x319642B2D24D8EC3 = 1" by simp
  show ?thesis
    using assms xorshift_inj [of 31] xorshift_inj [of 27] xorshift_inj [of 30]
      mult_inj [OF c1] mult_inj [OF c2]
    unfolding Let_def by (meson zero_less_numeral)
qed

lemma split_inj_seed:
  assumes "split s p = split s' p"
  shows "s = s'"
proof -
  let ?m = "p * 0x9E3779B97F4A7C15"
  from assms have "(s XOR ?m) + 0x9E3779B97F4A7C15 = (s' XOR ?m) + 0x9E3779B97F4A7C15"
    unfolding split_def Let_def by (rule finish_inj [unfolded Let_def])
  then have "s XOR ?m = s' XOR ?m" by (rule add_right_imp_eq)
  then show "s = s'" by (rule xor_cancel)
qed

lemma split_inj_stream:
  assumes "split s p = split s p'"
  shows "p = p'"
proof -
  let ?c = "0x9E3779B97F4A7C15 :: u64"
  from assms have "(s XOR p * ?c) + ?c = (s XOR p' * ?c) + ?c"
    unfolding split_def Let_def by (rule finish_inj [unfolded Let_def])
  then have "s XOR p * ?c = s XOR p' * ?c" by (rule add_right_imp_eq)
  then have "p * ?c XOR s = p' * ?c XOR s" by (simp only: xor.commute)
  then have eq: "p * ?c = p' * ?c" by (rule xor_cancel)
  have "?c * 0xF1DE83E19937733D = 1" by simp
  from mult_inj [OF this eq] show "p = p'" .
qed

section \<open>Facts about Keyed\<close>

lemma keyed_at_seed [simp]: "k_seed (snd (keyed_at p t d)) = k_seed d"
  by (simp add: keyed_at_def Let_def)

lemma keyed_at_count:
  "next_count (k_counts (snd (keyed_at p t d))) q u =
     (if q = p then (if u = t then next_count (k_counts d) p t + 1 else 0)
      else next_count (k_counts d) q u)"
  by (simp add: keyed_at_def next_count_def Let_def)

lemma keyed_run_length [simp]: "length (fst (keyed_run vs d)) = length vs"
  by (induction vs d rule: keyed_run.induct) (auto simp: Let_def split: prod.splits)

text \<open>
  The draws of one place and instant, in a run whose instants never go back: numbered from the
  table's count, whatever the other visits were.
\<close>

lemma keyed_run_at:
  assumes "sorted (map snd vs)" and "\<forall>v \<in> set vs. t0 \<le> snd v"
    and "\<forall>q c u. k_counts d q = Some (u, c) \<longrightarrow> u \<le> t0"
  shows "map snd (filter (\<lambda>(v, _). v = (p, t)) (zip vs (fst (keyed_run vs d)))) =
    map (\<lambda>i. draw_key (k_seed d) p t (next_count (k_counts d) p t + i))
      [0..<length (filter (\<lambda>v. v = (p, t)) vs)]"
  using assms
proof (induction vs arbitrary: d t0)
  case Nil
  then show ?case by simp
next
  case (Cons v vs)
  obtain q u where v: "v = (q, u)" by fastforce
  define d' where "d' = snd (keyed_at q u d)"
  have times: "sorted (map snd vs)" "\<forall>w \<in> set vs. u \<le> snd w" "t0 \<le> u"
    using Cons.prems v by auto
  have counts: "\<forall>q' c w. k_counts d' q' = Some (w, c) \<longrightarrow> w \<le> u"
    using Cons.prems(3) times(3) by (fastforce simp: d'_def keyed_at_def Let_def split: if_splits)
  note IH = Cons.IH [OF times(1,2) counts]
  have run: "fst (keyed_run (v # vs) d) = fst (keyed_at q u d) # fst (keyed_run vs d')"
    by (simp add: v d'_def Let_def split: prod.splits)
  have seed: "k_seed d' = k_seed d" by (simp add: d'_def)
  show ?case
  proof (cases "(q, u) = (p, t)")
    case True
    then have qu: "q = p" "u = t" by auto
    from True have "next_count (k_counts d') p t = next_count (k_counts d) p t + 1"
      by (simp add: d'_def keyed_at_count)
    moreover have "fst (keyed_at q u d) = draw_key (k_seed d) p t (next_count (k_counts d) p t)"
      using True by (simp add: keyed_at_def Let_def)
    ultimately show ?thesis
      using True IH by (simp add: run [unfolded v qu] v seed upt_conv_Cons map_Suc_upt [symmetric] comp_def
            del: upt_Suc keyed_run.simps)
  next
    case False
    have none: "filter (\<lambda>w. w = (p, t)) vs = []" if "q = p" "u > t"
      using times(2) that by (auto simp: filter_empty_conv)
    have "next_count (k_counts d') p t = next_count (k_counts d) p t"
      if "filter (\<lambda>w. w = (p, t)) vs \<noteq> []"
    proof -
      from that none False have "q = p \<Longrightarrow> u < t" by (metis linorder_neqE_nat)
      moreover have "q = p \<Longrightarrow> u < t \<Longrightarrow> next_count (k_counts d) p t = 0"
        using Cons.prems(3) times(3) by (fastforce simp: next_count_def split: option.splits)
      ultimately show ?thesis using False by (auto simp: d'_def keyed_at_count)
    qed
    then show ?thesis using False IH by (cases "filter (\<lambda>w. w = (p, t)) vs = []") (auto simp: run [unfolded v] v seed simp del: keyed_run.simps)
  qed
qed

section \<open>Properties\<close>

text \<open>what a keyed draw yields depends only on the seed, its place, its instant and its number
  there. In two runs from one seed whose instants never go back, the draws at one place in one
  instant agree as far as both make them, whatever else either run drew.\<close>

theorem keyed_isolated:
  assumes "sorted (map snd vs)" and "sorted (map snd ws)"
    and "length (filter (\<lambda>v. v = (p, t)) vs) \<le> length (filter (\<lambda>v. v = (p, t)) ws)"
  shows "map snd (filter (\<lambda>(v, _). v = (p, t)) (zip vs (fst (keyed_run vs (keyed_new seed))))) =
    take (length (filter (\<lambda>v. v = (p, t)) vs))
      (map snd (filter (\<lambda>(v, _). v = (p, t)) (zip ws (fst (keyed_run ws (keyed_new seed))))))"
proof -
  have run: "map snd (filter (\<lambda>(v, _). v = (p, t)) (zip us (fst (keyed_run us (keyed_new seed))))) =
      map (draw_key seed p t) [0..<length (filter (\<lambda>v. v = (p, t)) us)]"
    if "sorted (map snd us)" for us
    using keyed_run_at [of us 0 "keyed_new seed" p t] that
    by (simp add: keyed_new_def next_count_def)
  show ?thesis using assms by (simp add: run take_map)
qed

theorem keyed_isolated_witness:
  "let vs = [(1, 2), (3, 5)]; ws = [(3, 5), (2, 5), (3, 5)] in
   map snd (filter (\<lambda>(v, _). v = (3, 5)) (zip vs (fst (keyed_run vs (keyed_new 9))))) =
   take 1 (map snd (filter (\<lambda>(v, _). v = (3, 5)) (zip ws (fst (keyed_run ws (keyed_new 9))))))"
  using keyed_isolated [of "[(1, 2), (3, 5)]" "[(3, 5), (2, 5), (3, 5)]" "3" 5 9]
  by (simp add: Let_def del: keyed_run.simps)

text \<open>Streams split from one seed never coincide: \<open>split\<close> is injective in the stream for each
  seed, and in the seed for each stream.\<close>

theorem split_injective:
  "(split seed stream = split seed stream' \<longleftrightarrow> stream = stream') \<and>
   (split seed stream = split seed' stream \<longleftrightarrow> seed = seed')"
  using split_inj_seed split_inj_stream by metis

end
