(* ===== verification/Sched.thy ===== *)
theory Sched
  imports Draws
begin

text \<open>
  The simulator's clock and cooperative scheduler (\<open>src/sim/sched.rs\<close>): tasks, timers, the seeded
  choice of who runs next, and the end of a run. An operation whose Rust body would index past the
  end of the task table (a panic) answers None.
\<close>

section \<open>State\<close>

datatype wait = WChan nat | WTask nat | WSleep | WNet nat | WStdin nat | WTx int

datatype fire = FTask nat | FDeliver nat | FCheck

text \<open>The derived order of \<open>Fire\<close>: by variant, then by payload.\<close>

fun fire_rank :: "fire \<Rightarrow> nat \<times> nat" where
  "fire_rank (FTask t) = (0, t)"
| "fire_rank (FDeliver i) = (1, i)"
| "fire_rank FCheck = (2, 0)"

lemma fire_rank_inj: "fire_rank x = fire_rank y \<Longrightarrow> x = y"
  by (cases x; cases y) auto

instantiation fire :: linorder
begin

definition less_eq_fire :: "fire \<Rightarrow> fire \<Rightarrow> bool" where
  "less_eq_fire x y \<longleftrightarrow> fire_rank x \<le> fire_rank y"

definition less_fire :: "fire \<Rightarrow> fire \<Rightarrow> bool" where
  "less_fire x y \<longleftrightarrow> fire_rank x < fire_rank y"

instance
  by standard (auto simp: less_eq_fire_def less_fire_def fire_rank_inj)

end

datatype status = Runnable | Blocked wait string "(nat \<times> nat) option" | Done

datatype run_end =
  MainReturned | Deadline | Deadlock "(nat \<times> string) list" | StepLimit | Violated

datatype woke = Ready | TimedOut

datatype pick = Run nat | Deliver nat | Check

fun end_name :: "run_end \<Rightarrow> string" where
  "end_name MainReturned = ''done''"
| "end_name Deadline = ''deadline''"
| "end_name (Deadlock _) = ''deadlock''"
| "end_name StepLimit = ''step_limit''"
| "end_name Violated = ''violated''"

type_synonym timer = "nat \<times> nat \<times> fire"

record sched =
  now :: nat
  deadline :: "nat option"
  max_steps :: nat
  steps :: nat
  status :: "status list"
  timed_out :: "bool list"
  timers :: "timer list"
  timer_seq :: nat
  due :: "nat list"
  draws :: keyed
  check_props :: bool
  checked_steps :: nat
  check_forced :: bool
  preemptions :: nat
  stick :: f64
  stick_draws :: keyed

section \<open>Operations\<close>

definition sched_new :: "u64 \<Rightarrow> sched" where
  "sched_new seed =
     \<lparr>now = 0, deadline = None, max_steps = u64_max, steps = 0,
      status = [Runnable], timed_out = [False], timers = [], timer_seq = 0, due = [],
      draws = keyed_new seed, check_props = False, checked_steps = 0, check_forced = False,
      preemptions = 0, stick = f64_zero, stick_draws = keyed_new (seed XOR 0x005717c4)\<rparr>"

definition set_stick :: "f64 \<Rightarrow> u64 \<Rightarrow> sched \<Rightarrow> sched" where
  "set_stick p seed s =
     s\<lparr>stick := f64_clamp f64_zero f64_one p, stick_draws := keyed_new seed\<rparr>"

text \<open>\<open>BTreeSet::insert\<close> of a timer: the queue stays sorted by (due, order set, what fires).\<close>

definition add_timer :: "nat \<Rightarrow> fire \<Rightarrow> sched \<Rightarrow> sched" where
  "add_timer at f s =
     s\<lparr>timer_seq := timer_seq s + 1,
       timers := insort (max at (now s), timer_seq s + 1, f) (timers s)\<rparr>"

definition check_at :: "nat \<Rightarrow> sched \<Rightarrow> sched" where
  "check_at at s = add_timer at FCheck s"

definition add_task :: "sched \<Rightarrow> nat \<times> sched" where
  "add_task s =
     (length (status s),
      s\<lparr>status := status s @ [Runnable], timed_out := timed_out s @ [False]\<rparr>)"

definition task_count :: "sched \<Rightarrow> nat" where
  "task_count s = length (status s)"

definition is_done :: "sched \<Rightarrow> nat \<Rightarrow> bool" where
  "is_done s t \<longleftrightarrow> t < length (status s) \<and> status s ! t = Done"

definition is_runnable :: "sched \<Rightarrow> nat \<Rightarrow> bool" where
  "is_runnable s t \<longleftrightarrow> t < length (status s) \<and> status s ! t = Runnable"

definition block :: "nat \<Rightarrow> wait \<Rightarrow> string \<Rightarrow> nat option \<Rightarrow> sched \<Rightarrow> sched option" where
  "block t w site until s =
     (if t < length (timed_out s) \<and> t < length (status s)
      then let s' = (case until of None \<Rightarrow> s | Some at \<Rightarrow> add_timer at (FTask t) s);
               key = (case until of None \<Rightarrow> None
                      | Some at \<Rightarrow> Some (max at (now s), timer_seq s + 1))
           in Some (s'\<lparr>timed_out := (timed_out s')[t := False],
                       status := (status s')[t := Blocked w site key]\<rparr>)
      else None)"

text \<open>Task \<open>t\<close>'s timer leaves the queue, when it has one.\<close>

fun cancel :: "nat \<Rightarrow> (nat \<times> nat) option \<Rightarrow> sched \<Rightarrow> sched" where
  "cancel t None s = s"
| "cancel t (Some (at, q)) s = s\<lparr>timers := filter (\<lambda>x. x \<noteq> (at, q, FTask t)) (timers s)\<rparr>"

definition wake_one :: "wait \<Rightarrow> nat \<Rightarrow> sched \<Rightarrow> sched" where
  "wake_one w t s =
     (case status s ! t of
        Blocked w' site timer \<Rightarrow>
          if w' = w
          then let s' = cancel t timer s in s'\<lparr>status := (status s')[t := Runnable]\<rparr>
          else s
      | _ \<Rightarrow> s)"

definition wake :: "wait \<Rightarrow> sched \<Rightarrow> sched" where
  "wake w s = fold (wake_one w) [0..<length (status s)] s"

definition kick :: "nat \<Rightarrow> sched \<Rightarrow> sched" where
  "kick t s =
     (if t < length (status s) then
        (case status s ! t of
           Blocked _ _ timer \<Rightarrow> let s' = cancel t timer s in s'\<lparr>status := (status s')[t := Runnable]\<rparr>
         | _ \<Rightarrow> s)
      else s)"

definition deliver_at :: "nat \<Rightarrow> nat \<Rightarrow> sched \<Rightarrow> sched" where
  "deliver_at at i s = add_timer at (FDeliver i) s"

definition is_deliver :: "timer \<Rightarrow> bool" where
  "is_deliver x = (case x of (_, _, FDeliver _) \<Rightarrow> True | _ \<Rightarrow> False)"

definition in_flight :: "sched \<Rightarrow> nat" where
  "in_flight s = length (filter is_deliver (timers s)) + length (due s)"

definition finish :: "nat \<Rightarrow> sched \<Rightarrow> sched option" where
  "finish t s =
     (if t < length (status s) then
        let s' = (case status s ! t of Blocked _ _ timer \<Rightarrow> cancel t timer s | _ \<Rightarrow> s);
            s'' = s'\<lparr>status := (status s')[t := Done]\<rparr>
        in Some (wake (WTask t) s'')
      else None)"

definition woke_task :: "nat \<Rightarrow> sched \<Rightarrow> (woke \<times> sched) option" where
  "woke_task t s =
     (if t < length (timed_out s)
      then Some (if timed_out s ! t then TimedOut else Ready, s\<lparr>timed_out := (timed_out s)[t := False]\<rparr>)
      else None)"

definition site_of :: "sched \<Rightarrow> nat \<Rightarrow> (nat \<times> string) option" where
  "site_of s t = (case status s ! t of Blocked _ site _ \<Rightarrow> Some (t, site) | _ \<Rightarrow> None)"

definition blocked_sites :: "sched \<Rightarrow> (nat \<times> string) list" where
  "blocked_sites s = List.map_filter (site_of s) [0..<length (status s)]"

section \<open>One turn of the scheduler\<close>

definition check_due :: "sched \<Rightarrow> bool \<times> sched" where
  "check_due s =
     (if check_props s \<and> (steps s \<noteq> checked_steps s \<or> check_forced s)
      then (True, s\<lparr>checked_steps := steps s, check_forced := False\<rparr>)
      else (False, s))"

text \<open>What a timer does when it fires. The task of a timer is always in the table
  (\<open>sched_inv\<close>).\<close>

fun fire_one :: "fire \<Rightarrow> sched \<Rightarrow> sched" where
  "fire_one (FTask t) s =
     s\<lparr>status := (status s)[t := Runnable], timed_out := (timed_out s)[t := True]\<rparr>"
| "fire_one (FDeliver i) s = s\<lparr>due := due s @ [i]\<rparr>"
| "fire_one FCheck s = s\<lparr>check_forced := True\<rparr>"

text \<open>\<open>fire_due\<close> is the inner \<open>while let\<close>: every timer due now fires, in the order of the queue.\<close>

lemma fire_one_fields [simp]:
  "timers (fire_one f s) = timers s" "now (fire_one f s) = now s"
  "length (status (fire_one f s)) = length (status s)"
  "length (timed_out (fire_one f s)) = length (timed_out s)"
  "timer_seq (fire_one f s) = timer_seq s"
  by (cases f; simp)+

function fire_due :: "sched \<Rightarrow> sched" where
  "fire_due s =
     (case timers s of
        [] \<Rightarrow> s
      | (d, q, f) # ts \<Rightarrow> if d > now s then s else fire_due (fire_one f (s\<lparr>timers := ts\<rparr>)))"
  by pat_completeness auto
termination
  by (relation "measure (\<lambda>s. length (timers s))") auto

declare fire_due.simps [simp del]

definition runnable_tasks :: "sched \<Rightarrow> nat list" where
  "runnable_tasks s = filter (is_runnable s) [0..<length (status s)]"

text \<open>The draw among several runnable tasks; \<open>prev\<close> is the task giving up the baton.\<close>

definition choose_task :: "rand_lib \<Rightarrow> nat \<Rightarrow> sched \<Rightarrow> nat \<times> sched" where
  "choose_task R prev s =
     (let rs = runnable_tasks s;
          prev_runs = is_runnable s prev;
          (keep, s1) =
            (if prev_runs \<and> f64_lt f64_zero (stick s) then
               (if f64_le f64_one (stick s) then (True, s)
                else (let (m, d) = keyed_at 0 (now s) (stick_draws s)
                      in (f64_lt (fst (gen_f64 R m)) (stick s), s\<lparr>stick_draws := d\<rparr>)))
             else (False, s))
      in if keep then (prev, s1)
         else let (m, d) = keyed_at 0 (now s1) (draws s1);
                  chosen = rs ! fst (gen_index R (length rs) m);
                  s2 = s1\<lparr>draws := d\<rparr>
              in (chosen, if prev_runs \<and> chosen \<noteq> prev
                          then s2\<lparr>preemptions := preemptions s2 + 1\<rparr> else s2))"

lemma fire_due_timers_le: "length (timers (fire_due s)) \<le> length (timers s)"
proof (induction s rule: fire_due.induct)
  case (1 s)
  then show ?case
    by (subst fire_due.simps) (force split: list.splits dest: less_imp_le)
qed

lemma check_due_timers [simp]: "timers (snd (check_due s)) = timers s"
  by (simp add: check_due_def)

lemma fire_due_shrinks:
  assumes "timers s = (at, q, f) # ts" and "at \<le> now s"
  shows "length (timers (fire_due s)) < length (timers s)"
proof -
  have "fire_due s = fire_due (fire_one f (s\<lparr>timers := ts\<rparr>))"
    using assms by (subst fire_due.simps) simp
  moreover have "length (timers (fire_due (fire_one f (s\<lparr>timers := ts\<rparr>)))) \<le> length ts"
    using fire_due_timers_le [of "fire_one f (s\<lparr>timers := ts\<rparr>)"] by simp
  ultimately show ?thesis using assms(1) by simp
qed

text \<open>The loop of \<open>next\<close>: each turn that does not answer fires at least one timer.\<close>

function next_loop :: "rand_lib \<Rightarrow> nat \<Rightarrow> sched \<Rightarrow> (run_end + pick) \<times> sched" where
  "next_loop R prev s =
     (case due s of
        i # rest \<Rightarrow> (Inr (Deliver i), s\<lparr>due := rest\<rparr>)
      | [] \<Rightarrow>
          (case runnable_tasks s of
             [only] \<Rightarrow> (Inr (Run only), s)
           | _ # _ \<Rightarrow> (let (t, s') = choose_task R prev s in (Inr (Run t), s'))
           | [] \<Rightarrow>
               if fst (check_due s) then (Inr Check, snd (check_due s))
               else
                 (case timers s of
                    [] \<Rightarrow> (Inl (Deadlock (blocked_sites s)), s)
                  | (at, _, _) # _ \<Rightarrow>
                      (case deadline s of
                         Some d \<Rightarrow>
                           if at > d then (Inl Deadline, s\<lparr>now := max (now s) d\<rparr>)
                           else next_loop R prev (fire_due (s\<lparr>now := max (now s) at\<rparr>))
                       | None \<Rightarrow> next_loop R prev (fire_due (s\<lparr>now := max (now s) at\<rparr>))))))"
  by pat_completeness auto
termination
proof (relation "measure (\<lambda>(R, prev, s). length (timers s))", goal_cases)
  case 1
  show ?case by simp
next
  case (2 R prev s x xs y)
  then show ?case
    using fire_due_shrinks [of "s\<lparr>now := max (now s) (fst x)\<rparr>"] by (auto split: prod.splits)
next
  case (3 R prev s x xs y)
  then show ?case
    using fire_due_shrinks [of "s\<lparr>now := max (now s) (fst x)\<rparr>"] by (auto split: prod.splits)
qed

declare next_loop.simps [simp del]

definition sched_next :: "rand_lib \<Rightarrow> bool \<Rightarrow> nat \<Rightarrow> sched \<Rightarrow> (run_end + pick) \<times> sched" where
  "sched_next R counted prev s =
     (let s' = (if counted then s\<lparr>steps := steps s + 1\<rparr> else s)
      in if counted \<and> steps s' > max_steps s' then (Inl StepLimit, s')
         else next_loop R prev s')"

section \<open>The turn as steps that advance the clock, then an answer\<close>

text \<open>
  \<open>next_loop\<close> advances the clock while nothing can happen at this instant (\<open>idle_step\<close>) and then
  gives the \<open>answer\<close> of the state it stopped in.
\<close>

inductive idle_step :: "sched \<Rightarrow> sched \<Rightarrow> bool" where
  idle: "due s = [] \<Longrightarrow> runnable_tasks s = [] \<Longrightarrow> \<not> fst (check_due s) \<Longrightarrow>
    timers s = (at, q, f) # ts \<Longrightarrow> (\<And>d. deadline s = Some d \<Longrightarrow> at \<le> d) \<Longrightarrow>
    idle_step s (fire_due (s\<lparr>now := max (now s) at\<rparr>))"

definition answer :: "rand_lib \<Rightarrow> nat \<Rightarrow> sched \<Rightarrow> ((run_end + pick) \<times> sched) option" where
  "answer R prev s =
     (case due s of
        i # rest \<Rightarrow> Some (Inr (Deliver i), s\<lparr>due := rest\<rparr>)
      | [] \<Rightarrow>
          (case runnable_tasks s of
             [only] \<Rightarrow> Some (Inr (Run only), s)
           | _ # _ \<Rightarrow> (let (t, s') = choose_task R prev s in Some (Inr (Run t), s'))
           | [] \<Rightarrow>
               if fst (check_due s) then Some (Inr Check, snd (check_due s))
               else
                 (case timers s of
                    [] \<Rightarrow> Some (Inl (Deadlock (blocked_sites s)), s)
                  | (at, _, _) # _ \<Rightarrow>
                      (case deadline s of
                         Some d \<Rightarrow>
                           if at > d then Some (Inl Deadline, s\<lparr>now := max (now s) d\<rparr>) else None
                       | None \<Rightarrow> None))))"

lemma next_loop_answer:
  "answer R prev s = Some r \<Longrightarrow> next_loop R prev s = r"
  by (subst next_loop.simps)
     (auto simp: answer_def Let_def split: list.splits if_splits prod.splits option.splits)

lemma next_loop_idle:
  assumes "idle_step s u" shows "next_loop R prev s = next_loop R prev u"
  using assms
  by (cases; subst next_loop.simps) (auto split: option.splits simp: not_less)

lemma answer_or_idle: "(\<exists>r. answer R prev s = Some r) \<or> (\<exists>u. idle_step s u)"
proof (cases "answer R prev s")
  case None
  then obtain at q f ts where "due s = []" "runnable_tasks s = []" "\<not> fst (check_due s)"
    "timers s = (at, q, f) # ts" "\<forall>d. deadline s = Some d \<longrightarrow> at \<le> d"
    by (auto simp: answer_def Let_def split: list.splits if_splits prod.splits option.splits)
  then show ?thesis using idle_step.intros by blast
qed auto

lemma idle_step_shrinks: "idle_step s u \<Longrightarrow> length (timers u) < length (timers s)"
  using fire_due_shrinks [of "s\<lparr>now := max (now s) x\<rparr>" for x] by (fastforce elim: idle_step.cases)

lemma next_loop_reach:
  "\<exists>u. idle_step\<^sup>*\<^sup>* s u \<and> answer R prev u = Some (next_loop R prev s)"
proof (induction s rule: measure_induct_rule [of "\<lambda>s. length (timers s)"])
  case (less s)
  show ?case
  proof (cases "\<exists>u. idle_step s u \<and> answer R prev s = None")
    case True
    then obtain u where u: "idle_step s u" by blast
    from less [OF idle_step_shrinks [OF u]] obtain v
      where "idle_step\<^sup>*\<^sup>* u v" "answer R prev v = Some (next_loop R prev u)" by blast
    with u show ?thesis
      by (metis converse_rtranclp_into_rtranclp next_loop_idle)
  next
    case False
    then obtain r where "answer R prev s = Some r"
      using answer_or_idle [of R prev s] by (cases "answer R prev s") auto
    then show ?thesis using next_loop_answer by blast
  qed
qed

section \<open>The invariant\<close>

definition timer_of :: "sched \<Rightarrow> nat \<Rightarrow> (nat \<times> nat) option" where
  "timer_of s t =
     (if t < length (status s)
      then (case status s ! t of Blocked _ _ timer \<Rightarrow> timer | _ \<Rightarrow> None) else None)"

definition seqs :: "timer list \<Rightarrow> nat list" where
  "seqs ts = map (\<lambda>x. fst (snd x)) ts"

text \<open>
  The timer queue is sorted, each timer was set with its own number, none is due before the present
  instant, and the timers of tasks are exactly those the blocked tasks hold.
\<close>

definition sched_inv :: "sched \<Rightarrow> bool" where
  "sched_inv s \<longleftrightarrow>
     length (timed_out s) = length (status s) \<and>
     sorted (timers s) \<and> distinct (seqs (timers s)) \<and>
     (\<forall>(d, q, f) \<in> set (timers s). now s \<le> d \<and> q \<le> timer_seq s) \<and>
     (\<forall>t d q. (d, q, FTask t) \<in> set (timers s) \<longleftrightarrow> timer_of s t = Some (d, q))"

lemma sched_invD:
  assumes "sched_inv s"
  shows "length (timed_out s) = length (status s)" "sorted (timers s)" "distinct (seqs (timers s))"
    "(d, q, f) \<in> set (timers s) \<Longrightarrow> now s \<le> d" "(d, q, f) \<in> set (timers s) \<Longrightarrow> q \<le> timer_seq s"
    "(d, q, FTask t) \<in> set (timers s) \<longleftrightarrow> timer_of s t = Some (d, q)"
  using assms by (auto simp: sched_inv_def)

lemma sched_invI:
  assumes "length (timed_out s) = length (status s)" "sorted (timers s)" "distinct (seqs (timers s))"
    "\<And>d q f. (d, q, f) \<in> set (timers s) \<Longrightarrow> now s \<le> d \<and> q \<le> timer_seq s"
    "\<And>t d q. (d, q, FTask t) \<in> set (timers s) \<longleftrightarrow> timer_of s t = Some (d, q)"
  shows "sched_inv s"
  using assms by (auto simp: sched_inv_def)

lemma timer_of_cong:
  "status s' = status s \<Longrightarrow> timer_of s' = timer_of s"
  by (simp add: timer_of_def fun_eq_iff)

lemma timer_of_update:
  "t < length (status s) \<Longrightarrow> timer_of (s\<lparr>status := (status s)[t := x]\<rparr>) t' =
    (if t' = t then (case x of Blocked _ _ timer \<Rightarrow> timer | _ \<Rightarrow> None) else timer_of s t')"
  by (auto simp: timer_of_def nth_list_update)

text \<open>Fields the invariant does not speak of may change freely.\<close>

lemma sched_inv_cong:
  assumes "sched_inv s" and "length (timed_out s') = length (timed_out s)"
    and "status s' = status s" and "timers s' = timers s" and "timer_seq s' = timer_seq s"
    and "now s' = now s"
  shows "sched_inv s'"
  using assms timer_of_cong [OF assms(3)] by (simp add: sched_inv_def)

lemma insort_seqs: "set (seqs (insort x ts)) = insert (fst (snd x)) (set (seqs ts))"
  by (auto simp: seqs_def set_insort_key)

lemma distinct_seqs_insort:
  "distinct (seqs ts) \<Longrightarrow> fst (snd x) \<notin> set (seqs ts) \<Longrightarrow> distinct (seqs (insort x ts))"
proof (induction ts)
  case (Cons y ts)
  then show ?case using insort_seqs [of x ts] by (auto simp: seqs_def)
qed (simp add: seqs_def)

lemma seqs_bound: "sched_inv s \<Longrightarrow> q \<in> set (seqs (timers s)) \<Longrightarrow> q \<le> timer_seq s"
  by (auto simp: seqs_def dest: sched_invD(5))

lemma add_timer_fields [simp, frame_simps]:
  "status (add_timer at f s) = status s" "timed_out (add_timer at f s) = timed_out s"
  "now (add_timer at f s) = now s" "due (add_timer at f s) = due s"
  "timer_seq (add_timer at f s) = timer_seq s + 1"
  "set (timers (add_timer at f s)) = insert (max at (now s), timer_seq s + 1, f) (set (timers s))"
  by (simp_all add: add_timer_def set_insort_key)

lemma add_timer_queue:
  assumes "sched_inv s"
  shows "sorted (timers (add_timer at f s))" "distinct (seqs (timers (add_timer at f s)))"
  using assms sched_invD(2,3) seqs_bound [OF assms, of "timer_seq s + 1"]
  by (auto simp: add_timer_def sorted_insort intro!: distinct_seqs_insort)

lemma add_timer_bounds:
  assumes "sched_inv s" and "(d, q, g) \<in> set (timers (add_timer at f s))"
  shows "now s \<le> d \<and> q \<le> timer_seq s + 1"
  using assms sched_invD(4,5) [OF assms(1)] by (auto intro: le_SucI)

lemma add_timer_inv:
  assumes inv: "sched_inv s" and f: "\<And>t. f \<noteq> FTask t"
  shows "sched_inv (add_timer at f s)"
proof (rule sched_invI)
  show "length (timed_out (add_timer at f s)) = length (status (add_timer at f s))"
    by (simp add: sched_invD(1) [OF inv])
  show "sorted (timers (add_timer at f s))" "distinct (seqs (timers (add_timer at f s)))"
    by (rule add_timer_queue [OF inv])+
  show "(d, q, FTask t) \<in> set (timers (add_timer at f s)) \<longleftrightarrow>
      timer_of (add_timer at f s) t = Some (d, q)" for d q t
    using f [of t] sched_invD(6) [OF inv] timer_of_cong [of "add_timer at f s" s] by auto
qed (use add_timer_bounds [OF inv] in simp)

text \<open>Taking a task out of its block: its timer goes, its status changes.\<close>

definition release :: "nat \<Rightarrow> status \<Rightarrow> sched \<Rightarrow> sched" where
  "release t x s =
     (let s' = cancel t (timer_of s t) s in s'\<lparr>status := (status s')[t := x]\<rparr>)"

lemma cancel_fields [simp, frame_simps]:
  "status (cancel t k s) = status s" "timed_out (cancel t k s) = timed_out s"
  "now (cancel t k s) = now s" "due (cancel t k s) = due s"
  "timer_seq (cancel t k s) = timer_seq s" "deadline (cancel t k s) = deadline s"
  by (cases "(t, k, s)" rule: cancel.cases; simp)+

lemma cancel_timers: "set (timers (cancel t k s)) =
    set (timers s) - (case k of None \<Rightarrow> {} | Some (at, q) \<Rightarrow> {(at, q, FTask t)})"
  by (cases k) (auto split: prod.splits)

lemma distinct_seqs_filter: "distinct (seqs ts) \<Longrightarrow> distinct (seqs (filter P ts))"
  by (simp add: seqs_def distinct_map_filter)

lemma cancel_queue:
  "sorted (timers s) \<Longrightarrow> sorted (timers (cancel t k s))"
  "distinct (seqs (timers s)) \<Longrightarrow> distinct (seqs (timers (cancel t k s)))"
  by (cases "(t, k, s)" rule: cancel.cases; simp add: sorted_wrt_filter distinct_seqs_filter)+

lemma release_inv:
  assumes inv: "sched_inv s" and t: "t < length (status s)"
    and x: "\<And>w site timer. x \<noteq> Blocked w site timer"
  shows "sched_inv (release t x s)"
proof -
  let ?c = "cancel t (timer_of s t) s"
  have gone: "(d, q, FTask t') \<in> set (timers ?c) \<longleftrightarrow> t' \<noteq> t \<and> timer_of s t' = Some (d, q)"
    for d q t'
    using sched_invD(6) [OF inv]
    by (cases "timer_of s t") (auto simp: cancel_timers split: prod.splits)
  have kept: "timer_of (release t x s) t' = (if t' = t then None else timer_of s t')" for t'
    using t x by (cases x) (auto simp: timer_of_def release_def Let_def nth_list_update)
  have timers: "timers (release t x s) = timers ?c" by (simp add: release_def Let_def)
  show ?thesis
  proof (rule sched_invI)
    show "length (timed_out (release t x s)) = length (status (release t x s))"
      by (simp add: release_def Let_def sched_invD(1) [OF inv])
    show "sorted (timers (release t x s))" "distinct (seqs (timers (release t x s)))"
      using cancel_queue [of s t "timer_of s t"] sched_invD(2,3) [OF inv] by (simp_all add: timers)
    show "now (release t x s) \<le> d \<and> q \<le> timer_seq (release t x s)"
      if "(d, q, f) \<in> set (timers (release t x s))" for d q f
    proof -
      from that have "(d, q, f) \<in> set (timers s)" by (simp add: timers cancel_timers)
      then show ?thesis using sched_invD(4,5) [OF inv] by (simp add: release_def Let_def)
    qed
    show "(d, q, FTask t') \<in> set (timers (release t x s)) \<longleftrightarrow>
        timer_of (release t x s) t' = Some (d, q)" for d q t'
      by (simp add: timers gone kept)
  qed
qed

lemma release_fields [simp, frame_simps]:
  "length (status (release t x s)) = length (status s)" "now (release t x s) = now s"
  "due (release t x s) = due s" "timed_out (release t x s) = timed_out s"
  by (simp_all add: release_def Let_def)

lemma release_status: "t < length (status s) \<Longrightarrow> status (release t x s) ! t' =
    (if t' = t then x else status s ! t')"
  by (simp add: release_def Let_def nth_list_update)

lemma wake_one_release:
  "t < length (status s) \<Longrightarrow> wake_one w t s =
     (case status s ! t of Blocked w' _ _ \<Rightarrow> if w' = w then release t Runnable s else s | _ \<Rightarrow> s)"
  by (auto simp: wake_one_def release_def timer_of_def split: status.splits)

lemma wake_one_inv: "sched_inv s \<Longrightarrow> t < length (status s) \<Longrightarrow> sched_inv (wake_one w t s)"
  by (auto simp: wake_one_release intro: release_inv split: status.splits)

lemma wake_one_fields [simp, frame_simps]:
  "length (status (wake_one w t s)) = length (status s)" "now (wake_one w t s) = now s"
  "due (wake_one w t s) = due s" "timed_out (wake_one w t s) = timed_out s"
  by (auto simp: wake_one_def Let_def split: status.splits)

text \<open>What \<open>wake\<close> makes of a task's status.\<close>

definition woken :: "wait \<Rightarrow> status \<Rightarrow> status" where
  "woken w x = (case x of Blocked w' _ _ \<Rightarrow> if w' = w then Runnable else x | _ \<Rightarrow> x)"

lemma wake_one_status:
  "t < length (status s) \<Longrightarrow> status (wake_one w t s) ! t' =
    (if t' = t then woken w (status s ! t) else status s ! t')"
  by (auto simp: wake_one_release release_status woken_def split: status.splits)

lemma fold_wake:
  assumes "sched_inv s" and "\<forall>t \<in> set ts. t < length (status s)" and "distinct ts"
  shows "sched_inv (fold (wake_one w) ts s)" and "now (fold (wake_one w) ts s) = now s"
    and "due (fold (wake_one w) ts s) = due s"
    and "length (status (fold (wake_one w) ts s)) = length (status s)"
    and "timed_out (fold (wake_one w) ts s) = timed_out s"
    and "t' < length (status s) \<Longrightarrow> status (fold (wake_one w) ts s) ! t' =
      (if t' \<in> set ts then woken w (status s ! t') else status s ! t')"
  using assms
  by (induction ts arbitrary: s) (simp_all add: wake_one_status wake_one_inv)

lemma wake_inv: "sched_inv s \<Longrightarrow> sched_inv (wake w s)"
  unfolding wake_def by (rule fold_wake(1)) auto

lemma wake_fields [simp, frame_simps]:
  assumes "sched_inv s"
  shows "now (wake w s) = now s" "due (wake w s) = due s"
    "length (status (wake w s)) = length (status s)" "timed_out (wake w s) = timed_out s"
  unfolding wake_def using fold_wake(2-5) [OF assms, of "[0..<length (status s)]" w] by auto

lemma wake_status:
  "sched_inv s \<Longrightarrow> t < length (status s) \<Longrightarrow> status (wake w s) ! t = woken w (status s ! t)"
  unfolding wake_def using fold_wake(6) [of s "[0..<length (status s)]" t w] by auto

section \<open>Timers firing\<close>

lemma sched_inv_tick:
  assumes inv: "sched_inv s" and "\<And>d q f. (d, q, f) \<in> set (timers s) \<Longrightarrow> n \<le> d"
  shows "sched_inv (s\<lparr>now := n\<rparr>)"
proof -
  have "timer_of (s\<lparr>now := n\<rparr>) = timer_of s" by (rule timer_of_cong) simp
  with assms show ?thesis by (auto simp: sched_inv_def)
qed

lemma sorted_timers_head:
  assumes "sorted ((at, q, f) # ts)" and "(d, r, g) \<in> set ((at, q, f) # ts)"
  shows "at \<le> d"
  using assms by (auto simp: less_eq_prod_def)

lemma sched_inv_head:
  "sched_inv s \<Longrightarrow> timers s = (at, q, f) # ts \<Longrightarrow> (d, r, g) \<in> set (timers s) \<Longrightarrow> at \<le> d"
  using sched_invD(2) [of s] sorted_timers_head [of at q f ts d r g] by metis

lemma fire_pop_inv:
  assumes inv: "sched_inv s" and head: "timers s = (at, q, f) # ts"
  shows "sched_inv (fire_one f (s\<lparr>timers := ts\<rparr>))"
proof (rule sched_invI)
  let ?u = "fire_one f (s\<lparr>timers := ts\<rparr>)"
  show "length (timed_out ?u) = length (status ?u)" using sched_invD(1) [OF inv] by simp
  show "sorted (timers ?u)" using sched_invD(2) [OF inv] head by simp
  show "distinct (seqs (timers ?u))" using sched_invD(3) [OF inv] head by (simp add: seqs_def)
  show "now ?u \<le> d \<and> r \<le> timer_seq ?u" if "(d, r, g) \<in> set (timers ?u)" for d r g
    using that sched_invD(4,5) [OF inv, of d r g] head by simp
  have fresh: "(d, q, g) \<notin> set ts" for d g
    using sched_invD(3) [OF inv] head by (force simp: seqs_def image_iff)
  have own: "timer_of s t = Some (d, r) \<longleftrightarrow> (d, r, FTask t) = (at, q, f) \<or> (d, r, FTask t) \<in> set ts"
    for d r t
    using sched_invD(6) [OF inv, of d r t] head by auto
  have len: "t < length (status s)" if "timer_of s t \<noteq> None" for t
    using that by (auto simp: timer_of_def split: if_splits)
  show "(d, r, FTask t) \<in> set (timers ?u) \<longleftrightarrow> timer_of ?u t = Some (d, r)" for d r t
  proof (cases f)
    case (FTask t0)
    have t0: "timer_of s t0 = Some (at, q)" using own [of t0 at q] FTask by blast
    then have "t0 < length (status s)" using len by blast
    then have upd: "timer_of ?u t = (if t = t0 then None else timer_of s t)"
      unfolding FTask by (auto simp: timer_of_def nth_list_update)
    have "(d, r, FTask t0) \<notin> set ts"
    proof
      assume "(d, r, FTask t0) \<in> set ts"
      then have "timer_of s t0 = Some (d, r)" using own by blast
      with t0 have "d = at" "r = q" by simp_all
      with \<open>(d, r, FTask t0) \<in> set ts\<close> fresh show False by simp
    qed
    then show ?thesis using own [of t d r] upd unfolding FTask by (cases "t = t0") auto
  next
    case (FDeliver i)
    then have "timer_of ?u = timer_of s" by (simp add: timer_of_def fun_eq_iff)
    then show ?thesis using own [of t d r] FDeliver by simp
  next
    case FCheck
    then have "timer_of ?u = timer_of s" by (simp add: timer_of_def fun_eq_iff)
    then show ?thesis using own [of t d r] FCheck by simp
  qed
qed

text \<open>After \<open>fire_due\<close> every timer left is in the future, and a task it touched is runnable.\<close>

lemma fire_due_spec:
  assumes "sched_inv s"
  shows "sched_inv (fire_due s) \<and> now (fire_due s) = now s \<and>
    length (status (fire_due s)) = length (status s) \<and> deadline (fire_due s) = deadline s \<and>
    (\<forall>(d, q, f) \<in> set (timers (fire_due s)). now s < d) \<and>
    set (timers (fire_due s)) \<subseteq> set (timers s) \<and>
    (\<forall>t < length (status s). status (fire_due s) ! t =
       (if \<exists>d q. timer_of s t = Some (d, q) \<and> d \<le> now s then Runnable else status s ! t))"
  using assms
proof (induction s rule: fire_due.induct)
  case (1 s)
  show ?case
  proof (cases "\<exists>at q f ts. timers s = (at, q, f) # ts \<and> at \<le> now s")
    case True
    then obtain at q f ts where head: "timers s = (at, q, f) # ts" "at \<le> now s" by blast
    let ?u = "fire_one f (s\<lparr>timers := ts\<rparr>)"
    have step: "fire_due s = fire_due ?u" using head by (subst fire_due.simps) simp
    have inv: "sched_inv ?u" using fire_pop_inv [OF "1.prems" head(1)] .
    note IH = "1.IH" [OF head(1) refl refl _ inv]
    have status: "status ?u ! t = (if f = FTask t then Runnable else status s ! t)"
      if "t < length (status s)" for t
      using that by (cases f) (auto simp: nth_list_update)
    have timer: "timer_of ?u t = (if f = FTask t then None else timer_of s t)"
      if "t < length (status s)" for t
      using that status [OF that] by (simp add: timer_of_def)
    have own: "timer_of s t = Some (at, q)" if "f = FTask t" for t
      using sched_invD(6) [OF "1.prems", of at q t] head(1) that by simp
    have dl: "deadline ?u = deadline s" by (cases f) simp_all
    show ?thesis
      using IH head status timer own dl unfolding step by (auto simp: not_less)
  next
    case False
    then have stop: "fire_due s = s"
      by (subst fire_due.simps) (auto split: list.splits simp: not_less)
    have future: "now s < d" if "(d, q, f) \<in> set (timers s)" for d q f
    proof (cases "timers s")
      case (Cons x ts)
      then obtain at r g where x: "timers s = (at, r, g) # ts" by (cases x) auto
      with False have "now s < at" by (auto simp: not_le)
      with sched_inv_head [OF "1.prems" x that] show ?thesis by simp
    qed (use that in simp)
    have "\<not> d \<le> now s" if "timer_of s t = Some (d, q)" for t d q
      using future sched_invD(6) [OF "1.prems", of d q t] that by (auto simp: not_le)
    then show ?thesis using "1.prems" future stop by auto
  qed
qed

text \<open>One advance of the clock.\<close>

lemma idle_step_spec:
  assumes "idle_step s u" and inv: "sched_inv s"
  shows "sched_inv u" and "now s \<le> now u" and "length (status u) = length (status s)"
    and "deadline u = deadline s" and "\<And>d. deadline s = Some d \<Longrightarrow> now s \<le> d \<Longrightarrow> now u \<le> d"
    and "set (timers u) \<subseteq> set (timers s)"
    and "t < length (status s) \<Longrightarrow> status u ! t = status s ! t \<or>
           (status u ! t = Runnable \<and> (\<exists>d q. timer_of s t = Some (d, q) \<and> d \<le> now u))"
    and "\<not> is_runnable s t'" and "due s = []" and "check_props s \<Longrightarrow> check_props u"
proof -
  from assms(1) obtain at q f ts where due: "due s = []" and none: "runnable_tasks s = []"
    and head: "timers s = (at, q, f) # ts" and dl: "\<And>d. deadline s = Some d \<Longrightarrow> at \<le> d"
    and u: "u = fire_due (s\<lparr>now := max (now s) at\<rparr>)"
    by cases blast
  have "now s \<le> at" using sched_invD(4) [OF inv, of at q f] head by simp
  then have at: "max (now s) at = at" by simp
  let ?s = "s\<lparr>now := at\<rparr>"
  have inv': "sched_inv ?s" using inv sched_inv_head [OF inv head] by (rule sched_inv_tick)
  note spec = fire_due_spec [OF inv']
  have timer: "timer_of ?s = timer_of s" by (rule timer_of_cong) simp
  show "sched_inv u" using spec u at by simp
  show "now s \<le> now u" using spec u at \<open>now s \<le> at\<close> by simp
  show "length (status u) = length (status s)" using spec u at by simp
  show "deadline u = deadline s" using spec u at by simp
  show "\<And>d. deadline s = Some d \<Longrightarrow> now s \<le> d \<Longrightarrow> now u \<le> d" using spec u at dl by simp
  show "set (timers u) \<subseteq> set (timers s)" using spec u at by simp
  show "t < length (status s) \<Longrightarrow> status u ! t = status s ! t \<or>
      (status u ! t = Runnable \<and> (\<exists>d q. timer_of s t = Some (d, q) \<and> d \<le> now u))"
    using spec u at timer by auto
  show "\<not> is_runnable s t'"
    using none by (auto simp: runnable_tasks_def filter_empty_conv is_runnable_def)
  show "due s = []" by (rule due)
  have "check_props (fire_one f s) = check_props s" for f s by (cases f) simp_all
  then have "check_props (fire_due s) = check_props s" for s
    by (induction s rule: fire_due.induct) (subst fire_due.simps, auto split: list.splits)
  then show "check_props s \<Longrightarrow> check_props u" using u by simp
qed

lemma idle_steps_spec:
  assumes "idle_step\<^sup>*\<^sup>* s u" and "sched_inv s"
  shows "sched_inv u \<and> now s \<le> now u \<and> length (status u) = length (status s) \<and>
    deadline u = deadline s \<and> (\<forall>d. deadline s = Some d \<longrightarrow> now s \<le> d \<longrightarrow> now u \<le> d) \<and>
    (\<forall>t < length (status s). status u ! t = status s ! t \<or>
       (status u ! t = Runnable \<and> (\<exists>d q. timer_of s t = Some (d, q) \<and> d \<le> now u))) \<and>
    (u \<noteq> s \<longrightarrow> due s = [] \<and> (\<forall>t. \<not> is_runnable s t))"
  using assms
proof (induction rule: rtranclp_induct)
  case base
  then show ?case by simp
next
  case (step u v)
  then have IH: "sched_inv u" "now s \<le> now u" "length (status u) = length (status s)"
    "deadline u = deadline s" "\<forall>d. deadline s = Some d \<longrightarrow> now s \<le> d \<longrightarrow> now u \<le> d"
    "\<forall>t < length (status s). status u ! t = status s ! t \<or>
       (status u ! t = Runnable \<and> (\<exists>d q. timer_of s t = Some (d, q) \<and> d \<le> now u))"
    "u \<noteq> s \<longrightarrow> due s = [] \<and> (\<forall>t. \<not> is_runnable s t)" by auto
  note spec = idle_step_spec [OF step.hyps(2) IH(1)]
  have status: "status v ! t = status s ! t \<or>
      (status v ! t = Runnable \<and> (\<exists>d q. timer_of s t = Some (d, q) \<and> d \<le> now v))"
    if t: "t < length (status s)" for t
  proof -
    have tu: "t < length (status u)" using t IH(3) by simp
    have "\<not> is_runnable u t" by (rule spec(8))
    then have "status u ! t \<noteq> Runnable" using tu by (simp add: is_runnable_def)
    then have same: "status u ! t = status s ! t" using IH(6) t by blast
    then have "timer_of u t = timer_of s t" using t tu by (simp add: timer_of_def)
    then show ?thesis using spec(7) [OF tu] same by auto
  qed
  have "due s = [] \<and> (\<forall>t. \<not> is_runnable s t)"
    using IH(7) spec(8,9) by (cases "u = s") auto
  then show ?case using IH spec status by auto
qed

section \<open>What a turn answers\<close>

lemma runnable_tasks_iff: "t \<in> set (runnable_tasks s) \<longleftrightarrow> is_runnable s t"
  by (auto simp: runnable_tasks_def is_runnable_def)

lemma choose_task_frame:
  "status (snd (choose_task R prev s)) = status s" "now (snd (choose_task R prev s)) = now s"
  "timers (snd (choose_task R prev s)) = timers s" "due (snd (choose_task R prev s)) = due s"
  "timed_out (snd (choose_task R prev s)) = timed_out s"
  "timer_seq (snd (choose_task R prev s)) = timer_seq s"
  by (simp_all add: choose_task_def Let_def case_prod_unfold)

lemma choose_task_runnable:
  assumes "rand_in_range R" and "runnable_tasks s \<noteq> []"
  shows "is_runnable s (fst (choose_task R prev s))"
proof -
  have pick: "is_runnable s (runnable_tasks s ! fst (gen_index R (length (runnable_tasks s)) m))" for m
  proof -
    have "fst (gen_index R (length (runnable_tasks s)) m) < length (runnable_tasks s)"
      using assms by (simp add: rand_in_range_def)
    then show ?thesis using runnable_tasks_iff nth_mem by blast
  qed
  then show ?thesis
    by (simp add: choose_task_def Let_def case_prod_unfold)
qed

lemma is_runnable_cong: "status s' = status s \<Longrightarrow> is_runnable s' = is_runnable s"
  by (simp add: is_runnable_def fun_eq_iff)

lemma answer_inv:
  assumes "answer R prev u = Some (r, s')" and "sched_inv u"
  shows "sched_inv s'" and "status s' = status u"
    and "now s' = now u \<or> (r = Inl Deadline \<and> (\<exists>d. deadline u = Some d \<and> now s' = max (now u) d))"
proof -
  have clock: "sched_inv (u\<lparr>now := max (now u) d\<rparr>)"
    if "timers u = (at, q, f) # ts" "d < at" for at q f ts d
  proof (rule sched_inv_tick [OF assms(2)])
    fix e r g assume e: "(e, r, g) \<in> set (timers u)"
    have "at \<le> e" by (rule sched_inv_head [OF assms(2) that(1) e])
    with sched_invD(4) [OF assms(2) e] that(2) show "max (now u) d \<le> e" by simp
  qed
  have frame: "sched_inv (snd (choose_task R prev u))"
    by (rule sched_inv_cong [OF assms(2)]) (simp_all add: choose_task_frame)
  show "sched_inv s'"
    using assms clock frame
    by (auto simp: answer_def check_due_def Let_def intro: sched_inv_cong
        split: list.splits if_splits prod.splits option.splits)
  show "status s' = status u"
    using assms choose_task_frame(1) [of R prev u]
    by (auto simp: answer_def check_due_def Let_def
        split: list.splits if_splits prod.splits option.splits)
  show "now s' = now u \<or> (r = Inl Deadline \<and> (\<exists>d. deadline u = Some d \<and> now s' = max (now u) d))"
    using assms choose_task_frame(2) [of R prev u]
    by (auto simp: answer_def check_due_def Let_def
        split: list.splits if_splits prod.splits option.splits)
qed

lemma answer_run:
  assumes "answer R prev u = Some (Inr (Run t), s')" and "rand_in_range R"
  shows "is_runnable u t \<and> due u = []"
proof -
  have "is_runnable u t" if "runnable_tasks u = [t]"
    using that runnable_tasks_iff [of t u] by simp
  moreover have "is_runnable u t" if "fst (choose_task R prev u) = t" "runnable_tasks u \<noteq> []"
    using choose_task_runnable [OF assms(2) that(2), of prev] that(1) by simp
  ultimately show ?thesis
    using assms(1)
    by (auto simp: answer_def Let_def split: list.splits if_splits prod.splits option.splits)
qed

lemma answer_deadlock:
  assumes "answer R prev u = Some (Inl (Deadlock sites), s')"
  shows "s' = u \<and> due u = [] \<and> (\<forall>t. \<not> is_runnable u t) \<and> timers u = [] \<and> sites = blocked_sites u"
  using assms runnable_tasks_iff [of _ u]
  by (auto simp: answer_def Let_def split: list.splits if_splits prod.splits option.splits)

text \<open>The steps counter is all that \<open>sched_next\<close> adds to the loop.\<close>

definition counted_steps :: "bool \<Rightarrow> sched \<Rightarrow> sched" where
  "counted_steps counted s = (if counted then s\<lparr>steps := steps s + 1\<rparr> else s)"

lemma counted_steps_frame [simp]:
  "status (counted_steps c s) = status s" "now (counted_steps c s) = now s"
  "timers (counted_steps c s) = timers s" "due (counted_steps c s) = due s"
  "timed_out (counted_steps c s) = timed_out s" "timer_seq (counted_steps c s) = timer_seq s"
  "deadline (counted_steps c s) = deadline s" "timer_of (counted_steps c s) = timer_of s"
  "is_runnable (counted_steps c s) = is_runnable s"
  by (simp_all add: counted_steps_def timer_of_def is_runnable_def fun_eq_iff)

lemma sched_next_cases:
  assumes "sched_next R counted prev s = (r, s')"
  obtains (limit) "r = Inl StepLimit" "s' = counted_steps counted s"
  | (loop) u where "idle_step\<^sup>*\<^sup>* (counted_steps counted s) u" "answer R prev u = Some (r, s')"
  using assms next_loop_reach [of "counted_steps counted s" R prev]
  by (auto simp: sched_next_def counted_steps_def Let_def split: if_splits)

lemma sched_next_spec:
  assumes next_turn: "sched_next R counted prev s = (r, s')" and inv: "sched_inv s"
  shows "sched_inv s' \<and> now s \<le> now s' \<and> length (status s') = length (status s) \<and>
    ((\<exists>t. is_runnable s t) \<or> due s \<noteq> [] \<longrightarrow> now s' = now s) \<and>
    (\<forall>d. deadline s = Some d \<longrightarrow> now s \<le> d \<longrightarrow> now s' \<le> d) \<and>
    (\<forall>t < length (status s). status s' ! t = status s ! t \<or>
       (status s' ! t = Runnable \<and> (\<exists>d q. timer_of s t = Some (d, q) \<and> d \<le> now s')))"
  using next_turn
proof (cases rule: sched_next_cases)
  case limit
  have "sched_inv (counted_steps counted s)"
    by (rule sched_inv_cong [OF inv]) simp_all
  with limit show ?thesis by simp
next
  case (loop u)
  let ?s = "counted_steps counted s"
  have inv1: "sched_inv ?s" by (rule sched_inv_cong [OF inv]) simp_all
  note idle = idle_steps_spec [OF loop(1) inv1]
  then have invu: "sched_inv u" by simp
  note ans = answer_inv [OF loop(2) invu]
  have still: "now s' = now s" if "(\<exists>t. is_runnable s t) \<or> due s \<noteq> []"
  proof -
    have "u = ?s" using idle that by auto
    moreover have "r \<noteq> Inl Deadline"
    proof
      assume "r = Inl Deadline"
      then have "due u = [] \<and> runnable_tasks u = []"
        using loop(2) by (auto simp: answer_def Let_def split: list.splits if_splits prod.splits option.splits)
      then show False
        using that \<open>u = ?s\<close> runnable_tasks_iff [of _ u] by auto
    qed
    ultimately show ?thesis using ans(3) by auto
  qed
  show ?thesis using idle ans still by (auto simp: max_def)
qed

section \<open>The scheduler as a machine\<close>

datatype sched_op =
  OpAdd | OpBlock nat wait string "nat option" | OpWake wait | OpKick nat | OpFinish nat
| OpCheckAt nat | OpDeliverAt nat nat | OpWoke nat | OpNext bool nat | OpStick f64 u64

text \<open>The caller blocks only a task that runs, and names only tasks that exist.\<close>

fun sched_pre :: "sched_op \<Rightarrow> sched \<Rightarrow> bool" where
  "sched_pre (OpBlock t _ _ _) s = is_runnable s t"
| "sched_pre (OpFinish t) s = (t < task_count s)"
| "sched_pre (OpWoke t) s = (t < task_count s)"
| "sched_pre _ s = True"

fun sched_step :: "rand_lib \<Rightarrow> sched_op \<Rightarrow> sched \<Rightarrow> sched" where
  "sched_step R OpAdd s = snd (add_task s)"
| "sched_step R (OpBlock t w site until) s = (case block t w site until s of Some s' \<Rightarrow> s' | None \<Rightarrow> s)"
| "sched_step R (OpWake w) s = wake w s"
| "sched_step R (OpKick t) s = kick t s"
| "sched_step R (OpFinish t) s = (case finish t s of Some s' \<Rightarrow> s' | None \<Rightarrow> s)"
| "sched_step R (OpCheckAt at) s = check_at at s"
| "sched_step R (OpDeliverAt at i) s = deliver_at at i s"
| "sched_step R (OpWoke t) s = (case woke_task t s of Some (_, s') \<Rightarrow> s' | None \<Rightarrow> s)"
| "sched_step R (OpNext counted prev) s = snd (sched_next R counted prev s)"
| "sched_step R (OpStick p seed) s = set_stick p seed s"

lemma sched_new_inv: "sched_inv (sched_new seed)"
  by (auto simp: sched_inv_def sched_new_def timer_of_def seqs_def)

lemma add_task_inv:
  assumes inv: "sched_inv s" shows "sched_inv (snd (add_task s))"
proof -
  have "timer_of (snd (add_task s)) t = timer_of s t" for t
    by (auto simp: add_task_def timer_of_def nth_append)
  with inv show ?thesis by (simp add: sched_inv_def add_task_def)
qed

lemma block_inv:
  assumes inv: "sched_inv s" and t: "is_runnable s t" and b: "block t w site until s = Some s'"
  shows "sched_inv s'"
proof (cases until)
  case None
  have len: "t < length (status s)" using t by (simp add: is_runnable_def)
  have "timer_of s t = None" using t by (simp add: timer_of_def is_runnable_def)
  then have "timer_of s' t' = timer_of s t'" for t'
    using b None len by (auto simp: block_def timer_of_def nth_list_update split: if_splits)
  then show ?thesis
    using inv b None by (auto simp: block_def sched_inv_def split: if_splits)
next
  case (Some at)
  let ?a = "add_timer at (FTask t) s" and ?key = "(max at (now s), timer_seq s + 1)"
  have len: "t < length (status s)" using t by (simp add: is_runnable_def)
  have fields: "timers s' = timers ?a" "now s' = now s" "timer_seq s' = timer_seq s + 1"
    "status s' = (status s)[t := Blocked w site (Some ?key)]"
    "length (timed_out s') = length (timed_out s)"
    using b Some by (auto simp: block_def Let_def split: if_splits)
  have none: "timer_of s t = None" using t by (simp add: timer_of_def is_runnable_def)
  have timer: "timer_of s' t' = (if t' = t then Some ?key else timer_of s t')" for t'
    using len fields(4) by (auto simp: timer_of_def nth_list_update)
  show ?thesis
  proof (rule sched_invI)
    show "length (timed_out s') = length (status s')" using sched_invD(1) [OF inv] fields by simp
    show "sorted (timers s')" "distinct (seqs (timers s'))"
      using add_timer_queue [OF inv] fields by simp_all
    show "now s' \<le> d \<and> q \<le> timer_seq s'" if "(d, q, f) \<in> set (timers s')" for d q f
      using add_timer_bounds [OF inv, of d q f at "FTask t"] that fields by simp
    show "(d, q, FTask t') \<in> set (timers s') \<longleftrightarrow> timer_of s' t' = Some (d, q)" for d q t'
      using sched_invD(6) [OF inv, of d q t'] none timer [of t'] fields(1) by auto
  qed
qed

lemma kick_inv: "sched_inv s \<Longrightarrow> sched_inv (kick t s)"
proof (cases "\<exists>w site k. t < length (status s) \<and> status s ! t = Blocked w site k")
  case True
  assume inv: "sched_inv s"
  from True have "kick t s = release t Runnable s"
    by (auto simp: kick_def release_def timer_of_def)
  moreover have "sched_inv (release t Runnable s)" using True release_inv [OF inv] by auto
  ultimately show ?thesis by simp
qed (auto simp: kick_def split: status.splits)

lemma finish_release:
  "t < length (status s) \<Longrightarrow> finish t s = Some (wake (WTask t) (release t Done s))"
  by (auto simp: finish_def release_def timer_of_def Let_def split: status.splits)

lemma sched_step_inv:
  assumes inv: "sched_inv s" and pre: "sched_pre op s"
  shows "sched_inv (sched_step R op s)"
proof (cases op)
  case (OpBlock t w site until)
  then show ?thesis using block_inv [OF inv, of t w site until] pre inv by (auto split: option.splits)
next
  case (OpFinish t)
  then have "t < length (status s)" using pre by (simp add: task_count_def)
  then show ?thesis using OpFinish release_inv [OF inv, of t Done] by (simp add: finish_release wake_inv)
next
  case (OpWoke t)
  then show ?thesis
    using inv by (auto simp: woke_task_def intro: sched_inv_cong split: option.splits if_splits)
next
  case (OpNext counted prev)
  then show ?thesis
    using sched_next_spec [OF _ inv] by (metis prod.collapse sched_step.simps(9))
next
  case (OpStick p seed)
  then show ?thesis using inv by (auto simp: set_stick_def intro: sched_inv_cong)
qed (use inv in \<open>simp_all add: add_task_inv wake_inv kick_inv check_at_def deliver_at_def add_timer_inv\<close>)

text \<open>The world sets the run's length, its budget of steps and whether properties are checked, once, before
  the run (\<open>sim/mod.rs\<close>).\<close>

definition world_sched :: "u64 \<Rightarrow> nat option \<Rightarrow> nat \<Rightarrow> bool \<Rightarrow> sched" where
  "world_sched seed run_for budget props =
     (sched_new seed)\<lparr>deadline := run_for, max_steps := budget, check_props := props\<rparr>"

lemma world_sched_inv: "sched_inv (world_sched seed run_for budget props)"
  unfolding world_sched_def by (rule sched_inv_cong [OF sched_new_inv]) simp_all

interpretation sched_machine: inv_machine "world_sched seed run_for budget props" "sched_step R" sched_pre sched_inv
  for seed run_for budget props R
  by unfold_locales (simp_all add: world_sched_inv sched_step_inv)

section \<open>Properties\<close>

text \<open>C1: the timer queue and the task table never disagree. From a new scheduler, with or without a
  deadline, whatever its budget of steps and whether or not it checks properties, after any sequence of operations whose callers kept their side (only a running task blocks, only tasks that
  exist are named), the queue is sorted and numbered without repetition, nothing in it is due before
  the clock, and its task timers are exactly the timers of the blocked tasks.\<close>

theorem sched_queue_consistent:
  assumes "obliged (sched_step R) sched_pre ops (world_sched seed run_for budget props)"
  shows "sched_inv (run_ops (sched_step R) ops (world_sched seed run_for budget props))"
  using assms by (rule sched_machine.inv_reachable)

theorem sched_queue_consistent_witness:
  "sched_inv (run_ops (sched_step mod_rand)
     [OpAdd, OpBlock 0 WSleep ''sleep'' (Some 2), OpBlock 1 (WChan 4) ''recv'' (Some 1),
      OpNext True 1, OpFinish 1, OpNext True 1] (world_sched 7 (Some 9) 50 False))"
  by (rule sched_queue_consistent)
     (simp add: world_sched_def sched_new_def add_task_def block_def add_timer_def is_runnable_def task_count_def
       sched_next_def next_loop.simps runnable_tasks_def check_due_def fire_due.simps
       finish_def wake_def wake_one_def u64_max_def)

text \<open>what runs can run. A turn that hands the baton to a task hands it to a runnable one, and
  every message due at that instant was delivered before.\<close>

theorem sched_runs_runnable:
  assumes "rand_in_range R" and "sched_inv s" and "sched_next R counted prev s = (Inr (Run t), s')"
  shows "is_runnable s' t \<and> due s' = []"
  using assms(3)
proof (cases rule: sched_next_cases)
  case (loop u)
  have "sched_inv (counted_steps counted s)" by (rule sched_inv_cong [OF assms(2)]) simp_all
  then have "sched_inv u" using idle_steps_spec [OF loop(1)] by simp
  from answer_inv(2) [OF loop(2) this] answer_run [OF loop(2) assms(1)]
  have "is_runnable s' t" using is_runnable_cong by metis
  moreover have "due s' = []"
    using loop(2) answer_run [OF loop(2) assms(1)] choose_task_frame(4) [of R prev u]
    by (auto simp: answer_def Let_def split: list.splits if_splits prod.splits option.splits)
  ultimately show ?thesis by simp
qed simp

theorem sched_runs_runnable_witness:
  "is_runnable ((sched_new 7)\<lparr>steps := 1\<rparr>) 0 \<and> due ((sched_new 7)\<lparr>steps := 1\<rparr>) = []"
proof (rule sched_runs_runnable [OF mod_rand_in_range sched_new_inv])
  show "sched_next mod_rand True 1 (sched_new 7) = (Inr (Run 0), (sched_new 7)\<lparr>steps := 1\<rparr>)"
    by (simp add: sched_new_def sched_next_def next_loop.simps runnable_tasks_def is_runnable_def
        u64_max_def)
qed

text \<open>running code costs no virtual time. A turn never moves the clock back, leaves it where it
  is while a task can run or a message is due, and never moves it past the deadline.\<close>

theorem sched_clock:
  assumes "sched_inv s" and "s' = snd (sched_next R counted prev s)"
  shows "now s \<le> now s' \<and>
    ((\<exists>t. is_runnable s t) \<or> due s \<noteq> [] \<longrightarrow> now s' = now s) \<and>
    (\<forall>d. deadline s = Some d \<longrightarrow> now s \<le> d \<longrightarrow> now s' \<le> d)"
  using sched_next_spec [OF _ assms(1), of R counted prev "fst (sched_next R counted prev s)" s']
    assms(2) by auto

lemma sched_new_block_inv:
  "block 0 w site until (sched_new seed) = Some s \<Longrightarrow> sched_inv s"
  by (rule block_inv [OF sched_new_inv]) (auto simp: is_runnable_def sched_new_def)

theorem sched_clock_witness:
  "now (snd (sched_next mod_rand True 1 (the (block 0 WSleep ''sleep'' (Some 2) (sched_new 7))))) \<ge> 0"
proof -
  have "\<exists>s. block 0 WSleep ''sleep'' (Some 2) (sched_new 7) = Some s"
    by (simp add: block_def sched_new_def)
  then obtain s where s: "block 0 WSleep ''sleep'' (Some 2) (sched_new 7) = Some s" by blast
  from sched_clock [OF sched_new_block_inv [OF s] refl, of mod_rand True 1] show ?thesis
    using s by simp
qed

text \<open>C36: no task wakes before its time. A turn leaves every task's status alone, but for tasks whose
  timer has come by the new time: those run again.\<close>

theorem sched_no_early_wake:
  assumes "sched_inv s" and "s' = snd (sched_next R counted prev s)" and "t < task_count s"
  shows "status s' ! t = status s ! t \<or>
    (is_runnable s' t \<and> (\<exists>w site d q. status s ! t = Blocked w site (Some (d, q)) \<and> d \<le> now s'))"
proof -
  have spec: "length (status s') = length (status s) \<and> (\<forall>t < length (status s).
      status s' ! t = status s ! t \<or>
       (status s' ! t = Runnable \<and> (\<exists>d q. timer_of s t = Some (d, q) \<and> d \<le> now s')))"
    using sched_next_spec [OF _ assms(1), of R counted prev "fst (sched_next R counted prev s)" s']
      assms(2) by simp
  show ?thesis
  proof (cases "status s' ! t = status s ! t")
    case False
    then obtain d q where "status s' ! t = Runnable" "timer_of s t = Some (d, q)" "d \<le> now s'"
      using spec assms(3) by (auto simp: task_count_def)
    then show ?thesis
      using spec assms(3)
      by (auto simp: task_count_def is_runnable_def timer_of_def split: status.splits if_splits)
  qed simp
qed

theorem sched_no_early_wake_witness:
  "is_runnable (snd (sched_next mod_rand True 1 (the (block 0 WSleep ''s'' (Some 2) (sched_new 7))))) 0"
proof -
  let ?s = "the (block 0 WSleep ''s'' (Some 2) (sched_new 7))"
  have s: "block 0 WSleep ''s'' (Some 2) (sched_new 7) = Some ?s"
    by (simp add: block_def sched_new_def)
  have "status (snd (sched_next mod_rand True 1 ?s)) ! 0 \<noteq> status ?s ! 0"
    by (simp add: block_def sched_new_def sched_next_def next_loop.simps runnable_tasks_def
        is_runnable_def check_due_def add_timer_def fire_due.simps u64_max_def)
  moreover have "0 < task_count ?s" by (simp add: block_def sched_new_def task_count_def)
  ultimately show ?thesis
    using sched_no_early_wake [OF sched_new_block_inv [OF s] refl, of 0 mod_rand True 1] by blast
qed

lemma site_of_eq: "site_of s t = Some (t', site) \<longleftrightarrow> t' = t \<and> (\<exists>w k. status s ! t = Blocked w site k)"
  by (auto simp: site_of_def split: status.splits)

lemma blocked_sites_iff:
  "(t, site) \<in> set (blocked_sites s) \<longleftrightarrow>
     t < length (status s) \<and> (\<exists>w k. status s ! t = Blocked w site k)"
proof -
  have "set (blocked_sites s) = {y. \<exists>t < length (status s). site_of s t = Some y}"
    by (force simp: blocked_sites_def List.map_filter_def)
  then show ?thesis by (simp add: site_of_eq)
qed

text \<open>C35: a run is called a deadlock only when it is one: nothing is due, no timer is set, no task can
  run, and every task has ended or is listed with the site it waits at.\<close>

theorem sched_deadlock_exact:
  assumes "sched_next R counted prev s = (Inl (Deadlock sites), s')"
  shows "due s' = [] \<and> timers s' = [] \<and> (\<forall>t. \<not> is_runnable s' t) \<and>
    (\<forall>t < task_count s'. is_done s' t \<or>
       (\<exists>w site k. status s' ! t = Blocked w site k \<and> (t, site) \<in> set sites)) \<and>
    (\<forall>(t, site) \<in> set sites. \<exists>w k. t < task_count s' \<and> status s' ! t = Blocked w site k)"
  using assms
proof (cases rule: sched_next_cases)
  case (loop u)
  note dead = answer_deadlock [OF loop(2)]
  note sites = blocked_sites_iff [of _ _ u]
  have "is_done u t \<or> (\<exists>w site k. status u ! t = Blocked w site k \<and> (t, site) \<in> set sites)"
    if "t < length (status u)" for t
    using that dead sites by (cases "status u ! t") (auto simp: is_done_def is_runnable_def)
  then show ?thesis using dead sites by (simp add: task_count_def) blast
qed simp

theorem sched_deadlock_exact_witness:
  "\<exists>s'. timers s' = [] \<and> \<not> is_runnable s' 0 \<and>
     sched_next mod_rand True 1 (the (block 0 (WChan 3) ''recv'' None (sched_new 7))) =
       (Inl (Deadlock [(0, ''recv'')]), s')"
proof -
  have "fst (sched_next mod_rand True 1 (the (block 0 (WChan 3) ''recv'' None (sched_new 7)))) =
      Inl (Deadlock [(0, ''recv'')])"
    by (simp add: block_def sched_new_def sched_next_def next_loop.simps runnable_tasks_def
        is_runnable_def check_due_def u64_max_def blocked_sites_def site_of_def List.map_filter_def)
  then obtain s' where turn: "sched_next mod_rand True 1
      (the (block 0 (WChan 3) ''recv'' None (sched_new 7))) = (Inl (Deadlock [(0, ''recv'')]), s')"
    by (metis prod.collapse)
  from sched_deadlock_exact [OF turn] turn show ?thesis by blast
qed

text \<open>C2: no wakeup is lost or misdirected. Waking \<open>w\<close> makes exactly the tasks that wait on \<open>w\<close>
  runnable, takes their timers out of the queue, and touches no other task.\<close>

theorem sched_wake_exact:
  assumes "sched_inv s" and "t < task_count s"
  shows "status (wake w s) ! t =
      (case status s ! t of Blocked w' _ _ \<Rightarrow> if w' = w then Runnable else status s ! t
       | _ \<Rightarrow> status s ! t) \<and>
    (is_runnable (wake w s) t \<longrightarrow> (\<forall>d q. (d, q, FTask t) \<notin> set (timers (wake w s))))"
proof -
  have "(d, q, FTask t) \<notin> set (timers (wake w s))" if "is_runnable (wake w s) t" for d q
    using that sched_invD(6) [OF wake_inv [OF assms(1)]] by (simp add: timer_of_def is_runnable_def)
  then show ?thesis using wake_status [OF assms(1)] assms(2) by (simp add: woken_def task_count_def)
qed

theorem sched_wake_exact_witness:
  "status (wake (WChan 3) (the (block 0 (WChan 3) ''recv'' (Some 5) (sched_new 7)))) ! 0 = Runnable"
proof -
  let ?s = "the (block 0 (WChan 3) ''recv'' (Some 5) (sched_new 7))"
  have s: "block 0 (WChan 3) ''recv'' (Some 5) (sched_new 7) = Some ?s"
    by (simp add: block_def sched_new_def)
  have "0 < task_count ?s" "status ?s ! 0 = Blocked (WChan 3) ''recv'' (Some (5, 1))"
    by (simp_all add: block_def sched_new_def task_count_def)
  then show ?thesis
    using sched_wake_exact [OF sched_new_block_inv [OF s], of 0 "WChan 3"] by simp
qed

end
