(* ===== verification/Plan.thy ===== *)
theory Plan
  imports Draws
begin

text \<open>
  Faults as a plan (\<open>src/sim/plan.rs\<close>): the sites a fault is decided at, the count of the visits to
  each, and the forcing of a run's decisions from the entries a recorded run left. A hash map is a
  HOL map; a queue is a list, front first.
\<close>

section \<open>Sites and places\<close>

datatype site =
  CrashPoint | FsyncLie | MaybeSite | LossSite | DupSite
| CrashCall | KillCall | StopCall | PartitionCall | SlowDiskCall

fun site_name :: "site \<Rightarrow> string" where
  "site_name CrashPoint = ''crash_point''"
| "site_name FsyncLie = ''fsync_lie''"
| "site_name MaybeSite = ''maybe''"
| "site_name LossSite = ''loss''"
| "site_name DupSite = ''dup''"
| "site_name CrashCall = ''crash''"
| "site_name KillCall = ''kill''"
| "site_name StopCall = ''stop''"
| "site_name PartitionCall = ''partition''"
| "site_name SlowDiskCall = ''slow_disk''"

definition site_from_name :: "string \<Rightarrow> site option" where
  "site_from_name n =
     (if n = ''crash_point'' then Some CrashPoint
      else if n = ''fsync_lie'' then Some FsyncLie
      else if n = ''maybe'' then Some MaybeSite
      else if n = ''loss'' then Some LossSite
      else if n = ''dup'' then Some DupSite
      else if n = ''crash'' then Some CrashCall
      else if n = ''kill'' then Some KillCall
      else if n = ''stop'' then Some StopCall
      else if n = ''partition'' then Some PartitionCall
      else if n = ''slow_disk'' then Some SlowDiskCall
      else None)"

fun is_draw :: "site \<Rightarrow> bool" where
  "is_draw CrashPoint = True" | "is_draw FsyncLie = True" | "is_draw MaybeSite = True"
| "is_draw LossSite = True" | "is_draw DupSite = True" | "is_draw _ = False"

definition link_place :: "nat \<Rightarrow> nat \<Rightarrow> u64" where
  "link_place from_node to_node = (push_bit 32 (of_nat from_node)) OR of_nat to_node"

text \<open>\<open>str::split_once\<close> at a character.\<close>

fun split_once :: "char \<Rightarrow> string \<Rightarrow> (string \<times> string) option" where
  "split_once c [] = None"
| "split_once c (x # xs) =
     (if x = c then Some ([], xs)
      else (case split_once c xs of Some (a, b) \<Rightarrow> Some (x # a, b) | None \<Rightarrow> None))"

definition link_site :: "site \<Rightarrow> bool" where
  "link_site s \<longleftrightarrow> s = LossSite \<or> s = DupSite"

definition place_name :: "site \<Rightarrow> u64 \<Rightarrow> (nat \<Rightarrow> string) \<Rightarrow> string" where
  "place_name site place node_name =
     (if link_site site
      then node_name (unat (drop_bit 32 place)) @ ''>'' @ node_name (unat (place AND 0xffffffff))
      else node_name (unat place))"

definition place_of :: "site \<Rightarrow> string \<Rightarrow> (string \<Rightarrow> nat option) \<Rightarrow> u64 option" where
  "place_of site at node =
     (if link_site site
      then (case split_once (CHR ''>'') at of
              None \<Rightarrow> None
            | Some (a, b) \<Rightarrow>
                (case node a of None \<Rightarrow> None
                 | Some na \<Rightarrow> (case node b of None \<Rightarrow> None | Some nb \<Rightarrow> Some (link_place na nb))))
      else (case node at of None \<Rightarrow> None | Some n \<Rightarrow> Some (of_nat n)))"

section \<open>Visits and decisions\<close>

record key =
  key_site :: site
  key_place :: u64
  key_t :: nat
  key_k :: nat
  key_delay :: "nat option"

record decision =
  d_fire :: bool
  d_key :: key

type_synonym forced = "nat \<times> nat \<times> nat option"
type_synonym entry = "site \<times> u64 \<times> nat \<times> nat \<times> nat option"

record sites =
  s_counts :: "site \<times> u64 \<Rightarrow> (nat \<times> nat) option"
  s_forced :: "(site \<times> u64 \<Rightarrow> forced list option) option"

definition sites_drawn :: sites where
  "sites_drawn = \<lparr>s_counts = (\<lambda>_. None), s_forced = None\<rparr>"

text \<open>The entries by their site and place, in the order given, then sorted (stably) by (t, k).\<close>

fun group_entries :: "entry list \<Rightarrow> (site \<times> u64 \<Rightarrow> forced list option) \<Rightarrow> (site \<times> u64 \<Rightarrow> forced list option)"
where
  "group_entries [] qs = qs"
| "group_entries ((site, place, t, k, delay) # es) qs =
     group_entries es (qs((site, place) \<mapsto>
       (case qs (site, place) of None \<Rightarrow> [] | Some q \<Rightarrow> q) @ [(t, k, delay)]))"

definition forced_key :: "forced \<Rightarrow> nat \<times> nat" where
  "forced_key e = (fst e, fst (snd e))"

definition sites_forced :: "entry list \<Rightarrow> sites" where
  "sites_forced es =
     \<lparr>s_counts = (\<lambda>_. None),
      s_forced = Some (\<lambda>sp. map_option (sort_key forced_key) (group_entries es (\<lambda>_. None) sp))\<rparr>"

definition is_forced :: "sites \<Rightarrow> bool" where
  "is_forced s \<longleftrightarrow> s_forced s \<noteq> None"

definition visit ::
  "site \<Rightarrow> u64 \<Rightarrow> nat \<Rightarrow> bool \<Rightarrow> nat option \<Rightarrow> sites \<Rightarrow> decision \<times> sites" where
  "visit site place t drawn delay s =
     (let k = next_count (s_counts s) (site, place) t;
          s1 = s\<lparr>s_counts := (s_counts s)((site, place) \<mapsto> (t, k + 1))\<rparr>;
          key = \<lparr>key_site = site, key_place = place, key_t = t, key_k = k, key_delay = delay\<rparr>
      in (case s_forced s of
            None \<Rightarrow> (\<lparr>d_fire = drawn, d_key = key\<rparr>, s1)
          | Some qs \<Rightarrow>
              (case qs (site, place) of
                 Some ((et, ek, d) # q) \<Rightarrow>
                   if (t, k) \<ge> (et, ek)
                   then (\<lparr>d_fire = True,
                          d_key = (if d \<noteq> None \<or> delay = None then key\<lparr>key_delay := d\<rparr> else key)\<rparr>,
                         s1\<lparr>s_forced := Some (qs((site, place) \<mapsto> q))\<rparr>)
                   else (\<lparr>d_fire = False, d_key = key\<rparr>, s1)
               | _ \<Rightarrow> (\<lparr>d_fire = False, d_key = key\<rparr>, s1))))"

text \<open>A run: its visits (site, place, time, what the seed drew, the delay asked) in order.\<close>

type_synonym visit_call = "site \<times> u64 \<times> nat \<times> bool \<times> nat option"

fun visits :: "visit_call list \<Rightarrow> sites \<Rightarrow> decision list \<times> sites" where
  "visits [] s = ([], s)"
| "visits ((site, place, t, drawn, delay) # vs) s =
     (let (d, s') = visit site place t drawn delay s; (ds, s'') = visits vs s' in (d # ds, s''))"

text \<open>What the run's report keeps: the key of every fault that fired.\<close>

definition recorded :: "decision list \<Rightarrow> entry list" where
  "recorded ds =
     map (\<lambda>d. let k = d_key d in (key_site k, key_place k, key_t k, key_k k, key_delay k))
       (filter d_fire ds)"

definition at_site :: "site \<times> u64 \<Rightarrow> entry list \<Rightarrow> forced list" where
  "at_site sp es = map (\<lambda>(_, _, f). f) (filter (\<lambda>(site, place, _). (site, place) = sp) es)"

definition call_time :: "visit_call \<Rightarrow> nat" where
  "call_time v = (case v of (_, _, t, _, _) \<Rightarrow> t)"

lemma call_time_simp [simp]: "call_time (site, place, t, drawn, delay) = t"
  by (simp add: call_time_def)

section \<open>Grouping the entries\<close>

lemma group_entries_at:
  "group_entries es qs sp =
    (if at_site sp es = [] then qs sp
     else Some ((case qs sp of None \<Rightarrow> [] | Some q \<Rightarrow> q) @ at_site sp es))"
proof (induction es qs rule: group_entries.induct)
  case (2 site place t k delay es qs)
  show ?case unfolding group_entries.simps 2 by (auto simp: at_site_def)
qed (simp add: at_site_def)

lemma sites_forced_queue:
  "s_forced (sites_forced es) = Some (\<lambda>sp. if at_site sp es = [] then None
     else Some (sort_key forced_key (at_site sp es)))"
  by (auto simp: sites_forced_def group_entries_at fun_eq_iff)

lemma recorded_Cons: "recorded (d # ds) =
    (if d_fire d then [(key_site (d_key d), key_place (d_key d), key_t (d_key d), key_k (d_key d),
       key_delay (d_key d))] else []) @ recorded ds"
  by (simp add: recorded_def Let_def)

lemma at_site_Cons: "at_site sp ((site, place, f) # es) =
    (if (site, place) = sp then [f] else []) @ at_site sp es"
  by (simp add: at_site_def)

lemma at_site_Nil [simp]: "at_site sp [] = []" by (simp add: at_site_def)

section \<open>A drawn run and its replay\<close>

text \<open>The position a site has reached: every later visit has a (t, k) no smaller.\<close>

definition pos_le :: "(site \<times> u64 \<Rightarrow> (nat \<times> nat) option) \<Rightarrow> site \<times> u64 \<Rightarrow> nat \<Rightarrow> nat \<times> nat \<Rightarrow> bool"
where
  "pos_le counts sp t0 x \<longleftrightarrow> (t0, next_count counts sp t0) \<le> x"

lemma drawn_visit:
  assumes "s_forced s = None"
  shows "visit site place t drawn delay s =
    (let k = next_count (s_counts s) (site, place) t in
      (\<lparr>d_fire = drawn, d_key = \<lparr>key_site = site, key_place = place, key_t = t, key_k = k,
          key_delay = delay\<rparr>\<rparr>,
       s\<lparr>s_counts := (s_counts s)((site, place) \<mapsto> (t, k + 1))\<rparr>))"
  using assms by (simp add: visit_def Let_def)

lemma visit_counts: "s_counts (snd (visit site place t drawn delay s)) =
    (s_counts s)((site, place) \<mapsto> (t, next_count (s_counts s) (site, place) t + 1))"
  by (simp add: visit_def Let_def split: option.splits list.splits prod.splits)

lemma next_count_later:
  assumes "counts sp = Some (t', c)" and "t' \<le> t0" and "t0 \<le> t"
  shows "(t0, next_count counts sp t0) \<le> (t, next_count counts sp t)"
  using assms by (auto simp: next_count_def less_eq_prod_def)

lemma next_count_mono:
  assumes "\<forall>sp t' c. counts sp = Some (t', c) \<longrightarrow> t' \<le> t0" and "t0 \<le> t"
  shows "(t0, next_count counts sp t0) \<le> (t, next_count counts sp t)"
proof (cases "t = t0")
  case False
  then show ?thesis using assms(2) by (simp add: less_eq_prod_def)
qed simp

lemma recorded_after:
  assumes "s_forced s = None" and "sorted (map call_time vs)" and "\<forall>v \<in> set vs. t0 \<le> call_time v"
    and "\<forall>sp t' c. s_counts s sp = Some (t', c) \<longrightarrow> t' \<le> t0"
  shows "sorted (map forced_key (at_site sp (recorded (fst (visits vs s))))) \<and>
    (\<forall>e \<in> set (at_site sp (recorded (fst (visits vs s)))).
      (t0, next_count (s_counts s) sp t0) \<le> forced_key e)"
  using assms
proof (induction vs arbitrary: s t0)
  case (Cons v vs)
  obtain site place t drawn delay where v: "v = (site, place, t, drawn, delay)" by (cases v) auto
  define k where "k = next_count (s_counts s) (site, place) t"
  define s' where "s' = s\<lparr>s_counts := (s_counts s)((site, place) \<mapsto> (t, k + 1))\<rparr>"
  have times: "sorted (map call_time vs)" "\<forall>w \<in> set vs. t \<le> call_time w" "t0 \<le> t"
    using Cons.prems(2,3) by (auto simp: v)
  have counts: "\<forall>sp t' c. s_counts s' sp = Some (t', c) \<longrightarrow> t' \<le> t"
    using Cons.prems(4) times(3) by (fastforce simp: s'_def split: if_splits)
  have "s_forced s' = None" using Cons.prems(1) by (simp add: s'_def)
  note IH = Cons.IH [OF this times(1,2) counts]
  have run: "recorded (fst (visits (v # vs) s)) =
      (if drawn then [(site, place, t, k, delay)] else []) @ recorded (fst (visits vs s'))"
    using Cons.prems(1)
    by (simp add: v drawn_visit Let_def recorded_Cons k_def s'_def split: prod.splits)
  have later: "(t, next_count (s_counts s) sp t) \<le> (t, next_count (s_counts s') sp t)"
    by (auto simp: s'_def k_def next_count_def less_eq_prod_def)
  have first: "(t0, next_count (s_counts s) sp t0) \<le> (t, next_count (s_counts s) sp t)"
    using next_count_mono [OF Cons.prems(4) times(3)] .
  have here: "forced_key (t, k, delay) = (t, next_count (s_counts s) (site, place) t)"
    by (simp add: forced_key_def k_def)
  have after: "(t, next_count (s_counts s) sp t) \<le> forced_key e"
      "(t0, next_count (s_counts s) sp t0) \<le> forced_key e"
    if "e \<in> set (at_site sp (recorded (fst (visits vs s'))))" for e
  proof -
    have "(t, next_count (s_counts s') sp t) \<le> forced_key e" using IH that by blast
    with later show "(t, next_count (s_counts s) sp t) \<le> forced_key e" by (rule order.trans)
    with first show "(t0, next_count (s_counts s) sp t0) \<le> forced_key e" by (rule order.trans)
  qed
  show ?case
  proof (cases "drawn \<and> (site, place) = sp")
    case True
    then have "at_site sp (recorded (fst (visits (v # vs) s))) =
        (t, k, delay) # at_site sp (recorded (fst (visits vs s')))"
      by (simp add: run at_site_Cons)
    moreover have "(t0, next_count (s_counts s) sp t0) \<le> forced_key (t, k, delay)"
      using first here True by simp
    moreover have "\<forall>e \<in> set (at_site sp (recorded (fst (visits vs s')))).
        forced_key (t, k, delay) \<le> forced_key e"
      using after(1) here True by simp
    ultimately show ?thesis using IH after(2) by simp
  next
    case False
    then have "at_site sp (recorded (fst (visits (v # vs) s))) =
        at_site sp (recorded (fst (visits vs s')))"
      by (auto simp: run at_site_Cons)
    then show ?thesis using IH after by simp
  qed
qed (simp add: recorded_def)

lemma forced_visit:
  assumes "s_forced f = Some Q"
    and "k = next_count (s_counts f) (site, place) t"
    and "f1 = f\<lparr>s_counts := (s_counts f)((site, place) \<mapsto> (t, k + 1))\<rparr>"
    and "key = \<lparr>key_site = site, key_place = place, key_t = t, key_k = k, key_delay = delay\<rparr>"
  shows "(case Q (site, place) of None \<Rightarrow> [] | Some q \<Rightarrow> q) = [] \<Longrightarrow>
      visit site place t drawn delay f = (\<lparr>d_fire = False, d_key = key\<rparr>, f1)"
    and "Q (site, place) = Some (e # q) \<Longrightarrow> (t, k) < forced_key e \<Longrightarrow>
      visit site place t drawn delay f = (\<lparr>d_fire = False, d_key = key\<rparr>, f1)"
    and "Q (site, place) = Some (e # q) \<Longrightarrow> forced_key e \<le> (t, k) \<Longrightarrow>
      visit site place t drawn delay f =
        (\<lparr>d_fire = True, d_key = (if snd (snd e) \<noteq> None \<or> delay = None
            then key\<lparr>key_delay := snd (snd e)\<rparr> else key)\<rparr>,
         f1\<lparr>s_forced := Some (Q((site, place) \<mapsto> q))\<rparr>)"
  using assms
  by (cases e; auto simp: visit_def Let_def forced_key_def not_le split: option.splits list.splits)+

definition queue_at :: "sites \<Rightarrow> site \<times> u64 \<Rightarrow> forced list" where
  "queue_at f sp = (case s_forced f of None \<Rightarrow> [] | Some Q \<Rightarrow>
     (case Q sp of None \<Rightarrow> [] | Some q \<Rightarrow> q))"

definition same_call :: "visit_call \<Rightarrow> visit_call \<Rightarrow> bool" where
  "same_call v w \<longleftrightarrow>
     (case (v, w) of ((site, place, t, _, delay), (site', place', t', _, delay')) \<Rightarrow>
        (site, place, t, delay) = (site', place', t', delay'))"

lemma same_call_iff: "same_call (site, place, t, drawn, delay) w \<longleftrightarrow>
    (\<exists>b. w = (site, place, t, b, delay))"
  by (cases w) (auto simp: same_call_def)

lemma replay_visits:
  assumes "s_forced s = None" and "is_forced f" and "s_counts f = s_counts s"
    and "sorted (map call_time vs)" and "\<forall>v \<in> set vs. t0 \<le> call_time v"
    and "\<forall>sp t' c. s_counts s sp = Some (t', c) \<longrightarrow> t' \<le> t0"
    and "\<forall>sp. queue_at f sp = at_site sp (recorded (fst (visits vs s)))"
    and "list_all2 same_call vs ws"
  shows "fst (visits ws f) = fst (visits vs s)"
  using assms
proof (induction vs arbitrary: ws s f t0)
  case (Cons v vs)
  obtain site place t drawn delay where v: "v = (site, place, t, drawn, delay)" by (cases v) auto
  obtain w ws' b where ws: "ws = w # ws'" "w = (site, place, t, b, delay)"
      "list_all2 same_call vs ws'"
    using Cons.prems(8) by (auto simp: list_all2_Cons1 same_call_iff v)
  define k where "k = next_count (s_counts s) (site, place) t"
  define s' where "s' = s\<lparr>s_counts := (s_counts s)((site, place) \<mapsto> (t, k + 1))\<rparr>"
  have times: "sorted (map call_time vs)" "\<forall>w \<in> set vs. t \<le> call_time w" "t0 \<le> t"
    using Cons.prems(4,5) by (auto simp: v)
  have counts: "\<forall>sp t' c. s_counts s' sp = Some (t', c) \<longrightarrow> t' \<le> t"
    using Cons.prems(6) times(3) by (fastforce simp: s'_def split: if_splits)
  have s': "s_forced s' = None" using Cons.prems(1) by (simp add: s'_def)
  have drawn_v: "visit site place t drawn delay s =
      (\<lparr>d_fire = drawn, d_key = \<lparr>key_site = site, key_place = place, key_t = t, key_k = k,
          key_delay = delay\<rparr>\<rparr>, s')"
    using Cons.prems(1) by (simp add: drawn_visit Let_def k_def s'_def)
  have run: "recorded (fst (visits (v # vs) s)) =
      (if drawn then [(site, place, t, k, delay)] else []) @ recorded (fst (visits vs s'))"
    by (simp add: v drawn_v recorded_Cons split: prod.splits)
  let ?later = "at_site (site, place) (recorded (fst (visits vs s')))"
  have after: "\<forall>e \<in> set ?later. (t, k) < forced_key e"
  proof
    fix e assume "e \<in> set ?later"
    then have "(t, next_count (s_counts s') (site, place) t) \<le> forced_key e"
      using recorded_after [OF s' times(1,2) counts] by blast
    then show "(t, k) < forced_key e"
      by (cases "forced_key e") (auto simp: s'_def next_count_def less_eq_prod_def less_prod_def)
  qed
  obtain Q where Q: "s_forced f = Some Q" using Cons.prems(2) by (auto simp: is_forced_def)
  have queue: "(case Q sp of None \<Rightarrow> [] | Some q \<Rightarrow> q) =
      (if drawn \<and> sp = (site, place) then [(t, k, delay)] else []) @
      at_site sp (recorded (fst (visits vs s')))" for sp
    using spec [OF Cons.prems(7), of sp] by (simp add: queue_at_def Q run at_site_Cons)
  define f1 where "f1 = f\<lparr>s_counts := (s_counts f)((site, place) \<mapsto> (t, k + 1))\<rparr>"
  have kf: "k = next_count (s_counts f) (site, place) t" using Cons.prems(3) by (simp add: k_def)
  note fv = forced_visit [OF Q kf f1_def refl]
  have "\<exists>f'. visit site place t b delay f = (fst (visit site place t drawn delay s), f') \<and>
      is_forced f' \<and> s_counts f' = s_counts s' \<and>
      (\<forall>sp. queue_at f' sp = at_site sp (recorded (fst (visits vs s'))))"
  proof (cases drawn)
    case True
    then have "Q (site, place) = Some ((t, k, delay) # ?later)"
      using queue [of "(site, place)"] by (auto split: option.splits)
    note fires = fv(3) [OF this, of b delay]
    let ?f' = "f1\<lparr>s_forced := Some (Q((site, place) \<mapsto> ?later))\<rparr>"
    have "visit site place t b delay f = (fst (visit site place t drawn delay s), ?f')"
      using fires drawn_v True by (cases delay) (simp_all add: forced_key_def)
    moreover have "is_forced ?f' \<and> s_counts ?f' = s_counts s'"
      by (simp add: is_forced_def f1_def s'_def Cons.prems(3))
    moreover have "queue_at ?f' sp = at_site sp (recorded (fst (visits vs s')))" for sp
      using queue [of sp] by (simp add: queue_at_def)
    ultimately show ?thesis by blast
  next
    case False
    have "visit site place t b delay f = (\<lparr>d_fire = False, d_key = \<lparr>key_site = site,
        key_place = place, key_t = t, key_k = k, key_delay = delay\<rparr>\<rparr>, f1)"
    proof (cases ?later)
      case Nil
      then show ?thesis using False queue [of "(site, place)"] by (intro fv(1)) simp
    next
      case (Cons e q)
      then have "Q (site, place) = Some (e # q)"
        using False queue [of "(site, place)"] by (auto split: option.splits)
      then show ?thesis using after Cons by (intro fv(2)) auto
    qed
    then have "visit site place t b delay f = (fst (visit site place t drawn delay s), f1)"
      using drawn_v False by simp
    moreover have "is_forced f1 \<and> s_counts f1 = s_counts s'"
      by (simp add: is_forced_def f1_def s'_def Cons.prems(3) Q)
    moreover have "queue_at f1 sp = at_site sp (recorded (fst (visits vs s')))" for sp
      using queue [of sp] False by (simp add: queue_at_def f1_def Q)
    ultimately show ?thesis by blast
  qed
  then obtain f' where f': "visit site place t b delay f = (fst (visit site place t drawn delay s), f')"
      "is_forced f'" "s_counts f' = s_counts s'"
      "\<forall>sp. queue_at f' sp = at_site sp (recorded (fst (visits vs s')))" by blast
  have "fst (visits ws' f') = fst (visits vs s')"
    by (rule Cons.IH [OF s' f'(2,3) times(1,2) counts f'(4) ws(3)])
  then show ?case by (simp add: v ws f'(1) drawn_v case_prod_unfold Let_def)
qed simp

section \<open>A forced run\<close>

lemma forced_visit_fires:
  assumes "is_forced f"
  shows "d_fire (fst (visit site place t drawn delay f)) \<longleftrightarrow>
      (case queue_at f (site, place) of [] \<Rightarrow> False
       | e # _ \<Rightarrow> forced_key e \<le> (t, next_count (s_counts f) (site, place) t))"
    and "is_forced (snd (visit site place t drawn delay f))"
    and "key_site (d_key (fst (visit site place t drawn delay f))) = site"
    and "key_place (d_key (fst (visit site place t drawn delay f))) = place"
    and "queue_at (snd (visit site place t drawn delay f)) sp =
      (if sp = (site, place) \<and> d_fire (fst (visit site place t drawn delay f))
       then tl (queue_at f sp) else queue_at f sp)"
    and "key_t (d_key (fst (visit site place t drawn delay f))) = t"
    and "key_k (d_key (fst (visit site place t drawn delay f))) =
      next_count (s_counts f) (site, place) t"
  using assms
  by (auto simp: visit_def Let_def is_forced_def queue_at_def forced_key_def
      split: option.splits list.splits)

definition fired_at :: "site \<times> u64 \<Rightarrow> decision list \<Rightarrow> decision list" where
  "fired_at sp ds = filter (\<lambda>d. d_fire d \<and> (key_site (d_key d), key_place (d_key d)) = sp) ds"

definition due_by :: "forced \<Rightarrow> decision \<Rightarrow> bool" where
  "due_by e d \<longleftrightarrow> forced_key e \<le> (key_t (d_key d), key_k (d_key d))"

lemma forced_run:
  assumes "is_forced f"
  shows "is_forced (snd (visits vs f)) \<and>
    (\<exists>used. queue_at f sp = used @ queue_at (snd (visits vs f)) sp \<and>
       list_all2 due_by used (fired_at sp (fst (visits vs f))))"
  using assms
proof (induction vs arbitrary: f)
  case (Cons v vs)
  obtain site place t drawn delay where v: "v = (site, place, t, drawn, delay)" by (cases v) auto
  define d where "d = fst (visit site place t drawn delay f)"
  define f1 where "f1 = snd (visit site place t drawn delay f)"
  note facts = forced_visit_fires [OF Cons.prems, of site place t drawn delay, folded d_def f1_def]
  have run: "fst (visits (v # vs) f) = d # fst (visits vs f1)"
    "snd (visits (v # vs) f) = snd (visits vs f1)"
    by (simp_all add: v d_def f1_def split: prod.splits)
  from Cons.IH [OF facts(2)] obtain used where used:
    "is_forced (snd (visits vs f1))" "queue_at f1 sp = used @ queue_at (snd (visits vs f1)) sp"
    "list_all2 due_by used (fired_at sp (fst (visits vs f1)))" by blast
  show ?case
  proof (cases "d_fire d \<and> (site, place) = sp")
    case True
    then obtain e q where e: "queue_at f sp = e # q" "due_by e d"
      using facts(1,6,7) by (cases "queue_at f sp") (auto simp: due_by_def)
    then have "queue_at f1 sp = q" using facts(5) [of sp] True by simp
    moreover have "fired_at sp (d # fst (visits vs f1)) = d # fired_at sp (fst (visits vs f1))"
      using True facts(3,4) by (simp add: fired_at_def)
    ultimately have "queue_at f sp = (e # used) @ queue_at (snd (visits vs f1)) sp \<and>
        list_all2 due_by (e # used) (fired_at sp (fst (visits (v # vs) f)))"
      using e used by (simp add: run)
    then show ?thesis using used(1) unfolding run(2) by blast
  next
    case False
    then have "queue_at f1 sp = queue_at f sp" using facts(5) [of sp] by auto
    moreover have "fired_at sp (d # fst (visits vs f1)) = fired_at sp (fst (visits vs f1))"
      using False facts(3,4) by (auto simp: fired_at_def)
    ultimately show ?thesis using used unfolding run by metis
  qed
qed (simp add: fired_at_def)

section \<open>Places\<close>

lemma split_once_append: "c \<notin> set a \<Longrightarrow> split_once c (a @ c # b) = Some (a, b)"
  by (induction a) auto

lemma split_once_sound: "split_once c s = Some (a, b) \<Longrightarrow> s = a @ c # b \<and> c \<notin> set a"
  by (induction c s arbitrary: a b rule: split_once.induct) (auto split: if_splits option.splits)

lemma small_bit:
  fixes a n :: nat
  assumes "a < 2 ^ 32" and "bit a n"
  shows "n < 32"
proof -
  have "take_bit 32 a = a" using assms(1) by (simp add: take_bit_nat_eq_self)
  then show ?thesis using assms(2) by (metis bit_take_bit_iff)
qed

lemma link_place_bits:
  assumes "a < 2 ^ 32" and "b < 2 ^ 32"
  shows "unat (drop_bit 32 (link_place a b)) = a" and "unat (link_place a b AND 0xffffffff) = b"
proof -
  have "drop_bit 32 (link_place a b) = of_nat a"
    by (rule bit_word_eqI)
      (auto simp: link_place_def bit_simps dest: small_bit [OF assms(1)] small_bit [OF assms(2)])
  then show "unat (drop_bit 32 (link_place a b)) = a"
    using assms(1) by (simp add: unat_of_nat)
  have mask: "(0xffffffff :: u64) = mask 32" by (simp add: mask_eq_exp_minus_1)
  have "link_place a b AND 0xffffffff = of_nat b"
    unfolding mask
    by (rule bit_word_eqI) (auto simp: link_place_def bit_simps dest: small_bit [OF assms(2)])
  then show "unat (link_place a b AND 0xffffffff) = b"
    using assms(2) by (simp add: unat_of_nat)
qed

lemma link_place_inj:
  "a < 2 ^ 32 \<Longrightarrow> b < 2 ^ 32 \<Longrightarrow> a' < 2 ^ 32 \<Longrightarrow> b' < 2 ^ 32 \<Longrightarrow>
    link_place a b = link_place a' b' \<longleftrightarrow> a = a' \<and> b = b'"
  by (metis link_place_bits)

section \<open>Properties\<close>

text \<open>C9: replay. A run forced by the plan its own recording left makes the same decisions, visit for
  visit and key for key, whatever the seed draws this time. The times of a run never go back.\<close>

theorem plan_replay_exact:
  assumes "sorted (map call_time vs)" and "list_all2 same_call vs ws"
  shows "fst (visits ws (sites_forced (recorded (fst (visits vs sites_drawn))))) =
    fst (visits vs sites_drawn)"
proof (rule replay_visits)
  let ?r = "recorded (fst (visits vs sites_drawn))"
  show drawn: "s_forced sites_drawn = None" by (simp add: sites_drawn_def)
  show "is_forced (sites_forced ?r)" "s_counts (sites_forced ?r) = s_counts sites_drawn"
    by (simp_all add: is_forced_def sites_forced_def sites_drawn_def)
  show "\<forall>v \<in> set vs. 0 \<le> call_time v" by simp
  show counts: "\<forall>sp t' c. s_counts sites_drawn sp = Some (t', c) \<longrightarrow> t' \<le> 0"
    by (simp add: sites_drawn_def)
  have "sorted (map forced_key (at_site sp ?r))" for sp
    using recorded_after [OF drawn assms(1) _ counts, of sp] by simp
  then have "sort_key forced_key (at_site sp ?r) = at_site sp ?r" for sp
    by (rule sort_key_id_if_sorted)
  then show "\<forall>sp. queue_at (sites_forced ?r) sp = at_site sp ?r"
    by (simp add: queue_at_def sites_forced_queue)
qed (use assms in auto)

theorem plan_replay_exact_witness:
  "let vs = [(LossSite, 3, 1, True, None), (CrashCall, 2, 4, True, Some 9), (LossSite, 3, 4, False, None)];
       ws = [(LossSite, 3, 1, False, None), (CrashCall, 2, 4, True, Some 9), (LossSite, 3, 4, True, None)] in
   fst (visits ws (sites_forced (recorded (fst (visits vs sites_drawn))))) =
     fst (visits vs sites_drawn) \<and>
   map d_fire (fst (visits vs sites_drawn)) = [True, True, False]"
  using plan_replay_exact [of
      "[(LossSite, 3, 1, True, None), (CrashCall, 2, 4, True, Some 9), (LossSite, 3, 4, False, None)]"
      "[(LossSite, 3, 1, False, None), (CrashCall, 2, 4, True, Some 9), (LossSite, 3, 4, True, None)]"]
  by (simp add: Let_def same_call_def)
     (simp add: visit_def sites_drawn_def Let_def next_count_def)

text \<open>a forced run fires the plan and nothing else. At every site and place the faults that fire
  use up the plan's entries there in (t, k) order, each entry at most once and never on a visit before
  its own; and a later visit fires exactly when the next unused entry is at or before it.\<close>

theorem plan_forced_exact:
  fixes es vs and f
  defines "f \<equiv> snd (visits vs (sites_forced es))"
  shows "(\<exists>used. sort_key forced_key (at_site sp es) = used @ queue_at f sp \<and>
      list_all2 due_by used (fired_at sp (fst (visits vs (sites_forced es))))) \<and>
    (d_fire (fst (visit site place t drawn delay f)) \<longleftrightarrow>
      (case queue_at f (site, place) of [] \<Rightarrow> False
       | e # _ \<Rightarrow> forced_key e \<le> (t, next_count (s_counts f) (site, place) t)))"
proof -
  have forced: "is_forced (sites_forced es)" by (simp add: is_forced_def sites_forced_def)
  have queue: "queue_at (sites_forced es) sp = sort_key forced_key (at_site sp es)"
    by (simp add: queue_at_def sites_forced_queue)
  have "is_forced f" unfolding f_def using forced_run [OF forced] by blast
  from forced_visit_fires(1) [OF this, of site place t drawn delay]
    forced_run [OF forced, of vs sp, unfolded queue, folded f_def]
  show ?thesis by blast
qed

text \<open>C39: a plan file names what the run recorded. A site's name reads back as the site and no other
  string does; a place's name reads back as the place when node names are distinct, hold no '>' and
  nodes are numbered below 2 ^ 32.\<close>

theorem plan_names_roundtrip:
  assumes "\<And>n. n < nodes \<Longrightarrow> node (node_name n) = Some n"
    and "\<And>n. n < nodes \<Longrightarrow> CHR ''>'' \<notin> set (node_name n)"
    and "nodes \<le> 2 ^ 32" and "a < nodes" and "b < nodes"
  shows "(site_from_name nm = Some site \<longleftrightarrow> nm = site_name site) \<and>
    (let place = (if link_site site then link_place a b else of_nat a) in
       place_of site (place_name site place node_name) node = Some place)"
proof -
  have "site_from_name (site_name site) = Some site"
    by (cases site) (simp_all add: site_from_name_def)
  moreover have "site_from_name nm = Some site \<Longrightarrow> nm = site_name site"
    by (auto simp: site_from_name_def split: if_splits)
  moreover have "unat (of_nat a :: u64) = a" using assms by (simp add: unat_of_nat)
  moreover have "split_once (CHR ''>'') (node_name a @ CHR ''>'' # node_name b) =
      Some (node_name a, node_name b)"
    using assms by (intro split_once_append) simp
  ultimately show ?thesis
    using assms link_place_bits [of a b] by (auto simp: place_of_def place_name_def Let_def)
qed

theorem plan_names_roundtrip_witness:
  "place_of LossSite (place_name LossSite (link_place 1 0) (\<lambda>n. if n = 0 then ''kv'' else ''c1''))
     (\<lambda>s. if s = ''kv'' then Some 0 else if s = ''c1'' then Some 1 else None) = Some (link_place 1 0)"
proof -
  let ?node = "\<lambda>s. if s = ''kv'' then Some 0 else if s = ''c1'' then Some 1 else None"
  let ?name = "\<lambda>n :: nat. if n = 0 then ''kv'' else ''c1''"
  have "(site_from_name ''loss'' = Some LossSite \<longleftrightarrow> ''loss'' = site_name LossSite) \<and>
      (let place = (if link_site LossSite then link_place 1 0 else of_nat 1) in
         place_of LossSite (place_name LossSite place ?name) ?node = Some place)"
    by (rule plan_names_roundtrip [of 2]) (auto split: if_splits)
  then show ?thesis by (simp add: link_site_def Let_def)
qed

end
