(* ===== verification/Net.thy ===== *)
theory Net
  imports Plan
begin

text \<open>
  The simulated network (\<open>src/sim/net.rs\<close>): links with a latency range, loss and duplication,
  partitions, and what happens to one message. Every message takes the same four draws from the
  generator keyed by its link, its instant and its number there, which is what isolates one
  message's fate from another's.
\<close>

section \<open>Links\<close>

record link =
  l_latency :: "nat \<times> nat"
  l_loss :: f64
  l_dup :: f64

definition link_default :: link where
  "link_default = \<lparr>l_latency = (1, 10), l_loss = f64_zero, l_dup = f64_zero\<rparr>"

datatype link_error = LatencyBackwards nat nat | NotAProbability string f64

text \<open>\<open>(0.0..=1.0).contains(&p) && !p.is_nan()\<close>.\<close>

definition is_probability :: "f64 \<Rightarrow> bool" where
  "is_probability p \<longleftrightarrow> f64_le f64_zero p \<and> f64_le p f64_one \<and> \<not> is_nan p"

fun validate_probs :: "(string \<times> f64) list \<Rightarrow> link_error option" where
  "validate_probs [] = None"
| "validate_probs ((name, p) # ps) =
     (if \<not> is_probability p then Some (NotAProbability name p) else validate_probs ps)"

definition link_validate :: "link \<Rightarrow> link_error option" where
  "link_validate l =
     (if fst (l_latency l) > snd (l_latency l)
      then Some (LatencyBackwards (fst (l_latency l)) (snd (l_latency l)))
      else validate_probs [(''loss'', l_loss l), (''dup'', l_dup l)])"

section \<open>The network\<close>

datatype drop_reason = CutByPartition | LostByLink

fun drop_name :: "drop_reason \<Rightarrow> string" where
  "drop_name CutByPartition = ''partition''"
| "drop_name LostByLink = ''loss''"

datatype transmit_result = Dropped drop_reason | Delivered "nat list"

record net =
  n_default :: link
  n_links :: "((nat \<times> nat) \<times> link) list"
  n_cut :: "(nat \<times> nat) set"
  n_draws :: keyed

definition pair_of :: "nat \<Rightarrow> nat \<Rightarrow> nat \<times> nat" where
  "pair_of a b = (if a \<le> b then (a, b) else (b, a))"

definition net_new :: "u64 \<Rightarrow> link \<Rightarrow> net" where
  "net_new seed dflt = \<lparr>n_default = dflt, n_links = [], n_cut = {}, n_draws = keyed_new seed\<rparr>"

definition set_link :: "nat \<Rightarrow> nat \<Rightarrow> link \<Rightarrow> net \<Rightarrow> net" where
  "set_link a b l n = n\<lparr>n_links := bt_put (pair_of a b) l (n_links n)\<rparr>"

definition net_link :: "net \<Rightarrow> nat \<Rightarrow> nat \<Rightarrow> link" where
  "net_link n a b = (case map_of (n_links n) (pair_of a b) of Some l \<Rightarrow> l | None \<Rightarrow> n_default n)"

definition cut_pair :: "nat \<Rightarrow> nat \<Rightarrow> net \<Rightarrow> net" where
  "cut_pair a b n = (if a \<noteq> b then n\<lparr>n_cut := insert (pair_of a b) (n_cut n)\<rparr> else n)"

definition partition_net :: "nat list \<Rightarrow> nat list \<Rightarrow> net \<Rightarrow> net" where
  "partition_net left right n = fold (\<lambda>a. fold (\<lambda>b. cut_pair a b) right) left n"

definition heal :: "net \<Rightarrow> net" where
  "heal n = n\<lparr>n_cut := {}\<rparr>"

definition is_partitioned :: "net \<Rightarrow> bool" where
  "is_partitioned n \<longleftrightarrow> n_cut n \<noteq> {}"

definition connected :: "net \<Rightarrow> nat \<Rightarrow> nat \<Rightarrow> bool" where
  "connected n a b \<longleftrightarrow> a = b \<or> pair_of a b \<notin> n_cut n"

definition latency :: "rand_lib \<Rightarrow> mix \<Rightarrow> link \<Rightarrow> nat \<times> mix" where
  "latency R r l =
     (let (lo, hi) = l_latency l
      in if lo = hi then (let (_, r') = gen_u64 R r in (lo, r'))
         else gen_range R lo hi r)"

text \<open>\<open>decide\<close> is the plan's closure: it is asked what the link drew and answers what happens; its
  own state \<open>u\<close> is passed through.\<close>

definition transmit_with ::
  "rand_lib \<Rightarrow> (link \<Rightarrow> bool \<Rightarrow> bool \<Rightarrow> 'u \<Rightarrow> (bool \<times> bool) \<times> 'u) \<Rightarrow> nat \<Rightarrow> nat \<Rightarrow> nat \<Rightarrow>
     net \<times> 'u \<Rightarrow> transmit_result \<times> net \<times> 'u" where
  "transmit_with R decide a b t nu =
     (let (n, u) = nu in
      if a = b then (Delivered [0], n, u)
      else
        let l = net_link n a b;
            (r0, draws) = keyed_at (link_place a b) t (n_draws n);
            n' = n\<lparr>n_draws := draws\<rparr>;
            (x, r1) = gen_f64 R r0;
            lost = f64_lt x (l_loss l);
            (first, r2) = latency R r1 l;
            (y, r3) = gen_f64 R r2;
            dup = f64_lt y (l_dup l);
            (second, r4) = latency R r3 l
        in if \<not> connected n' a b then (Dropped CutByPartition, n', u)
           else
             let ((lost, dup), u') = decide l lost dup u
             in if lost then (Dropped LostByLink, n', u')
                else if dup then (Delivered [first, second], n', u')
                else (Delivered [first], n', u'))"

definition transmit :: "rand_lib \<Rightarrow> nat \<Rightarrow> nat \<Rightarrow> nat \<Rightarrow> net \<Rightarrow> transmit_result \<times> net" where
  "transmit R a b t n =
     (let (res, n', _) = transmit_with R (\<lambda>_ lost dup u. ((lost, dup), u)) a b t (n, ()) in (res, n'))"

section \<open>Partitions\<close>

lemma pair_of_commute: "pair_of a b = pair_of b a"
  by (simp add: pair_of_def)

lemma pair_of_eq: "pair_of a b = pair_of c d \<longleftrightarrow> (a = c \<and> b = d) \<or> (a = d \<and> b = c)"
  by (auto simp: pair_of_def)

lemma cut_pair_fields [simp, frame_simps]:
  "n_links (cut_pair a b n) = n_links n" "n_draws (cut_pair a b n) = n_draws n"
  "n_default (cut_pair a b n) = n_default n"
  "n_cut (cut_pair a b n) = (if a \<noteq> b then {pair_of a b} else {}) \<union> n_cut n"
  by (simp_all add: cut_pair_def)

lemma cut_row [simp, frame_simps]:
  "n_links (fold (\<lambda>b. cut_pair a b) right n) = n_links n"
  "n_draws (fold (\<lambda>b. cut_pair a b) right n) = n_draws n"
  "n_default (fold (\<lambda>b. cut_pair a b) right n) = n_default n"
  "n_cut (fold (\<lambda>b. cut_pair a b) right n) =
     n_cut n \<union> {pair_of a b | b. b \<in> set right \<and> a \<noteq> b}"
  by (induction right arbitrary: n) auto

lemma partition_fields [simp, frame_simps]:
  "n_links (partition_net left right n) = n_links n"
  "n_draws (partition_net left right n) = n_draws n"
  "n_default (partition_net left right n) = n_default n"
  "n_cut (partition_net left right n) =
     n_cut n \<union> {pair_of a b | a b. a \<in> set left \<and> b \<in> set right \<and> a \<noteq> b}"
  unfolding partition_net_def by (induction left arbitrary: n) auto

section \<open>One message\<close>

text \<open>What a message draws: lost, first latency, duplicated, second latency.\<close>

definition message_draws :: "rand_lib \<Rightarrow> link \<Rightarrow> mix \<Rightarrow> bool \<times> nat \<times> bool \<times> nat" where
  "message_draws R l r0 =
     (let (x, r1) = gen_f64 R r0; (first, r2) = latency R r1 l;
          (y, r3) = gen_f64 R r2; (second, r4) = latency R r3 l
      in (f64_lt x (l_loss l), first, f64_lt y (l_dup l), second))"

definition message_outcome :: "rand_lib \<Rightarrow> bool \<Rightarrow> link \<Rightarrow> mix \<Rightarrow> transmit_result" where
  "message_outcome R linked l r =
     (case message_draws R l r of (lost, first, dup, second) \<Rightarrow>
        if \<not> linked then Dropped CutByPartition
        else if lost then Dropped LostByLink
        else if dup then Delivered [first, second] else Delivered [first])"

lemma transmit_outcome:
  "transmit R a b t n =
     (if a = b then (Delivered [0], n)
      else (message_outcome R (connected n a b) (net_link n a b)
              (fst (keyed_at (link_place a b) t (n_draws n))),
            n\<lparr>n_draws := snd (keyed_at (link_place a b) t (n_draws n))\<rparr>))"
  by (simp add: transmit_def transmit_with_def message_outcome_def message_draws_def connected_def
      Let_def case_prod_unfold)

lemma latency_bounds:
  assumes "rand_in_range R" and "fst (l_latency l) \<le> snd (l_latency l)"
  shows "fst (l_latency l) \<le> fst (latency R r l)" and "fst (latency R r l) \<le> snd (l_latency l)"
  using assms by (simp_all add: latency_def rand_in_range_def case_prod_unfold Let_def)

section \<open>The network as a machine\<close>

datatype net_op =
  SetLink nat nat link | Partition "nat list" "nat list" | Heal | Send nat nat nat

fun net_step :: "rand_lib \<Rightarrow> net_op \<Rightarrow> net \<Rightarrow> net" where
  "net_step R (SetLink a b l) n = set_link a b l n"
| "net_step R (Partition left right) n = partition_net left right n"
| "net_step R Heal n = heal n"
| "net_step R (Send a b t) n = snd (transmit R a b t n)"

text \<open>The keys of the sends in a history (a loopback takes no draw).\<close>

fun sends :: "net_op list \<Rightarrow> (u64 \<times> nat) list" where
  "sends [] = []"
| "sends (Send a b t # ops) = (if a = b then [] else [(link_place a b, t)]) @ sends ops"
| "sends (_ # ops) = sends ops"

lemma net_run_draws: "n_draws (run_ops (net_step R) ops n) = snd (keyed_run (sends ops) (n_draws n))"
proof (induction ops arbitrary: n rule: sends.induct)
  case (2 a b t ops)
  then show ?case by (simp add: transmit_outcome Let_def case_prod_unfold)
qed (simp_all add: set_link_def heal_def)

lemma keyed_run_seed [simp]: "k_seed (snd (keyed_run vs d)) = k_seed d"
  by (induction vs arbitrary: d) (auto simp: Let_def case_prod_unfold)

lemma keyed_run_next_count:
  assumes "sorted (map snd vs)" and "\<forall>v \<in> set vs. t0 \<le> snd v \<and> snd v \<le> t"
    and "\<forall>q c u. k_counts d q = Some (u, c) \<longrightarrow> u \<le> t0"
  shows "next_count (k_counts (snd (keyed_run vs d))) p t =
    next_count (k_counts d) p t + length (filter (\<lambda>v. v = (p, t)) vs)"
  using assms
proof (induction vs arbitrary: d t0)
  case (Cons v vs)
  obtain q u where v: "v = (q, u)" by fastforce
  define d' where "d' = snd (keyed_at q u d)"
  have times: "sorted (map snd vs)" "\<forall>w \<in> set vs. u \<le> snd w \<and> snd w \<le> t" "t0 \<le> u" "u \<le> t"
    using Cons.prems v by auto
  have counts: "\<forall>q' c w. k_counts d' q' = Some (w, c) \<longrightarrow> w \<le> u"
    using Cons.prems(3) times(3) by (fastforce simp: d'_def keyed_at_def Let_def split: if_splits)
  have "next_count (k_counts d) p t = 0" if "u < t"
    using Cons.prems(3) times(3) that by (fastforce simp: next_count_def split: option.splits)
  then have "next_count (k_counts d') p t =
      next_count (k_counts d) p t + (if (q, u) = (p, t) then 1 else 0)"
    using times(4) by (auto simp: d'_def keyed_at_count)
  then show ?case
    using Cons.IH [OF times(1,2) counts] by (simp add: v d'_def Let_def case_prod_unfold)
qed simp

lemma net_draw_after:
  assumes "sorted (map snd (sends ops))" and "\<forall>v \<in> set (sends ops). snd v \<le> t"
    and "n = run_ops (net_step R) ops (net_new seed dflt)"
  shows "fst (keyed_at p t (n_draws n)) =
    draw_key seed p t (length (filter (\<lambda>v. v = (p, t)) (sends ops)))"
  using keyed_run_next_count [of "sends ops" 0 t "keyed_new seed" p] assms
  by (simp add: net_run_draws net_new_def keyed_at_def Let_def)
     (simp add: keyed_new_def next_count_def)

section \<open>Properties\<close>

text \<open>C10: faults are isolated. In two histories of one network seed, whatever links they set, what
  they cut, healed or sent elsewhere, a message from \<open>a\<close> to \<open>b\<close> at the instant \<open>t\<close> meets the same
  fate when its link and its being cut off are the same then and it is as many-th of its link in
  that instant.\<close>

theorem net_isolation:
  assumes "n = run_ops (net_step R) ops (net_new seed dflt)"
    and "n' = run_ops (net_step R) ops' (net_new seed dflt')"
    and "sorted (map snd (sends ops))" and "\<forall>v \<in> set (sends ops). snd v \<le> t"
    and "sorted (map snd (sends ops'))" and "\<forall>v \<in> set (sends ops'). snd v \<le> t"
    and "length (filter (\<lambda>v. v = (link_place a b, t)) (sends ops)) =
         length (filter (\<lambda>v. v = (link_place a b, t)) (sends ops'))"
    and "net_link n a b = net_link n' a b" and "connected n a b = connected n' a b"
  shows "fst (transmit R a b t n) = fst (transmit R a b t n')"
  using net_draw_after [OF assms(3,4,1)] net_draw_after [OF assms(5,6,2)] assms(7-9)
  by (simp add: transmit_outcome)

theorem net_isolation_witness:
  "fst (transmit mod_rand 1 2 7 (run_ops (net_step mod_rand)
       [Send 1 2 3, Partition [1] [3], Send 3 1 7] (net_new 5 link_default))) =
   fst (transmit mod_rand 1 2 7 (run_ops (net_step mod_rand) [Send 2 1 7] (net_new 5 link_default)))"
proof (rule net_isolation [OF refl refl])
  show "net_link (run_ops (net_step mod_rand) [Send 1 2 3, Partition [1] [3], Send 3 1 7]
      (net_new 5 link_default)) 1 2 =
    net_link (run_ops (net_step mod_rand) [Send 2 1 7] (net_new 5 link_default)) 1 2"
    "connected (run_ops (net_step mod_rand) [Send 1 2 3, Partition [1] [3], Send 3 1 7]
      (net_new 5 link_default)) 1 2 =
    connected (run_ops (net_step mod_rand) [Send 2 1 7] (net_new 5 link_default)) 1 2"
    by (simp_all add: transmit_outcome net_link_def connected_def net_new_def pair_of_eq)
qed (simp_all add: link_place_def)

text \<open>what a link may do. A message between two nodes arrives at most twice, each copy within the
  link's latency range; it is dropped for a partition exactly when its ends are cut off from each
  other, and a loopback always arrives at once.\<close>

theorem net_transmit_bounds:
  assumes "rand_in_range R" and "link_validate (net_link n a b) = None"
  shows "(case fst (transmit R a b t n) of
      Delivered ds \<Rightarrow> connected n a b \<and>
        (if a = b then ds = [0]
         else length ds \<in> {1, 2} \<and>
           (\<forall>d \<in> set ds. fst (l_latency (net_link n a b)) \<le> d \<and> d \<le> snd (l_latency (net_link n a b))))
    | Dropped CutByPartition \<Rightarrow> \<not> connected n a b
    | Dropped LostByLink \<Rightarrow> connected n a b \<and> a \<noteq> b)"
proof -
  have "fst (l_latency (net_link n a b)) \<le> snd (l_latency (net_link n a b))"
    using assms(2) by (simp add: link_validate_def split: if_splits)
  note bounds = latency_bounds [OF assms(1) this]
  show ?thesis
    by (auto simp: transmit_outcome message_outcome_def message_draws_def case_prod_unfold Let_def
        connected_def bounds)
qed

theorem net_transmit_bounds_witness:
  "link_validate link_default = None \<and>
   fst (transmit mod_rand 1 2 7 (net_new 5 link_default)) \<noteq> Dropped CutByPartition"
proof -
  have ok: "link_validate link_default = None" by code_simp
  have "link_validate (net_link (net_new 5 link_default) 1 2) = None"
    using ok by (simp add: net_link_def net_new_def)
  from net_transmit_bounds [OF mod_rand_in_range this, of 7] ok show ?thesis
    by (auto simp: connected_def net_new_def split: transmit_result.splits drop_reason.splits)
qed

text \<open>partitions cut exactly what they name. After a partition two nodes are connected when they
  were before and are not on its two sides (a node always reaches itself); after a heal every pair is
  connected; links and draws are untouched by either.\<close>

theorem net_partition_exact:
  "(connected (partition_net left right n) a b \<longleftrightarrow>
     connected n a b \<and>
     \<not> (a \<noteq> b \<and> (a \<in> set left \<and> b \<in> set right \<or> b \<in> set left \<and> a \<in> set right))) \<and>
   connected (heal n) a b \<and>
   net_link (partition_net left right n) = net_link n \<and> net_link (heal n) = net_link n \<and>
   n_draws (partition_net left right n) = n_draws n \<and> n_draws (heal n) = n_draws n"
  by (auto simp: connected_def heal_def pair_of_eq net_link_def fun_eq_iff split: option.splits)

text \<open>Links are symmetric and independent. Setting the link of two nodes sets it for both
  directions and leaves every other pair's as it was.\<close>

theorem net_set_link:
  "net_link (set_link a b l n) c d =
     (if (c = a \<and> d = b) \<or> (c = b \<and> d = a) then l else net_link n c d)"
  using pair_of_eq [of c d a b] by (auto simp: net_link_def set_link_def store_simps split: option.splits)

end
