(* ===== verification/Disk.thy ===== *)
theory Disk
  imports Draws
begin

text \<open>
  A node's simulated disk (\<open>src/sim/disk.rs\<close>): inodes with current bytes, durable bytes and the
  writes made since the last sync; two namespaces; sync, crash (with torn writes) and kill. A
  \<open>BTreeMap\<close> is a key-sorted association list, \<open>Result\<close> with an early return is \<open>and_then\<close> over
  the state. The crash's generator is a parameter: \<open>draw\<close> for \<open>random::<f64>()\<close>, \<open>index\<close> for
  \<open>random_range(0..n)\<close>.
\<close>

section \<open>Data\<close>

type_synonym bytes = "8 word list"

definition sector :: nat where
  "sector = 512"

record disk_opts =
  fsync_lies :: f64
  torn_writes :: bool
  full_at :: "nat option"
  slow :: f64

definition disk_opts_default :: disk_opts where
  "disk_opts_default =
     \<lparr>fsync_lies = f64_zero, torn_writes = False, full_at = None, slow = f64_one\<rparr>"

definition disk_opts_validate :: "disk_opts \<Rightarrow> string option" where
  "disk_opts_validate o1 =
     (if \<not> (f64_le f64_zero (fsync_lies o1) \<and> f64_le (fsync_lies o1) f64_one)
      then Some ''`fsync_lies` is a probability in 0..1''
      else if \<not> (is_finite (slow o1) \<and> f64_le f64_zero (slow o1))
      then Some ''`slow` is a non-negative factor''
      else None)"

datatype wop = Write nat bytes | Truncate nat

record inode =
  data :: bytes
  kept :: bytes
  pending :: "wop list"
  modified :: int

definition inode_empty :: inode where
  "inode_empty = \<lparr>data = [], kept = [], pending = [], modified = 0\<rparr>"

text \<open>\<open>Vec::resize(n, 0)\<close>.\<close>

definition resize :: "nat \<Rightarrow> bytes \<Rightarrow> bytes" where
  "resize n b = take n b @ replicate (n - length b) 0"

fun apply_op :: "wop \<Rightarrow> bytes \<Rightarrow> bytes" where
  "apply_op (Write at bs) b =
     (let stop = at + length bs;
          b' = (if length b < stop then resize stop b else b)
      in take at b' @ bs @ drop stop b')"
| "apply_op (Truncate n) b = resize n b"

definition change :: "wop \<Rightarrow> int \<Rightarrow> inode \<Rightarrow> inode" where
  "change op t i = i\<lparr>data := apply_op op (data i), pending := pending i @ [op], modified := t\<rparr>"

datatype dentry = File nat | Dir

record disk_stats =
  st_writes :: nat
  st_syncs :: nat
  st_lies :: nat
  st_lost :: nat
  st_torn :: nat
  st_full :: nat
  st_crashes :: nat

definition stats_zero :: disk_stats where
  "stats_zero = \<lparr>st_writes = 0, st_syncs = 0, st_lies = 0, st_lost = 0, st_torn = 0,
     st_full = 0, st_crashes = 0\<rparr>"

record disk =
  opts :: disk_opts
  inodes :: "(nat \<times> inode) list"
  next_ino :: nat
  names :: "(string \<times> dentry) list"
  durable :: "(string \<times> dentry) list"
  boot :: nat
  stats :: disk_stats

type_synonym 'a disk_res = "(string + 'a) \<times> disk"

definition not_found :: string where "not_found = ''No such file or directory (os error 2)''"
definition file_exists :: string where "file_exists = ''File exists (os error 17)''"
definition not_dir :: string where "not_dir = ''Not a directory (os error 20)''"
definition is_a_dir :: string where "is_a_dir = ''Is a directory (os error 21)''"
definition not_empty :: string where "not_empty = ''Directory not empty (os error 66)''"
definition no_space :: string where "no_space = ''No space left on device (os error 28)''"

section \<open>Paths\<close>

fun norm_parts :: "string list \<Rightarrow> string list \<Rightarrow> string list" where
  "norm_parts acc [] = acc"
| "norm_parts acc (part # rest) =
     (if part = [] \<or> part = ''.'' then norm_parts acc rest
      else if part = ''..'' then norm_parts (butlast acc) rest
      else norm_parts (acc @ [part]) rest)"

definition normalize :: "string \<Rightarrow> string \<Rightarrow> string" where
  "normalize cwd path =
     (let full = (if take 1 path = ''/'' then path else cwd @ ''/'' @ path)
      in ''/'' @ join ''/'' (norm_parts [] (split_on (CHR ''/'') full)))"

definition rfind :: "char \<Rightarrow> string \<Rightarrow> nat option" where
  "rfind c s =
     (if c \<in> set s then Some (length s - 1 - length (takeWhile (\<lambda>x. x \<noteq> c) (rev s))) else None)"

definition parent :: "string \<Rightarrow> string" where
  "parent path =
     (case rfind (CHR ''/'') path of
        None \<Rightarrow> ''/''
      | Some i \<Rightarrow> if i = 0 then ''/'' else take i path)"

definition under :: "string \<Rightarrow> string \<Rightarrow> bool" where
  "under dir path \<longleftrightarrow>
     (if dir = ''/'' then path \<noteq> ''/''
      else length path > length dir \<and> take (length dir) path = dir \<and> path ! length dir = CHR ''/'')"

definition child_of :: "string \<Rightarrow> string \<Rightarrow> bool" where
  "child_of dir path \<longleftrightarrow> under dir path \<and> parent path = dir"

text \<open>\<open>p.rsplit('/').next()\<close>: what follows the last slash.\<close>

definition leaf :: "string \<Rightarrow> string" where
  "leaf path = rev (takeWhile (\<lambda>x. x \<noteq> CHR ''/'') (rev path))"

lemma rfind_less: "rfind c s = Some i \<Longrightarrow> i < length s"
  by (cases s) (auto simp: rfind_def split: if_splits)

lemma parent_root [simp]: "parent ''/'' = ''/''"
  by (simp add: parent_def rfind_def)

lemma parent_shorter: "parent p = ''/'' \<or> length (parent p) < length p"
  by (auto simp: parent_def dest: rfind_less split: option.splits)

text \<open>The directories above a path, nearest first, without the root.\<close>

function dirs_from :: "string \<Rightarrow> string list" where
  "dirs_from dir = (if dir = ''/'' then [] else dir # dirs_from (parent dir))"
  by pat_completeness auto
termination
proof (relation "measure (\<lambda>d. if d = ''/'' then 0 else Suc (length d))", goal_cases)
  case (2 dir)
  then show ?case using parent_shorter [of dir] by auto
qed simp

declare dirs_from.simps [simp del]

section \<open>Reading and writing\<close>

definition disk_new :: "disk_opts \<Rightarrow> disk" where
  "disk_new o1 =
     \<lparr>opts = o1, inodes = [], next_ino = 1, names = [(''/'', Dir)], durable = [(''/'', Dir)],
      boot = 0, stats = stats_zero\<rparr>"

definition put_dirs :: "string list \<Rightarrow> (string \<times> dentry) list \<Rightarrow> (string \<times> dentry) list" where
  "put_dirs ds m = fold (\<lambda>d. bt_put d Dir) ds m"

definition seed_file :: "string \<Rightarrow> bytes \<Rightarrow> disk \<Rightarrow> disk" where
  "seed_file path bs d =
     (let path = normalize ''/'' path;
          dirs = dirs_from (parent path);
          ino = next_ino d
      in d\<lparr>next_ino := ino + 1,
           inodes := bt_put ino (inode_empty\<lparr>kept := bs, data := bs\<rparr>) (inodes d),
           names := bt_put path (File ino) (put_dirs dirs (names d)),
           durable := bt_put path (File ino) (put_dirs dirs (durable d))\<rparr>)"

definition seed_dir :: "string \<Rightarrow> disk \<Rightarrow> disk" where
  "seed_dir path d =
     (let path = normalize ''/'' path
      in d\<lparr>names := bt_put path Dir (names d), durable := bt_put path Dir (durable d)\<rparr>)"

definition dir_entry :: "disk \<Rightarrow> string \<Rightarrow> dentry option" where
  "dir_entry d path = map_of (names d) path"

definition exists_path :: "disk \<Rightarrow> string \<Rightarrow> bool" where
  "exists_path d path \<longleftrightarrow> dir_entry d path \<noteq> None"

definition is_file :: "disk \<Rightarrow> string \<Rightarrow> bool" where
  "is_file d path \<longleftrightarrow> (case dir_entry d path of Some (File _) \<Rightarrow> True | _ \<Rightarrow> False)"

definition is_dir :: "disk \<Rightarrow> string \<Rightarrow> bool" where
  "is_dir d path \<longleftrightarrow> dir_entry d path = Some Dir"

definition file_ino :: "disk \<Rightarrow> string \<Rightarrow> string + nat" where
  "file_ino d path =
     (case dir_entry d path of
        Some (File ino) \<Rightarrow> Inr ino | Some Dir \<Rightarrow> Inl is_a_dir | None \<Rightarrow> Inl not_found)"

definition need_dir :: "disk \<Rightarrow> string \<Rightarrow> string + unit" where
  "need_dir d path =
     (case dir_entry d path of
        Some Dir \<Rightarrow> Inr () | Some (File _) \<Rightarrow> Inl not_dir | None \<Rightarrow> Inl not_found)"

text \<open>\<open>inodes[&ino]\<close> panics when the inode is gone: the outer option.\<close>

definition read :: "disk \<Rightarrow> string \<Rightarrow> (string + bytes) option" where
  "read d path =
     (case file_ino d path of
        Inl e \<Rightarrow> Some (Inl e)
      | Inr ino \<Rightarrow> map_option (\<lambda>i. Inr (data i)) (map_of (inodes d) ino))"

definition used :: "disk \<Rightarrow> nat" where
  "used d = sum_list (map (\<lambda>(_, i). length (data i)) (inodes d))"

definition room_for :: "nat \<Rightarrow> disk \<Rightarrow> unit disk_res" where
  "room_for grow d =
     (case full_at (opts d) of
        Some limit \<Rightarrow>
          if grow > 0 \<and> used d + grow > limit
          then (Inl no_space, d\<lparr>stats := (stats d)\<lparr>st_full := st_full (stats d) + 1\<rparr>\<rparr>)
          else (Inr (), d)
      | None \<Rightarrow> (Inr (), d))"

definition open_file :: "string \<Rightarrow> bool \<Rightarrow> bool \<Rightarrow> disk \<Rightarrow> nat disk_res" where
  "open_file path create exclusive d =
     (case dir_entry d path of
        Some (File ino) \<Rightarrow> if \<not> exclusive then (Inr ino, d) else (Inl file_exists, d)
      | Some Dir \<Rightarrow> (Inl is_a_dir, d)
      | None \<Rightarrow>
          if \<not> create then (Inl not_found, d)
          else (case need_dir d (parent path) of
                  Inl e \<Rightarrow> (Inl e, d)
                | Inr _ \<Rightarrow>
                    let ino = next_ino d
                    in (Inr ino, d\<lparr>next_ino := ino + 1,
                                   inodes := bt_put ino inode_empty (inodes d),
                                   names := bt_put path (File ino) (names d)\<rparr>)))"

definition len_of :: "disk \<Rightarrow> nat \<Rightarrow> nat" where
  "len_of d ino = (case map_of (inodes d) ino of Some i \<Rightarrow> length (data i) | None \<Rightarrow> 0)"

definition modified_at :: "disk \<Rightarrow> string \<Rightarrow> int option option" where
  "modified_at d path =
     (case dir_entry d path of
        None \<Rightarrow> Some None
      | Some Dir \<Rightarrow> Some None
      | Some (File ino) \<Rightarrow> map_option (\<lambda>i. Some (modified i)) (map_of (inodes d) ino))"

text \<open>The bytes \<open>read_at\<close> copies into a buffer of \<open>n\<close> bytes.\<close>

definition read_at :: "disk \<Rightarrow> nat \<Rightarrow> nat \<Rightarrow> nat \<Rightarrow> bytes" where
  "read_at d ino at n =
     (case map_of (inodes d) ino of
        None \<Rightarrow> []
      | Some i \<Rightarrow> if at \<ge> length (data i) then [] else take (min n (length (data i) - at)) (drop at (data i)))"

definition change_ino :: "nat \<Rightarrow> wop \<Rightarrow> int \<Rightarrow> disk \<Rightarrow> unit disk_res" where
  "change_ino ino op t d =
     (case map_of (inodes d) ino of
        None \<Rightarrow> (Inl not_found, d)
      | Some i \<Rightarrow> (Inr (), d\<lparr>inodes := bt_put ino (change op t i) (inodes d),
                            stats := (stats d)\<lparr>st_writes := st_writes (stats d) + 1\<rparr>\<rparr>))"

definition write_at :: "nat \<Rightarrow> nat \<Rightarrow> bytes \<Rightarrow> int \<Rightarrow> disk \<Rightarrow> unit disk_res" where
  "write_at ino at bs t d =
     and_then (room_for (at + length bs - len_of d ino) d) (\<lambda>_. change_ino ino (Write at bs) t)"

definition truncate_ino :: "nat \<Rightarrow> nat \<Rightarrow> int \<Rightarrow> disk \<Rightarrow> unit disk_res" where
  "truncate_ino ino len t d =
     and_then (room_for (len - len_of d ino) d) (\<lambda>_. change_ino ino (Truncate len) t)"

definition write_existing :: "string \<Rightarrow> disk \<Rightarrow> string + nat option" where
  "write_existing path d =
     (case dir_entry d path of
        Some (File ino) \<Rightarrow> Inr (Some ino)
      | Some Dir \<Rightarrow> Inl is_a_dir
      | None \<Rightarrow> (case need_dir d (parent path) of Inl e \<Rightarrow> Inl e | Inr _ \<Rightarrow> Inr None))"

definition write_file :: "string \<Rightarrow> bytes \<Rightarrow> bool \<Rightarrow> int \<Rightarrow> disk \<Rightarrow> unit disk_res" where
  "write_file path bs appending t d =
     (case write_existing path d of
        Inl e \<Rightarrow> (Inl e, d)
      | Inr existing \<Rightarrow>
          let old = (case existing of Some i \<Rightarrow> len_of d i | None \<Rightarrow> 0);
              grow = (if appending then length bs else length bs - old)
          in and_then (room_for grow d) (\<lambda>_ d1.
             and_then (open_file path True False d1) (\<lambda>ino d2.
               if appending then write_at ino old bs t d2
               else and_then (truncate_ino ino 0 t d2) (\<lambda>_. write_at ino 0 bs t))))"

definition list_dir :: "disk \<Rightarrow> string \<Rightarrow> string + string list" where
  "list_dir d dir =
     (case need_dir d dir of
        Inl e \<Rightarrow> Inl e
      | Inr _ \<Rightarrow> Inr (map leaf (filter (child_of dir) (map fst (names d)))))"

definition walk :: "disk \<Rightarrow> string \<Rightarrow> string + string list" where
  "walk d dir =
     (case need_dir d dir of
        Inl e \<Rightarrow> Inl e
      | Inr _ \<Rightarrow> Inr (map fst (filter (\<lambda>(p, e). under dir p \<and> (case e of File _ \<Rightarrow> True | Dir \<Rightarrow> False))
                          (names d))))"

section \<open>Names\<close>

definition mkdir :: "string \<Rightarrow> disk \<Rightarrow> unit disk_res" where
  "mkdir path d =
     (if exists_path d path then (Inl file_exists, d)
      else (case need_dir d (parent path) of
              Inl e \<Rightarrow> (Inl e, d)
            | Inr _ \<Rightarrow> (Inr (), d\<lparr>names := bt_put path Dir (names d)\<rparr>)))"

function mkdir_all :: "string \<Rightarrow> disk \<Rightarrow> unit disk_res" where
  "mkdir_all path d =
     (case dir_entry d path of
        Some Dir \<Rightarrow> (Inr (), d)
      | Some (File _) \<Rightarrow> (Inl file_exists, d)
      | None \<Rightarrow>
          and_then (if path \<noteq> ''/'' then mkdir_all (parent path) d else (Inr (), d))
            (\<lambda>_ d1. (Inr (), d1\<lparr>names := bt_put path Dir (names d1)\<rparr>)))"
  by pat_completeness auto
termination
proof (relation "measure (\<lambda>(p, d). if p = ''/'' then 0 else Suc (length p))", goal_cases)
  case (2 path d)
  then show ?case using parent_shorter [of path] by auto
qed simp

declare mkdir_all.simps [simp del]

text \<open>The inodes a namespace names.\<close>

definition inos :: "(string \<times> dentry) list \<Rightarrow> nat set" where
  "inos m = set (List.map_filter (\<lambda>(_, e). case e of File i \<Rightarrow> Some i | Dir \<Rightarrow> None) m)"

definition forget_unreachable :: "disk \<Rightarrow> disk" where
  "forget_unreachable d =
     (let live = inos (names d) \<union> inos (durable d)
      in d\<lparr>inodes := filter (\<lambda>(i, _). i \<in> live) (inodes d)\<rparr>)"

definition unlink :: "string \<Rightarrow> disk \<Rightarrow> unit disk_res" where
  "unlink path d =
     (case file_ino d path of
        Inl e \<Rightarrow> (Inl e, d)
      | Inr _ \<Rightarrow> (Inr (), forget_unreachable (d\<lparr>names := del_key path (names d)\<rparr>)))"

definition rmdir :: "string \<Rightarrow> disk \<Rightarrow> unit disk_res" where
  "rmdir path d =
     (case need_dir d path of
        Inl e \<Rightarrow> (Inl e, d)
      | Inr _ \<Rightarrow>
          if path = ''/'' \<or> list_ex (under path) (map fst (names d)) then (Inl not_empty, d)
          else (Inr (), d\<lparr>names := del_key path (names d)\<rparr>))"

text \<open>\<open>retain(|p, _| p != path && !under(path, p))\<close>.\<close>

definition drop_tree :: "string \<Rightarrow> (string \<times> dentry) list \<Rightarrow> (string \<times> dentry) list" where
  "drop_tree path m = filter (\<lambda>(p, _). p \<noteq> path \<and> \<not> under path p) m"

definition rmdir_all :: "string \<Rightarrow> disk \<Rightarrow> unit disk_res" where
  "rmdir_all path d =
     (case need_dir d path of
        Inl e \<Rightarrow> (Inl e, d)
      | Inr _ \<Rightarrow>
          if path = ''/'' then (Inl ''refusing to remove the root'', d)
          else (Inr (), forget_unreachable (d\<lparr>names := drop_tree path (names d)\<rparr>)))"

definition put_all :: "(string \<times> dentry) list \<Rightarrow> (string \<times> dentry) list \<Rightarrow> (string \<times> dentry) list"
where
  "put_all kvs m = fold (\<lambda>(p, e). bt_put p e) kvs m"

definition moved_tree :: "string \<Rightarrow> string \<Rightarrow> (string \<times> dentry) list \<Rightarrow> (string \<times> dentry) list" where
  "moved_tree src dst m =
     map (\<lambda>(p, e). (dst @ drop (length src) p, e)) (filter (\<lambda>(p, _). p = src \<or> under src p) m)"

definition rename_blocked :: "dentry \<Rightarrow> string \<Rightarrow> disk \<Rightarrow> string option" where
  "rename_blocked e dst d =
     (case (e, dir_entry d dst) of
        (File _, Some Dir) \<Rightarrow> Some is_a_dir
      | (Dir, Some (File _)) \<Rightarrow> Some not_dir
      | (Dir, Some Dir) \<Rightarrow> if list_ex (under dst) (map fst (names d)) then Some not_empty else None
      | _ \<Rightarrow> None)"

definition rename :: "string \<Rightarrow> string \<Rightarrow> disk \<Rightarrow> unit disk_res" where
  "rename src dst d =
     (case dir_entry d src of
        None \<Rightarrow> (Inl not_found, d)
      | Some e \<Rightarrow>
          if src = dst then (Inr (), d)
          else (case need_dir d (parent dst) of
                  Inl err \<Rightarrow> (Inl err, d)
                | Inr _ \<Rightarrow>
                    (case rename_blocked e dst d of
                       Some err \<Rightarrow> (Inl err, d)
                     | None \<Rightarrow>
                         if e = Dir \<and> under src dst
                         then (Inl ''Invalid argument (os error 22)'', d)
                         else (Inr (), forget_unreachable (d\<lparr>names :=
                                put_all (moved_tree src dst (names d)) (drop_tree src (names d))\<rparr>)))))"

text \<open>A panic of \<open>read\<close> would be None; \<open>disk_inv\<close> rules it out.\<close>

definition copy_file :: "string \<Rightarrow> string \<Rightarrow> int \<Rightarrow> disk \<Rightarrow> unit disk_res option" where
  "copy_file src dst t d =
     (case read d src of
        None \<Rightarrow> None
      | Some (Inl e) \<Rightarrow> Some (Inl e, d)
      | Some (Inr bs) \<Rightarrow> Some (write_file dst bs False t d))"

section \<open>Sync and crash\<close>

text \<open>The entry of \<open>path\<close> and every directory above it, to the durable namespace.\<close>

definition persist_entry :: "string \<Rightarrow> disk \<Rightarrow> disk" where
  "persist_entry path d =
     d\<lparr>durable :=
        bt_put ''/'' Dir (put_dirs (dirs_from (parent path))
          (case dir_entry d path of Some e \<Rightarrow> bt_put path e (durable d) | None \<Rightarrow> durable d))\<rparr>"

definition flush :: "inode \<Rightarrow> inode" where
  "flush i = i\<lparr>kept := fold apply_op (pending i) (kept i), pending := []\<rparr>"

definition sync_ino :: "nat \<Rightarrow> string option \<Rightarrow> bool \<Rightarrow> disk \<Rightarrow> disk" where
  "sync_ino ino path lie d =
     (let d = d\<lparr>stats := (stats d)\<lparr>st_syncs := st_syncs (stats d) + 1\<rparr>\<rparr>
      in if lie then d\<lparr>stats := (stats d)\<lparr>st_lies := st_lies (stats d) + 1\<rparr>\<rparr>
         else
           let d1 = (case map_of (inodes d) ino of
                       Some i \<Rightarrow> d\<lparr>inodes := bt_put ino (flush i) (inodes d)\<rparr>
                     | None \<Rightarrow> d)
           in (case path of
                 Some p \<Rightarrow> if dir_entry d1 p = Some (File ino) then persist_entry p d1 else d1
               | None \<Rightarrow> d1))"

definition sync_dir :: "string \<Rightarrow> bool \<Rightarrow> disk \<Rightarrow> disk" where
  "sync_dir dir lie d =
     (let d = d\<lparr>stats := (stats d)\<lparr>st_syncs := st_syncs (stats d) + 1\<rparr>\<rparr>
      in if lie then d\<lparr>stats := (stats d)\<lparr>st_lies := st_lies (stats d) + 1\<rparr>\<rparr>
         else
           let gone = filter (\<lambda>p. child_of dir p \<and> map_of (names d) p = None) (map fst (durable d));
               here = filter (\<lambda>(p, _). child_of dir p) (names d);
               d1 = d\<lparr>durable := put_all here (fold drop_tree gone (durable d))\<rparr>;
               d2 = (if is_dir d1 dir then persist_entry dir d1 else d1)
           in forget_unreachable d2)"

definition sync :: "string \<Rightarrow> bool \<Rightarrow> disk \<Rightarrow> unit disk_res" where
  "sync path lie d =
     (case dir_entry d path of
        None \<Rightarrow> (Inl not_found, d)
      | Some (File ino) \<Rightarrow> (Inr (), sync_ino ino (Some path) lie d)
      | Some Dir \<Rightarrow> (Inr (), sync_dir path lie d))"

definition dirty :: "disk \<Rightarrow> bool" where
  "dirty d \<longleftrightarrow> names d \<noteq> durable d \<or> list_ex (\<lambda>(_, i). pending i \<noteq> []) (inodes d)"

record 'g rng =
  draw_f64 :: "'g \<Rightarrow> f64 \<times> 'g"
  draw_index :: "nat \<Rightarrow> 'g \<Rightarrow> nat \<times> 'g"

text \<open>The sector boundaries a write can be torn at.\<close>

function bounds_from :: "nat \<Rightarrow> nat \<Rightarrow> nat list" where
  "bounds_from b stop = (if b < stop then b # bounds_from (b + sector) stop else [])"
  by pat_completeness auto
termination
  by (relation "measure (\<lambda>(b, stop). stop - b)") (auto simp: sector_def)

declare bounds_from.simps [simp del]

definition one_third :: f64 where "one_third = f64_div (of_i64 1) (of_i64 3)"
definition two_thirds :: f64 where "two_thirds = f64_div (of_i64 2) (of_i64 3)"

record tally =
  t_lost :: nat
  t_torn :: nat
  t_kept :: nat

text \<open>One pending write in a crash: what it leaves of the bytes, and the count it goes to.\<close>

definition crash_op ::
  "'g rng \<Rightarrow> bool \<Rightarrow> wop \<Rightarrow> bytes \<times> tally \<times> 'g \<Rightarrow> bytes \<times> tally \<times> 'g" where
  "crash_op r torn op s =
     (let (b, c, g) = s in
      if \<not> torn then (b, c\<lparr>t_lost := t_lost c + 1\<rparr>, g)
      else
        let (x, g1) = draw_f64 r g in
        if f64_lt x one_third then (b, c\<lparr>t_lost := t_lost c + 1\<rparr>, g1)
        else if f64_lt x two_thirds then (apply_op op b, c\<lparr>t_kept := t_kept c + 1\<rparr>, g1)
        else
          (case op of
             Write at bs \<Rightarrow>
               let stop = at + length bs;
                   first = (at div sector + 1) * sector;
                   bounds = bounds_from first stop
               in if bounds = [] then (b, c\<lparr>t_lost := t_lost c + 1\<rparr>, g1)
                  else
                    let (k, g2) = draw_index r (length bounds) g1;
                        part = Write at (take (bounds ! k - at) bs)
                    in (apply_op part b, c\<lparr>t_torn := t_torn c + 1\<rparr>, g2)
           | Truncate n \<Rightarrow> (apply_op (Truncate n) b, c\<lparr>t_kept := t_kept c + 1\<rparr>, g1)))"

definition crash_inode ::
  "'g rng \<Rightarrow> bool \<Rightarrow> inode \<Rightarrow> tally \<times> 'g \<Rightarrow> inode \<times> tally \<times> 'g" where
  "crash_inode r torn i cg =
     (let (b, c, g) = fold (crash_op r torn) (pending i) (kept i, cg)
      in (i\<lparr>kept := b, data := b, pending := []\<rparr>, c, g))"

fun crash_inodes ::
  "'g rng \<Rightarrow> bool \<Rightarrow> (nat \<times> inode) list \<Rightarrow> tally \<times> 'g \<Rightarrow> (nat \<times> inode) list \<times> tally \<times> 'g" where
  "crash_inodes r torn [] cg = ([], cg)"
| "crash_inodes r torn ((ino, i) # is) cg =
     (let (i', cg1) = crash_inode r torn i cg; (is', cg2) = crash_inodes r torn is cg1
      in ((ino, i') # is', cg2))"

definition crash_summary :: "tally \<Rightarrow> bool \<Rightarrow> string" where
  "crash_summary c names_lost =
     (let parts =
        (if t_lost c > 0 then [show_nat (t_lost c) @ '' unsynced write(s) lost''] else []) @
        (if t_torn c > 0 then [show_nat (t_torn c) @ '' torn''] else []) @
        (if t_kept c > 0 then [show_nat (t_kept c) @ '' landed''] else []) @
        (if names_lost then [''unsynced names lost''] else [])
      in if parts = [] then ''nothing unsynced'' else join '', '' parts)"

definition crash :: "'g rng \<Rightarrow> 'g \<Rightarrow> disk \<Rightarrow> string \<times> 'g \<times> disk" where
  "crash r g d =
     (let (is, c, g') = crash_inodes r (torn_writes (opts d)) (inodes d)
                          (\<lparr>t_lost = 0, t_torn = 0, t_kept = 0\<rparr>, g);
          names_lost = (names d \<noteq> durable d);
          d1 = forget_unreachable (d\<lparr>boot := boot d + 1, inodes := is, names := durable d\<rparr>);
          st = stats d
      in (crash_summary c names_lost, g',
          d1\<lparr>stats := st\<lparr>st_crashes := st_crashes st + 1, st_lost := st_lost st + t_lost c,
                        st_torn := st_torn st + t_torn c\<rparr>\<rparr>))"

definition durable_read :: "disk \<Rightarrow> string \<Rightarrow> bytes option" where
  "durable_read d path =
     (case map_of (durable d) path of
        None \<Rightarrow> None
      | Some Dir \<Rightarrow> None
      | Some (File ino) \<Rightarrow> map_option kept (map_of (inodes d) ino))"

definition durable_list :: "disk \<Rightarrow> string \<Rightarrow> string list option" where
  "durable_list d dir =
     (if map_of (durable d) dir = Some Dir
      then Some (map leaf (filter (child_of dir) (map fst (durable d)))) else None)"

text \<open>Each durable file's inode, as a power cut now would leave it.\<close>

fun image_inodes ::
  "(nat \<times> inode) list \<Rightarrow> (string \<times> dentry) list \<Rightarrow> (nat \<times> inode) list \<Rightarrow> (nat \<times> inode) list" where
  "image_inodes from [] acc = acc"
| "image_inodes from ((_, e) # m) acc =
     (case e of
        Dir \<Rightarrow> image_inodes from m acc
      | File ino \<Rightarrow>
          (case map_of from ino of
             None \<Rightarrow> image_inodes from m acc
           | Some i \<Rightarrow> image_inodes from m
               (bt_put ino \<lparr>data = kept i, kept = kept i, pending = [], modified = modified i\<rparr> acc)))"

definition durable_image :: "disk \<Rightarrow> disk" where
  "durable_image d =
     \<lparr>opts = disk_opts_default, inodes = image_inodes (inodes d) (durable d) [],
      next_ino = next_ino d, names = durable d, durable = durable d, boot = 0, stats = stats_zero\<rparr>"

definition kill :: "disk \<Rightarrow> disk" where
  "kill d = d\<lparr>boot := boot d + 1\<rparr>"

section \<open>Facts about paths\<close>

definition abs_path :: "string \<Rightarrow> bool" where
  "abs_path p \<longleftrightarrow> (\<exists>q. p = CHR ''/'' # q)"

lemma abs_root [simp]: "abs_path ''/''"
  by (simp add: abs_path_def)

lemma abs_append [simp]: "abs_path p \<Longrightarrow> abs_path (p @ q)"
  by (auto simp: abs_path_def)

lemma abs_parent [simp]: "abs_path p \<Longrightarrow> abs_path (parent p)"
  by (auto simp: abs_path_def parent_def take_Cons' split: option.splits)

lemma abs_normalize [simp]: "abs_path (normalize cwd path)"
  by (simp add: normalize_def abs_path_def Let_def)

lemma not_under_root [simp]: "abs_path q \<Longrightarrow> \<not> under q ''/''"
  by (auto simp: under_def abs_path_def)

lemma dirs_from_abs: "abs_path dir \<Longrightarrow> d \<in> set (dirs_from dir) \<Longrightarrow> abs_path d \<and> d \<noteq> ''/''"
proof (induction dir rule: dirs_from.induct)
  case (1 dir)
  then show ?case
    by (subst (asm) (2) dirs_from.simps) (auto split: if_splits)
qed

section \<open>Facts about namespaces\<close>

lemma get_put_dirs [store_simps]:
  "map_of (put_dirs ds m) = (\<lambda>p. if p \<in> set ds then Some Dir else map_of m p)"
proof (induction ds arbitrary: m)
  case (Cons d ds)
  have "put_dirs (d # ds) m = put_dirs ds (bt_put d Dir m)" by (simp add: put_dirs_def)
  then show ?case using Cons [of "bt_put d Dir m"] by (auto simp: fun_eq_iff store_simps)
qed (simp add: put_dirs_def)

lemma get_put_all [store_simps]: "map_of (put_all kvs m) = map_of m ++ map_of (rev kvs)"
  unfolding put_all_def by (rule bt.get_fold_put)

lemma get_drop_tree [store_simps]:
  "map_of (drop_tree q m) = (\<lambda>p. if p \<noteq> q \<and> \<not> under q p then map_of m p else None)"
  unfolding drop_tree_def by (rule get_filter_keys)

lemma get_drop_trees [store_simps]:
  "map_of (fold drop_tree qs m) =
     (\<lambda>p. if \<exists>q \<in> set qs. p = q \<or> under q p then None else map_of m p)"
  by (induction qs arbitrary: m) (auto simp: fun_eq_iff store_simps)

lemma inos_iff: "i \<in> inos m \<longleftrightarrow> (\<exists>p. (p, File i) \<in> set m)"
  by (force simp: inos_def List.map_filter_def split: dentry.splits)

text \<open>A namespace is a sorted map of absolute paths, the root is a directory and every file's inode
  is there.\<close>

definition ns_ok :: "nat set \<Rightarrow> (string \<times> dentry) list \<Rightarrow> bool" where
  "ns_ok I m \<longleftrightarrow>
     bt_ok m \<and> map_of m ''/'' = Some Dir \<and>
     (\<forall>(p, e) \<in> set m. abs_path p \<and> (\<forall>i. e = File i \<longrightarrow> i \<in> I))"

lemma ns_okD:
  assumes "ns_ok I m"
  shows "bt_ok m" "map_of m ''/'' = Some Dir" "map_of m p = Some e \<Longrightarrow> abs_path p"
    "map_of m p = Some (File i) \<Longrightarrow> i \<in> I" "(p, e) \<in> set m \<Longrightarrow> abs_path p"
    "(p, File i) \<in> set m \<Longrightarrow> i \<in> I"
  using assms by (auto simp: ns_ok_def dest!: map_of_SomeD)

definition ns_entry_ok :: "nat set \<Rightarrow> string \<times> dentry \<Rightarrow> bool" where
  "ns_entry_ok I pe \<longleftrightarrow> (case pe of (p, e) \<Rightarrow>
     abs_path p \<and> (p = ''/'' \<longrightarrow> e = Dir) \<and> (\<forall>i. e = File i \<longrightarrow> i \<in> I))"

lemma ns_ok_entry: "ns_ok I m \<Longrightarrow> pe \<in> set m \<Longrightarrow> ns_entry_ok I pe"
  using bt.entry_iff [of m] by (fastforce simp: ns_ok_def ns_entry_ok_def)

lemma ns_put: "ns_ok I m \<Longrightarrow> ns_entry_ok I (p, e) \<Longrightarrow> ns_ok I (bt_put p e m)"
  unfolding ns_ok_def ns_entry_ok_def
  by (simp add: bt.ok_put store_simps) (fastforce simp: bt.set_put split: if_splits)

lemma ns_put_all: "ns_ok I m \<Longrightarrow> \<forall>pe \<in> set kvs. ns_entry_ok I pe \<Longrightarrow> ns_ok I (put_all kvs m)"
  unfolding put_all_def
  by (induction kvs arbitrary: m) (auto simp: ns_put)

lemma ns_put_dirs: "ns_ok I m \<Longrightarrow> \<forall>d \<in> set ds. abs_path d \<Longrightarrow> ns_ok I (put_dirs ds m)"
  unfolding put_dirs_def
  by (induction ds arbitrary: m) (auto simp: ns_put ns_entry_ok_def)

lemma ns_filter:
  assumes "ns_ok I m" and "P (''/'', Dir)"
  shows "ns_ok I (filter P m)"
proof -
  have "(''/'', Dir) \<in> set (filter P m)"
    using assms bt.entry_iff [of m "''/''" Dir] by (simp add: ns_ok_def)
  then have "map_of (filter P m) ''/'' = Some Dir"
    using assms(1) bt.ok_filter [of m P] bt.entry_iff [of "filter P m"] by (simp add: ns_ok_def)
  then show ?thesis using assms(1) by (auto simp: ns_ok_def bt.ok_filter)
qed

lemma ns_drop_tree: "ns_ok I m \<Longrightarrow> abs_path q \<Longrightarrow> q \<noteq> ''/'' \<Longrightarrow> ns_ok I (drop_tree q m)"
  unfolding drop_tree_def by (rule ns_filter) auto

lemma ns_drop_trees:
  "ns_ok I m \<Longrightarrow> \<forall>q \<in> set qs. abs_path q \<and> q \<noteq> ''/'' \<Longrightarrow> ns_ok I (fold drop_tree qs m)"
  by (induction qs arbitrary: m) (auto intro: ns_drop_tree)

lemma ns_del_key: "ns_ok I m \<Longrightarrow> q \<noteq> ''/'' \<Longrightarrow> ns_ok I (del_key q m)"
  unfolding del_key_def by (rule ns_filter) auto

lemma ns_mono: "ns_ok I m \<Longrightarrow> I \<subseteq> J \<Longrightarrow> ns_ok J m"
  by (fastforce simp: ns_ok_def)

section \<open>The invariant\<close>

text \<open>A file's durable bytes with its pending writes are its bytes.\<close>

definition inode_ok :: "inode \<Rightarrow> bool" where
  "inode_ok i \<longleftrightarrow> fold apply_op (pending i) (kept i) = data i"

definition disk_inv :: "disk \<Rightarrow> bool" where
  "disk_inv d \<longleftrightarrow>
     bt_ok (inodes d) \<and> (\<forall>(n, i) \<in> set (inodes d). n < next_ino d \<and> inode_ok i) \<and>
     ns_ok (fst ` set (inodes d)) (names d) \<and> ns_ok (fst ` set (inodes d)) (durable d)"

lemma disk_invD:
  assumes "disk_inv d"
  shows "bt_ok (inodes d)" "ns_ok (fst ` set (inodes d)) (names d)"
    "ns_ok (fst ` set (inodes d)) (durable d)"
    "map_of (inodes d) n = Some i \<Longrightarrow> inode_ok i" "map_of (inodes d) n = Some i \<Longrightarrow> n < next_ino d"
    "dir_entry d p = Some (File n) \<Longrightarrow> \<exists>i. map_of (inodes d) n = Some i"
    "map_of (durable d) p = Some (File n) \<Longrightarrow> \<exists>i. map_of (inodes d) n = Some i"
    "dir_entry d ''/'' = Some Dir"
proof -
  show "bt_ok (inodes d)" "ns_ok (fst ` set (inodes d)) (names d)"
    "ns_ok (fst ` set (inodes d)) (durable d)" "dir_entry d ''/'' = Some Dir"
    using assms by (auto simp: disk_inv_def dir_entry_def dest: ns_okD)
  show "map_of (inodes d) n = Some i \<Longrightarrow> inode_ok i" "map_of (inodes d) n = Some i \<Longrightarrow> n < next_ino d"
    using assms by (auto simp: disk_inv_def dest!: map_of_SomeD)
  show "dir_entry d p = Some (File n) \<Longrightarrow> \<exists>i. map_of (inodes d) n = Some i"
    "map_of (durable d) p = Some (File n) \<Longrightarrow> \<exists>i. map_of (inodes d) n = Some i"
    using assms ns_okD(4) [of "fst ` set (inodes d)" "names d" p n]
      ns_okD(4) [of "fst ` set (inodes d)" "durable d" p n]
      bt.entry_iff [of "inodes d" n]
    by (auto simp: disk_inv_def dir_entry_def image_iff)
qed

lemma disk_inv_names:
  "disk_inv d \<Longrightarrow> ns_ok (fst ` set (inodes d)) m \<Longrightarrow> disk_inv (d\<lparr>names := m\<rparr>)"
  "disk_inv d \<Longrightarrow> ns_ok (fst ` set (inodes d)) m \<Longrightarrow> disk_inv (d\<lparr>durable := m\<rparr>)"
  by (simp_all add: disk_inv_def)

lemma disk_inv_cong:
  "disk_inv d \<Longrightarrow> inodes d' = inodes d \<Longrightarrow> next_ino d' = next_ino d \<Longrightarrow> names d' = names d \<Longrightarrow>
    durable d' = durable d \<Longrightarrow> disk_inv d'"
  by (simp add: disk_inv_def)

lemma disk_inv_inode:
  assumes "disk_inv d" and "inode_ok i" and "n < next_ino d"
  shows "disk_inv (d\<lparr>inodes := bt_put n i (inodes d)\<rparr>)"
proof -
  have "ns_ok (fst ` set (bt_put n i (inodes d))) (names d)"
    "ns_ok (fst ` set (bt_put n i (inodes d))) (durable d)"
    using disk_invD(2,3) [OF assms(1)] by (auto simp: bt_put_fst intro: ns_mono)
  then show ?thesis
    using assms by (auto simp: disk_inv_def bt.ok_put bt.set_put split: if_splits)
qed

lemma forget_inv: "disk_inv d \<Longrightarrow> disk_inv (forget_unreachable d)"
proof -
  assume inv: "disk_inv d"
  let ?is = "filter (\<lambda>(i, _). i \<in> inos (names d) \<union> inos (durable d)) (inodes d)"
  have keys: "fst ` set ?is = fst ` set (inodes d) \<inter> (inos (names d) \<union> inos (durable d))"
    by force
  have ns: "ns_ok (fst ` set ?is) m"
    if "ns_ok (fst ` set (inodes d)) m" "inos m \<subseteq> inos (names d) \<union> inos (durable d)" for m
    using that unfolding keys by (auto simp: ns_ok_def inos_iff subset_iff)
  show ?thesis
    using inv ns [OF disk_invD(2) [OF inv]] ns [OF disk_invD(3) [OF inv]]
    by (auto simp: disk_inv_def forget_unreachable_def Let_def bt.ok_filter)
qed

lemma forget_fields [simp, frame_simps]:
  "names (forget_unreachable d) = names d" "durable (forget_unreachable d) = durable d"
  "stats (forget_unreachable d) = stats d" "opts (forget_unreachable d) = opts d"
  "boot (forget_unreachable d) = boot d" "next_ino (forget_unreachable d) = next_ino d"
  "dir_entry (forget_unreachable d) = dir_entry d"
  by (simp_all add: forget_unreachable_def Let_def dir_entry_def fun_eq_iff)

lemma get_forget: "map_of (inodes (forget_unreachable d)) =
    (\<lambda>i. if i \<in> inos (names d) \<union> inos (durable d) then map_of (inodes d) i else None)"
  by (simp add: forget_unreachable_def Let_def get_filter_keys)

section \<open>Every operation keeps the invariant\<close>

lemma room_for_state: "snd (room_for n d) = d \<or>
    snd (room_for n d) = d\<lparr>stats := (stats d)\<lparr>st_full := st_full (stats d) + 1\<rparr>\<rparr>"
  by (simp add: room_for_def split: option.splits)

lemma room_for_ok: "room_for n d = (Inr u, d') \<longleftrightarrow>
    d' = d \<and> (case full_at (opts d) of None \<Rightarrow> True | Some limit \<Rightarrow> n = 0 \<or> used d + n \<le> limit)"
  by (auto simp: room_for_def split: option.splits)

lemma room_for_inv: "disk_inv d \<Longrightarrow> disk_inv (snd (room_for n d))"
  using room_for_state [of n d] by (auto intro: disk_inv_cong)

lemma and_then_inv:
  assumes "disk_inv (snd r)" and "\<And>x. fst r = Inr x \<Longrightarrow> disk_inv (snd (k x (snd r)))"
  shows "disk_inv (snd (and_then r k))"
  using assms by (simp add: snd_and_then split: sum.splits)

lemma inode_ok_change: "inode_ok i \<Longrightarrow> inode_ok (change op t i)"
  by (simp add: inode_ok_def change_def)

lemma change_ino_inv: "disk_inv d \<Longrightarrow> disk_inv (snd (change_ino n op t d))"
proof -
  assume inv: "disk_inv d"
  show ?thesis
  proof (cases "map_of (inodes d) n")
    case (Some i)
    then have "disk_inv (d\<lparr>inodes := bt_put n (change op t i) (inodes d)\<rparr>)"
      using disk_invD(4,5) [OF inv] by (intro disk_inv_inode [OF inv] inode_ok_change) auto
    then show ?thesis using Some by (auto simp: change_ino_def intro: disk_inv_cong)
  qed (simp add: change_ino_def inv)
qed

lemma write_at_inv: "disk_inv d \<Longrightarrow> disk_inv (snd (write_at n at bs t d))"
  unfolding write_at_def by (intro and_then_inv room_for_inv change_ino_inv)

lemma truncate_inv: "disk_inv d \<Longrightarrow> disk_inv (snd (truncate_ino n len t d))"
  unfolding truncate_ino_def by (intro and_then_inv room_for_inv change_ino_inv)

lemma need_dir_ok: "need_dir d p = Inr u \<longleftrightarrow> dir_entry d p = Some Dir"
  by (auto simp: need_dir_def split: option.splits dentry.splits)

lemma inode_empty_ok [simp]: "inode_ok inode_empty"
  by (simp add: inode_ok_def inode_empty_def)

lemma new_inode_inv:
  assumes "disk_inv d" and "inode_ok i"
    and "\<And>J. fst ` set (inodes d) \<subseteq> J \<Longrightarrow> next_ino d \<in> J \<Longrightarrow> ns_ok J m"
    and "\<And>J. fst ` set (inodes d) \<subseteq> J \<Longrightarrow> next_ino d \<in> J \<Longrightarrow> ns_ok J m'"
  shows "disk_inv (d\<lparr>next_ino := next_ino d + 1, inodes := bt_put (next_ino d) i (inodes d),
    names := m, durable := m'\<rparr>)"
  using assms(3,4) [of "insert (next_ino d) (fst ` set (inodes d))"] assms(1,2)
  by (auto simp: disk_inv_def bt.ok_put bt.set_put bt_put_fst less_Suc_eq split: if_splits)

lemma open_inv:
  assumes inv: "disk_inv d" and p: "abs_path p"
  shows "disk_inv (snd (open_file p create exclusive d))"
proof (cases "dir_entry d p = None \<and> create \<and> dir_entry d (parent p) = Some Dir")
  case True
  have "p \<noteq> ''/''" using True disk_invD(8) [OF inv] by auto
  then have entry: "ns_entry_ok J (p, File (next_ino d))" if "next_ino d \<in> J" for J
    using p that by (simp add: ns_entry_ok_def)
  have "disk_inv (d\<lparr>next_ino := next_ino d + 1, inodes := bt_put (next_ino d) inode_empty (inodes d),
      names := bt_put p (File (next_ino d)) (names d), durable := durable d\<rparr>)"
    using entry disk_invD(2,3) [OF inv]
    by (intro new_inode_inv [OF inv]) (auto intro: ns_put ns_mono)
  then show ?thesis using True by (simp add: open_file_def need_dir_def Let_def)
next
  case False
  then have "snd (open_file p create exclusive d) = d"
    by (auto simp: open_file_def need_dir_def split: option.splits dentry.splits)
  then show ?thesis using inv by simp
qed

lemma write_inv:
  assumes inv: "disk_inv d" and p: "abs_path p"
  shows "disk_inv (snd (write_file p bs app t d))"
proof (cases "write_existing p d")
  case (Inr existing)
  let ?body = "\<lambda>old n d2. if app then write_at n old bs t d2
      else and_then (truncate_ino n 0 t d2) (\<lambda>_. write_at n 0 bs t)"
  have body: "disk_inv (snd (?body old n d2))" if "disk_inv d2" for n old d2
    using that by (auto intro!: and_then_inv truncate_inv write_at_inv)
  have "disk_inv (snd (and_then (open_file p True False d1) (?body old)))" if "disk_inv d1" for old d1
    by (rule and_then_inv [OF open_inv [OF that p]]) (rule body [OF open_inv [OF that p]])
  then have "disk_inv (snd (and_then (room_for grow d)
      (\<lambda>_ d1. and_then (open_file p True False d1) (?body old))))" for grow old
    by (rule and_then_inv [OF room_for_inv [OF inv]]) (rule room_for_inv [OF inv])
  then show ?thesis using Inr by (simp add: write_file_def Let_def)
qed (simp add: write_file_def inv)

lemma mkdir_all_inv: "disk_inv d \<Longrightarrow> abs_path p \<Longrightarrow> disk_inv (snd (mkdir_all p d))"
proof (induction p d rule: mkdir_all.induct)
  case (1 p d)
  have put: "disk_inv (d1\<lparr>names := bt_put p Dir (names d1)\<rparr>)" if "disk_inv d1" for d1
    using that 1(3) by (auto intro!: disk_inv_names ns_put disk_invD simp: ns_entry_ok_def)
  have "disk_inv (snd (if p \<noteq> ''/'' then mkdir_all (parent p) d else (Inr (), d)))"
    if "dir_entry d p = None" using 1 that by auto
  then have "disk_inv (snd (and_then (if p \<noteq> ''/'' then mkdir_all (parent p) d else (Inr (), d))
      (\<lambda>_ d1. (Inr (), d1\<lparr>names := bt_put p Dir (names d1)\<rparr>))))" if "dir_entry d p = None"
    using that put by (intro and_then_inv) auto
  moreover have "snd (mkdir_all p d) = d" if "dir_entry d p = Some e" for e
    using that by (subst mkdir_all.simps) (simp split: dentry.splits)
  ultimately show ?case using 1(2)
    by (cases "dir_entry d p") (subst mkdir_all.simps, simp, simp)
qed

lemma mkdir_inv: "disk_inv d \<Longrightarrow> abs_path p \<Longrightarrow> disk_inv (snd (mkdir p d))"
  by (auto simp: mkdir_def ns_entry_ok_def intro!: disk_inv_names ns_put disk_invD
      split: sum.splits)

lemma unlink_inv: "disk_inv d \<Longrightarrow> disk_inv (snd (unlink p d))"
  using disk_invD(8) [of d]
  by (auto simp: unlink_def file_ino_def intro!: forget_inv disk_inv_names ns_del_key disk_invD
      split: option.splits dentry.splits sum.splits)

lemma rmdir_inv: "disk_inv d \<Longrightarrow> disk_inv (snd (rmdir p d))"
  by (auto simp: rmdir_def intro!: disk_inv_names ns_del_key disk_invD split: sum.splits)

lemma rmdir_all_inv: "disk_inv d \<Longrightarrow> disk_inv (snd (rmdir_all p d))"
proof -
  assume inv: "disk_inv d"
  have "abs_path p" if "need_dir d p = Inr u" for u
    using that ns_okD(3) [OF disk_invD(2) [OF inv]] by (auto simp: need_dir_ok dir_entry_def)
  then show ?thesis using inv
    by (auto simp: rmdir_all_def intro!: forget_inv disk_inv_names ns_drop_tree disk_invD
        split: sum.splits)
qed

lemma under_root: "under ''/'' p \<longleftrightarrow> p \<noteq> ''/''"
  by (simp add: under_def)

lemma rename_inv:
  assumes inv: "disk_inv d" and dst: "abs_path dst"
  shows "disk_inv (snd (rename src dst d))"
proof (cases "\<exists>e. dir_entry d src = Some e \<and> src \<noteq> dst \<and> dir_entry d (parent dst) = Some Dir \<and>
    rename_blocked e dst d = None \<and> \<not> (e = Dir \<and> under src dst)")
  case True
  then obtain e where e: "dir_entry d src = Some e" "src \<noteq> dst" "dir_entry d (parent dst) = Some Dir"
    "rename_blocked e dst d = None" "\<not> (e = Dir \<and> under src dst)" by blast
  let ?I = "fst ` set (inodes d)"
  note ns = disk_invD(2) [OF inv]
  have root: "dir_entry d ''/'' = Some Dir" by (rule disk_invD(8) [OF inv])
  have src: "abs_path src" using e(1) ns_okD(3) [OF ns] by (simp add: dir_entry_def)
  have "dst \<noteq> ''/''"
  proof
    assume "dst = ''/''"
    moreover have "src \<in> fst ` set (names d)" using e(1) by (force simp: dir_entry_def dest: map_of_SomeD)
    ultimately show False using e(2,4) root
      by (cases e) (force simp: rename_blocked_def list_ex_iff under_root split: if_splits)+
  qed
  have src_root: "src \<noteq> ''/''"
  proof
    assume "src = ''/''"
    then show False using e(1,5) root \<open>dst \<noteq> ''/''\<close> by (simp add: under_root)
  qed
  have "ns_entry_ok ?I pe" if "pe \<in> set (moved_tree src dst (names d))" for pe
  proof -
    from that obtain p x where p: "(p, x) \<in> set (names d)" "pe = (dst @ drop (length src) p, x)"
      by (auto simp: moved_tree_def)
    have "dst @ q \<noteq> ''/''" for q
      using dst \<open>dst \<noteq> ''/''\<close> by (auto simp: abs_path_def)
    then show ?thesis using dst ns_okD(6) [OF ns] p by (auto simp: ns_entry_ok_def)
  qed
  then have "ns_ok ?I (put_all (moved_tree src dst (names d)) (drop_tree src (names d)))"
    using ns_drop_tree [OF ns src src_root] by (intro ns_put_all) auto
  then show ?thesis
    using e by (simp add: rename_def need_dir_def forget_inv disk_inv_names inv)
next
  case False
  then have "snd (rename src dst d) = d"
    by (auto simp: rename_def need_dir_def split: option.splits dentry.splits sum.splits if_splits)
  then show ?thesis using inv by simp
qed

lemma persist_inv: "disk_inv d \<Longrightarrow> abs_path p \<Longrightarrow> disk_inv (persist_entry p d)"
proof -
  assume inv: "disk_inv d" and p: "abs_path p"
  have "ns_ok (fst ` set (inodes d))
      (case dir_entry d p of Some e \<Rightarrow> bt_put p e (durable d) | None \<Rightarrow> durable d)"
    using disk_invD(2,3) [OF inv] ns_ok_entry [OF disk_invD(2) [OF inv]]
    by (auto simp: dir_entry_def intro: ns_put split: option.splits dest!: map_of_SomeD)
  then show ?thesis
    using dirs_from_abs [of "parent p"] p
    by (auto simp: persist_entry_def ns_entry_ok_def intro!: disk_inv_names inv ns_put ns_put_dirs)
qed

lemma flush_ok [simp]: "inode_ok i \<Longrightarrow> inode_ok (flush i)" "data (flush i) = data i"
  "pending (flush i) = []" "inode_ok i \<Longrightarrow> kept (flush i) = data i"
  by (simp_all add: inode_ok_def flush_def)

lemma sync_ino_inv:
  assumes inv: "disk_inv d"
  shows "disk_inv (sync_ino n path lie d)"
proof -
  let ?d = "d\<lparr>stats := (stats d)\<lparr>st_syncs := st_syncs (stats d) + 1\<rparr>\<rparr>"
  have inv': "disk_inv ?d" using inv by (auto intro: disk_inv_cong)
  let ?d1 = "case map_of (inodes ?d) n of
      Some i \<Rightarrow> ?d\<lparr>inodes := bt_put n (flush i) (inodes ?d)\<rparr> | None \<Rightarrow> ?d"
  have d1: "disk_inv ?d1"
    using disk_invD(4,5) [OF inv'] disk_inv_inode [OF inv'] inv' by (auto split: option.splits)
  then have "abs_path p" if "dir_entry ?d1 p = Some x" for p x
    using that ns_okD(3) [OF disk_invD(2) [OF d1]] by (simp add: dir_entry_def)
  then show ?thesis using d1 inv'
    by (auto simp: sync_ino_def Let_def persist_inv intro: disk_inv_cong split: option.splits if_splits)
qed

lemma child_of_not_root: "abs_path q \<Longrightarrow> child_of q p \<Longrightarrow> p \<noteq> ''/''"
  by (auto simp: child_of_def)

lemma sync_dir_inv:
  assumes inv: "disk_inv d" and dir: "abs_path dir"
  shows "disk_inv (sync_dir dir lie d)"
proof -
  let ?I = "fst ` set (inodes d)"
  let ?d = "d\<lparr>stats := (stats d)\<lparr>st_syncs := st_syncs (stats d) + 1\<rparr>\<rparr>"
  let ?gone = "filter (\<lambda>p. child_of dir p \<and> map_of (names d) p = None) (map fst (durable d))"
  let ?here = "filter (\<lambda>(p, _). child_of dir p) (names d)"
  have inv': "disk_inv ?d" using inv by (auto intro: disk_inv_cong)
  have "ns_ok ?I (fold drop_tree ?gone (durable d))"
    using disk_invD(3) [OF inv] child_of_not_root [OF dir] ns_okD(5) [OF disk_invD(3) [OF inv]]
    by (intro ns_drop_trees) auto
  then have "ns_ok ?I (put_all ?here (fold drop_tree ?gone (durable d)))"
    using ns_ok_entry [OF disk_invD(2) [OF inv]] by (intro ns_put_all) auto
  then have "disk_inv (?d\<lparr>durable := put_all ?here (fold drop_tree ?gone (durable d))\<rparr>)"
    using inv' by (intro disk_inv_names) auto
  then show ?thesis
    using inv' dir by (auto simp: sync_dir_def Let_def intro!: forget_inv persist_inv intro: disk_inv_cong)
qed

lemma crash_inodes_Cons: "fst (crash_inodes r torn (x # is) cg) =
    (fst x, fst (crash_inode r torn (snd x) cg)) #
      fst (crash_inodes r torn is (snd (crash_inode r torn (snd x) cg)))"
  by (cases x) (simp add: Let_def case_prod_unfold)

lemma crash_inodes_keys [simp]: "map fst (fst (crash_inodes r torn is cg)) = map fst is"
  by (induction "is" arbitrary: cg) (simp_all add: crash_inodes_Cons del: split_paired_All)

lemma crash_inode_ok:
  "data (fst (crash_inode r torn i cg)) = kept (fst (crash_inode r torn i cg))"
  "pending (fst (crash_inode r torn i cg)) = []"
  "modified (fst (crash_inode r torn i cg)) = modified i"
  by (simp_all add: crash_inode_def Let_def case_prod_unfold)

lemma crash_inodes_ok:
  "\<forall>(n, i) \<in> set (fst (crash_inodes r torn is cg)). pending i = [] \<and> data i = kept i"
  by (induction "is" arbitrary: cg)
    (simp_all add: crash_inodes_Cons crash_inode_ok split_beta del: split_paired_All)

text \<open>The state a crash leaves.\<close>

definition crashed :: "'g rng \<Rightarrow> 'g \<Rightarrow> disk \<Rightarrow> disk" where
  "crashed r g d = snd (snd (crash r g d))"

lemma crashed_fields:
  "names (crashed r g d) = durable d" "durable (crashed r g d) = durable d"
  "opts (crashed r g d) = opts d" "next_ino (crashed r g d) = next_ino d"
  "boot (crashed r g d) = boot d + 1"
  "inodes (crashed r g d) = filter (\<lambda>(i, _). i \<in> inos (durable d))
     (fst (crash_inodes r (torn_writes (opts d)) (inodes d) (\<lparr>t_lost = 0, t_torn = 0, t_kept = 0\<rparr>, g)))"
  by (simp_all add: crashed_def crash_def Let_def case_prod_unfold forget_unreachable_def)

lemma crash_inv:
  assumes inv: "disk_inv d"
  shows "disk_inv (crashed r g d)"
proof -
  define cs where "cs = fst (crash_inodes r (torn_writes (opts d)) (inodes d)
    (\<lparr>t_lost = 0, t_torn = 0, t_kept = 0\<rparr>, g))"
  have keys: "map fst cs = map fst (inodes d)" by (simp add: cs_def)
  have "fst ` set cs = fst ` set (inodes d)" using keys by (metis list.set_map)
  moreover have "\<forall>(n, i) \<in> set cs. pending i = [] \<and> data i = kept i"
    unfolding cs_def by (rule crash_inodes_ok)
  moreover have "\<forall>n \<in> fst ` set cs. n < next_ino d"
    using inv \<open>fst ` set cs = fst ` set (inodes d)\<close> by (force simp: disk_inv_def)
  then have "\<forall>x \<in> set cs. fst x < next_ino d" by blast
  moreover have "bt_ok cs" using disk_invD(1) [OF inv] keys by (simp add: bt_ok_def)
  ultimately have "disk_inv (d\<lparr>inodes := cs, names := durable d\<rparr>)"
    using disk_invD(3) [OF inv] by (auto simp: disk_inv_def inode_ok_def split_beta)
  then have "disk_inv (forget_unreachable (d\<lparr>inodes := cs, names := durable d\<rparr>))"
    by (rule forget_inv)
  then show ?thesis
    by (rule disk_inv_cong)
      (simp_all add: crashed_fields forget_unreachable_def Let_def cs_def)
qed

lemma seed_dir_inv: "disk_inv d \<Longrightarrow> disk_inv (seed_dir p d)"
proof -
  assume inv: "disk_inv d"
  have "disk_inv (d\<lparr>names := bt_put (normalize ''/'' p) Dir (names d)\<rparr>)"
    using disk_invD(2) [OF inv] by (intro disk_inv_names inv ns_put) (auto simp: ns_entry_ok_def)
  then show ?thesis
    using disk_invD(3) [OF inv]
    by (auto simp: seed_dir_def Let_def ns_entry_ok_def intro!: ns_put disk_inv_names(2))
qed

lemma seed_file_inv:
  assumes inv: "disk_inv d" and p: "normalize ''/'' path \<noteq> ''/''"
  shows "disk_inv (seed_file path bs d)"
proof -
  let ?p = "normalize ''/'' path"
  have "ns_ok J (bt_put ?p (File (next_ino d)) (put_dirs (dirs_from (parent ?p)) m))"
    if "ns_ok (fst ` set (inodes d)) m" "fst ` set (inodes d) \<subseteq> J" "next_ino d \<in> J" for J m
    using that p dirs_from_abs [of "parent ?p"]
    by (intro ns_put ns_put_dirs ns_mono [OF that(1,2)]) (auto simp: ns_entry_ok_def)
  then show ?thesis
    using new_inode_inv [OF inv, of "inode_empty\<lparr>kept := bs, data := bs\<rparr>"] disk_invD(2,3) [OF inv]
    by (simp add: seed_file_def Let_def inode_ok_def inode_empty_def)
qed

lemma kill_inv: "disk_inv d \<Longrightarrow> disk_inv (kill d)"
  by (auto simp: kill_def intro: disk_inv_cong)

lemma sync_inv:
  assumes inv: "disk_inv d" shows "disk_inv (snd (sync p lie d))"
proof -
  have "abs_path p" if "dir_entry d p = Some e" for e
    using that ns_okD(3) [OF disk_invD(2) [OF inv]] by (simp add: dir_entry_def)
  then show ?thesis
    using inv by (auto simp: sync_def sync_ino_inv sync_dir_inv split: option.splits dentry.splits)
qed

section \<open>The disk as a machine\<close>

datatype 'g disk_op =
  SeedFile string bytes | SeedDir string | Open string bool bool
| WriteAt nat nat bytes int | TruncateOp nat nat int | WriteFile string bytes bool int
| Mkdir string | MkdirAll string | Unlink string | Rmdir string | RmdirAll string
| Rename string string | Copy string string int
| SyncIno nat "string option" bool | Sync string bool | SyncDir string bool
| CrashNow 'g | Kill

fun disk_step :: "'g rng \<Rightarrow> 'g disk_op \<Rightarrow> disk \<Rightarrow> disk" where
  "disk_step r (SeedFile p bs) d = seed_file p bs d"
| "disk_step r (SeedDir p) d = seed_dir p d"
| "disk_step r (Open p c x) d = snd (open_file p c x d)"
| "disk_step r (WriteAt n at bs t) d = snd (write_at n at bs t d)"
| "disk_step r (TruncateOp n len t) d = snd (truncate_ino n len t d)"
| "disk_step r (WriteFile p bs app t) d = snd (write_file p bs app t d)"
| "disk_step r (Mkdir p) d = snd (mkdir p d)"
| "disk_step r (MkdirAll p) d = snd (mkdir_all p d)"
| "disk_step r (Unlink p) d = snd (unlink p d)"
| "disk_step r (Rmdir p) d = snd (rmdir p d)"
| "disk_step r (RmdirAll p) d = snd (rmdir_all p d)"
| "disk_step r (Rename p q) d = snd (rename p q d)"
| "disk_step r (Copy p q t) d = (case copy_file p q t d of None \<Rightarrow> d | Some res \<Rightarrow> snd res)"
| "disk_step r (SyncIno n p lie) d = sync_ino n p lie d"
| "disk_step r (Sync p lie) d = snd (sync p lie d)"
| "disk_step r (SyncDir p lie) d = sync_dir p lie d"
| "disk_step r (CrashNow g) d = crashed r g d"
| "disk_step r Kill d = kill d"

text \<open>The callers pass normalized, hence absolute, paths; a seeded file is not the root.\<close>

fun disk_pre :: "'g disk_op \<Rightarrow> disk \<Rightarrow> bool" where
  "disk_pre (SeedFile p _) d = (normalize ''/'' p \<noteq> ''/'')"
| "disk_pre (Open p _ _) d = (abs_path p)"
| "disk_pre (WriteFile p _ _ _) d = (abs_path p)"
| "disk_pre (Mkdir p) d = (abs_path p)"
| "disk_pre (MkdirAll p) d = (abs_path p)"
| "disk_pre (Rename _ q) d = (abs_path q)"
| "disk_pre (Copy _ q _) d = (abs_path q)"
| "disk_pre (SyncDir p _) d = (abs_path p)"
| "disk_pre _ d = True"

lemma disk_new_inv: "disk_inv (disk_new o1)"
  by (auto simp: disk_inv_def disk_new_def ns_ok_def bt_ok_def)

lemma copy_inv: "disk_inv d \<Longrightarrow> abs_path q \<Longrightarrow>
    disk_inv (case copy_file p q t d of None \<Rightarrow> d | Some res \<Rightarrow> snd res)"
  using write_inv [of d q] by (simp add: copy_file_def split: option.split sum.split) (metis snd_conv)

lemma disk_step_inv:
  assumes inv: "disk_inv d" and pre: "disk_pre op d"
  shows "disk_inv (disk_step r op d)"
  using pre
  by (cases op)
    (auto simp: inv seed_file_inv seed_dir_inv open_inv write_at_inv
      truncate_inv write_inv mkdir_inv mkdir_all_inv unlink_inv rmdir_inv rmdir_all_inv rename_inv
      sync_ino_inv sync_inv sync_dir_inv crash_inv kill_inv copy_inv)

interpretation disk_machine: inv_machine "disk_new o1" "disk_step r" disk_pre disk_inv
  for o1 :: disk_opts and r :: "'g rng"
  by unfold_locales (rule disk_new_inv, rule disk_step_inv)

section \<open>What a crash leaves of an inode\<close>

lemma crash_inodes_at:
  "map_of is n = Some i \<Longrightarrow>
    \<exists>cg'. map_of (fst (crash_inodes r torn is cg)) n = Some (fst (crash_inode r torn i cg'))"
proof (induction "is" arbitrary: cg)
  case (Cons x "is")
  show ?case
  proof (cases "fst x = n")
    case True
    then have "snd x = i" using Cons.prems by (cases x) simp
    then have "map_of (fst (crash_inodes r torn (x # is) cg)) n = Some (fst (crash_inode r torn i cg))"
      using True by (simp add: crash_inodes_Cons)
    then show ?thesis by blast
  next
    case False
    then have "map_of is n = Some i" using Cons.prems by (cases x) simp
    from Cons.IH [OF this] show ?thesis using False by (simp add: crash_inodes_Cons del: split_paired_Ex)
  qed
qed simp

lemma crashed_inode:
  assumes "map_of (durable d) p = Some (File n)" and "map_of (inodes d) n = Some i"
  obtains cg where "map_of (inodes (crashed r g d)) n = Some (fst (crash_inode r (torn_writes (opts d)) i cg))"
proof -
  have "n \<in> inos (durable d)" using assms(1) by (auto simp: inos_iff dest: map_of_SomeD)
  moreover obtain cg where "map_of (fst (crash_inodes r (torn_writes (opts d)) (inodes d)
      (\<lparr>t_lost = 0, t_torn = 0, t_kept = 0\<rparr>, g))) n =
      Some (fst (crash_inode r (torn_writes (opts d)) i cg))"
    using crash_inodes_at [OF assms(2)] by blast
  ultimately show ?thesis using that [of cg] by (simp add: crashed_fields get_filter_keys)
qed

lemma crashed_read:
  assumes "map_of (durable d) p = Some (File n)" and "map_of (inodes d) n = Some i"
  obtains cg where "read (crashed r g d) p = Some (Inr (fst (fold (crash_op r (torn_writes (opts d)))
    (pending i) (kept i, cg))))"
proof -
  obtain cg where "map_of (inodes (crashed r g d)) n = Some (fst (crash_inode r (torn_writes (opts d)) i cg))"
    using crashed_inode [OF assms] .
  then have "read (crashed r g d) p = Some (Inr (data (fst (crash_inode r (torn_writes (opts d)) i cg))))"
    using assms(1) by (simp add: read_def file_ino_def dir_entry_def crashed_fields)
  then show ?thesis using that by (simp add: crash_inode_def Let_def case_prod_unfold)
qed

lemma crash_ops_clean: "fst (fold (crash_op r False) ops s) = fst s"
  by (induction ops arbitrary: s) (auto simp: crash_op_def Let_def)

text \<open>What a crash may keep of the pending writes: each is dropped, lands, or lands up to a sector
  boundary strictly inside it.\<close>

definition torn_part :: "wop \<Rightarrow> wop \<Rightarrow> bool" where
  "torn_part op op' \<longleftrightarrow> op' = op \<or>
     (\<exists>at bs k. op = Write at bs \<and> op' = Write at (take k bs) \<and> 0 < k \<and> k < length bs \<and>
        (at + k) mod sector = 0)"

inductive survives :: "wop list \<Rightarrow> wop list \<Rightarrow> bool" where
  none: "survives [] []"
| drop: "survives ops ops' \<Longrightarrow> survives (op # ops) ops'"
| land: "torn_part op op' \<Longrightarrow> survives ops ops' \<Longrightarrow> survives (op # ops) (op' # ops')"

definition index_in_range :: "'g rng \<Rightarrow> bool" where
  "index_in_range r \<longleftrightarrow> (\<forall>n g. 0 < n \<longrightarrow> fst (draw_index r n g) < n)"

lemma bounds_from_spec:
  "b \<in> set (bounds_from b0 stop) \<Longrightarrow> b0 mod sector = 0 \<Longrightarrow> b0 \<le> b \<and> b < stop \<and> b mod sector = 0"
proof (induction b0 stop rule: bounds_from.induct)
  case (1 b0 stop)
  then show ?case by (subst (asm) (2) bounds_from.simps) (fastforce split: if_splits)
qed

lemma fst_crash_op: "fst (crash_op r torn op (b, cg)) =
    (let (x, g1) = draw_f64 r (snd cg) in
     if \<not> torn \<or> f64_lt x one_third then b
     else if f64_lt x two_thirds then apply_op op b
     else (case op of Truncate n \<Rightarrow> apply_op op b
           | Write at bs \<Rightarrow>
               let bounds = bounds_from ((at div sector + 1) * sector) (at + length bs) in
               if bounds = [] then b
               else apply_op (Write at (take (bounds ! fst (draw_index r (length bounds) g1) - at) bs)) b))"
  unfolding crash_op_def by (simp add: Let_def split: prod.split wop.split)

lemma crash_op_cases:
  assumes "index_in_range r"
  obtains "fst (crash_op r torn op (b, cg)) = b"
  | op' where "torn_part op op'" "fst (crash_op r torn op (b, cg)) = apply_op op' b"
proof (cases op)
  case (Write at bs)
  let ?bounds = "bounds_from ((at div sector + 1) * sector) (at + length bs)"
  have cut: "torn_part op (Write at (take (?bounds ! k - at) bs))" if "k < length ?bounds" for k
  proof -
    let ?c = "?bounds ! k"
    have "?c \<in> set ?bounds" using that by simp
    from bounds_from_spec [OF this] have c: "(at div sector + 1) * sector \<le> ?c" "?c < at + length bs"
      "?c mod sector = 0" by auto
    have "at < (at div sector + 1) * sector"
      by (metis add.commute dividend_less_times_div mult.commute mult_Suc_right sector_def
          zero_less_numeral add_mult_distrib nat_mult_1 Suc_eq_plus1)
    with c have "at < ?c" by simp
    then show ?thesis using c Write unfolding torn_part_def
      by (intro disjI2 exI [of _ at] exI [of _ bs] exI [of _ "?c - at"]) auto
  qed
  obtain x g1 where x: "draw_f64 r (snd cg) = (x, g1)" by fastforce
  have range: "fst (draw_index r (length ?bounds) g1) < length ?bounds" if "?bounds \<noteq> []"
    using assms that by (simp add: index_in_range_def)
  have same: "torn_part op op" by (simp add: torn_part_def)
  let ?out = "fst (crash_op r torn op (b, cg))"
  have "?out = b \<or> ?out = apply_op op b \<or> (?bounds \<noteq> [] \<and>
      ?out = apply_op (Write at (take (?bounds ! fst (draw_index r (length ?bounds) g1) - at) bs)) b)"
    unfolding fst_crash_op by (simp add: x Write Let_def)
  then consider "?out = b" | "?out = apply_op op b"
    | "?bounds \<noteq> []"
      "?out = apply_op (Write at (take (?bounds ! fst (draw_index r (length ?bounds) g1) - at) bs)) b"
    by blast
  then show ?thesis
  proof cases
    case 3
    from that(2) [OF cut [OF range [OF 3(1)]] 3(2)] show ?thesis .
  qed (use that same in blast)+
next
  case (Truncate n)
  have same: "torn_part op op" by (simp add: torn_part_def)
  have "fst (crash_op r torn op (b, cg)) = b \<or> fst (crash_op r torn op (b, cg)) = apply_op op b"
    unfolding fst_crash_op by (simp add: Truncate Let_def split: prod.split)
  then show ?thesis using that same by blast
qed

lemma crash_ops_survive:
  assumes "index_in_range r"
  shows "\<exists>ops'. survives ops ops' \<and> fst (fold (crash_op r torn) ops (b, cg)) = fold apply_op ops' b"
proof (induction ops arbitrary: b cg)
  case Nil
  then show ?case using survives.none by auto
next
  case (Cons op ops)
  obtain b1 cg1 where step: "crash_op r torn op (b, cg) = (b1, cg1)" by (metis prod.collapse)
  obtain ops' where ops': "survives ops ops'"
      "fst (fold (crash_op r torn) ops (b1, cg1)) = fold apply_op ops' b1"
    using Cons by blast
  from crash_op_cases [OF assms, of torn op b cg] show ?case
  proof cases
    case 1
    then show ?thesis using ops' step survives.drop by (intro exI [of _ ops']) auto
  next
    case (2 op')
    then show ?thesis using ops' step survives.land by (intro exI [of _ "op' # ops'"]) auto
  qed
qed

section \<open>What a sync makes durable\<close>

lemma dirs_from_short: "d \<in> set (dirs_from dir) \<Longrightarrow> length d \<le> length dir"
proof (induction dir rule: dirs_from.induct)
  case (1 dir)
  show ?case
  proof (cases "dir = ''/'' \<or> d = dir")
    case False
    then have "d \<in> set (dirs_from (parent dir))" using 1(2) by (subst (asm) dirs_from.simps) auto
    moreover from this have "parent dir \<noteq> ''/''" by (auto simp: dirs_from.simps)
    ultimately show ?thesis using 1(1) False parent_shorter [of dir] by fastforce
  qed (use 1(2) in \<open>auto simp: dirs_from.simps\<close>)
qed

lemma path_not_above: "p \<notin> set (dirs_from (parent p))"
proof
  assume p: "p \<in> set (dirs_from (parent p))"
  then have "parent p \<noteq> ''/''" by (auto simp: dirs_from.simps)
  then show False using dirs_from_short [OF p] parent_shorter [of p] by simp
qed

lemma persist_durable:
  "p \<noteq> ''/'' \<Longrightarrow> dir_entry d p = Some e \<Longrightarrow> map_of (durable (persist_entry p d)) p = Some e"
  using path_not_above [of p] by (simp add: persist_entry_def store_simps)

lemma persist_fields [simp, frame_simps]:
  "inodes (persist_entry p d) = inodes d" "names (persist_entry p d) = names d"
  "dir_entry (persist_entry p d) = dir_entry d" "opts (persist_entry p d) = opts d"
  by (simp_all add: persist_entry_def dir_entry_def fun_eq_iff)

lemma sync_file_fields:
  assumes inv: "disk_inv d" and "dir_entry d p = Some (File n)" and "map_of (inodes d) n = Some i"
    and "d' = snd (sync p False d)"
  shows "map_of (durable d') p = Some (File n)" and "map_of (inodes d') n = Some (flush i)"
proof -
  have "p \<noteq> ''/''" using assms(2) disk_invD(8) [OF inv] by auto
  then show "map_of (durable d') p = Some (File n)" "map_of (inodes d') n = Some (flush i)"
    using assms(2-4)
    by (simp_all add: sync_def sync_ino_def Let_def persist_durable dir_entry_def store_simps)
qed

section \<open>Normal paths\<close>

definition plain_part :: "string \<Rightarrow> bool" where
  "plain_part p \<longleftrightarrow> p \<noteq> [] \<and> p \<noteq> ''.'' \<and> p \<noteq> ''..'' \<and> CHR ''/'' \<notin> set p"

lemma plain_part_other: "CHR ''/'' \<notin> set p \<Longrightarrow> p \<noteq> [] \<Longrightarrow> p \<noteq> ''.'' \<Longrightarrow> p \<noteq> ''..'' \<Longrightarrow> plain_part p"
  by (simp add: plain_part_def)

lemma norm_parts_plain:
  "list_all plain_part acc \<Longrightarrow> list_all (\<lambda>p. CHR ''/'' \<notin> set p) ps \<Longrightarrow>
    list_all plain_part (norm_parts acc ps)"
proof (induction acc ps rule: norm_parts.induct)
  case (2 acc part rest)
  have front: "list_all plain_part (butlast acc)"
    using 2(4) by (metis in_set_butlastD list_all_iff)
  consider "part = [] \<or> part = ''.''" | "part = ''..''" "\<not> (part = [] \<or> part = ''.'')"
    | "plain_part part" "part \<noteq> ''..''" "\<not> (part = [] \<or> part = ''.'')"
    using 2(5) plain_part_other [of part] by (simp add: list_all_iff) blast
  then show ?case by cases (use 2 front in simp_all)
qed simp

lemma norm_parts_split: "\<forall>p \<in> set (norm_parts [] (split_on (CHR ''/'') s)). plain_part p"
  using norm_parts_plain [of "[]" "split_on (CHR ''/'') s"] split_on_no_sep
  by (auto simp: list_all_iff)

lemma norm_parts_id: "\<forall>p \<in> set ps. plain_part p \<Longrightarrow> norm_parts acc ps = acc @ ps"
  by (induction ps arbitrary: acc) (auto simp: plain_part_def)

lemma split_on_app: "c \<notin> set a \<Longrightarrow> split_on c (a @ c # b) = a # split_on c b"
  by (induction a) auto

lemma split_on_plain: "c \<notin> set a \<Longrightarrow> split_on c a = [a]"
  by (induction a) auto

lemma split_on_join:
  "ps \<noteq> [] \<Longrightarrow> \<forall>p \<in> set ps. c \<notin> set p \<Longrightarrow> split_on c (join [c] ps) = ps"
  by (induction "[c]" ps rule: join.induct) (auto simp: split_on_app split_on_plain)

lemma normalize_split: "norm_parts [] (split_on (CHR ''/'') (normalize cwd path)) =
    norm_parts [] (split_on (CHR ''/'') (if take 1 path = ''/'' then path else cwd @ ''/'' @ path))"
proof -
  let ?ps = "norm_parts [] (split_on (CHR ''/'') (if take 1 path = ''/'' then path else cwd @ ''/'' @ path))"
  have plain: "\<forall>p \<in> set ?ps. plain_part p"
    by (rule norm_parts_split)
  then have "\<forall>p \<in> set ?ps. CHR ''/'' \<notin> set p" by (auto simp: plain_part_def)
  then have "split_on (CHR ''/'') (''/'' @ join ''/'' ?ps) = [] # (if ?ps = [] then [[]] else ?ps)"
    using split_on_join [of ?ps "CHR ''/''"] by (cases "?ps = []") simp_all
  then show ?thesis
    using norm_parts_id [OF plain] by (simp add: normalize_def Let_def)
qed

section \<open>Space\<close>

lemma used_put:
  assumes "map_of m n = Some i" and "bt_ok m"
  shows "sum_list (map (\<lambda>(_, i). length (data i)) (bt_put n i' m)) + length (data i) =
    sum_list (map (\<lambda>(_, i). length (data i)) m) + length (data i')"
  using assms
proof (induction m)
  case (Cons x m)
  obtain k j where x: "x = (k, j)" by fastforce
  show ?case
  proof (cases "k = n")
    case False
    then have "map_of m n = Some i" "bt_ok m" using Cons.prems by (auto simp: x bt_ok_def)
    moreover from this have "k < n" using Cons.prems by (auto simp: x bt_ok_def dest!: map_of_SomeD)
    moreover from this have "n \<noteq> k" "\<not> n < k" by auto
    ultimately show ?thesis using Cons.IH by (simp add: x)
  qed (use Cons.prems in \<open>simp add: x\<close>)
qed simp

lemma used_put_new:
  "map_of m n = None \<Longrightarrow> sum_list (map (\<lambda>(_, i). length (data i)) (bt_put n i' m)) =
    sum_list (map (\<lambda>(_, i). length (data i)) m) + length (data i')"
  by (induction m) (auto split: if_splits)

lemma change_ino_used:
  assumes inv: "bt_ok (inodes d)" and ok: "change_ino n op t d = (Inr u, d')"
  shows "used d' + len_of d n = used d + length (apply_op op (data (the (map_of (inodes d) n))))"
  using ok used_put [OF _ inv, of n]
  by (auto simp: change_ino_def used_def len_of_def change_def split: option.splits)

lemma apply_op_length [simp]:
  "length (apply_op (Write at bs) b) = max (length b) (at + length bs)"
  "length (apply_op (Truncate n) b) = n"
  by (simp_all add: resize_def Let_def)

section \<open>Properties\<close>

definition zero_rng :: "unit rng" where
  "zero_rng = \<lparr>draw_f64 = (\<lambda>g. (f64_one, g)), draw_index = (\<lambda>n g. (0, g))\<rparr>"

text \<open>A small disk to evaluate examples on: one file written and not synced, torn writes on.\<close>

definition demo_disk :: disk where
  "demo_disk = run_ops (disk_step zero_rng)
     [Mkdir ''/d'', WriteFile ''/d/f'' [1, 2, 3] False 5]
     (disk_new (disk_opts_default\<lparr>torn_writes := True, full_at := Some 4\<rparr>))"

lemma demo_disk_inv: "disk_inv demo_disk"
  unfolding demo_disk_def by (rule disk_machine.inv_reachable) (simp add: abs_path_def)

lemma demo_disk_eval: "demo_disk =
   \<lparr>opts = disk_opts_default\<lparr>torn_writes := True, full_at := Some 4\<rparr>,
    inodes = [(1, \<lparr>data = [1, 2, 3], kept = [], pending = [Truncate 0, Write 0 [1, 2, 3]], modified = 5\<rparr>)],
    next_ino = 2, names = [(''/'', Dir), (''/d'', Dir), (''/d/f'', File 1)], durable = [(''/'', Dir)],
    boot = 0, stats = stats_zero\<lparr>st_writes := 2\<rparr>\<rparr>"
  by code_simp

lemma demo_sync_inv: "disk_inv (snd (sync ''/d/f'' False demo_disk))"
  by (rule sync_inv [OF demo_disk_inv])

lemma demo_sync_durable: "map_of (durable (snd (sync ''/d/f'' False demo_disk))) ''/d/f'' = Some (File 1)"
  by code_simp

text \<open>C3: the disk never corrupts itself. After any sequence of operations, crashes and kills included,
  both namespaces are maps of absolute paths under a root directory, every file they name has its
  inode, and every inode's durable bytes with its pending writes applied are the bytes a reader sees.\<close>

theorem disk_consistent:
  assumes "obliged (disk_step r) disk_pre ops (disk_new o1)"
  shows "disk_inv (run_ops (disk_step r) ops (disk_new o1))"
  using assms by (rule disk_machine.inv_reachable)

theorem disk_consistent_witness:
  "disk_inv (run_ops (disk_step zero_rng)
     [MkdirAll ''/d/e'', WriteFile ''/d/f'' [1, 2, 3] False 5, Sync ''/d/f'' False,
      Rename ''/d/f'' ''/d/g'', CrashNow (), Unlink ''/d/f''] (disk_new disk_opts_default))"
  by (rule disk_consistent) (simp add: abs_path_def)

lemma image_inodes_at: "map_of (image_inodes from m acc) n =
    (if n \<in> inos m \<and> map_of from n \<noteq> None
     then map_option (\<lambda>i. \<lparr>data = kept i, kept = kept i, pending = [], modified = modified i\<rparr>) (map_of from n)
     else map_of acc n)"
  by (induction "from" m acc rule: image_inodes.induct)
    (auto simp: inos_def List.map_filter_def store_simps split: dentry.splits option.splits)

text \<open>C37: a crash without torn writes leaves exactly what was durable. Every path then reads as its
  durable bytes under its durable name, which is also what the durable image reads, and nothing is
  pending.\<close>

theorem crash_is_durable_image:
  assumes "disk_inv d" and "\<not> torn_writes (opts d)"
  shows "names (crashed r g d) = names (durable_image d) \<and>
    (\<forall>p. read (crashed r g d) p = read (durable_image d) p) \<and>
    (\<forall>p b. durable_read d p = Some b \<longrightarrow> read (crashed r g d) p = Some (Inr b)) \<and>
    \<not> dirty (crashed r g d)"
proof -
  have stays: "read (crashed r g d) p = Some (Inr (kept i)) \<and> read (durable_image d) p = Some (Inr (kept i))"
    if p: "map_of (durable d) p = Some (File n)" and i: "map_of (inodes d) n = Some i" for p n i
  proof
    show "read (crashed r g d) p = Some (Inr (kept i))"
      using crashed_read [OF p i] assms(2) by (auto simp: crash_ops_clean)
    have "n \<in> inos (durable d)" using p by (auto simp: inos_iff dest: map_of_SomeD)
    then show "read (durable_image d) p = Some (Inr (kept i))"
      using p i by (simp add: read_def file_ino_def dir_entry_def durable_image_def image_inodes_at)
  qed
  have "read (crashed r g d) p = read (durable_image d) p" for p
  proof (cases "map_of (durable d) p")
    case (Some e)
    show ?thesis
    proof (cases e)
      case (File n)
      then obtain i where "map_of (inodes d) n = Some i" using disk_invD(7) [OF assms(1)] Some by blast
      then show ?thesis using stays Some File by metis
    qed (use Some in \<open>simp add: read_def file_ino_def dir_entry_def crashed_fields durable_image_def\<close>)
  qed (simp add: read_def file_ino_def dir_entry_def crashed_fields durable_image_def)
  moreover have "read (crashed r g d) p = Some (Inr b)" if "durable_read d p = Some b" for p b
    using that stays by (auto simp: durable_read_def split: option.splits dentry.splits)
  moreover have "\<not> dirty (crashed r g d)"
    using crash_inodes_ok by (fastforce simp: dirty_def crashed_fields list_ex_iff)
  ultimately show ?thesis by (simp add: crashed_fields durable_image_def)
qed

theorem crash_is_durable_image_witness:
  "\<not> dirty (crashed zero_rng () (snd (sync ''/d/f'' False (demo_disk\<lparr>opts := disk_opts_default\<rparr>))))"
proof -
  have "disk_inv (snd (sync ''/d/f'' False (demo_disk\<lparr>opts := disk_opts_default\<rparr>)))"
    by (rule sync_inv, rule disk_inv_cong [OF demo_disk_inv]) simp_all
  moreover have "\<not> torn_writes (opts (snd (sync ''/d/f'' False (demo_disk\<lparr>opts := disk_opts_default\<rparr>))))"
    by code_simp
  ultimately show ?thesis
    using crash_is_durable_image [of "snd (sync ''/d/f'' False (demo_disk\<lparr>opts := disk_opts_default\<rparr>))"
        zero_rng "()"] by simp
qed

text \<open>C11: what was synced survives. After an honest sync of a file, a crash, torn writes or not,
  leaves the file at its name with the bytes it had.\<close>

theorem sync_survives_crash:
  assumes "disk_inv d" and "read d p = Some (Inr b)" and "sync p False d = (res, d')"
  shows "res = Inr () \<and> read (crashed r g d') p = Some (Inr b)"
proof -
  obtain n i where n: "dir_entry d p = Some (File n)" and i: "map_of (inodes d) n = Some i" "data i = b"
    using assms(2) by (auto simp: read_def file_ino_def split: option.splits dentry.splits)
  have d': "d' = snd (sync p False d)" using assms(3) by simp
  note synced = sync_file_fields [OF assms(1) n i(1) d']
  have "kept (flush i) = b" using disk_invD(4) [OF assms(1) i(1)] i(2) by simp
  moreover obtain cg where "read (crashed r g d') p = Some (Inr (fst (fold
      (crash_op r (torn_writes (opts d'))) (pending (flush i)) (kept (flush i), cg))))"
    using crashed_read [OF synced] .
  moreover have "res = Inr ()" using assms(3) n by (simp add: sync_def)
  ultimately show ?thesis by simp
qed

theorem sync_survives_crash_witness:
  "read (crashed zero_rng () (snd (sync ''/d/f'' False demo_disk))) ''/d/f'' = Some (Inr [1, 2, 3])"
proof -
  have "read demo_disk ''/d/f'' = Some (Inr [1, 2, 3])" by code_simp
  from sync_survives_crash [OF demo_disk_inv this, of _ _ zero_rng "()"] show ?thesis
    by (metis prod.collapse)
qed

text \<open>A sync that lies keeps nothing: it answers success and changes the statistics only, so any
  crash after it is the crash there would have been without it.\<close>

theorem lying_sync_keeps_nothing:
  assumes "sync p True d = (Inr u, d')"
  shows "d' = d\<lparr>stats := stats d'\<rparr> \<and> st_syncs (stats d') = st_syncs (stats d) + 1 \<and>
    st_lies (stats d') = st_lies (stats d) + 1 \<and>
    names (crashed r g d') = names (crashed r g d) \<and> inodes (crashed r g d') = inodes (crashed r g d)"
  using assms
  by (auto simp: sync_def sync_ino_def sync_dir_def Let_def crashed_fields
      split: option.splits dentry.splits)

theorem lying_sync_keeps_nothing_witness:
  "st_lies (stats (snd (sync ''/d/f'' True demo_disk))) = st_lies (stats demo_disk) + 1"
proof -
  have "fst (sync ''/d/f'' True demo_disk) = Inr ()" by code_simp
  then have "sync ''/d/f'' True demo_disk = (Inr (), snd (sync ''/d/f'' True demo_disk))"
    by (metis prod.collapse)
  from lying_sync_keeps_nothing [OF this, of zero_rng "()"] show ?thesis by blast
qed

text \<open>torn writes stay within the model. After any crash a surviving file holds its durable bytes
  with a selection of its pending writes applied in order, each whole or cut at a sector boundary
  strictly inside it.\<close>

theorem crash_torn_exact:
  assumes "disk_inv d" and "index_in_range r" and "map_of (durable d) p = Some (File n)"
  shows "\<exists>i ops. map_of (inodes d) n = Some i \<and> survives (pending i) ops \<and>
    read (crashed r g d) p = Some (Inr (fold apply_op ops (kept i)))"
proof -
  obtain i where i: "map_of (inodes d) n = Some i" using disk_invD(7) [OF assms(1,3)] by blast
  obtain cg where "read (crashed r g d) p = Some (Inr (fst (fold (crash_op r (torn_writes (opts d)))
      (pending i) (kept i, cg))))"
    using crashed_read [OF assms(3) i] .
  moreover obtain ops where "survives (pending i) ops"
    "fst (fold (crash_op r (torn_writes (opts d))) (pending i) (kept i, cg)) = fold apply_op ops (kept i)"
    using crash_ops_survive [OF assms(2)] by blast
  ultimately show ?thesis using i by auto
qed

theorem crash_torn_exact_witness:
  "\<exists>i ops. map_of (inodes (snd (sync ''/d/f'' False demo_disk))) 1 = Some i \<and> survives (pending i) ops \<and>
     read (crashed zero_rng () (snd (sync ''/d/f'' False demo_disk))) ''/d/f'' =
       Some (Inr (fold apply_op ops (kept i)))"
  by (rule crash_torn_exact [OF demo_sync_inv _ demo_sync_durable])
    (simp add: index_in_range_def zero_rng_def)

text \<open>normal paths. A normalized path starts at the root, has no empty, '.' or '..' component, and
  is left as it is by normalizing again from anywhere.\<close>

theorem normalize_normal:
  "(\<exists>ps. normalize cwd path = ''/'' @ join ''/'' ps \<and> (\<forall>p \<in> set ps. plain_part p)) \<and>
   normalize cwd' (normalize cwd path) = normalize cwd path"
proof -
  let ?ps = "norm_parts [] (split_on (CHR ''/'') (if take 1 path = ''/'' then path else cwd @ ''/'' @ path))"
  have "normalize cwd path = ''/'' @ join ''/'' ?ps" by (simp add: normalize_def Let_def)
  moreover have "\<forall>p \<in> set ?ps. plain_part p"
    by (rule norm_parts_split)
  moreover have "normalize cwd' (normalize cwd path) = normalize cwd path"
    using normalize_split [of cwd path]
    by (simp add: normalize_def [of cwd' "normalize cwd path"] Let_def)
      (simp add: normalize_def Let_def)
  ultimately show ?thesis by blast
qed

theorem normalize_normal_witness:
  "normalize ''/w'' ''a/../b/./c'' = ''/w/b/c'' \<and> normalize ''/'' ''/w/b/c'' = ''/w/b/c''"
proof -
  have path: "normalize ''/w'' ''a/../b/./c'' = ''/w/b/c''" by code_simp
  with normalize_normal [of "''/w''" "''a/../b/./c''" "''/''"] show ?thesis by simp
qed

section \<open>Writing and renaming\<close>

lemma change_ino_at:
  assumes "change_ino n op t d = (Inr u, d')"
  shows "names d' = names d" "durable d' = durable d"
    "map_of (inodes d') m =
       (if m = n then map_option (change op t) (map_of (inodes d) n) else map_of (inodes d) m)"
    "map_of (inodes d) n \<noteq> None"
  using assms by (auto simp: change_ino_def store_simps split: option.splits)

lemma open_file_at:
  assumes "open_file p True False d = (Inr n, d')" and "disk_inv d"
  shows "dir_entry d' p = Some (File n)"
    "q \<noteq> p \<Longrightarrow> dir_entry d' q = dir_entry d q"
    "map_of (inodes d') n = (case dir_entry d p of None \<Rightarrow> Some inode_empty | _ \<Rightarrow> map_of (inodes d) n)"
    "m \<noteq> n \<Longrightarrow> map_of (inodes d') m = map_of (inodes d) m"
    "dir_entry d p = None \<Longrightarrow> dir_entry d q = Some (File m) \<Longrightarrow> m \<noteq> n"
  using assms(1) disk_invD(5,6) [OF assms(2)]
  by (fastforce simp: open_file_def need_dir_def Let_def dir_entry_def store_simps
      split: option.splits dentry.splits)+

lemma apply_op_append: "apply_op (Write (length b) bs) b = b @ bs"
  by (simp add: resize_def Let_def)

lemma apply_op_replace: "apply_op (Write 0 bs) (apply_op (Truncate 0) b) = bs"
  by (simp add: resize_def Let_def)

lemma read_ino: "dir_entry d p = Some (File n) \<Longrightarrow>
    read d p = map_option (\<lambda>i. Inr (data i)) (map_of (inodes d) n)"
  by (simp add: read_def file_ino_def)

lemma write_at_ok: "write_at n at bs t d = (Inr u, d') \<Longrightarrow>
    change_ino n (Write at bs) t d = (Inr u, d')"
  by (auto simp: write_at_def and_then_ok room_for_ok)

lemma truncate_ok: "truncate_ino n len t d = (Inr u, d') \<Longrightarrow>
    change_ino n (Truncate len) t d = (Inr u, d')"
  by (auto simp: truncate_ino_def and_then_ok room_for_ok)

lemma write_file_steps:
  assumes "write_file p bs app t d = (Inr u, d')" and inv: "disk_inv d"
  obtains n d2 i where "open_file p True False d = (Inr n, d2)"
    "map_of (inodes d2) n = Some i" "names d' = names d2"
    "\<And>m. map_of (inodes d') m = (if m = n
       then Some (if app then change (Write (length (data i)) bs) t i
                  else change (Write 0 bs) t (change (Truncate 0) t i))
       else map_of (inodes d2) m)"
proof -
  obtain existing where ex: "write_existing p d = Inr existing"
    using assms(1) by (auto simp: write_file_def split: sum.splits)
  define old where "old = (case existing of Some i \<Rightarrow> len_of d i | None \<Rightarrow> 0)"
  obtain n d2 where op: "open_file p True False d = (Inr n, d2)" and
    rest: "(if app then write_at n old bs t d2
       else and_then (truncate_ino n 0 t d2) (\<lambda>_. write_at n 0 bs t)) = (Inr u, d')"
    using assms(1) ex unfolding old_def
    by (auto simp: write_file_def Let_def and_then_ok room_for_ok)
  have "map_of (inodes d2) n \<noteq> None"
    using rest by (auto split: if_splits simp: and_then_ok dest!: write_at_ok truncate_ok change_ino_at(4))
  then obtain i where i: "map_of (inodes d2) n = Some i" by blast
  have old: "old = length (data i)" if app
  proof (cases "dir_entry d p")
    case None
    then have "i = inode_empty" "existing = None"
      using open_file_at(3) [OF op inv] i ex by (auto simp: write_existing_def split: sum.splits)
    then show ?thesis by (simp add: old_def inode_empty_def)
  next
    case (Some e)
    then obtain k where "e = File k" "existing = Some k" using ex
      by (cases e) (auto simp: write_existing_def)
    moreover from this have "k = n" "d2 = d" using op Some by (auto simp: open_file_def)
    ultimately show ?thesis using i by (simp add: old_def len_of_def)
  qed
  show ?thesis
  proof (cases app)
    case True
    then have "change_ino n (Write (length (data i)) bs) t d2 = (Inr u, d')"
      using rest old by (simp add: write_at_ok)
    from change_ino_at(1,3) [OF this] show ?thesis
      using i True by (intro that [OF op i]) auto
  next
    case False
    then obtain v d3 where "truncate_ino n 0 t d2 = (Inr v, d3)" "write_at n 0 bs t d3 = (Inr u, d')"
      using rest by (auto simp: and_then_ok)
    then have "change_ino n (Truncate 0) t d2 = (Inr v, d3)" "change_ino n (Write 0 bs) t d3 = (Inr u, d')"
      by (simp_all add: truncate_ok write_at_ok)
    from change_ino_at(1,3) [OF this(1)] change_ino_at(1,3) [OF this(2)] show ?thesis
      using i False by (intro that [OF op i]) auto
  qed
qed

text \<open>a write is read back. After a successful write the file holds the new bytes (after its old
  ones when appending), and every path that does not name the same inode is as it was.\<close>

theorem write_read:
  assumes "disk_inv d" and "write_file p bs app t d = (Inr u, d')"
  shows "read d' p = Some (Inr ((case read d p of Some (Inr b) \<Rightarrow> if app then b else [] | _ \<Rightarrow> []) @ bs)) \<and>
    (\<forall>q. q \<noteq> p \<longrightarrow> (\<forall>n. dir_entry d p = Some (File n) \<longrightarrow> dir_entry d q \<noteq> Some (File n)) \<longrightarrow>
       dir_entry d' q = dir_entry d q \<and> read d' q = read d q)"
proof (intro conjI allI impI)
  obtain n d2 i where s: "open_file p True False d = (Inr n, d2)"
    "map_of (inodes d2) n = Some i" "names d' = names d2"
    "\<And>m. map_of (inodes d') m = (if m = n
       then Some (if app then change (Write (length (data i)) bs) t i
                  else change (Write 0 bs) t (change (Truncate 0) t i))
       else map_of (inodes d2) m)"
    using write_file_steps [OF assms(2,1)] by blast
  note at_open = open_file_at [OF s(1) assms(1)]
  have entry: "dir_entry d' = dir_entry d2" using s(3) by (simp add: dir_entry_def fun_eq_iff)
  have "read d p = (case dir_entry d p of None \<Rightarrow> Some (Inl not_found) | _ \<Rightarrow> Some (Inr (data i)))"
    using s(1,2) by (auto simp: open_file_def read_def file_ino_def split: option.splits dentry.splits)
  moreover have "dir_entry d p = None \<Longrightarrow> data i = []"
    using at_open(3) s(2) by (simp add: inode_empty_def)
  moreover have "read d' p = Some (Inr ((if app then data i else []) @ bs))"
    using at_open(1) entry s(4) [of n] apply_op_append [of "data i" bs] apply_op_replace [of bs "data i"]
    by (simp add: read_ino change_def del: apply_op.simps)
  ultimately show "read d' p =
      Some (Inr ((case read d p of Some (Inr b) \<Rightarrow> if app then b else [] | _ \<Rightarrow> []) @ bs))"
    by (auto split: option.splits)
next
  fix q
  assume q: "q \<noteq> p" "\<forall>n. dir_entry d p = Some (File n) \<longrightarrow> dir_entry d q \<noteq> Some (File n)"
  obtain n d2 i where s: "open_file p True False d = (Inr n, d2)"
    "map_of (inodes d2) n = Some i" "names d' = names d2"
    "\<And>m. map_of (inodes d') m = (if m = n
       then Some (if app then change (Write (length (data i)) bs) t i
                  else change (Write 0 bs) t (change (Truncate 0) t i))
       else map_of (inodes d2) m)"
    using write_file_steps [OF assms(2,1)] by blast
  note at_open = open_file_at [OF s(1) assms(1)]
  show entry: "dir_entry d' q = dir_entry d q"
    using at_open(2) [OF q(1)] s(3) by (simp add: dir_entry_def)
  have "m \<noteq> n" if "dir_entry d q = Some (File m)" for m
    using that q(2) at_open(1,5) s(1)
    by (cases "dir_entry d p") (auto simp: open_file_def split: dentry.splits)
  then have "map_of (inodes d') m = map_of (inodes d) m" if "dir_entry d q = Some (File m)" for m
    using that s(4) [of m] at_open(4) by simp
  then show "read d' q = read d q"
    using entry by (simp add: read_def file_ino_def split: option.splits dentry.splits)
qed

theorem write_read_witness:
  "read (snd (write_file ''/d/f'' [9] True 7 demo_disk)) ''/d/f'' = Some (Inr [1, 2, 3, 9])"
proof -
  have "fst (write_file ''/d/f'' [9] True 7 demo_disk) = Inr ()" by code_simp
  then have w: "write_file ''/d/f'' [9] True 7 demo_disk =
      (Inr (), snd (write_file ''/d/f'' [9] True 7 demo_disk))" by (metis prod.collapse)
  have r: "read demo_disk ''/d/f'' = Some (Inr [1, 2, 3])" by code_simp
  from write_read [OF demo_disk_inv w] show ?thesis by (simp add: r)
qed

section \<open>A full disk\<close>

lemma write_at_fits:
  assumes "bt_ok (inodes d)" and "full_at (opts d) = Some limit" and "write_at n at bs t d = (Inr u, d')"
  shows "used d' \<le> max (used d) limit"
proof -
  let ?grow = "at + length bs - len_of d n"
  have ch: "change_ino n (Write at bs) t d = (Inr u, d')" and room: "?grow = 0 \<or> used d + ?grow \<le> limit"
    using assms(2,3) by (auto simp: write_at_def and_then_ok room_for_ok)
  have "len_of d n = length (data (the (map_of (inodes d) n)))"
    using ch by (auto simp: change_ino_def len_of_def split: option.splits)
  then have "used d' + len_of d n = used d + max (len_of d n) (at + length bs)"
    using change_ino_used [OF assms(1) ch] by (simp del: apply_op.simps)
  then show ?thesis using room by auto
qed

lemma write_at_refused:
  assumes "write_at n at bs t d = (Inl e, d')"
  shows "inodes d' = inodes d" "names d' = names d" "durable d' = durable d"
    "full_at (opts d) = Some limit \<Longrightarrow> map_of (inodes d) n \<noteq> None \<Longrightarrow>
      e = no_space \<and> 0 < at + length bs - len_of d n \<and> limit < used d + (at + length bs - len_of d n)"
  using assms
  by (auto simp: write_at_def and_then_def room_for_def change_ino_def split: option.splits sum.splits if_splits)

text \<open>The inode a whole-file write works on.\<close>

lemma write_opens:
  assumes "disk_inv d" and "write_existing p d = Inr existing"
  obtains n d2 i where "open_file p True False d = (Inr n, d2)" and "map_of (inodes d2) n = Some i"
    and "bt_ok (inodes d2)" and "used d2 = used d" and "opts d2 = opts d" and "dir_entry d2 p = Some (File n)"
    and "case existing of Some k \<Rightarrow> k = n \<and> d2 = d | None \<Rightarrow> data i = []"
proof (cases existing)
  case (Some k)
  then have e: "dir_entry d p = Some (File k)" using assms(2) by (auto simp: write_existing_def split: option.splits dentry.splits sum.splits)
  obtain i where "map_of (inodes d) k = Some i" using disk_invD(6) [OF assms(1) e] by blast
  then show ?thesis using e Some disk_invD(1) [OF assms(1)] by (intro that [of k d i]) (simp_all add: open_file_def)
next
  case None
  then have e: "dir_entry d p = None" "\<exists>x. need_dir d (parent p) = Inr x"
    using assms(2) by (auto simp: write_existing_def split: option.splits dentry.splits sum.splits)
  let ?n = "next_ino d"
  let ?d = "d\<lparr>next_ino := ?n + 1, inodes := bt_put ?n inode_empty (inodes d), names := bt_put p (File ?n) (names d)\<rparr>"
  have fresh: "map_of (inodes d) ?n = None" using disk_invD(5) [OF assms(1)] by (cases "map_of (inodes d) ?n") auto
  have "open_file p True False d = (Inr ?n, ?d)" using e by (auto simp: open_file_def Let_def)
  moreover have "used ?d = used d" using used_put_new [OF fresh, of inode_empty] by (simp add: used_def inode_empty_def)
  moreover have "bt_ok (inodes ?d)" using disk_invD(1) [OF assms(1)] by (simp add: bt.ok_put)
  ultimately show ?thesis using None by (intro that [of ?n ?d inode_empty]) (simp_all add: store_simps dir_entry_def inode_empty_def)
qed

lemma truncate_empties:
  assumes "bt_ok (inodes d)" and "map_of (inodes d) n = Some i"
  obtains d' where "truncate_ino n 0 t d = (Inr (), d')" and "used d' + length (data i) = used d"
    and "map_of (inodes d') n = Some (change (Truncate 0) t i)" and "names d' = names d" and "durable d' = durable d"
    and "opts d' = opts d" and "bt_ok (inodes d')"
proof -
  have r: "room_for (0 - len_of d n) d = (Inr (), d)" by (simp add: room_for_def split: option.split)
  obtain d' where c: "change_ino n (Truncate 0) t d = (Inr (), d')" using assms(2) by (simp add: change_ino_def)
  have "used d' + length (data i) = used d"
    using change_ino_used [OF assms(1) c] assms(2) by (simp add: len_of_def resize_def Let_def)
  with c r assms show ?thesis
    by (intro that [of d']) (auto simp: truncate_ino_def and_then_def change_ino_def store_simps bt.ok_put)
qed

lemma write_file_space:
  assumes "disk_inv d" and "full_at (opts d) = Some limit"
  shows "case write_file p bs app t d of
      (Inr _, d') \<Rightarrow> used d' \<le> max (used d) limit
    | (Inl e, d') \<Rightarrow> names d' = names d \<and> durable d' = durable d \<and>
        (inodes d' = inodes d \<or>
         (\<exists>k. dir_entry d p = Some (File k) \<and> \<not> app \<and> 0 < length bs \<and> length bs \<le> len_of d k \<and>
            limit + len_of d k < used d + length bs \<and> e = no_space \<and> read d' p = Some (Inr [])))"
proof (cases "write_existing p d")
  case (Inl e)
  then show ?thesis by (simp add: write_file_def)
next
  case (Inr existing)
  define old where "old = (case existing of Some i \<Rightarrow> len_of d i | None \<Rightarrow> 0)"
  define grow where "grow = (if app then length bs else length bs - old)"
  show ?thesis
  proof (cases "0 < grow \<and> limit < used d + grow")
    case True
    then show ?thesis using Inr assms(2)
      by (auto simp: write_file_def room_for_def and_then_def grow_def old_def Let_def)
  next
    case False
    obtain n d2 i where o: "open_file p True False d = (Inr n, d2)" "map_of (inodes d2) n = Some i"
        "bt_ok (inodes d2)" "used d2 = used d" "opts d2 = opts d" "dir_entry d2 p = Some (File n)"
        "case existing of Some k \<Rightarrow> k = n \<and> d2 = d | None \<Rightarrow> data i = []"
      using write_opens [OF assms(1) Inr] by metis
    have old: "old = length (data i)" "len_of d2 n = length (data i)"
      using o(2,7) by (auto simp: old_def len_of_def split: option.splits)
    have full2: "full_at (opts d2) = Some limit" using assms(2) o(5) by simp
    have run: "write_file p bs app t d =
        (if app then write_at n old bs t d2 else and_then (truncate_ino n 0 t d2) (\<lambda>_. write_at n 0 bs t))"
      using False Inr o(1) assms(2)
      by (auto simp: write_file_def room_for_def and_then_def grow_def old_def Let_def)
    show ?thesis
    proof (cases app)
      case True
      obtain r d' where w: "write_at n old bs t d2 = (r, d')" by fastforce
      have "\<not> (\<exists>e. r = Inl e)"
        using write_at_refused(4) [of n old bs t d2 _ d' limit] w full2 o(2,4) old False True
        by (auto simp: grow_def)
      then obtain u where "r = Inr u" by (cases r) auto
      then show ?thesis using run True w write_at_fits [OF o(3) full2] o(4) by simp
    next
      case False': False
      obtain d3 where tr: "truncate_ino n 0 t d2 = (Inr (), d3)" "used d3 + length (data i) = used d2"
          "map_of (inodes d3) n = Some (change (Truncate 0) t i)" "names d3 = names d2" "durable d3 = durable d2"
          "opts d3 = opts d2" "bt_ok (inodes d3)"
        using truncate_empties [OF o(3,2)] by metis
      have full3: "full_at (opts d3) = Some limit" using full2 tr(6) by simp
      obtain r d' where w: "write_at n 0 bs t d3 = (r, d')" by fastforce
      have run': "write_file p bs app t d = (r, d')" using run False' tr(1) w by (simp add: and_then_def)
      show ?thesis
      proof (cases r)
        case (Inr u)
        then show ?thesis using run' w write_at_fits [OF tr(7) full3] tr(2) o(4) by fastforce
      next
        case (Inl e)
        have len3: "len_of d3 n = 0" using tr(3) by (simp add: len_of_def change_def resize_def Let_def)
        note ref = write_at_refused [OF w [unfolded Inl]]
        have no: "e = no_space" "0 < length bs" "limit < used d3 + length bs"
          using ref(4) [OF full3] tr(3) len3 by auto
        have "old \<noteq> 0 \<and> length bs \<le> old"
          using no False False' tr(2) o(4) old(1) by (auto simp: grow_def not_le)
        then obtain k where k: "existing = Some k" "k = n" "d2 = d"
          using o(7) old by (auto split: option.splits)
        have "read d' p = Some (Inr [])"
          using o(6) k(3) ref(1,2) tr(3,4) by (simp add: read_def file_ino_def dir_entry_def change_def resize_def Let_def)
        then show ?thesis
          using run' Inl ref tr(2,4,5) k no o(6) old False' \<open>old \<noteq> 0 \<and> length bs \<le> old\<close> by auto
      qed
    qed
  qed
qed

text \<open>C38: a full disk. On a disk with a limit, a write at an offset or a write of a whole file that succeeds
  leaves no more bytes in use than the limit or than there were before. A write at an offset that is
  refused changes no byte and no name. A whole-file write that is refused changes none either, but for one
  case: replacing a file by something not empty and no longer than it, on a disk so far over its limit that it
  would still be over it afterwards, is refused for space and leaves the file empty.\<close>

theorem write_at_space:
  assumes "disk_inv d" and "full_at (opts d) = Some limit"
  shows "(case write_at n at bs t d of
      (Inr _, d') \<Rightarrow> used d' \<le> max (used d) limit
    | (Inl e, d') \<Rightarrow> inodes d' = inodes d \<and> names d' = names d \<and> durable d' = durable d) \<and>
    (case write_file p cs app t' d of
      (Inr _, d') \<Rightarrow> used d' \<le> max (used d) limit
    | (Inl e, d') \<Rightarrow> names d' = names d \<and> durable d' = durable d \<and>
        (inodes d' = inodes d \<or>
         (\<exists>k. dir_entry d p = Some (File k) \<and> \<not> app \<and> 0 < length cs \<and> length cs \<le> len_of d k \<and>
            limit + len_of d k < used d + length cs \<and> e = no_space \<and> read d' p = Some (Inr []))))"
proof (rule conjI)
  show "case write_at n at bs t d of
      (Inr _, d') \<Rightarrow> used d' \<le> max (used d) limit
    | (Inl e, d') \<Rightarrow> inodes d' = inodes d \<and> names d' = names d \<and> durable d' = durable d"
    using write_at_fits [OF disk_invD(1) [OF assms(1)] assms(2)] write_at_refused(1-3)
    by (auto split: prod.split sum.split)
  show "case write_file p cs app t' d of
      (Inr _, d') \<Rightarrow> used d' \<le> max (used d) limit
    | (Inl e, d') \<Rightarrow> names d' = names d \<and> durable d' = durable d \<and>
        (inodes d' = inodes d \<or>
         (\<exists>k. dir_entry d p = Some (File k) \<and> \<not> app \<and> 0 < length cs \<and> length cs \<le> len_of d k \<and>
            limit + len_of d k < used d + length cs \<and> e = no_space \<and> read d' p = Some (Inr [])))"
    by (rule write_file_space [OF assms])
qed

theorem write_at_space_witness:
  "fst (write_at 1 3 [4, 5] 6 demo_disk) = Inl no_space \<and>
   inodes (snd (write_at 1 3 [4, 5] 6 demo_disk)) = inodes demo_disk \<and>
   used (snd (write_file ''/d/f'' [9] True 7 demo_disk)) \<le> 4"
proof -
  have "full_at (opts demo_disk) = Some 4" by code_simp
  moreover have refused: "fst (write_at 1 3 [4, 5] 6 demo_disk) = Inl no_space" by code_simp
  moreover have "fst (write_file ''/d/f'' [9] True 7 demo_disk) = Inr ()" and "used demo_disk = 3" by code_simp+
  ultimately show ?thesis
    using write_at_space [OF demo_disk_inv, where limit = 4 and n = 1 and at = 3 and bs = "[4, 5]" and t = 6 and p = "''/d/f''" and cs = "[9]" and app = True and t' = 7]
    by (cases "write_at 1 3 [4, 5] 6 demo_disk"; cases "write_file ''/d/f'' [9] True 7 demo_disk") auto
qed

section \<open>Durable names\<close>

lemma map_of_only:
  assumes "set xs = {(k, v)}"
  shows "map_of xs = [k \<mapsto> v]"
proof
  fix x
  show "map_of xs x = [k \<mapsto> v] x"
    using assms by (cases "map_of xs x") (auto simp: map_of_eq_None_iff dest: map_of_SomeD)
qed

lemma rename_file_names:
  assumes inv: "disk_inv d" and f: "dir_entry d a = Some (File n)" and "a \<noteq> b"
    and below: "\<And>q. under a q \<Longrightarrow> dir_entry d q = None"
    and ok: "rename a b d = (Inr (), d1)"
  shows "dir_entry d1 q = (if q = b then Some (File n) else if q = a then None else dir_entry d q)"
    and "durable d1 = durable d"
proof -
  let ?here = "filter (\<lambda>(p, _). p = a \<or> under a p) (names d)"
  have entry: "(p, e) \<in> set (names d) \<longleftrightarrow> dir_entry d p = Some e" for p e
    using bt.entry_iff [of "names d" p e] ns_okD(1) [OF disk_invD(2) [OF inv]] by (simp add: dir_entry_def)
  have "set ?here = {(a, File n)}" using f below by (auto simp: entry)
  then have "set (rev (moved_tree a b (names d))) = {(b, File n)}" by (simp add: moved_tree_def)
  then have moved: "map_of (rev (moved_tree a b (names d))) = [b \<mapsto> File n]" by (rule map_of_only)
  have d1: "d1 = forget_unreachable (d\<lparr>names := put_all (moved_tree a b (names d)) (drop_tree a (names d))\<rparr>)"
    using ok f assms(3) by (auto simp: rename_def split: option.splits sum.splits if_splits)
  then show "durable d1 = durable d" by simp
  have "under a q \<Longrightarrow> map_of (names d) q = None" using below by (simp add: dir_entry_def)
  then show "dir_entry d1 q = (if q = b then Some (File n) else if q = a then None else dir_entry d q)"
    unfolding d1 by (auto simp: dir_entry_def store_simps moved)
qed

text \<open>C40: a rename is not atomic over a crash in the model of the disk. Take a file whose name \<open>a\<close> is durable, nothing below it,
  renamed to another absolute path \<open>b\<close>, no folder above which is \<open>a\<close>, and synced under \<open>b\<close>. Before the crash \<open>a\<close> is gone; after any crash
  both names are there and reach one inode, so that a write of the whole of either is read through the
  other.\<close>

theorem crash_durable_names:
  assumes "disk_inv d" and "dir_entry d a = Some (File n)" and "map_of (durable d) a = Some (File n)" and "a \<noteq> b"
    and "\<And>q. under a q \<Longrightarrow> dir_entry d q = None" and "a \<notin> set (dirs_from (parent b))" and "abs_path b"
    and "rename a b d = (Inr (), d1)" and "sync b False d1 = (Inr (), d2)"
  shows "dir_entry d2 a = None \<and>
    dir_entry (crashed r g d2) a = Some (File n) \<and> dir_entry (crashed r g d2) b = Some (File n) \<and>
    (\<forall>bs t d3. write_file a bs False t (crashed r g d2) = (Inr (), d3) \<longrightarrow> read d3 b = Some (Inr bs)) \<and>
    (\<forall>bs t d3. write_file b bs False t (crashed r g d2) = (Inr (), d3) \<longrightarrow> read d3 a = Some (Inr bs))"
proof -
  note moved = rename_file_names [OF assms(1,2,4,5,8)]
  have b: "dir_entry d1 b = Some (File n)" and a: "dir_entry d1 a = None" using moved(1) assms(4) by simp_all
  have inv1: "disk_inv d1" using rename_inv [OF assms(1,7), of a] assms(8) by simp
  have d2: "d2 = sync_ino n (Some b) False d1" using assms(9) b by (simp add: sync_def)
  obtain i where i: "map_of (inodes d1) n = Some i" using disk_invD(6) [OF inv1 b] by blast
  have root: "a \<noteq> ''/''" using assms(1,2) disk_invD(8) [OF assms(1)] by auto
  have dur: "map_of (durable d2) b = Some (File n)" using sync_file_fields(1) [OF inv1 b i, of d2] assms(9) by simp
  have "map_of (durable d2) a = map_of (durable d1) a"
    using i b assms(4,6) root
    by (simp add: d2 sync_ino_def Let_def dir_entry_def persist_entry_def store_simps)
  then have dura: "map_of (durable d2) a = Some (File n)" using moved(2) assms(3) by simp
  have names: "names d2 = names d1" using i b by (simp add: d2 sync_ino_def Let_def dir_entry_def)
  let ?c = "crashed r g d2"
  have ents: "dir_entry ?c a = Some (File n)" "dir_entry ?c b = Some (File n)"
    using dur dura by (simp_all add: dir_entry_def crashed_fields)
  have invc: "disk_inv ?c" using crash_inv [of d2 r g] sync_inv [OF inv1, of b False] assms(9) by simp
  have shared: "read d3 q = Some (Inr bs)"
    if w: "write_file p bs False t ?c = (Inr (), d3)" and "dir_entry ?c p = Some (File n)" and q: "dir_entry ?c q = Some (File n)"
    for p q bs t d3
  proof -
    obtain k c2 j where s: "open_file p True False ?c = (Inr k, c2)" "names d3 = names c2"
      using write_file_steps [OF w invc] by metis
    then have "names d3 = names ?c" using that(2) by (simp add: open_file_def)
    then have same: "dir_entry d3 p = Some (File n)" "dir_entry d3 q = Some (File n)" using that(2,3) by (simp_all add: dir_entry_def)
    have "read d3 p = Some (Inr bs)" using write_read [OF invc w] by (auto split: option.splits sum.splits)
    then show ?thesis using same by (simp add: read_ino)
  qed
  show ?thesis using a names ents shared by (auto simp: dir_entry_def)
qed

theorem crash_durable_names_witness:
  "dir_entry (crashed zero_rng () (snd (sync ''/d/g'' False (snd (rename ''/d/f'' ''/d/g'' (snd (sync ''/d/f'' False demo_disk)))))))
     ''/d/f'' = Some (File 1)"
proof -
  let ?d = "snd (sync ''/d/f'' False demo_disk)"
  let ?d1 = "snd (rename ''/d/f'' ''/d/g'' ?d)"
  have e: "dir_entry ?d ''/d/f'' = Some (File 1)" "map_of (durable ?d) ''/d/f'' = Some (File 1)" by code_simp+
  have "map fst (names ?d) = [''/'', ''/d'', ''/d/f'']" by code_simp
  then have below: "dir_entry ?d q = None" if "under ''/d/f'' q" for q
    using that by (auto simp: dir_entry_def map_of_eq_None_iff under_def image_set [symmetric] simp del: image_set)
  have up: "''/d/f'' \<notin> set (dirs_from (parent ''/d/g''))" "fst (rename ''/d/f'' ''/d/g'' ?d) = Inr ()"
    "fst (sync ''/d/g'' False ?d1) = Inr ()"
    by code_simp+
  then have run: "rename ''/d/f'' ''/d/g'' ?d = (Inr (), ?d1)" "sync ''/d/g'' False ?d1 = (Inr (), snd (sync ''/d/g'' False ?d1))"
    by (simp_all add: prod_eq_iff)
  have "abs_path ''/d/g''" by (simp add: abs_path_def)
  from crash_durable_names [OF demo_sync_inv e _ below up(1) this run, of zero_rng "()"] show ?thesis by simp
qed

text \<open>Nor does a directory that a file took the place of: one that was synced with a file in it, removed and
  replaced by a file of its name comes back after a crash as a file with a file below it.\<close>

lemma crash_file_below_file:
  "let d = run_ops (disk_step zero_rng)
       [Mkdir ''/d'', WriteFile ''/d/x'' [1] False 0, Sync ''/d/x'' False, RmdirAll ''/d'',
        WriteFile ''/d'' [2] False 0, Sync ''/d'' False, CrashNow ()] (disk_new disk_opts_default)
    in is_file d ''/d'' \<and> is_file d ''/d/x'' \<and> under ''/d'' ''/d/x''"
  by code_simp

end
