(* ===== verification/Values.thy ===== *)
theory Values
  imports F64
begin

text \<open>
  The interpreter's values (\<open>src/ast.rs\<close>): the value type, its derived equality and type names, the
  operators and the errors a program can raise. A value the models never look into (a function, a
  builtin, a type's definition, a native module's object) is an opaque payload of type \<open>'o\<close>; two
  opaque payloads are equal when Rust's \<open>PartialEq\<close> says so. An \<open>IndexMap\<close> is an association list in
  insertion order with distinct keys. Characters are the first 256 code points.
\<close>

section \<open>Values\<close>

datatype 'o val =
  VInt int
| VFloat f64
| VStr string
| VBool bool
| VList "'o val list"
| VMap "(string \<times> 'o val) list"
| VTuple "'o val list"
| VFun 'o
| VBuiltin 'o
| VStruct string "(string \<times> 'o val) list"
| VRange int int bool
| VOk "'o val"
| VErr "'o val"
| VUnit
| VEnum string string "'o vdata"
| VEnumCtor string string nat
| VTypeInfo string 'o
| VNative string 'o
and 'o vdata = DUnit | DTuple "'o val list" | DStruct "(string \<times> 'o val) list"

type_synonym 'o vmap = "(string \<times> 'o val) list"

text \<open>A native value's type name is its handle's.\<close>

fun type_name :: "'o val \<Rightarrow> string" where
  "type_name (VInt _) = ''Int''"
| "type_name (VFloat _) = ''Float''"
| "type_name (VStr _) = ''String''"
| "type_name (VBool _) = ''Bool''"
| "type_name (VList _) = ''List''"
| "type_name (VMap _) = ''Map''"
| "type_name (VTuple _) = ''Tuple''"
| "type_name (VFun _) = ''Function''"
| "type_name (VBuiltin _) = ''Builtin''"
| "type_name (VStruct t _) = t"
| "type_name (VRange _ _ _) = ''Range''"
| "type_name (VOk _) = ''Result''"
| "type_name (VErr _) = ''Result''"
| "type_name VUnit = ''Unit''"
| "type_name (VEnum t _ _) = t"
| "type_name (VEnumCtor t _ _) = t"
| "type_name (VTypeInfo _ _) = ''Type''"
| "type_name (VNative t _) = t"

text \<open>The derived \<open>PartialEq\<close>: structural, floats by IEEE equality, maps by contents.\<close>

fun val_eq :: "'o val \<Rightarrow> 'o val \<Rightarrow> bool"
and vals_eq :: "'o val list \<Rightarrow> 'o val list \<Rightarrow> bool"
and fields_eq :: "'o vmap \<Rightarrow> 'o vmap \<Rightarrow> bool"
and data_eq :: "'o vdata \<Rightarrow> 'o vdata \<Rightarrow> bool" where
  "val_eq (VInt a) v = (case v of VInt b \<Rightarrow> a = b | _ \<Rightarrow> False)"
| "val_eq (VFloat a) v = (case v of VFloat b \<Rightarrow> f64_eq a b | _ \<Rightarrow> False)"
| "val_eq (VStr a) v = (case v of VStr b \<Rightarrow> a = b | _ \<Rightarrow> False)"
| "val_eq (VBool a) v = (case v of VBool b \<Rightarrow> a = b | _ \<Rightarrow> False)"
| "val_eq (VList xs) v = (case v of VList ys \<Rightarrow> vals_eq xs ys | _ \<Rightarrow> False)"
| "val_eq (VMap x) v = (case v of VMap y \<Rightarrow> length x = length y \<and> fields_eq x y | _ \<Rightarrow> False)"
| "val_eq (VTuple xs) v = (case v of VTuple ys \<Rightarrow> vals_eq xs ys | _ \<Rightarrow> False)"
| "val_eq (VFun f) v = (case v of VFun g \<Rightarrow> f = g | _ \<Rightarrow> False)"
| "val_eq (VBuiltin f) v = (case v of VBuiltin g \<Rightarrow> f = g | _ \<Rightarrow> False)"
| "val_eq (VStruct t x) v =
     (case v of VStruct u y \<Rightarrow> t = u \<and> length x = length y \<and> fields_eq x y | _ \<Rightarrow> False)"
| "val_eq (VRange a b i) v = (case v of VRange c d j \<Rightarrow> a = c \<and> b = d \<and> i = j | _ \<Rightarrow> False)"
| "val_eq (VOk x) v = (case v of VOk y \<Rightarrow> val_eq x y | _ \<Rightarrow> False)"
| "val_eq (VErr x) v = (case v of VErr y \<Rightarrow> val_eq x y | _ \<Rightarrow> False)"
| "val_eq VUnit v = (case v of VUnit \<Rightarrow> True | _ \<Rightarrow> False)"
| "val_eq (VEnum t n x) v =
     (case v of VEnum u m y \<Rightarrow> t = u \<and> n = m \<and> data_eq x y | _ \<Rightarrow> False)"
| "val_eq (VEnumCtor t n a) v = (case v of VEnumCtor u m b \<Rightarrow> t = u \<and> n = m \<and> a = b | _ \<Rightarrow> False)"
| "val_eq (VTypeInfo t d) v = (case v of VTypeInfo u e \<Rightarrow> t = u \<and> d = e | _ \<Rightarrow> False)"
| "val_eq (VNative t h) v = (case v of VNative u k \<Rightarrow> h = k | _ \<Rightarrow> False)"
| "vals_eq [] ys = (ys = [])"
| "vals_eq (x # xs) ys = (case ys of [] \<Rightarrow> False | y # ys \<Rightarrow> val_eq x y \<and> vals_eq xs ys)"
| "fields_eq [] y = True"
| "fields_eq ((k, v) # x) y =
     ((case map_of y k of Some w \<Rightarrow> val_eq v w | None \<Rightarrow> False) \<and> fields_eq x y)"
| "data_eq DUnit d = (d = DUnit)"
| "data_eq (DTuple xs) d = (case d of DTuple ys \<Rightarrow> vals_eq xs ys | _ \<Rightarrow> False)"
| "data_eq (DStruct x) d = (case d of DStruct y \<Rightarrow> length x = length y \<and> fields_eq x y | _ \<Rightarrow> False)"

section \<open>Operators and errors\<close>

datatype binop =
  Add | Subtract | Multiply | Divide | Modulo | Equal | NotEqual | LessThan | LessThanEqual
| GreaterThan | GreaterThanEqual | AndOp | OrOp | Coalesce | MatMul

fun binop_symbol :: "binop \<Rightarrow> string" where
  "binop_symbol Add = ''+''" | "binop_symbol Subtract = ''-''" | "binop_symbol Multiply = ''*''"
| "binop_symbol Divide = ''/''" | "binop_symbol Modulo = ''%''" | "binop_symbol Equal = ''==''"
| "binop_symbol NotEqual = ''!=''" | "binop_symbol LessThan = ''<''"
| "binop_symbol LessThanEqual = ''<=''" | "binop_symbol GreaterThan = ''>''"
| "binop_symbol GreaterThanEqual = ''>=''" | "binop_symbol AndOp = ''&&''"
| "binop_symbol OrOp = ''||''" | "binop_symbol Coalesce = ''??''" | "binop_symbol MatMul = ''@''"

datatype unop = Negate | Not

fun unop_symbol :: "unop \<Rightarrow> string" where
  "unop_symbol Negate = ''-''"
| "unop_symbol Not = ''!''"

datatype ierr = RuntimeError string | TypeError string | UndefinedVariable string

type_synonym 'o res = "ierr + 'o val"

definition i64_min :: int where "i64_min = - (2 ^ 63)"
definition i64_max :: int where "i64_max = 2 ^ 63 - 1"

definition i64_ok :: "int \<Rightarrow> bool" where
  "i64_ok n \<longleftrightarrow> i64_min \<le> n \<and> n \<le> i64_max"

section \<open>Facts about equality\<close>

text \<open>A value a program can hold: its Ints in range, its Floats finite, its maps with distinct keys. It
  equals itself.\<close>

fun val_wf :: "'o val \<Rightarrow> bool"
and vals_wf :: "'o val list \<Rightarrow> bool"
and fields_wf :: "'o vmap \<Rightarrow> bool"
and data_wf :: "'o vdata \<Rightarrow> bool" where
  "val_wf (VInt n) = i64_ok n"
| "val_wf (VFloat f) = is_finite f"
| "val_wf (VList xs) = vals_wf xs"
| "val_wf (VMap x) = (distinct (map fst x) \<and> fields_wf x)"
| "val_wf (VTuple xs) = vals_wf xs"
| "val_wf (VStruct _ x) = (distinct (map fst x) \<and> fields_wf x)"
| "val_wf (VRange a b _) = (i64_ok a \<and> i64_ok b)"
| "val_wf (VOk v) = val_wf v"
| "val_wf (VErr v) = val_wf v"
| "val_wf (VEnum _ _ d) = data_wf d"
| "val_wf _ = True"
| "vals_wf [] = True"
| "vals_wf (v # vs) = (val_wf v \<and> vals_wf vs)"
| "fields_wf [] = True"
| "fields_wf ((_, v) # x) = (val_wf v \<and> fields_wf x)"
| "data_wf DUnit = True"
| "data_wf (DTuple xs) = vals_wf xs"
| "data_wf (DStruct x) = (distinct (map fst x) \<and> fields_wf x)"

lemma f64_eq_refl: "\<not> is_nan f \<Longrightarrow> f64_eq f f"
  by (cases f) (auto simp: f64_eq_def aligned_def)

lemma fields_eq_mono:
  assumes "distinct (map fst (p @ x))"
    and "\<forall>(k, v) \<in> set x. val_eq v v"
  shows "fields_eq x (p @ x)"
proof -
  have "fields_eq x m" if "\<forall>(k, v) \<in> set x. map_of m k = Some v \<and> val_eq v v" for m
    using that by (induction x) auto
  moreover have "map_of (p @ x) k = Some v" if "(k, v) \<in> set x" for k v
    using assms(1) that by (intro map_of_is_SomeI) auto
  ultimately show ?thesis using assms(2) by fastforce
qed

lemma val_eq_refl:
  fixes v :: "'o val" and vs :: "'o val list" and x :: "'o vmap" and d :: "'o vdata"
  shows "val_wf v \<Longrightarrow> val_eq v v"
  "vals_wf vs \<Longrightarrow> vals_eq vs vs"
  "fields_wf x \<Longrightarrow> \<forall>(k, v) \<in> set x. val_eq v v"
  "data_wf d \<Longrightarrow> data_eq d d"
proof (induction v and vs and x and d rule: val_wf_vals_wf_fields_wf_data_wf.induct)
qed (use fields_eq_mono [of "[]"] in \<open>auto simp: f64_eq_refl is_finite_not_nan\<close>)

end
