(* ===== verification/Lin.thy ===== *)
theory Lin
  imports Values
begin

text \<open>
  The linearizability checker (\<open>src/sim/lin.rs\<close>): the operations of a recorded history, the two models
  it knows (a register and a key-value map, split by key) and the search, Wing and Gong's with Lowe's
  memo over a doubly linked list of calls and returns. Parameters: how a value prints (\<open>show\<close>), and the
  memo's key of a bit set and a state (\<open>key\<close>: hashes in the code).
\<close>

section \<open>Histories\<close>

record 'o lin_op =
  process :: string
  opf :: string
  arg :: "'o val"
  out :: "'o val option"
  call :: nat
  ret :: "nat option"

record 'o parsing =
  p_ops :: "'o lin_op list"
  p_open :: "string \<rightharpoonup> nat"
  p_failed :: "nat set"

datatype parse_error =
  NotMap nat | NoType nat | NoName nat | NothingOpen nat string | UnknownType nat string

fun text_of :: "'o val option \<Rightarrow> string option" where
  "text_of (Some (VStr t)) = Some t"
| "text_of _ = None"

definition process_name :: "('o val \<Rightarrow> string) \<Rightarrow> 'o val option \<Rightarrow> string" where
  "process_name show v =
     (case v of
        None \<Rightarrow> ''?''
      | Some x \<Rightarrow> (case x of VStr p \<Rightarrow> p | VUnit \<Rightarrow> ''?'' | _ \<Rightarrow> show x))"

text \<open>One entry of the history, the \<open>i\<close>-th.\<close>

definition parse_event ::
  "('o val \<Rightarrow> string) \<Rightarrow> nat \<Rightarrow> 'o vmap \<Rightarrow> 'o parsing \<Rightarrow> parse_error + 'o parsing" where
  "parse_event show i m s =
     (case text_of (map_of m ''type'') of
        None \<Rightarrow> Inl (NoType i)
      | Some kind \<Rightarrow>
          let p = process_name show (map_of m ''process'');
              v = map_of m ''value''
          in
            if kind = ''invoke'' then
              let opened = (p_open s)(p := None);
                  ops = (case p_open s p of
                           Some prev \<Rightarrow> (p_ops s)[prev := (p_ops s ! prev)\<lparr>ret := None, out := None\<rparr>]
                         | None \<Rightarrow> p_ops s)
              in (case text_of (map_of m ''f'') of
                    None \<Rightarrow> Inl (NoName i)
                  | Some f \<Rightarrow>
                      Inr (s\<lparr>p_ops := ops @ [\<lparr>process = p, opf = f, arg = (case v of Some x \<Rightarrow> x | None \<Rightarrow> VUnit),
                                              out = None, call = i, ret = None\<rparr>],
                             p_open := opened(p \<mapsto> length ops)\<rparr>))
            else if kind = ''ok'' then
              (case p_open s p of
                 None \<Rightarrow> Inl (NothingOpen i p)
               | Some at \<Rightarrow>
                   let old = p_ops s ! at
                   in Inr (s\<lparr>p_open := (p_open s)(p := None),
                             p_ops := (p_ops s)[at := old\<lparr>ret := Some i,
                               out := Some (case v of Some x \<Rightarrow> x | None \<Rightarrow> arg old)\<rparr>]\<rparr>))
            else if kind = ''fail'' then
              (case p_open s p of
                 None \<Rightarrow> Inr s
               | Some at \<Rightarrow> Inr (s\<lparr>p_open := (p_open s)(p := None), p_failed := insert at (p_failed s)\<rparr>))
            else if kind = ''info'' then Inr (s\<lparr>p_open := (p_open s)(p := None)\<rparr>)
            else Inl (UnknownType i kind))"

fun parse_events ::
  "('o val \<Rightarrow> string) \<Rightarrow> nat \<Rightarrow> 'o val list \<Rightarrow> 'o parsing \<Rightarrow> parse_error + 'o parsing" where
  "parse_events show i [] s = Inr s"
| "parse_events show i (e # es) s =
     (case e of
        VMap m \<Rightarrow>
          (case parse_event show i m s of
             Inl err \<Rightarrow> Inl err
           | Inr s' \<Rightarrow> parse_events show (i + 1) es s')
      | _ \<Rightarrow> Inl (NotMap i))"

definition not_failed :: "'o parsing \<Rightarrow> 'o lin_op list" where
  "not_failed s = map (\<lambda>i. p_ops s ! i) (filter (\<lambda>i. i \<notin> p_failed s) [0..<length (p_ops s)])"

definition parse_history :: "('o val \<Rightarrow> string) \<Rightarrow> 'o val list \<Rightarrow> parse_error + 'o lin_op list" where
  "parse_history show history =
     (case parse_events show 0 history \<lparr>p_ops = [], p_open = Map.empty, p_failed = {}\<rparr> of
        Inl e \<Rightarrow> Inl e
      | Inr s \<Rightarrow> Inr (not_failed s))"

section \<open>Models\<close>

datatype model_error =
  CasTakes | NoRegisterOp string | PutTakes | AddNumbers | KvCasTakes | NoKvOp string | ModelFails string

type_synonym 'o model_step = "'o val \<Rightarrow> 'o lin_op \<Rightarrow> model_error + 'o val option"

fun items :: "'o val \<Rightarrow> 'o val list option" where
  "items (VList xs) = Some xs"
| "items (VTuple xs) = Some xs"
| "items _ = None"

fun is_false :: "'o val option \<Rightarrow> bool" where
  "is_false (Some (VBool b)) = (\<not> b)"
| "is_false _ = False"

text \<open>\<open>read\<close> of a state, and \<open>cas\<close> of a state from \<open>old\<close> to \<open>new\<close>, with the output when known.\<close>

definition read_step :: "'o val \<Rightarrow> 'o lin_op \<Rightarrow> 'o val option" where
  "read_step st op = (case out op of Some v \<Rightarrow> if \<not> val_eq v st then None else Some st | None \<Rightarrow> Some st)"

definition cas_step :: "'o val \<Rightarrow> 'o val \<Rightarrow> 'o val \<Rightarrow> 'o lin_op \<Rightarrow> 'o val option" where
  "cas_step st old new op =
     (let swapped = val_eq st old
      in if is_false (out op) then (if \<not> swapped then Some st else None)
         else (if swapped then Some new else None))"

definition register_step :: "'o model_step" where
  "register_step st op =
     (if opf op = ''write'' then Inr (Some (arg op))
      else if opf op = ''read'' then Inr (read_step st op)
      else if opf op = ''cas'' then
        (case items (arg op) of
           Some [old, new] \<Rightarrow> Inr (cas_step st old new op)
         | _ \<Rightarrow> Inl CasTakes)
      else Inl (NoRegisterOp (opf op)))"

definition key_text :: "('o val \<Rightarrow> string) \<Rightarrow> 'o val \<Rightarrow> string" where
  "key_text show v = (case v of VStr t \<Rightarrow> t | _ \<Rightarrow> show v)"

definition key_and_rest :: "('o val \<Rightarrow> string) \<Rightarrow> 'o lin_op \<Rightarrow> string \<times> 'o val list" where
  "key_and_rest show op =
     (case items (arg op) of
        Some (k # rest) \<Rightarrow> (key_text show k, rest)
      | _ \<Rightarrow> (key_text show (arg op), []))"

text \<open>Rust's \<open>+\<close> on \<open>i64\<close>, as a release build has it.\<close>

definition wrap_i64 :: "int \<Rightarrow> int" where
  "wrap_i64 n = (n + 2 ^ 63) mod 2 ^ 64 - 2 ^ 63"

fun kv_sum :: "'o val \<Rightarrow> 'o val \<Rightarrow> 'o val option" where
  "kv_sum VUnit b = Some b"
| "kv_sum (VInt a) b =
     (case b of VInt n \<Rightarrow> Some (VInt (wrap_i64 (a + n))) | VFloat f \<Rightarrow> Some (VFloat (f64_add (of_i64 a) f)) | _ \<Rightarrow> None)"
| "kv_sum (VFloat a) b =
     (case b of VFloat f \<Rightarrow> Some (VFloat (f64_add a f)) | VInt n \<Rightarrow> Some (VFloat (f64_add a (of_i64 n))) | _ \<Rightarrow> None)"
| "kv_sum _ _ = None"

fun is_number_out :: "'o val \<Rightarrow> bool" where
  "is_number_out (VInt _) = True"
| "is_number_out (VFloat _) = True"
| "is_number_out _ = False"

definition kv_step :: "('o val \<Rightarrow> string) \<Rightarrow> 'o model_step" where
  "kv_step show st op =
     (let rest = snd (key_and_rest show op)
      in if opf op = ''put'' \<or> opf op = ''write'' then
           (case rest of [] \<Rightarrow> Inl PutTakes | v # _ \<Rightarrow> Inr (Some v))
         else if opf op = ''get'' \<or> opf op = ''read'' then Inr (read_step st op)
         else if opf op = ''add'' then
           (case kv_sum st (case rest of [] \<Rightarrow> VInt 1 | v # _ \<Rightarrow> v) of
              None \<Rightarrow> Inl AddNumbers
            | Some next \<Rightarrow>
                (case out op of
                   Some seen \<Rightarrow> if is_number_out seen \<and> \<not> val_eq seen next then Inr None else Inr (Some next)
                 | None \<Rightarrow> Inr (Some next)))
         else if opf op = ''cas'' then
           (case rest of [old, new] \<Rightarrow> Inr (cas_step st old new op) | _ \<Rightarrow> Inl KvCasTakes)
         else Inl (NoKvOp (opf op)))"

section \<open>The search\<close>

datatype verdict = Linearizable | Violation nat nat "nat option" | Unknown nat nat

text \<open>A call or a return; a return that never came sorts after everything.\<close>

record lin_entry =
  e_op :: nat
  e_call :: bool
  e_at :: "nat \<times> nat \<times> nat"

definition op_entries :: "nat \<Rightarrow> 'o lin_op \<Rightarrow> lin_entry list" where
  "op_entries i op =
     [\<lparr>e_op = i, e_call = True, e_at = (0, call op, 0)\<rparr>,
      \<lparr>e_op = i, e_call = False, e_at = (case ret op of Some r \<Rightarrow> (0, r, i) | None \<Rightarrow> (1, 0, i))\<rparr>]"

definition entries :: "'o lin_op list \<Rightarrow> lin_entry list" where
  "entries ops = sort_key e_at (concat (map (\<lambda>i. op_entries i (ops ! i)) [0..<length ops]))"

text \<open>The index of the other entry of the same operation.\<close>

definition partner :: "lin_entry list \<Rightarrow> nat \<Rightarrow> nat" where
  "partner E k =
     length (takeWhile (\<lambda>e. \<not> (e_op e = e_op (E ! k) \<and> e_call e \<noteq> e_call (E ! k))) E)"

text \<open>The linked list: next and previous of each entry, the head last; None is the end.\<close>

type_synonym arrays = "nat option list \<times> nat option list"

definition links_new :: "nat \<Rightarrow> arrays" where
  "links_new n =
     ((map (\<lambda>i. if i + 1 < n then Some (i + 1) else None) [0..<n + 1])[n := Some 0],
      map (\<lambda>i. if i = 0 then Some n else Some (i - 1)) [0..<n] @ [None])"

definition unlink :: "nat \<Rightarrow> arrays \<Rightarrow> arrays" where
  "unlink j a =
     (let (nxt, prv) = a; p = the (prv ! j); q = nxt ! j
      in (nxt[p := q], case q of Some k \<Rightarrow> prv[k := Some p] | None \<Rightarrow> prv))"

definition relink :: "nat \<Rightarrow> arrays \<Rightarrow> arrays" where
  "relink j a =
     (let (nxt, prv) = a; p = the (prv ! j); q = nxt ! j
      in (nxt[p := Some j], case q of Some k \<Rightarrow> prv[k := Some j] | None \<Rightarrow> prv))"

definition lift :: "lin_entry list \<Rightarrow> nat \<Rightarrow> arrays \<Rightarrow> arrays" where
  "lift E i a = unlink (partner E i) (unlink i a)"

definition unlift :: "lin_entry list \<Rightarrow> nat \<Rightarrow> arrays \<Rightarrow> arrays" where
  "unlift E i a = relink i (relink (partner E i) a)"

unbundle bit_operations_syntax

definition bit_on :: "nat \<Rightarrow> u64 list \<Rightarrow> u64 list" where
  "bit_on i bs = bs[i div 64 := bs ! (i div 64) OR push_bit (i mod 64) 1]"

definition bit_off :: "nat \<Rightarrow> u64 list \<Rightarrow> u64 list" where
  "bit_off i bs = bs[i div 64 := bs ! (i div 64) AND NOT (push_bit (i mod 64) 1)]"

section \<open>The loop\<close>

record ('o, 'k) search =
  s_links :: arrays
  s_bits :: "u64 list"
  s_state :: "'o val"
  s_cache :: "'k set"
  s_stack :: "(nat \<times> 'o val) list"
  s_deepest :: "nat \<times> nat option"
  s_at :: "nat option"

definition search_new :: "'o lin_op list \<Rightarrow> 'o val \<Rightarrow> ('o, 'k) search" where
  "search_new ops init =
     (let n = length (entries ops)
      in \<lparr>s_links = links_new n, s_bits = replicate ((length ops + 63) div 64) 0, s_state = init,
          s_cache = {}, s_stack = [], s_deepest = (0, None), s_at = fst (links_new n) ! n\<rparr>)"

text \<open>A turn of the loop at entry \<open>k\<close>: a verdict, or the state it goes on with.\<close>

definition call_turn ::
  "'o model_step \<Rightarrow> (u64 list \<Rightarrow> 'o val \<Rightarrow> 'k) \<Rightarrow> 'o lin_op list \<Rightarrow> lin_entry list \<Rightarrow> nat \<Rightarrow>
     ('o, 'k) search \<Rightarrow> model_error + ('o, 'k) search" where
  "call_turn step key ops E k s =
     (let i = e_op (E ! k); skip = s\<lparr>s_at := fst (s_links s) ! k\<rparr>
      in case step (s_state s) (ops ! i) of
           Inl e \<Rightarrow> Inl e
         | Inr None \<Rightarrow> Inr skip
         | Inr (Some next) \<Rightarrow>
             let bits = bit_on i (s_bits s); memo = key bits next
             in if memo \<notin> s_cache s then
                  let links = lift E k (s_links s)
                  in Inr (s\<lparr>s_bits := bits, s_cache := insert memo (s_cache s),
                            s_stack := (k, s_state s) # s_stack s, s_state := next, s_links := links,
                            s_at := fst links ! length E\<rparr>)
                else Inr (skip\<lparr>s_bits := bit_off i bits\<rparr>))"

definition return_turn ::
  "'o lin_op list \<Rightarrow> lin_entry list \<Rightarrow> nat \<Rightarrow> ('o, 'k) search \<Rightarrow> verdict + ('o, 'k) search" where
  "return_turn ops E k s =
     (let i = e_op (E ! k)
      in if ret (ops ! i) = None then Inl Linearizable
         else
           let deepest = (if length (s_stack s) \<ge> fst (s_deepest s) then (length (s_stack s), Some i)
                          else s_deepest s)
           in case s_stack s of
                [] \<Rightarrow> Inl (Violation (length ops) (fst deepest) (snd deepest))
              | (c, before) # stack \<Rightarrow>
                  let links = unlift E c (s_links s)
                  in Inr (s\<lparr>s_deepest := deepest, s_stack := stack,
                            s_bits := bit_off (e_op (E ! c)) (s_bits s), s_state := before,
                            s_links := links, s_at := fst links ! c\<rparr>))"

text \<open>The loop, a unit of the budget each turn; what is left of the budget comes back.\<close>

fun wgl_loop ::
  "'o model_step \<Rightarrow> (u64 list \<Rightarrow> 'o val \<Rightarrow> 'k) \<Rightarrow> 'o lin_op list \<Rightarrow> lin_entry list \<Rightarrow> nat \<Rightarrow>
     ('o, 'k) search \<Rightarrow> model_error + verdict \<times> nat" where
  "wgl_loop step key ops E budget s =
     (if fst (s_links s) ! length E = None then Inr (Linearizable, budget)
      else
        (case budget of
           0 \<Rightarrow> Inr (Unknown (length (s_stack s)) (length ops), 0)
         | Suc left \<Rightarrow>
             (case s_at s of
                None \<Rightarrow> Inr (Linearizable, left)
              | Some k \<Rightarrow>
                  if e_call (E ! k) then
                    (case call_turn step key ops E k s of
                       Inl e \<Rightarrow> Inl e | Inr s' \<Rightarrow> wgl_loop step key ops E left s')
                  else
                    (case return_turn ops E k s of
                       Inl v \<Rightarrow> Inr (v, left) | Inr s' \<Rightarrow> wgl_loop step key ops E left s'))))"

declare wgl_loop.simps [simp del]

definition wgl ::
  "'o model_step \<Rightarrow> 'o val \<Rightarrow> (u64 list \<Rightarrow> 'o val \<Rightarrow> 'k) \<Rightarrow> 'o lin_op list \<Rightarrow> nat \<Rightarrow>
     model_error + verdict \<times> nat" where
  "wgl step init key ops budget =
     (if ops = [] then Inr (Linearizable, budget)
      else wgl_loop step key ops (entries ops) budget (search_new ops init))"

section \<open>The check\<close>

datatype 'o lin_error = BadHistory parse_error | BadModel model_error

datatype outcome = AllLinearizable | KeyViolation "string option" verdict | KeyUnknown "string option" verdict

text \<open>The history split by key, keys in order (a \<open>BTreeMap\<close>), each key's operations as they came.\<close>

definition by_key :: "('o lin_op \<Rightarrow> string) \<Rightarrow> 'o lin_op list \<Rightarrow> (string \<times> 'o lin_op list) list" where
  "by_key key_of ops =
     (let ks = sort (remdups (map key_of ops)) in map (\<lambda>k. (k, filter (\<lambda>op. key_of op = k) ops)) ks)"

fun check_keys ::
  "'o model_step \<Rightarrow> 'o val \<Rightarrow> (u64 list \<Rightarrow> 'o val \<Rightarrow> 'k) \<Rightarrow> (string \<times> 'o lin_op list) list \<Rightarrow> nat \<Rightarrow>
     (string \<times> verdict) option \<Rightarrow> model_error + outcome" where
  "check_keys step init key [] budget unknown =
     Inr (case unknown of None \<Rightarrow> AllLinearizable | Some (k, v) \<Rightarrow> KeyUnknown (Some k) v)"
| "check_keys step init key ((k, ops) # rest) budget unknown =
     (case wgl step init key ops budget of
        Inl e \<Rightarrow> Inl e
      | Inr (v, left) \<Rightarrow>
          (case v of
             Linearizable \<Rightarrow> check_keys step init key rest left unknown
           | Violation _ _ _ \<Rightarrow> Inr (KeyViolation (Some k) v)
           | Unknown _ _ \<Rightarrow> check_keys step init key rest left (Some (k, v))))"

text \<open>\<open>key_of\<close> is None for a model of one object.\<close>

definition check_ops ::
  "'o model_step \<Rightarrow> 'o val \<Rightarrow> ('o lin_op \<Rightarrow> string) option \<Rightarrow> (u64 list \<Rightarrow> 'o val \<Rightarrow> 'k) \<Rightarrow>
     'o lin_op list \<Rightarrow> nat \<Rightarrow> model_error + outcome" where
  "check_ops step init key_of key ops budget =
     (case (key_of, ops) of
        (Some f, _ # _) \<Rightarrow> check_keys step init key (by_key f ops) budget None
      | _ \<Rightarrow>
          (case wgl step init key ops budget of
             Inl e \<Rightarrow> Inl e
           | Inr (Linearizable, _) \<Rightarrow> Inr AllLinearizable
           | Inr (Violation a b c, _) \<Rightarrow> Inr (KeyViolation None (Violation a b c))
           | Inr (Unknown a b, _) \<Rightarrow> Inr (KeyUnknown None (Unknown a b))))"

definition check_history ::
  "('o val \<Rightarrow> string) \<Rightarrow> 'o model_step \<Rightarrow> 'o val \<Rightarrow> ('o lin_op \<Rightarrow> string) option \<Rightarrow>
     (u64 list \<Rightarrow> 'o val \<Rightarrow> 'k) \<Rightarrow> 'o val list \<Rightarrow> nat \<Rightarrow> 'o lin_error + outcome" where
  "check_history show step init key_of key history budget =
     (case parse_history show history of
        Inl e \<Rightarrow> Inl (BadHistory e)
      | Inr ops \<Rightarrow>
          (case check_ops step init key_of key ops budget of Inl e \<Rightarrow> Inl (BadModel e) | Inr r \<Rightarrow> Inr r))"

definition op_value :: "'o lin_op \<Rightarrow> 'o val" where
  "op_value op =
     VMap [(''process'', VStr (process op)), (''f'', VStr (opf op)), (''value'', arg op),
           (''output'', case out op of Some v \<Rightarrow> v | None \<Rightarrow> VUnit), (''known'', VBool (out op \<noteq> None))]"

end
