(* ===== verification/LinLaws.thy ===== *)
theory LinLaws
  imports Lin
begin

text \<open>
  The search of \<open>Lin\<close> decides linearizability. The specification is an order: a sequence of the
  operations the model accepts, with every completed one in it and none before one that had completed
  before its call. The search is related to it by an invariant: the arrays hold the entries of the
  operations not placed yet, the stack is a valid prefix of such an order, and what the memo remembers
  and is not on the stack leads nowhere.
\<close>

section \<open>The specification\<close>

definition precedes :: "'o lin_op list \<Rightarrow> nat \<Rightarrow> nat \<Rightarrow> bool" where
  "precedes ops j i \<longleftrightarrow> (case ret (ops ! j) of Some r \<Rightarrow> r < call (ops ! i) | None \<Rightarrow> False)"

definition completed :: "'o lin_op list \<Rightarrow> nat set" where
  "completed ops = {i. i < length ops \<and> ret (ops ! i) \<noteq> None}"

type_synonym ('s, 'o) steps = "'s \<Rightarrow> 'o lin_op \<Rightarrow> model_error + 's option"

fun accepts :: "('s, 'o) steps \<Rightarrow> 's \<Rightarrow> 'o lin_op list \<Rightarrow> bool" where
  "accepts step st [] = True"
| "accepts step st (op # os) =
     (case step st op of Inr (Some next) \<Rightarrow> accepts step next os | _ \<Rightarrow> False)"

text \<open>\<open>seq\<close> names operations by their index.\<close>

definition linearization :: "('s, 'o) steps \<Rightarrow> 's \<Rightarrow> 'o lin_op list \<Rightarrow> nat list \<Rightarrow> bool" where
  "linearization step init ops seq \<longleftrightarrow>
     distinct seq \<and> set seq \<subseteq> {..<length ops} \<and> completed ops \<subseteq> set seq \<and>
     sorted_wrt (\<lambda>a b. \<not> precedes ops b a) seq \<and> accepts step init (map ((!) ops) seq)"

definition linearizable :: "('s, 'o) steps \<Rightarrow> 's \<Rightarrow> 'o lin_op list \<Rightarrow> bool" where
  "linearizable step init ops \<longleftrightarrow> (\<exists>seq. linearization step init ops seq)"

text \<open>What can be placed next when \<open>S\<close> is placed, and whether placing can be completed from there.\<close>

definition avail :: "'o lin_op list \<Rightarrow> nat set \<Rightarrow> nat \<Rightarrow> bool" where
  "avail ops S i \<longleftrightarrow> i < length ops \<and> i \<notin> S \<and> (\<forall>j < length ops. j \<notin> S \<longrightarrow> \<not> precedes ops j i)"

inductive completable :: "('s, 'o) steps \<Rightarrow> 'o lin_op list \<Rightarrow> nat set \<Rightarrow> 's \<Rightarrow> bool"
  for step ops where
  finished: "completed ops \<subseteq> S \<Longrightarrow> completable step ops S st"
| place: "avail ops S i \<Longrightarrow> step st (ops ! i) = Inr (Some next) \<Longrightarrow>
    completable step ops (insert i S) next \<Longrightarrow> completable step ops S st"

lemma completable_seq:
  assumes "completable step ops S st"
  shows "\<exists>seq. distinct seq \<and> set seq \<inter> S = {} \<and> set seq \<subseteq> {..<length ops} \<and> completed ops \<subseteq> S \<union> set seq \<and>
    sorted_wrt (\<lambda>a b. \<not> precedes ops b a) seq \<and> accepts step st (map ((!) ops) seq)"
  using assms
proof (induction S st)
  case (finished S st)
  then show ?case by (intro exI [of _ "[]"]) auto
next
  case (place S i st next')
  then obtain seq where seq: "distinct seq" "set seq \<inter> insert i S = {}" "set seq \<subseteq> {..<length ops}"
      "completed ops \<subseteq> insert i S \<union> set seq" "sorted_wrt (\<lambda>a b. \<not> precedes ops b a) seq"
      "accepts step next' (map ((!) ops) seq)"
    by blast
  have "\<forall>b \<in> set seq. \<not> precedes ops b i"
    using place.hyps(1) seq(2,3) by (auto simp: avail_def)
  with seq place.hyps(1,2) show ?case
    by (intro exI [of _ "i # seq"]) (auto simp: avail_def)
qed

lemma seq_completable:
  assumes "distinct seq" and "set seq \<inter> S = {}" and "set seq \<subseteq> {..<length ops}"
    and "completed ops \<subseteq> S \<union> set seq" and "sorted_wrt (\<lambda>a b. \<not> precedes ops b a) seq"
    and "\<forall>i < length ops. \<not> precedes ops i i"
    and "accepts step st (map ((!) ops) seq)"
  shows "completable step ops S st"
  using assms
proof (induction seq arbitrary: S st)
  case Nil
  then show ?case by (intro completable.finished) simp
next
  case (Cons i seq)
  from Cons.prems(7) obtain next' where next': "step st (ops ! i) = Inr (Some next')"
      "accepts step next' (map ((!) ops) seq)"
    by (auto split: sum.splits option.splits)
  have "\<not> precedes ops j i" if "j < length ops" "j \<notin> S" for j
  proof (cases "ret (ops ! j) = None")
    case True
    then show ?thesis by (simp add: precedes_def)
  next
    case False
    then have "j \<in> set (i # seq)" using that Cons.prems(4) by (auto simp: completed_def)
    with Cons.prems(5,6) that(1) show ?thesis by auto
  qed
  then have "avail ops S i" using Cons.prems(2,3) by (auto simp: avail_def)
  moreover have "completable step ops (insert i S) next'"
    using Cons.prems next'(2) by (intro Cons.IH) auto
  ultimately show ?case using next'(1) by (blast intro: completable.place)
qed

lemma completable_linearizable:
  assumes "\<forall>i < length ops. \<not> precedes ops i i"
  shows "completable step ops {} init \<longleftrightarrow> linearizable step init ops"
proof
  assume "completable step ops {} init"
  from completable_seq [OF this] show "linearizable step init ops"
    by (auto simp: linearizable_def linearization_def)
next
  assume "linearizable step init ops"
  then obtain seq where "linearization step init ops seq" by (auto simp: linearizable_def)
  with assms show "completable step ops {} init"
    unfolding linearization_def by (intro seq_completable) auto
qed

section \<open>The entries\<close>

text \<open>What a history of events gives: an operation returns after its call, and no return is at a call.\<close>

definition valid_ops :: "'o lin_op list \<Rightarrow> bool" where
  "valid_ops ops \<longleftrightarrow>
     (\<forall>i < length ops. case ret (ops ! i) of None \<Rightarrow> True | Some r \<Rightarrow>
        call (ops ! i) < r \<and> (\<forall>j < length ops. call (ops ! j) \<noteq> r))"

lemma valid_not_self: "valid_ops ops \<Longrightarrow> i < length ops \<Longrightarrow> \<not> precedes ops i i"
  by (auto simp: valid_ops_def precedes_def split: option.splits)

lemma set_entries: "set (entries ops) = (\<Union>i < length ops. set (op_entries i (ops ! i)))"
  by (auto simp: entries_def)

lemma distinct_entries: "distinct (entries ops)"
proof -
  have "distinct (concat (map (\<lambda>i. op_entries i (ops ! i)) xs))" if "distinct xs" for xs
    using that by (induction xs) (auto simp: op_entries_def)
  then show ?thesis by (simp add: entries_def)
qed

lemma entry_facts:
  assumes "e \<in> set (entries ops)"
  shows "e_op e < length ops"
    and "e_call e \<Longrightarrow> e_at e = (0, call (ops ! e_op e), 0)"
    and "\<not> e_call e \<Longrightarrow>
      e_at e = (case ret (ops ! e_op e) of Some r \<Rightarrow> (0, r, e_op e) | None \<Rightarrow> (1, 0, e_op e))"
  using assms by (auto simp: set_entries op_entries_def split: option.split)

lemma entries_at: "k < length (entries ops) \<Longrightarrow> e_op (entries ops ! k) < length ops"
  by (simp add: entry_facts(1))

lemma call_at:
  assumes "k < length (entries ops)" and "e_call (entries ops ! k)"
  shows "e_at (entries ops ! k) = (0, call (ops ! e_op (entries ops ! k)), 0)"
  using assms by (intro entry_facts(2)) auto

lemma ret_at:
  assumes "k < length (entries ops)" and "\<not> e_call (entries ops ! k)"
  shows "e_at (entries ops ! k) =
    (case ret (ops ! e_op (entries ops ! k)) of
       Some r \<Rightarrow> (0, r, e_op (entries ops ! k)) | None \<Rightarrow> (1, 0, e_op (entries ops ! k)))"
  using assms by (intro entry_facts(3)) auto

lemma entry_unique:
  assumes "k < length (entries ops)" and "m < length (entries ops)"
    and "e_op (entries ops ! k) = e_op (entries ops ! m)"
    and "e_call (entries ops ! k) = e_call (entries ops ! m)"
  shows "k = m"
proof -
  have "e_at (entries ops ! k) = e_at (entries ops ! m)"
    using assms by (cases "e_call (entries ops ! m)") (simp_all add: call_at ret_at split: option.split)
  then have "entries ops ! k = entries ops ! m" using assms(3,4) by (intro lin_entry.equality) auto
  then show ?thesis using distinct_entries [of ops] assms(1,2) by (simp add: nth_eq_iff_index_eq)
qed

lemma entry_exists:
  assumes "i < length ops"
  obtains k where "k < length (entries ops)" and "e_op (entries ops ! k) = i"
    and "e_call (entries ops ! k) = b"
proof -
  have "\<exists>e \<in> set (entries ops). e_op e = i \<and> e_call e = b"
    using assms by (cases b) (auto simp: set_entries op_entries_def intro!: bexI [of _ i])
  then show ?thesis using that by (auto simp: in_set_conv_nth)
qed

lemma entries_mono:
  assumes "k \<le> m" and "m < length (entries ops)"
  shows "e_at (entries ops ! k) \<le> e_at (entries ops ! m)"
proof -
  have "sorted (map e_at (entries ops))" by (simp add: entries_def)
  from sorted_nth_mono [OF this assms(1)] show ?thesis using assms by simp
qed

lemma entries_less:
  assumes "e_at (entries ops ! k) < e_at (entries ops ! m)" and "k < length (entries ops)"
  shows "k < m"
  using entries_mono [of m k ops] assms by (meson leI less_le_not_le)

lemma call_before_return:
  assumes "valid_ops ops" and "k < length (entries ops)" and "m < length (entries ops)"
    and "e_call (entries ops ! k)" and "\<not> e_call (entries ops ! m)"
    and "e_op (entries ops ! k) = e_op (entries ops ! m)"
  shows "k < m"
proof (rule entries_less)
  show "e_at (entries ops ! k) < e_at (entries ops ! m)"
    using assms entries_at [OF assms(2)]
    by (auto simp: call_at ret_at valid_ops_def less_prod_def split: option.splits)
qed (rule assms(2))

lemma return_before_call:
  assumes "valid_ops ops" and "k < length (entries ops)" and "m < length (entries ops)"
    and "e_call (entries ops ! k)" and "\<not> e_call (entries ops ! m)"
  shows "m < k \<longleftrightarrow> precedes ops (e_op (entries ops ! m)) (e_op (entries ops ! k))"
proof
  assume "precedes ops (e_op (entries ops ! m)) (e_op (entries ops ! k))"
  then have "e_at (entries ops ! m) < e_at (entries ops ! k)"
    using assms by (auto simp: call_at ret_at precedes_def less_prod_def split: option.splits)
  then show "m < k" using assms(3) by (rule entries_less)
next
  assume "m < k"
  then have le: "e_at (entries ops ! m) \<le> e_at (entries ops ! k)" using assms(2) by (simp add: entries_mono)
  have ops: "e_op (entries ops ! m) < length ops" "e_op (entries ops ! k) < length ops"
    using assms(2,3) entries_at by auto
  show "precedes ops (e_op (entries ops ! m)) (e_op (entries ops ! k))"
  proof (cases "ret (ops ! e_op (entries ops ! m))")
    case None
    then show ?thesis using le assms by (simp add: call_at ret_at)
  next
    case (Some r)
    then have "r \<noteq> call (ops ! e_op (entries ops ! k))"
      using assms(1) ops by (fastforce simp: valid_ops_def)
    with Some show ?thesis using le assms by (auto simp: call_at ret_at precedes_def)
  qed
qed

lemma return_before_pending:
  assumes "k < length (entries ops)" and "m < length (entries ops)"
    and "\<not> e_call (entries ops ! k)" and "\<not> e_call (entries ops ! m)"
    and "ret (ops ! e_op (entries ops ! k)) = None" and "ret (ops ! e_op (entries ops ! m)) \<noteq> None"
  shows "m < k"
proof (rule entries_less)
  show "e_at (entries ops ! m) < e_at (entries ops ! k)"
    using assms by (auto simp: ret_at less_prod_def)
qed (rule assms(2))

lemma partner_entry:
  assumes "k < length (entries ops)"
  shows "partner (entries ops) k < length (entries ops)"
    and "e_op (entries ops ! partner (entries ops) k) = e_op (entries ops ! k)"
    and "e_call (entries ops ! partner (entries ops) k) \<noteq> e_call (entries ops ! k)"
proof -
  define P where "P = (\<lambda>e :: lin_entry. \<not> (e_op e = e_op (entries ops ! k) \<and> e_call e \<noteq> e_call (entries ops ! k)))"
  obtain m where m: "m < length (entries ops)" "e_op (entries ops ! m) = e_op (entries ops ! k)"
      "e_call (entries ops ! m) = (\<not> e_call (entries ops ! k))"
    by (rule entry_exists [OF entries_at [OF assms]])
  then have "\<exists>e \<in> set (entries ops). \<not> P e"
    by (auto simp: P_def intro!: bexI [of _ "entries ops ! m"])
  then have less: "length (takeWhile P (entries ops)) < length (entries ops)"
    by (metis length_takeWhile_le le_neq_implies_less takeWhile_eq_all_conv takeWhile_eq_take take_all_iff order_refl)
  from nth_length_takeWhile [OF this] less
  show "partner (entries ops) k < length (entries ops)"
    "e_op (entries ops ! partner (entries ops) k) = e_op (entries ops ! k)"
    "e_call (entries ops ! partner (entries ops) k) \<noteq> e_call (entries ops ! k)"
    by (auto simp: partner_def P_def)
qed

section \<open>The linked list\<close>

text \<open>\<open>links N xs a\<close>: from the head \<open>N\<close>, the arrays hold the entries \<open>xs\<close>, in order.\<close>

definition next_of :: "nat list \<Rightarrow> nat option" where
  "next_of xs = (case xs of [] \<Rightarrow> None | x # _ \<Rightarrow> Some x)"

lemma next_of_simps [simp]: "next_of [] = None" "next_of (x # xs) = Some x"
  by (simp_all add: next_of_def)

fun segment :: "arrays \<Rightarrow> nat \<Rightarrow> nat list \<Rightarrow> bool" where
  "segment a p [] = True"
| "segment a p (x # xs) = (fst a ! p = Some x \<and> snd a ! x = Some p \<and> segment a x xs)"

definition links :: "nat \<Rightarrow> nat list \<Rightarrow> arrays \<Rightarrow> bool" where
  "links N xs a \<longleftrightarrow>
     length (fst a) = N + 1 \<and> length (snd a) = N + 1 \<and> distinct xs \<and> set xs \<subseteq> {..<N} \<and>
     segment a N xs \<and> fst a ! last (N # xs) = None"

lemma segment_append:
  "segment a p (ys @ zs) \<longleftrightarrow> segment a p ys \<and> segment a (last (p # ys)) zs"
  by (induction ys arbitrary: p) auto

lemma segment_next: "segment a p xs \<Longrightarrow> fst a ! last (p # xs) = None \<Longrightarrow> fst a ! p = next_of xs"
  by (cases xs) auto

lemma segment_frame:
  "segment a p ys \<Longrightarrow> (\<And>x. x \<in> set (butlast (p # ys)) \<Longrightarrow> fst b ! x = fst a ! x) \<Longrightarrow>
    (\<And>x. x \<in> set ys \<Longrightarrow> snd b ! x = snd a ! x) \<Longrightarrow> segment b p ys"
  by (induction ys arbitrary: p) (auto split: if_splits)

lemma links_head: "links N xs a \<Longrightarrow> fst a ! N = next_of xs"
  by (auto simp: links_def intro: segment_next)

lemma links_next: "links N (ys @ j # zs) a \<Longrightarrow> fst a ! j = next_of zs"
  by (rule segment_next) (auto simp: links_def segment_append split: if_splits)

lemma links_prev: "links N (ys @ j # zs) a \<Longrightarrow> snd a ! j = Some (last (N # ys))"
  by (auto simp: links_def segment_append)

lemma segment_upt:
  assumes "n \<le> length nxt" and "n \<le> length prv" and "k < n"
    and "\<And>i. k \<le> i \<Longrightarrow> i + 1 < n \<Longrightarrow> nxt ! i = Some (i + 1)"
    and "\<And>i. k \<le> i \<Longrightarrow> i + 1 < n \<Longrightarrow> prv ! (i + 1) = Some i"
  shows "segment (nxt, prv) k [k + 1..<n]"
  using assms
proof (induction "n - k" arbitrary: k)
  case (Suc m)
  show ?case
  proof (cases "k + 1 < n")
    case True
    then have "segment (nxt, prv) (k + 1) [k + 1 + 1..<n]" using Suc by (intro Suc.hyps(1)) auto
    with True Suc.prems(4,5) [of k] show ?thesis by (simp add: upt_conv_Cons)
  qed simp
qed simp

lemma links_new:
  assumes "0 < n"
  shows "links n [0..<n] (links_new n)"
proof -
  obtain nxt prv where a: "links_new n = (nxt, prv)" by (cases "links_new n")
  have len: "length nxt = n + 1" "length prv = n + 1" using a by (auto simp: links_new_def)
  have nxt: "nxt ! i = (if i = n then Some 0 else if i + 1 < n then Some (i + 1) else None)" if "i < n + 1" for i
    using a that by (auto simp: links_new_def nth_list_update simp del: upt_Suc)
  have prv: "prv ! i = (if i = 0 then Some n else Some (i - 1))" if "i < n" for i
    using a that by (auto simp: links_new_def nth_append simp del: upt_Suc)
  have "segment (nxt, prv) 0 [0 + 1..<n]" using assms len nxt prv by (intro segment_upt) auto
  moreover have "last (n # [0..<n]) = n - 1" using assms by simp
  ultimately show ?thesis
    using assms len nxt [of n] nxt [of "n - 1"] prv [of 0] by (auto simp: links_def a upt_conv_Cons)
qed

lemma links_unlink:
  assumes "links N (ys @ j # zs) a"
  shows "links N (ys @ zs) (unlink j a)" and "relink j (unlink j a) = a"
proof -
  define p where "p = last (N # ys)"
  obtain nxt prv where a: "a = (nxt, prv)" by (cases a)
  have prev: "prv ! j = Some p" and nxt: "nxt ! j = next_of zs"
    using links_prev [OF assms] links_next [OF assms] by (simp_all add: a p_def)
  have facts: "length nxt = N + 1" "length prv = N + 1" "distinct (N # ys @ j # zs)" "set (ys @ j # zs) \<subseteq> {..<N}"
      "segment a N ys" "nxt ! p = Some j" "segment a j zs" "nxt ! last (j # zs) = None"
    using assms by (auto simp: links_def a segment_append p_def split: if_splits)
  have p: "p \<in> insert N (set ys)" by (simp add: p_def)
  then have p_less: "p < N + 1" "p \<noteq> j" "p \<notin> set zs" using facts(3,4) by auto
  have p_last: "p \<notin> set (butlast (N # ys))"
    using facts(3) unfolding p_def by (metis append_butlast_last_id distinct_append distinct.simps(2) list.distinct(1) not_distinct_conv_prefix set_append Un_iff distinct_butlast)
  have un: "unlink j (nxt, prv) = (nxt[p := next_of zs], case zs of [] \<Rightarrow> prv | z # _ \<Rightarrow> prv[z := Some p])"
    by (cases zs) (simp_all add: unlink_def prev nxt Let_def)
  show "relink j (unlink j a) = a"
  proof (cases zs)
    case Nil
    then show ?thesis using p_less prev nxt facts(6) by (simp add: un relink_def a list_update_same_conv facts(1))
  next
    case (Cons z zs')
    then have "prv ! z = Some j" "z \<noteq> j" "z < N" using facts(3,4,7) by (auto simp: a)
    then show ?thesis
      using p_less prev nxt facts(1,2,6) Cons by (simp add: un relink_def a list_update_same_conv)
  qed
  have "segment (unlink j a) N ys"
    using facts(5) by (rule segment_frame) (use p_last facts(3) in \<open>auto simp: un a simp del: butlast.simps intro!: nth_list_update_neq split: list.split\<close>)
  moreover have "segment (unlink j a) p zs \<and> fst (unlink j a) ! last (p # zs) = None"
  proof (cases zs)
    case (Cons z zs')
    have "segment a z zs'" using facts(7) Cons by simp
    then have "segment (unlink j a) z zs'"
      by (rule segment_frame) (use p_less facts(3) Cons in \<open>auto simp: un a intro!: nth_list_update_neq simp del: butlast.simps dest: in_set_butlastD\<close>)
    moreover have "p \<noteq> last zs" using p_less(3) Cons by (metis last_in_set list.distinct(1))
    ultimately show ?thesis using facts(1,2,4,8) p_less Cons by (simp add: un a nth_list_update)
  qed (use p_less facts(1) in \<open>simp add: un a\<close>)
  moreover have "length (fst (unlink j a)) = N + 1" "length (snd (unlink j a)) = N + 1"
    using facts(1,2) by (auto simp: un a split: list.split)
  moreover have "last (N # ys @ zs) = last (p # zs)" by (simp add: p_def)
  ultimately show "links N (ys @ zs) (unlink j a)"
    using facts(3,4) unfolding links_def segment_append p_def [symmetric] by simp
qed

lemma links_remove:
  assumes "links N xs a" and "j \<in> set xs"
  shows "links N (filter ((\<noteq>) j) xs) (unlink j a)" and "relink j (unlink j a) = a"
proof -
  obtain ys zs where xs: "xs = ys @ j # zs" using assms(2) by (auto simp: in_set_conv_decomp)
  then have "distinct (ys @ j # zs)" using assms(1) by (simp add: links_def)
  then have "filter ((\<noteq>) j) ys = ys" "filter ((\<noteq>) j) zs = zs" by (auto simp: filter_id_conv)
  then have "filter ((\<noteq>) j) xs = ys @ zs" by (simp add: xs)
  with links_unlink [of N ys j zs a] assms(1) xs
  show "links N (filter ((\<noteq>) j) xs) (unlink j a)" "relink j (unlink j a) = a" by simp_all
qed

text \<open>The entries of the operations not placed.\<close>

definition live :: "'o lin_op list \<Rightarrow> nat set \<Rightarrow> nat list" where
  "live ops S = filter (\<lambda>k. e_op (entries ops ! k) \<notin> S) [0..<length (entries ops)]"

lemma set_live: "k \<in> set (live ops S) \<longleftrightarrow> k < length (entries ops) \<and> e_op (entries ops ! k) \<notin> S"
  by (auto simp: live_def)

lemma live_split:
  assumes "live ops S = ys @ k # zs"
  shows "j \<in> set ys \<longleftrightarrow> j < k \<and> j \<in> set (live ops S)" and "j \<in> set zs \<longleftrightarrow> k < j \<and> j \<in> set (live ops S)"
proof -
  have "sorted_wrt (<) (live ops S)" by (simp add: live_def sorted_wrt_filter)
  then have "sorted_wrt (<) (ys @ k # zs)" by (simp add: assms)
  then show "j \<in> set ys \<longleftrightarrow> j < k \<and> j \<in> set (live ops S)" "j \<in> set zs \<longleftrightarrow> k < j \<and> j \<in> set (live ops S)"
    by (auto simp: assms sorted_wrt_append)
qed

lemma lift_links:
  assumes "k < length (entries ops)" and "e_op (entries ops ! k) \<notin> S"
    and "links N (live ops S) a"
  shows "links N (live ops (insert (e_op (entries ops ! k)) S)) (lift (entries ops) k a)"
    and "unlift (entries ops) k (lift (entries ops) k a) = a"
proof -
  let ?m = "partner (entries ops) k"
  note m = partner_entry [OF assms(1)]
  have "k \<in> set (live ops S)" using assms(1,2) by (simp add: set_live)
  note one = links_remove [OF assms(3) this]
  have "?m \<in> set (filter ((\<noteq>) k) (live ops S))" using m assms(2) by (auto simp: set_live)
  note two = links_remove [OF one(1) this]
  have "filter ((\<noteq>) ?m) (filter ((\<noteq>) k) (live ops S)) = live ops (insert (e_op (entries ops ! k)) S)"
    unfolding live_def filter_filter
  proof (rule filter_cong [OF refl])
    fix j assume "j \<in> set [0..<length (entries ops)]"
    then have j: "j < length (entries ops)" by simp
    show "((e_op (entries ops ! j) \<notin> S \<and> k \<noteq> j) \<and> ?m \<noteq> j) =
        (e_op (entries ops ! j) \<notin> insert (e_op (entries ops ! k)) S)"
      using entry_unique [OF j assms(1)] entry_unique [OF j m(1)] m(2,3) by auto
  qed
  with two show "links N (live ops (insert (e_op (entries ops ! k)) S)) (lift (entries ops) k a)"
    "unlift (entries ops) k (lift (entries ops) k a) = a"
    using one(2) by (simp_all add: lift_def unlift_def)
qed

lemma live_pair:
  assumes "k \<in> set (live ops S)" and "e_call (entries ops ! k)" and "valid_ops ops"
  shows "partner (entries ops) k \<in> set (live ops S)" and "k < partner (entries ops) k"
    and "\<not> e_call (entries ops ! partner (entries ops) k)"
proof -
  have k: "k < length (entries ops)" using assms(1) by (simp add: set_live)
  note m = partner_entry [OF k]
  then show "partner (entries ops) k \<in> set (live ops S)" "\<not> e_call (entries ops ! partner (entries ops) k)"
    using assms(1,2) by (auto simp: set_live)
  then show "k < partner (entries ops) k"
    using call_before_return [OF assms(3) k m(1)] m(2) assms(2) by simp
qed

section \<open>The search as a walk\<close>

text \<open>The first entries of the list down to \<open>k\<close>, and what is known of the calls before it.\<close>

definition front :: "'o lin_op list \<Rightarrow> nat set \<Rightarrow> nat \<Rightarrow> bool" where
  "front ops S k \<longleftrightarrow> k \<in> set (live ops S) \<and> (\<forall>j \<in> set (live ops S). j < k \<longrightarrow> e_call (entries ops ! j))"

definition dead :: "'o model_step \<Rightarrow> 'o lin_op list \<Rightarrow> nat set \<Rightarrow> 'o val \<Rightarrow> nat \<Rightarrow> bool" where
  "dead step ops S st i \<longleftrightarrow>
     (\<forall>next. step st (ops ! i) = Inr (Some next) \<longrightarrow> \<not> completable step ops (insert i S) next)"

definition tried :: "'o model_step \<Rightarrow> 'o lin_op list \<Rightarrow> nat set \<Rightarrow> 'o val \<Rightarrow> nat \<Rightarrow> bool" where
  "tried step ops S st k \<longleftrightarrow> (\<forall>j \<in> set (live ops S). j < k \<longrightarrow> dead step ops S st (e_op (entries ops ! j)))"

lemma front_avail:
  assumes "front ops S k" and "e_call (entries ops ! k)" and "valid_ops ops"
  shows "avail ops S (e_op (entries ops ! k))"
proof -
  have k: "k < length (entries ops)" "e_op (entries ops ! k) \<notin> S" using assms(1) by (auto simp: front_def set_live)
  have "\<not> precedes ops j (e_op (entries ops ! k))" if j: "j < length ops" "j \<notin> S" for j
  proof
    assume "precedes ops j (e_op (entries ops ! k))"
    moreover obtain m where m: "m < length (entries ops)" "e_op (entries ops ! m) = j" "e_call (entries ops ! m) = False"
      by (rule entry_exists [OF j(1)])
    ultimately have "m < k" using return_before_call [of ops k m] assms(2,3) k(1) by auto
    then show False using assms(1) m j(2) by (auto simp: front_def set_live)
  qed
  then show ?thesis using k entries_at [OF k(1)] by (auto simp: avail_def)
qed

lemma stuck_not_completable:
  assumes "front ops S k" and "\<not> e_call (entries ops ! k)" and "ret (ops ! e_op (entries ops ! k)) \<noteq> None"
    and "tried step ops S st k" and "valid_ops ops"
  shows "\<not> completable step ops S st"
proof
  have k: "k < length (entries ops)" "e_op (entries ops ! k) \<notin> S" using assms(1) by (auto simp: front_def set_live)
  assume "completable step ops S st"
  then show False
  proof cases
    case finished
    then show False using k assms(3) entries_at [OF k(1)] by (auto simp: completed_def)
  next
    case (place i next')
    have i: "i < length ops" using place(1) by (simp add: avail_def)
    obtain c where c: "c < length (entries ops)" "e_op (entries ops ! c) = i" "e_call (entries ops ! c) = True"
      by (rule entry_exists [OF i])
    have "\<not> precedes ops (e_op (entries ops ! k)) i"
      using place(1) k entries_at [OF k(1)] by (auto simp: avail_def)
    then have "\<not> k < c" using return_before_call [of ops c k] c k(1) assms(2,5) by auto
    moreover have "k \<noteq> c" using assms(2) c(3) by auto
    ultimately have "c < k" by simp
    then have "dead step ops S st i" using assms(4) c place(1) by (auto simp: tried_def set_live avail_def)
    then show False using place by (auto simp: dead_def)
  qed
qed

lemma pending_completed:
  assumes "front ops S k" and "\<not> e_call (entries ops ! k)" and "ret (ops ! e_op (entries ops ! k)) = None"
  shows "completed ops \<subseteq> S"
proof
  fix j assume j: "j \<in> completed ops"
  then have "j < length ops" by (simp add: completed_def)
  then obtain m where m: "m < length (entries ops)" "e_op (entries ops ! m) = j" "e_call (entries ops ! m) = False"
    by (rule entry_exists)
  then have "m < k" using assms j by (intro return_before_pending [of k ops]) (auto simp: front_def set_live completed_def)
  then show "j \<in> S" using assms(1) m by (auto simp: front_def set_live)
qed

lemma empty_completed: "live ops S = [] \<Longrightarrow> completed ops \<subseteq> S"
proof
  fix j assume empty: "live ops S = []" and j: "j \<in> completed ops"
  then have "j < length ops" by (simp add: completed_def)
  then obtain m where "m < length (entries ops)" "e_op (entries ops ! m) = j" "e_call (entries ops ! m) = True"
    by (rule entry_exists)
  then show "j \<in> S" using set_live [of m ops S] empty by auto
qed

text \<open>Moving on past a call that leads nowhere.\<close>

lemma front_next:
  assumes "front ops S k" and "e_call (entries ops ! k)" and "valid_ops ops" and "links N (live ops S) a"
  obtains k' where "fst a ! k = Some k'" and "front ops S k'"
    and "tried step ops S st k \<Longrightarrow> dead step ops S st (e_op (entries ops ! k)) \<Longrightarrow> tried step ops S st k'"
proof -
  have k: "k \<in> set (live ops S)" using assms(1) by (simp add: front_def)
  then obtain ys zs where split: "live ops S = ys @ k # zs" by (auto simp: in_set_conv_decomp)
  note parts = live_split [OF split]
  have "partner (entries ops) k \<in> set zs" using live_pair [OF k assms(2,3)] parts(2) by blast
  then obtain k' zs' where zs: "zs = k' # zs'" by (cases zs) auto
  have "live ops S = (ys @ [k]) @ k' # zs'" by (simp add: split zs)
  note parts' = live_split(1) [OF this]
  have before: "j = k \<or> j < k" if "j \<in> set (live ops S)" "j < k'" for j
    using parts' [of j] parts(1) [of j] that by auto
  have k': "k' \<in> set (live ops S)" by (simp add: split zs)
  show thesis
  proof (rule that [of k'])
    show "fst a ! k = Some k'" using links_next [of N ys k zs a] assms(4) by (simp add: split zs)
    show "front ops S k'" using assms(1,2) before k' by (auto simp: front_def)
    show "tried step ops S st k'" if "tried step ops S st k" "dead step ops S st (e_op (entries ops ! k))"
      using that before by (auto simp: tried_def)
  qed
qed

lemma front_start:
  assumes "links N (live ops S) a"
  shows "(case fst a ! N of None \<Rightarrow> live ops S = [] | Some k \<Rightarrow> front ops S k \<and> tried step ops S st k)"
proof (cases "live ops S")
  case Nil
  then show ?thesis using links_head [OF assms] by simp
next
  case (Cons k zs)
  then have "live ops S = [] @ k # zs" by simp
  from live_split(1) [OF this] have "\<not> j < k" if "j \<in> set (live ops S)" for j using that by auto
  moreover have "k \<in> set (live ops S)" using Cons by simp
  ultimately have "front ops S k \<and> tried step ops S st k" by (auto simp: front_def tried_def)
  then show ?thesis using links_head [OF assms] Cons by simp
qed

section \<open>The memo's keys\<close>

text \<open>The states a search can be in: the bits, the operations placed, the model's state.\<close>

inductive visits ::
  "'o model_step \<Rightarrow> 'o val \<Rightarrow> 'o lin_op list \<Rightarrow> u64 list \<Rightarrow> nat set \<Rightarrow> 'o val \<Rightarrow> bool"
  for step init ops where
  start: "visits step init ops (replicate ((length ops + 63) div 64) 0) {} init"
| place: "visits step init ops bs S st \<Longrightarrow> avail ops S i \<Longrightarrow> step st (ops ! i) = Inr (Some next) \<Longrightarrow>
    visits step init ops (bit_on i bs) (insert i S) next"

text \<open>No two of them have the same key in the memo (the code's keys are hashes).\<close>

definition collision_free ::
  "'o model_step \<Rightarrow> 'o val \<Rightarrow> (u64 list \<Rightarrow> 'o val \<Rightarrow> 'k) \<Rightarrow> 'o lin_op list \<Rightarrow> bool" where
  "collision_free step init key ops \<longleftrightarrow>
     (\<forall>bs S st bs' S' st'. visits step init ops bs S st \<longrightarrow> visits step init ops bs' S' st' \<longrightarrow>
        key bs st = key bs' st' \<longrightarrow> bs = bs' \<and> st = st')"

definition bit_in :: "u64 list \<Rightarrow> nat \<Rightarrow> bool" where
  "bit_in bs i \<longleftrightarrow> bit (bs ! (i div 64)) (i mod 64)"

lemma bit_in_on:
  assumes "i div 64 < length bs"
  shows "bit_in (bit_on i bs) j \<longleftrightarrow> j = i \<or> bit_in bs j"
proof (cases "j div 64 = i div 64")
  case True
  have "bit (push_bit (i mod 64) 1 :: u64) (j mod 64) \<longleftrightarrow> j mod 64 = i mod 64"
    by (auto simp: bit_exp_iff)
  moreover have "j mod 64 = i mod 64 \<longleftrightarrow> j = i" using True by (metis div_mult_mod_eq)
  ultimately show ?thesis using True assms by (auto simp: bit_in_def bit_on_def bit_or_iff)
qed (auto simp: bit_in_def bit_on_def)

lemma length_bit_on [simp]: "length (bit_on i bs) = length bs"
  by (simp add: bit_on_def)

lemma bit_off_on:
  assumes "i div 64 < length bs" and "\<not> bit_in bs i"
  shows "bit_off i (bit_on i bs) = bs"
proof -
  have "(w OR push_bit k 1) AND NOT (push_bit k 1) = w" if "\<not> bit w k" for w :: u64 and k
    by (rule bit_word_eqI) (use that in \<open>auto simp: bit_or_iff bit_and_iff bit_not_iff bit_exp_iff\<close>)
  then show ?thesis using assms by (simp add: bit_off_def bit_on_def bit_in_def)
qed

lemma visits_bits:
  assumes "visits step init ops bs S st"
  shows "length bs = (length ops + 63) div 64 \<and> S \<subseteq> {..<length ops} \<and> (\<forall>i < length ops. bit_in bs i \<longleftrightarrow> i \<in> S)"
  using assms
proof (induction rule: visits.induct)
  case start
  then show ?case by (auto simp: bit_in_def nth_replicate)
next
  case (place bs S st i next')
  then have "i < length ops" by (simp add: avail_def)
  with place have "i div 64 < length bs" by simp
  with place bit_in_on [OF this] show ?case by (auto simp: avail_def)
qed

lemma visits_undo:
  assumes "visits step init ops bs S st" and "i < length ops" and "i \<notin> S"
  shows "bit_off i (bit_on i bs) = bs"
  using visits_bits [OF assms(1)] assms(2,3) by (intro bit_off_on) auto

lemma collision_free_set:
  assumes "collision_free step init key ops"
    and "visits step init ops bs S st" and "visits step init ops bs' S' st'" and "key bs st = key bs' st'"
  shows "S = S'" and "st = st'"
proof -
  have same: "bs = bs'" "st = st'" using assms unfolding collision_free_def by blast+
  then show "st = st'" by simp
  show "S = S'" using visits_bits [OF assms(2)] visits_bits [OF assms(3)] same(1) by blast
qed

section \<open>The invariant of the search\<close>

text \<open>What the stack stands for: the operations placed, their bits, the arrays, the nodes passed.\<close>

fun placed :: "'o lin_op list \<Rightarrow> (nat \<times> 'o val) list \<Rightarrow> nat set" where
  "placed ops [] = {}"
| "placed ops ((k, _) # stack) = insert (e_op (entries ops ! k)) (placed ops stack)"

fun bits_at :: "'o lin_op list \<Rightarrow> (nat \<times> 'o val) list \<Rightarrow> u64 list" where
  "bits_at ops [] = replicate ((length ops + 63) div 64) 0"
| "bits_at ops ((k, _) # stack) = bit_on (e_op (entries ops ! k)) (bits_at ops stack)"

fun arrays_at :: "'o lin_op list \<Rightarrow> (nat \<times> 'o val) list \<Rightarrow> arrays" where
  "arrays_at ops [] = links_new (length (entries ops))"
| "arrays_at ops ((k, _) # stack) = lift (entries ops) k (arrays_at ops stack)"

fun nodes :: "'o lin_op list \<Rightarrow> (nat \<times> 'o val) list \<Rightarrow> 'o val \<Rightarrow> (nat set \<times> 'o val) set" where
  "nodes ops [] st = {({}, st)}"
| "nodes ops ((k, before) # stack) st = insert (placed ops ((k, before) # stack), st) (nodes ops stack before)"

text \<open>\<open>exact\<close>: the memo's keys do not collide, so what was left behind leads nowhere.\<close>

fun walk ::
  "bool \<Rightarrow> 'o model_step \<Rightarrow> 'o val \<Rightarrow> 'o lin_op list \<Rightarrow> (nat \<times> 'o val) list \<Rightarrow> 'o val \<Rightarrow> bool" where
  "walk exact step init ops [] st = (st = init)"
| "walk exact step init ops ((k, before) # stack) st =
     (walk exact step init ops stack before \<and> front ops (placed ops stack) k \<and> e_call (entries ops ! k) \<and>
      (exact \<longrightarrow> tried step ops (placed ops stack) before k) \<and>
      step before (ops ! e_op (entries ops ! k)) = Inr (Some st))"

definition memo_ok ::
  "'o model_step \<Rightarrow> 'o val \<Rightarrow> (u64 list \<Rightarrow> 'o val \<Rightarrow> 'k) \<Rightarrow> 'o lin_op list \<Rightarrow> (nat set \<times> 'o val) set \<Rightarrow> 'k set \<Rightarrow> bool" where
  "memo_ok step init key ops open cache \<longleftrightarrow>
     (\<forall>m \<in> cache. \<exists>bs S st. m = key bs st \<and> visits step init ops bs S st \<and>
        (completable step ops S st \<longrightarrow> (S, st) \<in> open))"

definition search_inv ::
  "bool \<Rightarrow> 'o model_step \<Rightarrow> 'o val \<Rightarrow> (u64 list \<Rightarrow> 'o val \<Rightarrow> 'k) \<Rightarrow> 'o lin_op list \<Rightarrow> ('o, 'k) search \<Rightarrow> bool" where
  "search_inv exact step init key ops s \<longleftrightarrow>
     walk exact step init ops (s_stack s) (s_state s) \<and>
     s_links s = arrays_at ops (s_stack s) \<and> s_bits s = bits_at ops (s_stack s) \<and>
     (exact \<longrightarrow> memo_ok step init key ops (nodes ops (s_stack s) (s_state s)) (s_cache s)) \<and>
     (case s_at s of
        None \<Rightarrow> live ops (placed ops (s_stack s)) = []
      | Some k \<Rightarrow> front ops (placed ops (s_stack s)) k \<and>
          (exact \<longrightarrow> tried step ops (placed ops (s_stack s)) (s_state s) k))"

lemma walk_links:
  assumes "walk exact step init ops stack st" and "ops \<noteq> []"
  shows "links (length (entries ops)) (live ops (placed ops stack)) (arrays_at ops stack)"
  using assms
proof (induction stack arbitrary: st)
  case Nil
  obtain k where "k < length (entries ops)" by (rule entry_exists [of 0 ops]) (use Nil in auto)
  then have "0 < length (entries ops)" by linarith
  then show ?case by (simp add: live_def links_new)
next
  case (Cons e stack)
  obtain k before where e: "e = (k, before)" by (cases e)
  with Cons.prems have "front ops (placed ops stack) k" by simp
  then show ?case using Cons e by (auto simp: front_def set_live intro: lift_links(1))
qed

lemma walk_visits:
  assumes "walk exact step init ops stack st" and "valid_ops ops"
  shows "visits step init ops (bits_at ops stack) (placed ops stack) st"
  using assms
proof (induction stack arbitrary: st)
  case Nil
  then show ?case by (simp add: visits.start)
next
  case (Cons e stack)
  then show ?case by (cases e) (auto intro: visits.place front_avail)
qed

lemma walk_completable:
  assumes "walk exact step init ops stack st" and "completable step ops (placed ops stack) st" and "valid_ops ops"
  shows "completable step ops {} init"
  using assms
proof (induction stack arbitrary: st)
  case (Cons e stack)
  obtain k before where e: "e = (k, before)" by (cases e)
  then have "completable step ops (placed ops stack) before"
    using Cons.prems by (auto intro: completable.place front_avail)
  then show ?case using Cons e by auto
qed simp

lemma nodes_placed: "(S, x) \<in> nodes ops stack st \<Longrightarrow> S \<subseteq> placed ops stack"
  by (induction stack arbitrary: st) (fastforce split: prod.splits)+

lemma nodes_last: "(placed ops stack, st) \<in> nodes ops stack st"
  by (cases stack) auto

lemma search_inv_new:
  assumes "ops \<noteq> []"
  shows "search_inv exact step init key ops (search_new ops init)"
proof -
  have "links (length (entries ops)) (live ops {}) (links_new (length (entries ops)))"
    using walk_links [of exact step init ops "[]" init] assms by simp
  from front_start [OF this, of step init] show ?thesis
    by (auto simp: search_inv_def search_new_def Let_def memo_ok_def split: option.splits)
qed

text \<open>A call that is skipped: the walk goes on to the next entry.\<close>

lemma search_inv_skip:
  assumes "search_inv exact step init key ops s" and "s_at s = Some k" and "e_call (entries ops ! k)"
    and "valid_ops ops" and "ops \<noteq> []"
    and "exact \<longrightarrow> dead step ops (placed ops (s_stack s)) (s_state s) (e_op (entries ops ! k))"
  shows "search_inv exact step init key ops (s\<lparr>s_at := fst (s_links s) ! k\<rparr>)"
proof -
  let ?S = "placed ops (s_stack s)"
  have walk: "walk exact step init ops (s_stack s) (s_state s)" and at: "front ops ?S k"
    using assms(1,2) by (auto simp: search_inv_def)
  have links: "links (length (entries ops)) (live ops ?S) (s_links s)"
    using walk_links [OF walk assms(5)] assms(1) by (simp add: search_inv_def)
  obtain k' where k': "fst (s_links s) ! k = Some k'" "front ops ?S k'"
      "tried step ops ?S (s_state s) k \<Longrightarrow> dead step ops ?S (s_state s) (e_op (entries ops ! k)) \<Longrightarrow>
        tried step ops ?S (s_state s) k'"
    using front_next [OF at assms(3,4) links, of step "s_state s"] by blast
  with assms(1,2,6) show ?thesis by (auto simp: search_inv_def)
qed

text \<open>The memo remembers the node, or it is new.\<close>

lemma memo_hit:
  assumes "memo_ok step init key ops (nodes ops stack st) cache" and "key bs next \<in> cache"
    and "visits step init ops bs (insert i (placed ops stack)) next" and "i \<notin> placed ops stack"
    and "collision_free step init key ops"
  shows "\<not> completable step ops (insert i (placed ops stack)) next"
proof
  assume comp: "completable step ops (insert i (placed ops stack)) next"
  obtain bs' S' st' where old: "key bs next = key bs' st'" "visits step init ops bs' S' st'"
      "completable step ops S' st' \<longrightarrow> (S', st') \<in> nodes ops stack st"
    using assms(1,2) unfolding memo_ok_def by blast
  note same = collision_free_set [OF assms(5,3) old(2,1)]
  with comp old(3) have "insert i (placed ops stack) \<subseteq> placed ops stack" by (auto dest: nodes_placed)
  then show False using assms(4) by blast
qed

lemma memo_insert:
  assumes "memo_ok step init key ops open cache" and "visits step init ops bs S st"
  shows "memo_ok step init key ops (insert (S, st) open) (insert (key bs st) cache)"
  using assms unfolding memo_ok_def by (blast intro: insertI1 insertI2)

lemma memo_leave:
  assumes "memo_ok step init key ops (insert (S, st) open) cache" and "\<not> completable step ops S st"
  shows "memo_ok step init key ops open cache"
  using assms unfolding memo_ok_def by (metis insertE prod.inject)

lemma call_turn_inv:
  assumes inv: "search_inv exact step init key ops s" and at: "s_at s = Some k" and "e_call (entries ops ! k)"
    and turn: "call_turn step key ops (entries ops) k s = Inr s'"
    and "valid_ops ops" and "ops \<noteq> []" and free: "exact \<longrightarrow> collision_free step init key ops"
  shows "search_inv exact step init key ops s'"
proof -
  let ?S = "placed ops (s_stack s)" and ?i = "e_op (entries ops ! k)"
  have walk: "walk exact step init ops (s_stack s) (s_state s)" and front: "front ops ?S k"
    and tried: "exact \<longrightarrow> tried step ops ?S (s_state s) k"
    and memo: "exact \<longrightarrow> memo_ok step init key ops (nodes ops (s_stack s) (s_state s)) (s_cache s)"
    and bits: "s_bits s = bits_at ops (s_stack s)" and links: "s_links s = arrays_at ops (s_stack s)"
    using inv at by (auto simp: search_inv_def)
  note avail = front_avail [OF front assms(3,5)]
  then have i: "?i < length ops" "?i \<notin> ?S" by (auto simp: avail_def)
  note skip = search_inv_skip [OF inv at assms(3,5,6)]
  show ?thesis
  proof (cases "step (s_state s) (ops ! ?i)")
    case (Inr r)
    show ?thesis
    proof (cases r)
      case None
      then show ?thesis using turn Inr skip by (auto simp: call_turn_def dead_def Let_def)
    next
      case (Some next')
      let ?bits = "bit_on ?i (s_bits s)"
      have old: "visits step init ops (s_bits s) ?S (s_state s)" using walk_visits [OF walk assms(5)] bits by simp
      have new: "visits step init ops ?bits (insert ?i ?S) next'"
        using visits.place [OF old avail] Inr Some by simp
      show ?thesis
      proof (cases "key ?bits next' \<in> s_cache s")
        case True
        have "exact \<longrightarrow> dead step ops ?S (s_state s) ?i"
          using memo_hit [of step init key ops "s_stack s" "s_state s" "s_cache s" ?bits next' ?i] True new i(2)
            memo free Inr Some by (auto simp: dead_def)
        then show ?thesis
          using turn Inr Some True skip visits_undo [OF old i] by (simp add: call_turn_def Let_def)
      next
        case False
        let ?stack = "(k, s_state s) # s_stack s"
        have s': "s' = s\<lparr>s_bits := ?bits, s_cache := insert (key ?bits next') (s_cache s), s_stack := ?stack,
            s_state := next', s_links := arrays_at ops ?stack,
            s_at := fst (arrays_at ops ?stack) ! length (entries ops)\<rparr>"
          using turn Inr Some False by (simp add: call_turn_def Let_def links)
        have walk': "walk exact step init ops ?stack next'"
          using walk front tried assms(3) Inr Some by simp
        have "exact \<longrightarrow> memo_ok step init key ops (nodes ops ?stack next') (insert (key ?bits next') (s_cache s))"
          using memo_insert [OF _ new, of key] memo by simp
        moreover note front_start [OF walk_links [OF walk' assms(6)], of step next']
        ultimately show ?thesis
          using walk' bits by (auto simp: search_inv_def s' split: option.splits)
      qed
    qed
  qed (use turn in \<open>simp add: call_turn_def Let_def\<close>)
qed

text \<open>A return: the answer, or back to before the last placed call, which leads nowhere.\<close>

lemma return_turn_inv:
  assumes inv: "search_inv exact step init key ops s" and at: "s_at s = Some k" and "\<not> e_call (entries ops ! k)"
    and turn: "return_turn ops (entries ops) k s = Inr s'" and valid: "valid_ops ops" and "ops \<noteq> []"
  shows "search_inv exact step init key ops s'"
proof -
  let ?S = "placed ops (s_stack s)"
  have finite: "ret (ops ! e_op (entries ops ! k)) \<noteq> None"
    using turn by (auto simp: return_turn_def Let_def split: if_splits)
  obtain c before stack where stack: "s_stack s = (c, before) # stack"
    using turn finite by (auto simp: return_turn_def Let_def split: list.splits)
  let ?T = "placed ops stack" and ?i = "e_op (entries ops ! c)" and ?s = "s\<lparr>s_stack := stack, s_state := before,
      s_links := arrays_at ops stack, s_bits := bits_at ops stack, s_at := Some c\<rparr>"
  have walk: "walk exact step init ops stack before" and front: "front ops ?T c" and call: "e_call (entries ops ! c)"
    and tried: "exact \<longrightarrow> tried step ops ?T before c" and next': "step before (ops ! ?i) = Inr (Some (s_state s))"
    and memo: "exact \<longrightarrow> memo_ok step init key ops (nodes ops (s_stack s) (s_state s)) (s_cache s)"
    using inv by (auto simp: search_inv_def stack)
  have "exact \<longrightarrow> \<not> completable step ops ?S (s_state s)"
    using stuck_not_completable [of ops ?S k step "s_state s"] inv at assms(3) finite valid
    by (auto simp: search_inv_def)
  then have dead: "exact \<longrightarrow> dead step ops ?T before ?i" and "exact \<longrightarrow> memo_ok step init key ops (nodes ops stack before) (s_cache s)"
    using next' memo by (auto simp: dead_def stack intro: memo_leave)
  then have "search_inv exact step init key ops ?s" using walk front tried by (simp add: search_inv_def)
  note skip = search_inv_skip [OF this _ call valid assms(6)]
  have "c < length (entries ops)" "?i \<notin> ?T" "?i < length ops"
    using front by (auto simp: front_def set_live entries_at)
  then have "unlift (entries ops) c (s_links s) = arrays_at ops stack" "bit_off ?i (s_bits s) = bits_at ops stack"
    using lift_links(2) [OF _ _ walk_links [OF walk assms(6)]] visits_undo [OF walk_visits [OF walk valid]] inv
    by (auto simp: search_inv_def stack)
  then have fields: "s_stack s' = stack" "s_state s' = before" "s_links s' = arrays_at ops stack"
      "s_bits s' = bits_at ops stack" "s_at s' = fst (arrays_at ops stack) ! c" "s_cache s' = s_cache s"
    using turn finite by (auto simp: return_turn_def Let_def stack)
  have "search_inv exact step init key ops (?s\<lparr>s_at := fst (arrays_at ops stack) ! c\<rparr>)"
    using skip dead by simp
  then show ?thesis by (auto simp: search_inv_def fields split: option.splits)
qed

lemma return_turn_answer:
  assumes "search_inv exact step init key ops s" and "s_at s = Some k" and "\<not> e_call (entries ops ! k)"
    and "return_turn ops (entries ops) k s = Inl v" and "valid_ops ops"
  shows "v = Linearizable \<and> completable step ops {} init \<or>
    (\<exists>a b c. v = Violation a b c) \<and> (exact \<longrightarrow> \<not> completable step ops {} init)"
proof -
  have walk: "walk exact step init ops (s_stack s) (s_state s)" and front: "front ops (placed ops (s_stack s)) k"
    and tried: "exact \<longrightarrow> tried step ops (placed ops (s_stack s)) (s_state s) k"
    using assms(1,2) by (auto simp: search_inv_def)
  show ?thesis
  proof (cases "ret (ops ! e_op (entries ops ! k))")
    case None
    then have "completable step ops (placed ops (s_stack s)) (s_state s)"
      using pending_completed [OF front assms(3)] by (intro completable.finished) simp
    then show ?thesis using walk_completable [OF walk _ assms(5)] assms(4) None by (simp add: return_turn_def Let_def)
  next
    case (Some r)
    then have stack: "s_stack s = []" "\<exists>a b c. v = Violation a b c"
      using assms(4) by (auto simp: return_turn_def Let_def split: list.splits)
    have "exact \<longrightarrow> \<not> completable step ops (placed ops (s_stack s)) (s_state s)"
      using stuck_not_completable [OF front assms(3) _ _ assms(5)] tried Some by simp
    with stack walk show ?thesis by simp
  qed
qed

lemma wgl_loop_decides:
  assumes "search_inv exact step init key ops s" and "valid_ops ops" and "ops \<noteq> []"
    and "exact \<longrightarrow> collision_free step init key ops"
    and "wgl_loop step key ops (entries ops) budget s = Inr (v, left)"
  shows "(v = Linearizable \<longrightarrow> completable step ops {} init) \<and>
    (\<forall>a b c. v = Violation a b c \<longrightarrow> exact \<longrightarrow> \<not> completable step ops {} init)"
  using assms
proof (induction budget arbitrary: s)
  let ?done = "\<lambda>s. live ops (placed ops (s_stack s)) = []"
  have empty: "completable step ops {} init" if "search_inv exact step init key ops s" "?done s" for s :: "('a, 'b) search"
    using that walk_completable [OF _ completable.finished [OF empty_completed] assms(2)]
    by (auto simp: search_inv_def)
  have head: "?done s" if "search_inv exact step init key ops s" "fst (s_links s) ! length (entries ops) = None"
    for s :: "('a, 'b) search"
  proof -
    from that have "links (length (entries ops)) (live ops (placed ops (s_stack s))) (s_links s)"
      using walk_links [OF _ assms(3)] by (auto simp: search_inv_def)
    from front_start [OF this] that(2) show ?thesis by simp
  qed
  {
    case 0
    then show ?case
      using empty head by (auto simp: wgl_loop.simps [of _ _ _ _ 0] split: if_splits)
  next
    case (Suc budget)
    show ?case
    proof (cases "fst (s_links s) ! length (entries ops) = None")
      case True
      then show ?thesis using empty head Suc.prems by (auto simp: wgl_loop.simps [of _ _ _ _ "Suc budget"])
    next
      case False
      show ?thesis
      proof (cases "s_at s")
        case None
        then show ?thesis
          using empty [OF Suc.prems(1)] Suc.prems(1,5) False
          by (auto simp: wgl_loop.simps [of _ _ _ _ "Suc budget"] search_inv_def)
      next
        case (Some k)
        show ?thesis
        proof (cases "e_call (entries ops ! k)")
          case True
          then obtain s' where "call_turn step key ops (entries ops) k s = Inr s'"
              "wgl_loop step key ops (entries ops) budget s' = Inr (v, left)"
            using Suc.prems(5) False Some
            by (auto simp: wgl_loop.simps [of _ _ _ _ "Suc budget"] split: sum.splits)
          then show ?thesis
            using call_turn_inv [OF Suc.prems(1) Some True] Suc.prems Suc.IH by blast
        next
          case ret: False
          show ?thesis
          proof (cases "return_turn ops (entries ops) k s")
            case (Inl w)
            then show ?thesis
              using return_turn_answer [OF Suc.prems(1) Some ret Inl Suc.prems(2)] Suc.prems(5) False Some ret
              by (auto simp: wgl_loop.simps [of _ _ _ _ "Suc budget"])
          next
            case (Inr s')
            then show ?thesis
              using return_turn_inv [OF Suc.prems(1) Some ret Inr] Suc.prems Suc.IH False Some ret
              by (auto simp: wgl_loop.simps [of _ _ _ _ "Suc budget"])
          qed
        qed
      qed
    qed
  }
qed

section \<open>The verdicts\<close>

lemma wgl_decides:
  assumes "valid_ops ops" and "wgl step init key ops budget = Inr (v, left)"
  shows "v = Linearizable \<Longrightarrow> linearizable step init ops"
    and "v = Violation a b c \<Longrightarrow> collision_free step init key ops \<Longrightarrow> \<not> linearizable step init ops"
proof -
  have spec: "completable step ops {} init \<longleftrightarrow> linearizable step init ops"
    by (rule completable_linearizable) (use valid_not_self [OF assms(1)] in blast)
  have dec: "(v = Linearizable \<longrightarrow> completable step ops {} init) \<and>
      (\<forall>a b c. v = Violation a b c \<longrightarrow> exact \<longrightarrow> \<not> completable step ops {} init)"
    if "exact \<longrightarrow> collision_free step init key ops" for exact
  proof (cases "ops = []")
    case True
    then have "v = Linearizable" "completed ops \<subseteq> {}" using assms(2) by (auto simp: wgl_def completed_def)
    then show ?thesis by (auto intro: completable.finished)
  next
    case False
    then show ?thesis
      using wgl_loop_decides [OF search_inv_new [OF False] assms(1) False that] assms(2)
      by (auto simp: wgl_def)
  qed
  show "v = Linearizable \<Longrightarrow> linearizable step init ops" using dec [of False] spec by simp
  show "v = Violation a b c \<Longrightarrow> collision_free step init key ops \<Longrightarrow> \<not> linearizable step init ops"
    using dec [of True] spec by simp
qed

section \<open>Locality\<close>

text \<open>The whole of a keyed model: a state per key, an operation acting on its key's.\<close>

definition keyed :: "('s, 'o) steps \<Rightarrow> ('o lin_op \<Rightarrow> string) \<Rightarrow> (string \<Rightarrow> 's, 'o) steps" where
  "keyed step f st op =
     (case step (st (f op)) op of
        Inl e \<Rightarrow> Inl e
      | Inr None \<Rightarrow> Inr None
      | Inr (Some next) \<Rightarrow> Inr (Some (st(f op := next))))"

lemma keyed_ok:
  "keyed step f st op = Inr (Some st') \<longleftrightarrow> (\<exists>n. step (st (f op)) op = Inr (Some n) \<and> st' = st(f op := n))"
  by (auto simp: keyed_def split: sum.split option.split)

text \<open>An order of one key's operations, by their index in the whole.\<close>

definition key_order :: "('s, 'o) steps \<Rightarrow> ('o lin_op \<Rightarrow> string) \<Rightarrow> 'o lin_op list \<Rightarrow> nat set \<Rightarrow> 's \<Rightarrow> string \<Rightarrow> nat list \<Rightarrow> bool" where
  "key_order step f ops S st k seq \<longleftrightarrow>
     distinct seq \<and> set seq \<subseteq> {i. i < length ops \<and> f (ops ! i) = k \<and> i \<notin> S} \<and>
     {i \<in> completed ops. f (ops ! i) = k} \<subseteq> S \<union> set seq \<and>
     sorted_wrt (\<lambda>a b. \<not> precedes ops b a) seq \<and> accepts step st (map ((!) ops) seq)"

text \<open>
  Some key's next operation can be placed next: the one of the key whose pending operation
  completes first.
\<close>

lemma next_key:
  assumes orders: "\<And>k. key_order step f ops S (st k) k (T k)" and valid: "valid_ops ops"
    and "\<not> completed ops \<subseteq> S"
  obtains k i rest where "T k = i # rest" and "avail ops S i"
proof -
  let ?P = "completed ops - S" and ?r = "\<lambda>i. the (ret (ops ! i))"
  have "finite ?P" by (simp add: completed_def)
  then obtain x where x: "x \<in> ?P" "\<And>y. y \<in> ?P \<Longrightarrow> ?r x \<le> ?r y"
    using assms(3) ex_min_if_finite [of "?r ` ?P"] by (auto simp: not_less elim!: bexE)
  let ?k = "f (ops ! x)"
  note order = orders [of ?k, unfolded key_order_def]
  have "x \<in> set (T ?k)" using order x(1) by (auto simp: completed_def)
  then obtain i rest where i: "T ?k = i # rest" by (cases "T ?k") auto
  then have i_facts: "i < length ops" "i \<notin> S" using order by auto
  have x_i: "\<not> precedes ops x i"
  proof (cases "x = i")
    case True
    then show ?thesis using valid_not_self [OF valid] i_facts by simp
  next
    case False
    then show ?thesis using order \<open>x \<in> set (T ?k)\<close> by (auto simp: i)
  qed
  have "\<not> precedes ops j i" if "j < length ops" "j \<notin> S" for j
  proof
    assume "precedes ops j i"
    then have "j \<in> ?P" "?r j < call (ops ! i)" using that by (auto simp: precedes_def completed_def split: option.splits)
    then have "?r x < call (ops ! i)" using x(2) [of j] by simp
    then show False using x_i x(1) by (auto simp: precedes_def completed_def)
  qed
  then have "avail ops S i" using i_facts by (simp add: avail_def)
  with i show thesis by (rule that)
qed

lemma keys_completable:
  assumes "\<And>k. key_order step f ops S (st k) k (T k)" and "valid_ops ops"
  shows "completable (keyed step f) ops S st"
  using assms(1)
proof (induction "card ({..<length ops} - S)" arbitrary: S st T rule: less_induct)
  case less
  show ?case
  proof (cases "completed ops \<subseteq> S")
    case True
    then show ?thesis by (rule completable.finished)
  next
    case False
    obtain k i rest where T: "T k = i # rest" and avail: "avail ops S i"
      by (rule next_key [OF less.prems assms(2) False])
    note order = less.prems [of k, unfolded key_order_def T]
    then have key: "f (ops ! i) = k" by auto
    obtain next' where next': "step (st k) (ops ! i) = Inr (Some next')" "accepts step next' (map ((!) ops) rest)"
      using order by (auto split: sum.splits option.splits)
    have "completable (keyed step f) ops (insert i S) (st(k := next'))"
    proof (rule less.hyps)
      show "card ({..<length ops} - insert i S) < card ({..<length ops} - S)"
        using avail by (intro psubset_card_mono) (auto simp: avail_def)
      show "key_order step f ops (insert i S) ((st(k := next')) k') k' ((T(k := rest)) k')" for k'
      proof (cases "k' = k")
        case True
        then show ?thesis using order next'(2) by (auto simp: key_order_def)
      next
        case False
        then show ?thesis using less.prems [of k'] key by (auto simp: key_order_def)
      qed
    qed
    then show ?thesis
      using avail next'(1) key by (intro completable.place [of ops S i]) (auto simp: keyed_def)
  qed
qed

lemma accepts_key:
  "accepts (keyed step f) st os \<Longrightarrow> accepts step (st k) (filter (\<lambda>op. f op = k) os)"
proof (induction os arbitrary: st)
  case (Cons op os)
  then obtain st' where "keyed step f st op = Inr (Some st')" "accepts (keyed step f) st' os"
    by (auto split: sum.splits option.splits)
  then obtain next' where "step (st (f op)) op = Inr (Some next')" "accepts (keyed step f) (st(f op := next')) os"
    by (auto simp: keyed_ok)
  then show ?case using Cons.IH [of "st(f op := next')"] by (auto simp del: fun_upd_apply) (auto simp: fun_upd_def split: if_splits)
qed simp

lemma key_orders_linearizable:
  assumes "valid_ops ops"
  shows "linearizable (keyed step f) (\<lambda>_. init) ops \<longleftrightarrow> (\<forall>k. \<exists>seq. key_order step f ops {} init k seq)"
proof
  assume "linearizable (keyed step f) (\<lambda>_. init) ops"
  then obtain seq where seq: "linearization (keyed step f) (\<lambda>_. init) ops seq" by (auto simp: linearizable_def)
  have "key_order step f ops {} init k (filter (\<lambda>i. f (ops ! i) = k) seq)" for k
    using seq accepts_key [of step f "\<lambda>_. init" "map ((!) ops) seq" k]
    by (auto simp: linearization_def key_order_def filter_map o_def sorted_wrt_filter)
  then show "\<forall>k. \<exists>seq. key_order step f ops {} init k seq" by blast
next
  assume "\<forall>k. \<exists>seq. key_order step f ops {} init k seq"
  then obtain T where "\<And>k. key_order step f ops {} init k (T k)" by metis
  then have "completable (keyed step f) ops {} (\<lambda>_. init)" using assms by (intro keys_completable) auto
  moreover have "\<forall>i < length ops. \<not> precedes ops i i" using valid_not_self [OF assms] by blast
  ultimately show "linearizable (keyed step f) (\<lambda>_. init) ops" by (simp add: completable_linearizable)
qed

text \<open>A key's operations on their own are named by their place among themselves.\<close>

lemma map_nth_cover:
  assumes "set xs \<subseteq> set I"
  shows "\<exists>ys. xs = map ((!) I) ys \<and> set ys \<subseteq> {..<length I}"
  using assms
proof (induction xs)
  case (Cons x xs)
  then obtain ys where "xs = map ((!) I) ys" "set ys \<subseteq> {..<length I}" by auto
  moreover obtain a where "a < length I" "I ! a = x" using Cons.prems by (auto simp: in_set_conv_nth)
  ultimately show ?case by (intro exI [of _ "a # ys"]) auto
qed simp

lemma sub_order:
  assumes I: "I = filter (\<lambda>i. f (ops ! i) = k) [0..<length ops]" and seq: "set seq \<subseteq> {..<length I}"
  shows "linearization step init (map ((!) ops) I) seq \<longleftrightarrow> key_order step f ops {} init k (map ((!) I) seq)"
proof -
  let ?sub = "map ((!) ops) I"
  have nth: "?sub ! a = ops ! (I ! a)" if "a \<in> set seq" for a using seq that by auto
  have I_set: "set I = {i. i < length ops \<and> f (ops ! i) = k}" and "distinct I" by (auto simp: I)
  then have inj: "inj_on ((!) I) {..<length I}" by (auto simp: inj_on_def nth_eq_iff_index_eq)
  have "distinct (map ((!) I) seq) \<longleftrightarrow> distinct seq"
    using inj seq by (simp add: distinct_map inj_on_subset)
  moreover have "set (map ((!) I) seq) \<subseteq> {i. i < length ops \<and> f (ops ! i) = k \<and> i \<notin> {}}"
    using seq I_set nth_mem [of _ I] by fastforce
  moreover have "{i \<in> completed ops. f (ops ! i) = k} = (!) I ` completed ?sub"
  proof -
    have "{i \<in> completed ops. f (ops ! i) = k} = {i \<in> set I. ret (ops ! i) \<noteq> None}"
      using I_set by (auto simp: completed_def)
    also have "\<dots> = (!) I ` completed ?sub"
      by (auto simp: completed_def in_set_conv_nth image_iff)
    finally show ?thesis .
  qed
  moreover have "completed ?sub \<subseteq> {..<length I}" by (auto simp: completed_def)
  moreover from this have "(!) I ` completed ?sub \<subseteq> set (map ((!) I) seq) \<longleftrightarrow> completed ?sub \<subseteq> set seq"
    using inj_on_image_mem_iff [OF inj _ seq] by (auto simp: image_subset_iff subset_iff) (metis imageI)
  moreover have "sorted_wrt (\<lambda>a b. \<not> precedes ops b a) (map ((!) I) seq) \<longleftrightarrow>
      sorted_wrt (\<lambda>a b. \<not> precedes ?sub b a) seq"
  proof -
    have "precedes ?sub b a \<longleftrightarrow> precedes ops (I ! b) (I ! a)" if "a \<in> set seq" "b \<in> set seq" for a b
      using that by (simp add: precedes_def nth split: option.split)
    then show ?thesis
      unfolding sorted_wrt_map by (auto elim!: sorted_wrt_mono_rel [rotated])
  qed
  moreover have "map ((!) ops) (map ((!) I) seq) = map ((!) ?sub) seq" using nth by simp
  ultimately show ?thesis
    unfolding linearization_def key_order_def using seq by (simp only: Un_empty_left length_map)
qed

lemma key_linearizable:
  "linearizable step init (filter (\<lambda>op. f op = k) ops) \<longleftrightarrow> (\<exists>seq. key_order step f ops {} init k seq)"
proof -
  define I where I: "I = filter (\<lambda>i. f (ops ! i) = k) [0..<length ops]"
  have "filter (\<lambda>op. f op = k) (map ((!) ops) [0..<length ops]) = map ((!) ops) I"
    by (simp add: I filter_map o_def)
  then have sub: "filter (\<lambda>op. f op = k) ops = map ((!) ops) I" by (simp add: map_nth)
  have "\<exists>seq. linearization step init (map ((!) ops) I) seq" if "key_order step f ops {} init k seq" for seq
  proof -
    have "set seq \<subseteq> set I" using that by (auto simp: key_order_def I)
    from map_nth_cover [OF this] that show ?thesis using sub_order [OF I] by metis
  qed
  moreover have "\<exists>seq. key_order step f ops {} init k seq" if "linearization step init (map ((!) ops) I) seq" for seq
  proof -
    have "set seq \<subseteq> {..<length I}" using that by (auto simp: linearization_def)
    then show ?thesis using sub_order [OF I, of seq step init] that by blast
  qed
  ultimately show ?thesis unfolding linearizable_def sub by blast
qed

section \<open>What the parser gives\<close>

lemma valid_ops_set:
  "valid_ops ops \<longleftrightarrow>
     (\<forall>op \<in> set ops. case ret op of None \<Rightarrow> True | Some r \<Rightarrow> call op < r \<and> (\<forall>op' \<in> set ops. call op' \<noteq> r))"
  by (auto simp: valid_ops_def set_conv_nth split: option.splits)

lemma valid_ops_subset: "valid_ops ops \<Longrightarrow> set os \<subseteq> set ops \<Longrightarrow> valid_ops os"
  unfolding valid_ops_set by (fastforce split: option.splits)

definition parsing_ok :: "nat \<Rightarrow> 'o parsing \<Rightarrow> bool" where
  "parsing_ok i s \<longleftrightarrow>
     valid_ops (p_ops s) \<and> (\<forall>op \<in> set (p_ops s). call op < i \<and> (\<forall>r. ret op = Some r \<longrightarrow> r < i)) \<and>
     (\<forall>p at. p_open s p = Some at \<longrightarrow> at < length (p_ops s))"

lemma valid_ops_update:
  assumes "valid_ops ops" and "\<forall>op' \<in> set ops. call op' < i" and "at < length ops"
    and "call op = call (ops ! at)" and "ret op = None \<or> ret op = Some i"
  shows "valid_ops (ops[at := op])"
proof -
  have calls: "call (ops[at := op] ! j) = call (ops ! j)" if "j < length ops" for j
    using assms(3,4) that by (simp add: nth_list_update)
  show ?thesis
    unfolding valid_ops_def
  proof (intro allI impI)
    fix j assume j: "j < length (ops[at := op])"
    show "case ret (ops[at := op] ! j) of None \<Rightarrow> True | Some r \<Rightarrow>
        call (ops[at := op] ! j) < r \<and> (\<forall>j' < length (ops[at := op]). call (ops[at := op] ! j') \<noteq> r)"
    proof (cases "j = at")
      case True
      have "call (ops ! j') \<noteq> i" if "j' < length ops" for j'
        using assms(2) that by (metis nat_less_le nth_mem)
      then show ?thesis using assms(2-5) True calls by (auto split: option.split)
    next
      case False
      then show ?thesis using assms(1,3) j calls by (fastforce simp: valid_ops_def split: option.splits)
    qed
  qed
qed

lemma valid_ops_snoc:
  assumes "valid_ops ops" and "\<forall>op' \<in> set ops. \<forall>r. ret op' = Some r \<longrightarrow> r < call op" and "ret op = None"
  shows "valid_ops (ops @ [op])"
  using assms unfolding valid_ops_set by (fastforce split: option.splits)

lemma update_all: "\<forall>x \<in> set xs. P x \<Longrightarrow> P y \<Longrightarrow> \<forall>x \<in> set (xs[at := y]). P x"
  using set_update_subset_insert [of xs at y] by auto

lemma parse_event_ok:
  assumes "parsing_ok i s" and "parse_event show i m s = Inr s'"
  shows "parsing_ok (i + 1) s'"
proof -
  obtain kind where kind: "text_of (map_of m ''type'') = Some kind"
    using assms(2) by (auto simp: parse_event_def split: option.splits)
  define p where "p = process_name show (map_of m ''process'')"
  have later: "\<forall>op \<in> set (p_ops s). call op < i + 1 \<and> (\<forall>r. ret op = Some r \<longrightarrow> r < i + 1)"
    and valid: "valid_ops (p_ops s)" and less: "\<forall>op \<in> set (p_ops s). call op < i"
    and rets: "\<forall>op \<in> set (p_ops s). \<forall>r. ret op = Some r \<longrightarrow> r < i"
    and opened: "\<And>q at. p_open s q = Some at \<Longrightarrow> at < length (p_ops s)"
    using assms(1) by (auto simp: parsing_ok_def)
  note s' = assms(2) [unfolded parse_event_def kind option.case Let_def, folded p_def]
  consider "kind = ''invoke''" | "kind = ''ok''" | "kind = ''fail''" | "kind = ''info''"
    using s' by (auto split: if_splits)
  then show ?thesis
  proof cases
    case 1
    define ops where "ops = (case p_open s p of
        Some prev \<Rightarrow> (p_ops s)[prev := (p_ops s ! prev)\<lparr>ret := None, out := None\<rparr>] | None \<Rightarrow> p_ops s)"
    have ops: "valid_ops ops" "\<forall>op \<in> set ops. call op < i \<and> (\<forall>r. ret op = Some r \<longrightarrow> r < i)"
        "length ops = length (p_ops s)"
      using valid less rets opened [of p] unfolding ops_def
      by (auto split: option.split intro!: valid_ops_update [of _ i] dest!: set_update_subset_insert [THEN subsetD])
    obtain x where x: "s' = s\<lparr>p_ops := ops @ [x], p_open := (p_open s)(p := None, p \<mapsto> length ops)\<rparr>"
        "call x = i" "ret x = None"
      using s' 1 by (auto simp: ops_def split: option.splits)
    have "valid_ops (ops @ [x])" using ops(1,2) x by (intro valid_ops_snoc) auto
    then show ?thesis using ops(2,3) x opened by (fastforce simp: parsing_ok_def split: if_splits)
  next
    case 2
    then obtain at where at: "p_open s p = Some at" using s' by (auto split: option.splits)
    then obtain x where x: "s' = s\<lparr>p_open := (p_open s)(p := None), p_ops := (p_ops s)[at := x]\<rparr>"
        "call x = call (p_ops s ! at)" "ret x = Some i"
      using s' 2 by auto
    have "valid_ops ((p_ops s)[at := x])" using valid less opened [OF at] x by (intro valid_ops_update) auto
    moreover have "\<forall>op \<in> set ((p_ops s)[at := x]). call op < i + 1 \<and> (\<forall>r. ret op = Some r \<longrightarrow> r < i + 1)"
      using later opened [OF at] x by (intro update_all) auto
    ultimately show ?thesis using x opened by (auto simp: parsing_ok_def split: if_splits)
  next
    case 3
    then show ?thesis using s' valid later opened by (auto simp: parsing_ok_def split: option.splits if_splits)
  next
    case 4
    then show ?thesis using s' valid later opened by (auto simp: parsing_ok_def split: option.splits if_splits)
  qed
qed

lemma parse_events_ok:
  "parsing_ok i s \<Longrightarrow> parse_events show i es s = Inr s' \<Longrightarrow> valid_ops (p_ops s')"
proof (induction es arbitrary: i s)
  case (Cons e es)
  then obtain m s1 where "parse_event show i m s = Inr s1" "parse_events show (i + 1) es s1 = Inr s'"
    by (auto split: val.splits sum.splits)
  then show ?case using Cons.IH parse_event_ok [OF Cons.prems(1)] by blast
qed (simp add: parsing_ok_def)

lemma parse_history_valid: "parse_history show h = Inr ops \<Longrightarrow> valid_ops ops"
proof -
  assume "parse_history show h = Inr ops"
  then obtain s where s: "parse_events show 0 h \<lparr>p_ops = [], p_open = Map.empty, p_failed = {}\<rparr> = Inr s"
      "ops = not_failed s"
    by (auto simp: parse_history_def split: sum.splits)
  then have "valid_ops (p_ops s)" by (intro parse_events_ok) (auto simp: parsing_ok_def valid_ops_def)
  then show "valid_ops ops" by (rule valid_ops_subset) (auto simp: s(2) not_failed_def)
qed

section \<open>The check\<close>

text \<open>What a history is to be: for a keyed model, an order of the whole of it.\<close>

definition explained :: "'o model_step \<Rightarrow> 'o val \<Rightarrow> ('o lin_op \<Rightarrow> string) option \<Rightarrow> 'o lin_op list \<Rightarrow> bool" where
  "explained step init key_of ops \<longleftrightarrow>
     (case key_of of
        None \<Rightarrow> linearizable step init ops
      | Some f \<Rightarrow> linearizable (keyed step f) (\<lambda>_. init) ops)"

definition no_collisions ::
  "'o model_step \<Rightarrow> 'o val \<Rightarrow> ('o lin_op \<Rightarrow> string) option \<Rightarrow> (u64 list \<Rightarrow> 'o val \<Rightarrow> 'k) \<Rightarrow> 'o lin_op list \<Rightarrow> bool" where
  "no_collisions step init key_of key ops \<longleftrightarrow>
     (case key_of of
        None \<Rightarrow> collision_free step init key ops
      | Some f \<Rightarrow> \<forall>k. collision_free step init key (filter (\<lambda>op. f op = k) ops))"

lemma keyed_locality:
  assumes "valid_ops ops"
  shows "linearizable (keyed step f) (\<lambda>_. init) ops \<longleftrightarrow>
    (\<forall>k. linearizable step init (filter (\<lambda>op. f op = k) ops))"
  using key_orders_linearizable [OF assms] key_linearizable by metis

lemma linearizable_nil: "linearizable step init []"
  by (auto simp: linearizable_def linearization_def completed_def intro: exI [of _ "[]"])

lemma by_key_set: "(k, os) \<in> set (by_key f ops) \<longleftrightarrow> k \<in> f ` set ops \<and> os = filter (\<lambda>op. f op = k) ops"
  by (auto simp: by_key_def)

lemma check_keys_linearizable:
  "check_keys step init key ks budget unknown = Inr AllLinearizable \<Longrightarrow> (k, os) \<in> set ks \<Longrightarrow> valid_ops os \<Longrightarrow>
    linearizable step init os"
proof (induction ks arbitrary: budget unknown)
  case (Cons e ks)
  obtain k' os' where e: "e = (k', os')" by (cases e)
  obtain v left where run: "wgl step init key os' budget = Inr (v, left)"
    using Cons.prems(1) by (auto simp: e split: sum.splits)
  show ?case
  proof (cases v)
    case Linearizable
    then show ?thesis using Cons run wgl_decides(1) [OF _ run] by (auto simp: e)
  next
    case (Unknown a b)
    have "check_keys step init key ks budget' (Some x) \<noteq> Inr AllLinearizable" for budget' x
      by (induction ks arbitrary: budget' x) (auto split: sum.splits verdict.splits option.splits prod.splits)
    then show ?thesis using Cons.prems(1) run Unknown by (auto simp: e)
  qed (use Cons.prems(1) run in \<open>auto simp: e\<close>)
qed simp

lemma check_keys_violation:
  "check_keys step init key ks budget unknown = Inr (KeyViolation k v) \<Longrightarrow>
    \<exists>k' os b left x y z. (k', os) \<in> set ks \<and> k = Some k' \<and> v = Violation x y z \<and>
      wgl step init key os b = Inr (v, left)"
proof (induction ks arbitrary: budget unknown)
  case (Cons e ks)
  obtain k' os where e: "e = (k', os)" by (cases e)
  obtain w left where run: "wgl step init key os budget = Inr (w, left)"
    using Cons.prems(1) by (auto simp: e split: sum.splits)
  show ?case
  proof (cases w)
    case (Violation x y z)
    then have "k = Some k'" "v = w" using Cons.prems(1) run by (auto simp: e)
    then show ?thesis using Violation run e by (intro exI [of _ k'] exI [of _ os]) auto
  qed (use Cons.IH Cons.prems(1) run in \<open>force simp: e\<close>)+
qed (auto split: option.splits)

lemma check_ops_decides:
  assumes "valid_ops ops"
  shows "check_ops step init key_of key ops budget = Inr AllLinearizable \<Longrightarrow> explained step init key_of ops"
    and "check_ops step init key_of key ops budget = Inr (KeyViolation k v) \<Longrightarrow>
      no_collisions step init key_of key ops \<Longrightarrow> \<not> explained step init key_of ops"
proof -
  have sub: "valid_ops (filter P ops)" for P by (rule valid_ops_subset [OF assms]) auto
  show "explained step init key_of ops" if run: "check_ops step init key_of key ops budget = Inr AllLinearizable"
  proof (cases "\<exists>f. key_of = Some f \<and> ops \<noteq> []")
    case True
    then obtain f where f: "key_of = Some f" "ops \<noteq> []" by blast
    then have keys: "check_keys step init key (by_key f ops) budget None = Inr AllLinearizable"
      using run by (auto simp: check_ops_def split: list.splits)
    have "linearizable step init (filter (\<lambda>op. f op = k) ops)" for k
    proof (cases "k \<in> f ` set ops")
      case True
      then show ?thesis using check_keys_linearizable [OF keys _ sub] by (simp add: by_key_set)
    next
      case False
      then have "filter (\<lambda>op. f op = k) ops = []" by (auto simp: filter_empty_conv)
      then show ?thesis by (simp add: linearizable_nil)
    qed
    then show ?thesis using f by (simp add: explained_def keyed_locality [OF assms])
  next
    case False
    then consider "ops = []" | "key_of = None" by auto
    then show ?thesis
    proof cases
      case 1
      then show ?thesis by (auto simp: explained_def linearizable_nil split: option.split)
    next
      case 2
      then obtain left where "wgl step init key ops budget = Inr (Linearizable, left)"
        using run by (auto simp: check_ops_def split: sum.splits verdict.splits)
      then show ?thesis using wgl_decides(1) [OF assms _ refl] 2 by (simp add: explained_def)
    qed
  qed
  show "\<not> explained step init key_of ops"
    if run: "check_ops step init key_of key ops budget = Inr (KeyViolation k v)"
      and free: "no_collisions step init key_of key ops"
  proof (cases "\<exists>f. key_of = Some f \<and> ops \<noteq> []")
    case True
    then obtain f where f: "key_of = Some f" "ops \<noteq> []" by blast
    then have "check_keys step init key (by_key f ops) budget None = Inr (KeyViolation k v)"
      using run by (auto simp: check_ops_def split: list.splits)
    from check_keys_violation [OF this] obtain k' b left x y z
      where run': "wgl step init key (filter (\<lambda>op. f op = k') ops) b = Inr (Violation x y z, left)"
      by (auto simp: by_key_set)
    have "collision_free step init key (filter (\<lambda>op. f op = k') ops)"
      using free f by (simp add: no_collisions_def)
    from wgl_decides(2) [OF sub run' refl this] have "\<not> linearizable step init (filter (\<lambda>op. f op = k') ops)" .
    then show ?thesis using f by (auto simp: explained_def keyed_locality [OF assms])
  next
    case False
    then have "key_of = None \<or> ops = []" by auto
    then obtain left x y z where run': "wgl step init key ops budget = Inr (Violation x y z, left)"
      using run by (cases key_of; cases ops) (auto simp: check_ops_def split: sum.splits verdict.splits)
    then have "key_of = None" using \<open>key_of = None \<or> ops = []\<close> by (auto simp: wgl_def)
    then have "collision_free step init key ops" using free by (simp add: no_collisions_def)
    from wgl_decides(2) [OF assms run' refl this] show ?thesis by (simp add: explained_def \<open>key_of = None\<close>)
  qed
qed

lemma wgl_loop_budget:
  "wgl_loop step key ops E budget s = Inr (v, left) \<Longrightarrow> (\<forall>a b. v \<noteq> Unknown a b) \<Longrightarrow>
    wgl_loop step key ops E (budget + extra) s = Inr (v, left + extra)"
proof (induction budget arbitrary: s)
  case 0
  then show ?case
    by (auto simp: wgl_loop.simps [of _ _ _ _ 0] wgl_loop.simps [of _ _ _ _ extra] split: if_splits)
next
  case (Suc budget)
  note unfold = wgl_loop.simps [of step key ops E "Suc budget"] wgl_loop.simps [of step key ops E "Suc (budget + extra)"]
  show ?case
    using Suc unfolding add_Suc unfold
    by (auto split: if_splits option.splits sum.splits)
qed

section \<open>The properties\<close>

text \<open>C4: When the checker answers that a history is linearizable, it is: for a keyed model there is one
  order of all the operations, every completed one in it and none before one that completed before its
  call, which the whole map accepts with the outputs recorded. No assumption on the memo: a collision
  of hashes can only make the search skip.\<close>

theorem check_accepts:
  assumes "check_history show step init key_of key history budget = Inr AllLinearizable"
  shows "\<exists>ops. parse_history show history = Inr ops \<and> explained step init key_of ops"
proof -
  obtain ops where ops: "parse_history show history = Inr ops"
      "check_ops step init key_of key ops budget = Inr AllLinearizable"
    using assms by (auto simp: check_history_def split: sum.splits)
  then show ?thesis using check_ops_decides(1) [OF parse_history_valid [OF ops(1)] ops(2)] by blast
qed

text \<open>C5: When the checker answers with a violation, no order explains the history, provided no two
  states the search can be in have the same key in the memo (the code hashes both).\<close>

theorem check_rejects:
  assumes "check_history show step init key_of key history budget = Inr (KeyViolation k v)"
    and "parse_history show history = Inr ops" and "no_collisions step init key_of key ops"
  shows "\<not> explained step init key_of ops"
  using check_ops_decides(2) [OF parse_history_valid [OF assms(2)] _ assms(3)] assms(1,2)
  by (auto simp: check_history_def split: sum.splits)

text \<open>Splitting a history by key loses nothing: the whole of it is linearizable for the map of all
  keys exactly when each key's operations are on their own (what \<open>lin.rs\<close> relies on).\<close>

lemma linearizability_local:
  assumes "parse_history show history = Inr ops"
  shows "linearizable (keyed step f) (\<lambda>_. init) ops \<longleftrightarrow>
    (\<forall>k. linearizable step init (filter (\<lambda>op. f op = k) ops))"
  by (rule keyed_locality [OF parse_history_valid [OF assms]])

text \<open>A larger step budget never changes a verdict: with more steps the search answers the same and
  leaves what was added.\<close>

theorem verdict_keeps:
  assumes "wgl step init key ops budget = Inr (v, left)" and "\<forall>a b. v \<noteq> Unknown a b"
  shows "wgl step init key ops (budget + extra) = Inr (v, left + extra)"
  using assms wgl_loop_budget by (auto simp: wgl_def split: if_splits)

section \<open>Witnesses\<close>

text \<open>A read that overlaps a write, and one that comes after it and misses it.\<close>

definition event :: "string \<Rightarrow> string \<Rightarrow> string \<Rightarrow> nat val \<Rightarrow> nat val" where
  "event t p f v = VMap [(''type'', VStr t), (''process'', VStr p), (''f'', VStr f), (''value'', v)]"

definition overlapping :: "nat val list" where
  "overlapping =
     [event ''invoke'' ''a'' ''write'' (VInt 1), event ''invoke'' ''b'' ''read'' VUnit,
      event ''ok'' ''b'' '''' (VInt 1), event ''ok'' ''a'' '''' VUnit]"

definition stale :: "nat val list" where
  "stale =
     [event ''invoke'' ''a'' ''write'' (VInt 1), event ''ok'' ''a'' '''' VUnit,
      event ''invoke'' ''b'' ''read'' VUnit, event ''ok'' ''b'' '''' (VInt 0)]"

definition two_keys :: "nat val list" where
  "two_keys =
     [event ''invoke'' ''a'' ''put'' (VList [VStr ''x'', VInt 1]), event ''invoke'' ''b'' ''get'' (VList [VStr ''y'']),
      event ''ok'' ''b'' '''' VUnit, event ''ok'' ''a'' '''' VUnit]"

abbreviation plain :: "nat val \<Rightarrow> string" where
  "plain \<equiv> \<lambda>_. ''''"

abbreviation kv_key :: "nat lin_op \<Rightarrow> string" where
  "kv_key \<equiv> \<lambda>op. fst (key_and_rest plain op)"

theorem check_accepts_witness:
  "\<exists>ops. parse_history plain two_keys = Inr ops \<and> explained (kv_step plain) VUnit (Some kv_key) ops"
proof (rule check_accepts)
  show "check_history plain (kv_step plain) VUnit (Some kv_key) Pair two_keys 100 = Inr AllLinearizable"
    by code_simp
qed

theorem check_rejects_witness:
  "\<exists>ops. parse_history plain stale = Inr ops \<and> \<not> explained register_step (VInt 0) None ops"
proof -
  have run: "check_history plain register_step (VInt 0) None Pair stale 100 =
      Inr (KeyViolation None (Violation 2 1 (Some 1)))"
    by code_simp
  then obtain ops where ops: "parse_history plain stale = Inr ops"
    by (auto simp: check_history_def split: sum.splits)
  have "no_collisions register_step (VInt 0) None Pair ops"
    by (simp add: no_collisions_def collision_free_def)
  from check_rejects [OF run ops this] ops show ?thesis by blast
qed

theorem verdict_keeps_witness:
  "wgl register_step (VInt 0) Pair
     [\<lparr>process = ''a'', opf = ''read'', arg = VUnit, out = Some (VInt 1 :: nat val), call = 0, ret = Some 1\<rparr>] (10 + 5) =
   Inr (Violation 1 0 (Some 0), 8 + 5)"
proof (rule verdict_keeps)
  show "wgl register_step (VInt 0) Pair
     [\<lparr>process = ''a'', opf = ''read'', arg = VUnit, out = Some (VInt 1 :: nat val), call = 0, ret = Some 1\<rparr>] 10 =
     Inr (Violation 1 0 (Some 0), 8)"
    by code_simp
qed simp

end
