(* ===== verification/Effects.thy ===== *)
theory Effects
  imports Prelude
begin

text \<open>
  The classification of the effectful builtins (\<open>src/effects.rs\<close>): one table of what capability a
  builtin exercises and whether record/replay captures it, and its consumers in that file, the handling of a call
  inside a simulated world and the ban on effects at macro expansion. A Rust \<open>matches!\<close> over
  names is membership in a list of the same names.
\<close>

section \<open>Names\<close>

datatype cap_use = FsRead | FsWrite | UsesNet | UsesDb | UsesProc | UsesEnv

record effects =
  e_cap :: "cap_use option"
  e_recorded :: bool

definition starts_with :: "string \<Rightarrow> string \<Rightarrow> bool" where
  "starts_with p s \<longleftrightarrow> take (length p) s = p"

definition strip_prefix :: "string \<Rightarrow> string \<Rightarrow> string option" where
  "strip_prefix p s = (if starts_with p s then Some (drop (length p) s) else None)"

definition fs_pure :: "string list" where
  "fs_pure =
     [''join'', ''basename'', ''dirname'', ''ext'']"

definition fs_read_only :: "string list" where
  "fs_read_only =
     [''read_file'', ''read_bytes'', ''exists'', ''is_dir'', ''is_file'', ''list_dir'',
       ''file_info'', ''file_size'', ''walk'', ''glob'', ''scan'', ''search'', ''watch'',
       ''watch_next'', ''watch_close'', ''abs_path'', ''real_path'']"

definition http_pure :: "string list" where
  "http_pure =
     [''encode_query'', ''decode_query'', ''parse_url'']"

definition os_env_gated :: "string list" where
  "os_env_gated =
     [''get_env'', ''env'', ''set_env'', ''list_env'', ''has_env'', ''remove_env'',
       ''hostname'', ''username'', ''home_dir'']"

definition ods_reads :: "string list" where
  "ods_reads =
     [''ods.read_csv_file'', ''ods.open_csv'', ''ods.read_jsonl_file'', ''ods.open_jsonl'',
       ''ods.read_frame'', ''ods.frame_info'']"

definition ods_writes :: "string list" where
  "ods_writes =
     [''ods.write_csv'', ''ods.write_jsonl'', ''ods.write_frame'']"

definition rec_threads :: "string list" where
  "rec_threads =
     [''chan.recv'', ''chan.recv_timeout'', ''chan.try_recv'', ''chan.ask'', ''chan.send'',
       ''task.join'', ''task.join_timeout'']"

definition rec_names :: "string list" where
  "rec_names =
     [''time.now_ms'', ''time.monotonic_ms'', ''time.monotonic'', ''dates.now'',
       ''dates.utc_now'', ''dates.today'', ''dates.stamp'', ''dates.stamp_ms'',
       ''os.get_env'', ''os.env'', ''os.list_env'', ''os.has_env'', ''os.hostname'',
       ''os.username'', ''os.home_dir'', ''os.temp_dir'', ''os.read_line'', ''os.stdin'',
       ''os.stdin_lines'', ''os.exec'', ''os.os_type'', ''os.arch'', ''os.family'',
       ''os.path_separator'', ''os.args'', ''os.cwd'', ''os.exe_path'', ''os.pid'',
       ''os.is_tty'', ''os.stdin_is_tty'', ''ods.read_csv_file'', ''ods.read_jsonl_file'',
       ''ods.read_frame'', ''ods.frame_info'', ''fs.read_file'', ''fs.exists'',
       ''fs.real_path'', ''fs.is_file'', ''fs.is_dir'', ''fs.list_dir'', ''fs.walk'',
       ''fs.glob'', ''fs.scan'', ''fs.search'', ''fs.file_info'', ''fs.file_size'',
       ''http.get'', ''http.post'', ''http.put'', ''http.delete'', ''http.request'',
       ''crypto.random_bytes'', ''crypto.random_hex'', ''crypto.generate_key_pair'',
       ''crypto.hash_password'']"

definition sim_names :: "string list" where
  "sim_names =
     [''time.now_ms'', ''time.monotonic_ms'', ''time.monotonic'', ''time.sleep'',
       ''dates.now'', ''dates.utc_now'', ''dates.today'', ''dates.stamp'',
       ''dates.stamp_ms'', ''crypto.random_bytes'', ''crypto.random_hex'', ''task.join'',
       ''task.join_timeout'', ''task.watch'', ''par_map'', ''par_filter'', ''http.get'',
       ''http.post'', ''http.put'', ''http.delete'', ''http.request'', ''http.serve'',
       ''http.shutdown'', ''http.defer'', ''http.respond'', ''http.hold'', ''http.notify'',
       ''http.notify_all'', ''http.held'', ''http.response'',
       ''http.response_with_headers'', ''os.args'', ''os.get_env'', ''os.has_env'',
       ''os.env'', ''os.list_env'', ''os.set_env'', ''os.remove_env'', ''os.cwd'',
       ''os.read_line'', ''os.on_shutdown'', ''os.exit'', ''os.pid'', ''os.hostname'',
       ''os.temp_dir'', ''os.is_tty'', ''os.stdin_is_tty'', ''os.color_enabled'',
       ''os.flush'', ''os.path_separator'', ''os.on_interrupt'', ''os.interrupted'',
       ''os.reset_interrupt'']"

definition sim_fs :: "string list" where
  "sim_fs =
     [''read_file'', ''write_file'', ''read_bytes'', ''write_bytes'', ''append_file'',
       ''exists'', ''is_file'', ''is_dir'', ''list_dir'', ''walk'', ''glob'',
       ''create_dir'', ''create_dir_all'', ''remove_dir'', ''remove_dir_all'',
       ''remove_file'', ''copy_file'', ''move_file'', ''file_size'', ''file_info'',
       ''abs_path'', ''real_path'', ''sync'']"

definition refused_prefixes :: "string list" where
  "refused_prefixes =
     [''fs.'', ''http.'', ''db.'', ''proc.'', ''pty.'', ''os.'', ''tty.'', ''gui.'',
       ''asset.'', ''runtime.'', ''testing.snapshot'']"

definition refused_names :: "string list" where
  "refused_names =
     [''crypto.encrypt_aes'', ''crypto.encrypt_rsa'', ''crypto.generate_key_pair'',
       ''crypto.hash_password'', ''task.list'', ''task.parked'', ''sim.world'']"

definition sim_pure_names :: "string list" where
  "sim_pure_names =
     [''runtime.features'', ''runtime.version'', ''runtime.wasm'']"

definition blocked_prefixes :: "string list" where
  "blocked_prefixes =
     [''fs.'', ''http.'', ''db.'', ''proc.'', ''os.'', ''time.'', ''random.'', ''task.'',
       ''chan.'', ''tty.'', ''gui.'', ''pty.'', ''vt.'', ''runtime.'', ''testing.'',
       ''asset.'']"

definition blocked_names :: "string list" where
  "blocked_names =
     [''par_map'', ''par_filter'', ''print'', ''println'']"

section \<open>The table\<close>

definition cap_of :: "string \<Rightarrow> cap_use option" where
  "cap_of n =
     (case strip_prefix ''fs.'' n of
        Some f \<Rightarrow>
          if f \<in> set fs_pure then None
          else Some (if f \<in> set fs_read_only then FsRead else FsWrite)
      | None \<Rightarrow>
     (case strip_prefix ''http.'' n of
        Some f \<Rightarrow> if f \<in> set http_pure then None else Some UsesNet
      | None \<Rightarrow>
          if starts_with ''db.'' n then Some UsesDb
          else if n \<in> set ods_reads then Some FsRead
          else if n \<in> set ods_writes then Some FsWrite
          else if starts_with ''proc.'' n \<or> starts_with ''pty.'' n \<or> n \<in> set [''os.exec'', ''os.exit'']
          then Some UsesProc
          else
     (case strip_prefix ''os.'' n of
        Some f \<Rightarrow>
          if f \<in> set os_env_gated then Some UsesEnv
          else if f = ''chdir'' then Some FsWrite
          else None
      | None \<Rightarrow> None)))"

definition recorded_of :: "string \<Rightarrow> bool" where
  "recorded_of n =
     (case strip_prefix ''random.'' n of
        Some f \<Rightarrow> \<not> (f \<in> set [''seed'', ''rng''] \<or> starts_with ''Rng.'' f)
      | None \<Rightarrow>
          if starts_with ''db.'' n then True
          else if n \<in> set rec_threads then True
          else n \<in> set rec_names)"

definition classify :: "string \<Rightarrow> effects" where
  "classify n = \<lparr>e_cap = cap_of n, e_recorded = recorded_of n\<rparr>"

section \<open>Inside a simulated world\<close>

datatype sim_answer = SimPure | Simulated | Refused

definition sim_simulated :: "string \<Rightarrow> bool" where
  "sim_simulated n \<longleftrightarrow>
     (if starts_with ''random.'' n \<or> starts_with ''chan.'' n then True
      else if starts_with ''db.'' n then True
      else (case strip_prefix ''fs.'' n of
              Some f \<Rightarrow> f \<in> set sim_fs
            | None \<Rightarrow> n \<in> set sim_names))"

definition sim_handling :: "string \<Rightarrow> sim_answer" where
  "sim_handling n =
     (if sim_simulated n then Simulated
      else if n \<in> set sim_pure_names then SimPure
      else if (case strip_prefix ''fs.'' n of Some f \<Rightarrow> f \<in> set fs_pure | None \<Rightarrow> False) \<or>
              (case strip_prefix ''http.'' n of Some f \<Rightarrow> f \<in> set http_pure | None \<Rightarrow> False)
      then SimPure
      else if list_ex (\<lambda>p. starts_with p n) refused_prefixes \<or> n \<in> set refused_names then Refused
      else (let e = classify n
            in if e_cap e \<noteq> None \<or> e_recorded e then Refused else SimPure))"

section \<open>Inside a macro\<close>

definition expansion_blocked :: "string \<Rightarrow> bool" where
  "expansion_blocked n \<longleftrightarrow>
     (if list_ex (\<lambda>p. starts_with p n) blocked_prefixes \<or> n \<in> set blocked_names then True
      else (let e = classify n in e_cap e \<noteq> None \<or> e_recorded e))"

section \<open>Facts\<close>

lemma strip_prefix_Some: "strip_prefix p s = Some f \<longleftrightarrow> s = p @ f"
  by (auto simp: strip_prefix_def starts_with_def) (metis append_take_drop_id)

lemma strip_prefix_None: "strip_prefix p s = None \<longleftrightarrow> \<not> starts_with p s"
  by (simp add: strip_prefix_def)

lemma effectful_pure_names: "list_all (\<lambda>n. cap_of n = None \<and> \<not> recorded_of n) sim_pure_names"
  by code_simp

lemma effectful_fs_pure:
  "list_all (\<lambda>f. cap_of (''fs.'' @ f) = None \<and> \<not> recorded_of (''fs.'' @ f)) fs_pure"
  "list_all (\<lambda>f. cap_of (''http.'' @ f) = None \<and> \<not> recorded_of (''http.'' @ f)) http_pure"
  by code_simp+

lemma sim_pure_no_effect:
  assumes "sim_handling n = SimPure"
  shows "cap_of n = None \<and> \<not> recorded_of n"
proof -
  have fs: "\<exists>f. n = ''fs.'' @ f \<and> f \<in> set fs_pure"
    if "case strip_prefix ''fs.'' n of Some f \<Rightarrow> f \<in> set fs_pure | None \<Rightarrow> False"
    using that by (cases "strip_prefix ''fs.'' n") (simp_all add: strip_prefix_Some)
  have http: "\<exists>f. n = ''http.'' @ f \<and> f \<in> set http_pure"
    if "case strip_prefix ''http.'' n of Some f \<Rightarrow> f \<in> set http_pure | None \<Rightarrow> False"
    using that by (cases "strip_prefix ''http.'' n") (simp_all add: strip_prefix_Some)
  consider "n \<in> set sim_pure_names"
    | f where "n = ''fs.'' @ f" "f \<in> set fs_pure"
    | f where "n = ''http.'' @ f" "f \<in> set http_pure"
    | "e_cap (classify n) = None \<and> \<not> e_recorded (classify n)"
    using assms fs http unfolding sim_handling_def Let_def
    by (metis (full_types) sim_answer.distinct(1) sim_answer.distinct(3))
  then show ?thesis
  proof cases
    case 1
    then show ?thesis using effectful_pure_names by (simp add: list_all_iff)
  next
    case (2 f)
    then show ?thesis using effectful_fs_pure(1) by (simp add: list_all_iff)
  next
    case (3 f)
    then show ?thesis using effectful_fs_pure(2) by (simp add: list_all_iff)
  next
    case 4
    then show ?thesis by (simp add: classify_def)
  qed
qed

lemma blocked_prefix: "p \<in> set blocked_prefixes \<Longrightarrow> starts_with p n \<Longrightarrow> expansion_blocked n"
  by (auto simp: expansion_blocked_def list_ex_iff)

lemma sim_names_blocked: "list_all expansion_blocked sim_names"
  by code_simp

lemma simulated_blocked:
  assumes "sim_simulated n" shows "expansion_blocked n"
proof -
  have in_table: "p \<in> set blocked_prefixes" if "p \<in> {''random.'', ''chan.'', ''db.'', ''fs.''}" for p
    using that by (auto simp: blocked_prefixes_def)
  from assms consider p where "p \<in> {''random.'', ''chan.'', ''db.'', ''fs.''}" "starts_with p n"
    | "n \<in> set sim_names"
    by (auto simp: sim_simulated_def strip_prefix_None strip_prefix_def split: if_splits option.splits)
  then show ?thesis
    using in_table blocked_prefix sim_names_blocked by cases (auto simp: list_all_iff)
qed

section \<open>Properties\<close>

text \<open>C13: the policies never disagree about an effect. A builtin the capability gate restricts or
  record/replay captures is banned at macro expansion and never runs for real in a simulated world,
  and whatever a world answers itself is banned at expansion too.\<close>

theorem effects_agree:
  "(cap_of n \<noteq> None \<or> recorded_of n \<longrightarrow> expansion_blocked n \<and> sim_handling n \<noteq> SimPure) \<and>
   (sim_handling n = Simulated \<longrightarrow> expansion_blocked n)"
proof -
  have "expansion_blocked n" if "cap_of n \<noteq> None \<or> recorded_of n"
    using that by (auto simp: expansion_blocked_def classify_def Let_def)
  moreover have "sim_simulated n" if "sim_handling n = Simulated"
    using that unfolding sim_handling_def Let_def
    by (metis (full_types) sim_answer.distinct(1) sim_answer.distinct(5))
  ultimately show ?thesis using sim_pure_no_effect [of n] simulated_blocked [of n] by argo
qed

theorem effects_agree_witness:
  "expansion_blocked ''db.query'' \<and> sim_handling ''db.query'' = Simulated"
proof -
  have "cap_of ''db.query'' \<noteq> None" by code_simp
  moreover have "sim_handling ''db.query'' = Simulated" by code_simp
  ultimately show ?thesis using effects_agree [of "''db.query''"] by blast
qed

text \<open>What the table misses. \<open>crypto.encrypt_aes\<close> and \<open>crypto.encrypt_rsa\<close> draw a nonce from the operating
  system's entropy, which is why a world refuses them, yet they are neither recorded nor banned at
  macro expansion; and \<open>fs.read_bytes\<close> reads a file as \<open>fs.read_file\<close> does, yet only the latter is
  recorded for replay.\<close>

lemma effects_missed:
  "list_all (\<lambda>n. sim_handling n = Refused \<and> \<not> expansion_blocked n \<and> \<not> recorded_of n)
     [''crypto.encrypt_aes'', ''crypto.encrypt_rsa''] \<and>
   cap_of ''fs.read_bytes'' = cap_of ''fs.read_file'' \<and>
   \<not> recorded_of ''fs.read_bytes'' \<and> recorded_of ''fs.read_file''"
  by code_simp

end
