(* ===== verification/Operators.thy ===== *)
theory Operators
  imports Values "HOL-Library.Signed_Division"
begin

text \<open>
  Operator semantics (\<open>src/interpreter/ops.rs\<close>): binary and unary operators, structural equality with
  its watch for values that have none, tuple order and tuple arithmetic; and the way an operator finds
  the module of a native operand (\<open>src/native.rs\<close>). What the run time alone knows is a record \<open>rt\<close>:
  whether two collections are one allocation (\<open>Arc::ptr_eq\<close>), the registry of modules in its order, and
  the module a native object says it belongs to. The two methods a module implements, its \<open>binary_op\<close>
  and \<open>unary_op\<close>, are fields of \<open>native_module\<close>: the modules are in the repository (\<open>src/ods\<close>, \<open>dates\<close>,
  \<open>bigint\<close>) but their operators are not modelled and nothing is assumed of them. A native object stands
  for itself: its \<open>native_eq\<close> is equality of \<open>'o\<close>.
\<close>

record 'o native_module =
  mod_name :: string
  mod_binary :: "binop \<Rightarrow> 'o val \<Rightarrow> 'o val \<Rightarrow> (string + 'o val) option"
  mod_unary :: "unop \<Rightarrow> 'o val \<Rightarrow> (string + 'o val) option"

record 'o rt =
  same_addr :: "'o val \<Rightarrow> 'o val \<Rightarrow> bool"
  registered :: "'o native_module list"
  module_of :: "'o \<Rightarrow> string"

section \<open>The native hooks\<close>

definition module_named :: "'o rt \<Rightarrow> string \<Rightarrow> 'o native_module option" where
  "module_named R name = find (\<lambda>m. mod_name m = name) (registered R)"

definition owner_of :: "'o rt \<Rightarrow> 'o val \<Rightarrow> 'o val \<Rightarrow> string option" where
  "owner_of R l r =
     (case l of
        VNative _ h \<Rightarrow> Some (module_of R h)
      | _ \<Rightarrow> (case r of VNative _ h \<Rightarrow> Some (module_of R h) | _ \<Rightarrow> None))"

text \<open>The owner's answer, the left operand's module first; where it declines, \<open>==\<close> and \<open>!=\<close> of two native
  values are structural.\<close>

definition native_equality :: "binop \<Rightarrow> 'o val \<Rightarrow> 'o val \<Rightarrow> (string + 'o val) option" where
  "native_equality op l r =
     (case l of
        VNative _ a \<Rightarrow>
          (case r of
             VNative _ b \<Rightarrow>
               (if op = Equal then Some (Inr (VBool (a = b)))
                else if op = NotEqual then Some (Inr (VBool (a \<noteq> b)))
                else None)
           | _ \<Rightarrow> None)
      | _ \<Rightarrow> None)"

definition binary_op_hook :: "'o rt \<Rightarrow> binop \<Rightarrow> 'o val \<Rightarrow> 'o val \<Rightarrow> (string + 'o val) option" where
  "binary_op_hook R op l r =
     (case owner_of R l r of
        None \<Rightarrow> None
      | Some owner \<Rightarrow>
          (case (case module_named R owner of None \<Rightarrow> None | Some m \<Rightarrow> mod_binary m op l r) of
             Some res \<Rightarrow> Some res
           | None \<Rightarrow> native_equality op l r))"

definition unary_op_hook :: "'o rt \<Rightarrow> unop \<Rightarrow> 'o val \<Rightarrow> (string + 'o val) option" where
  "unary_op_hook R op v =
     (case v of
        VNative _ h \<Rightarrow>
          (case module_named R (module_of R h) of None \<Rightarrow> None | Some m \<Rightarrow> mod_unary m op v)
      | _ \<Rightarrow> None)"

section \<open>Equality\<close>

fun uncomparable_kind :: "'o val \<Rightarrow> string option" where
  "uncomparable_kind (VFun _) = Some ''Function''"
| "uncomparable_kind (VBuiltin _) = Some ''Builtin''"
| "uncomparable_kind (VRange _ _ _) = Some ''Range''"
| "uncomparable_kind _ = None"

definition uncomparable_of :: "'o val \<Rightarrow> 'o val \<Rightarrow> string option" where
  "uncomparable_of a b =
     (case uncomparable_kind a of Some k \<Rightarrow> Some k | None \<Rightarrow> uncomparable_kind b)"

text \<open>The watch: None outside \<open>==\<close>, else the first kind met, if any.\<close>

type_synonym watch = "string option option"

definition note_uncomparable :: "string option \<Rightarrow> watch \<Rightarrow> bool \<times> watch" where
  "note_uncomparable kind w =
     (case kind of
        None \<Rightarrow> (False, w)
      | Some k \<Rightarrow>
          (case w of
             Some None \<Rightarrow> (True, Some (Some k))
           | Some (Some _) \<Rightarrow> (True, w)
           | None \<Rightarrow> (False, w)))"

definition uncomparable_message :: "string \<Rightarrow> string" where
  "uncomparable_message kind =
     ''cannot compare with ==: a '' @ kind @
     '' has no equality, and a list, map or record holding one has none either; compare the parts that hold data''"

definition same_collection :: "('o val \<Rightarrow> 'o val \<Rightarrow> bool) \<Rightarrow> 'o val \<Rightarrow> 'o val \<Rightarrow> bool" where
  "same_collection p a b =
     (case a of
        VList _ \<Rightarrow> (case b of VList _ \<Rightarrow> p a b | _ \<Rightarrow> False)
      | VTuple _ \<Rightarrow> (case b of VTuple _ \<Rightarrow> p a b | _ \<Rightarrow> False)
      | VMap _ \<Rightarrow> (case b of VMap _ \<Rightarrow> p a b | _ \<Rightarrow> False)
      | _ \<Rightarrow> False)"

definition object_name :: "string \<Rightarrow> bool" where
  "object_name t \<longleftrightarrow> t = ''JsonObject'' \<or> t = ''Object''"

fun map_like :: "'o val \<Rightarrow> 'o vmap option" where
  "map_like (VMap m) = Some m"
| "map_like (VStruct t m) = (if object_name t then Some m else None)"
| "map_like _ = None"

lemma map_like_size: "map_like a = Some x \<Longrightarrow> size_list (size_prod (\<lambda>_. 0) size) x < size a"
  by (cases a rule: map_like.cases) (auto split: if_splits)

text \<open>\<open>loose_eq\<close>, the watch threaded through; a walk stops at the first difference.\<close>

function loose_eq :: "('o val \<Rightarrow> 'o val \<Rightarrow> bool) \<Rightarrow> 'o val \<Rightarrow> 'o val \<Rightarrow> watch \<Rightarrow> bool \<times> watch"
and loose_list :: "('o val \<Rightarrow> 'o val \<Rightarrow> bool) \<Rightarrow> 'o val list \<Rightarrow> 'o val list \<Rightarrow> watch \<Rightarrow> bool \<times> watch"
and loose_fields :: "('o val \<Rightarrow> 'o val \<Rightarrow> bool) \<Rightarrow> 'o vmap \<Rightarrow> 'o vmap \<Rightarrow> watch \<Rightarrow> bool \<times> watch"
where
  "loose_eq p a b w =
     (let (noted, w) = note_uncomparable (uncomparable_of a b) w in
      if noted then (True, w)
      else if same_collection p a b then (True, w)
      else
        (case map_like a of
           Some x \<Rightarrow>
             (case map_like b of
                Some y \<Rightarrow> if length x = length y then loose_fields p x y w else (False, w)
              | None \<Rightarrow>
                  (case a of
                     VStruct t fx \<Rightarrow>
                       (case b of
                          VStruct u fy \<Rightarrow>
                            if t = u \<and> length fx = length fy then loose_fields p fx fy w else (False, w)
                        | _ \<Rightarrow> (val_eq a b, w))
                   | _ \<Rightarrow> (val_eq a b, w)))
         | None \<Rightarrow>
             (case a of
                VList x \<Rightarrow>
                  (case b of
                     VList y \<Rightarrow> if length x = length y then loose_list p x y w else (False, w)
                   | _ \<Rightarrow> (val_eq a b, w))
              | VTuple x \<Rightarrow>
                  (case b of
                     VTuple y \<Rightarrow> if length x = length y then loose_list p x y w else (False, w)
                   | _ \<Rightarrow> (val_eq a b, w))
              | VStruct t fx \<Rightarrow>
                  (case b of
                     VStruct u fy \<Rightarrow>
                       if t = u \<and> length fx = length fy then loose_fields p fx fy w else (False, w)
                   | _ \<Rightarrow> (val_eq a b, w))
              | VOk x \<Rightarrow> (case b of VOk y \<Rightarrow> loose_eq p x y w | _ \<Rightarrow> (val_eq a b, w))
              | VErr x \<Rightarrow> (case b of VErr y \<Rightarrow> loose_eq p x y w | _ \<Rightarrow> (val_eq a b, w))
              | VEnum t n dx \<Rightarrow>
                  (case b of
                     VEnum u m dy \<Rightarrow>
                       if \<not> (t = u \<and> n = m) then (False, w)
                       else
                         (case dx of
                            DTuple x \<Rightarrow>
                              (case dy of
                                 DTuple y \<Rightarrow>
                                   if length x = length y then loose_list p x y w else (False, w)
                               | _ \<Rightarrow> (data_eq dx dy, w))
                          | DStruct x \<Rightarrow>
                              (case dy of
                                 DStruct y \<Rightarrow>
                                   if length x = length y then loose_fields p x y w else (False, w)
                               | _ \<Rightarrow> (data_eq dx dy, w))
                          | DUnit \<Rightarrow> (data_eq dx dy, w))
                   | _ \<Rightarrow> (val_eq a b, w))
              | _ \<Rightarrow> (val_eq a b, w))))"
| "loose_list p [] ys w = (True, w)"
| "loose_list p (x # xs) ys w =
     (case ys of
        [] \<Rightarrow> (True, w)
      | y # ys \<Rightarrow>
          (let (eq, w) = loose_eq p x y w in if eq then loose_list p xs ys w else (False, w)))"
| "loose_fields p [] y w = (True, w)"
| "loose_fields p ((k, v) # x) y w =
     (case map_of y k of
        None \<Rightarrow> (False, w)
      | Some u \<Rightarrow>
          (let (eq, w) = loose_eq p v u w in if eq then loose_fields p x y w else (False, w)))"
  by pat_completeness auto
termination
  by (relation "measure (\<lambda>x. case x of
        Inl (_, a, _, _) \<Rightarrow> 2 * size a
      | Inr (Inl (_, xs, _, _)) \<Rightarrow> 2 * size_list size xs + 1
      | Inr (Inr (_, x, _, _)) \<Rightarrow> 2 * size_list (size_prod (\<lambda>_. 0) size) x + 1)")
    (auto dest: map_like_size)

declare loose_eq.simps [simp del]

text \<open>\<open>loose_eq\<close> outside a watch, and a watched walk: its answer and the first kind it met.\<close>

definition loose :: "('o val \<Rightarrow> 'o val \<Rightarrow> bool) \<Rightarrow> 'o val \<Rightarrow> 'o val \<Rightarrow> bool" where
  "loose p a b = fst (loose_eq p a b None)"

definition watch_uncomparable :: "(watch \<Rightarrow> bool \<times> watch) \<Rightarrow> bool \<times> string option" where
  "watch_uncomparable walk =
     (let (eq, w) = walk (Some None) in (eq, case w of Some met \<Rightarrow> met | None \<Rightarrow> None))"

definition int_float_eq :: "int \<Rightarrow> f64 \<Rightarrow> bool" where
  "int_float_eq i f \<longleftrightarrow>
     is_integral f \<and> f64_le (of_i64 (- (2 ^ 63))) f \<and> f64_lt f (of_i64 (2 ^ 63)) \<and> to_int f = i"

definition search_eq :: "('o val \<Rightarrow> 'o val \<Rightarrow> bool) \<Rightarrow> 'o val \<Rightarrow> 'o val \<Rightarrow> string + bool" where
  "search_eq p a b =
     (case (a, b) of
        (VInt i, VFloat f) \<Rightarrow> Inr (int_float_eq i f)
      | (VFloat f, VInt i) \<Rightarrow> Inr (int_float_eq i f)
      | (VUnit, other) \<Rightarrow> Inr (other = VUnit)
      | (other, VUnit) \<Rightarrow> Inr (other = VUnit)
      | _ \<Rightarrow>
          (case uncomparable_of a b of
             Some kind \<Rightarrow> Inl (uncomparable_message kind)
           | None \<Rightarrow>
               if same_collection p a b then Inr True
               else (case watch_uncomparable (loose_eq p a b) of
                       (True, Some kind) \<Rightarrow> Inl (uncomparable_message kind)
                     | (eq, _) \<Rightarrow> Inr eq)))"

text \<open>\<open>assert_eq\<close>'s equality.\<close>

function deep_eq :: "'o val \<Rightarrow> 'o val \<Rightarrow> bool"
and deep_list :: "'o val list \<Rightarrow> 'o val list \<Rightarrow> bool"
and deep_fields :: "'o vmap \<Rightarrow> 'o vmap \<Rightarrow> bool" where
  "deep_eq a b =
     (if val_eq a b then True
      else
        (case map_like a of
           Some x \<Rightarrow>
             (case map_like b of
                Some y \<Rightarrow> length x = length y \<and> deep_fields x y
              | None \<Rightarrow>
                  (case a of
                     VStruct t fx \<Rightarrow>
                       (case b of VStruct u fy \<Rightarrow> t = u \<and> length fx = length fy \<and> deep_fields fx fy
                        | _ \<Rightarrow> False)
                   | _ \<Rightarrow> False))
         | None \<Rightarrow>
             (case a of
                VList x \<Rightarrow> (case b of VList y \<Rightarrow> length x = length y \<and> deep_list x y | _ \<Rightarrow> False)
              | VTuple x \<Rightarrow> (case b of VTuple y \<Rightarrow> length x = length y \<and> deep_list x y | _ \<Rightarrow> False)
              | VStruct t fx \<Rightarrow>
                  (case b of VStruct u fy \<Rightarrow> t = u \<and> length fx = length fy \<and> deep_fields fx fy
                   | _ \<Rightarrow> False)
              | VOk x \<Rightarrow> (case b of VOk y \<Rightarrow> deep_eq x y | _ \<Rightarrow> False)
              | VErr x \<Rightarrow> (case b of VErr y \<Rightarrow> deep_eq x y | _ \<Rightarrow> False)
              | _ \<Rightarrow> False)))"
| "deep_list [] ys = True"
| "deep_list (x # xs) ys = (case ys of [] \<Rightarrow> True | y # ys \<Rightarrow> deep_eq x y \<and> deep_list xs ys)"
| "deep_fields [] y = True"
| "deep_fields ((k, v) # x) y =
     ((case map_of y k of None \<Rightarrow> False | Some u \<Rightarrow> deep_eq v u) \<and> deep_fields x y)"
  by pat_completeness auto
termination
  by (relation "measure (\<lambda>x. case x of
        Inl (a, _) \<Rightarrow> 2 * size a
      | Inr (Inl (xs, _)) \<Rightarrow> 2 * size_list size xs + 1
      | Inr (Inr (x, _)) \<Rightarrow> 2 * size_list (size_prod (\<lambda>_. 0) size) x + 1)")
    (auto dest: map_like_size)

declare deep_eq.simps [simp del]

definition assert_eq_holds :: "'o val \<Rightarrow> 'o val \<Rightarrow> bool" where
  "assert_eq_holds a b =
     (case (a, b) of
        (VInt x, VFloat y) \<Rightarrow> f64_eq (of_i64 x) y
      | (VFloat x, VInt y) \<Rightarrow> f64_eq x (of_i64 y)
      | _ \<Rightarrow> deep_eq a b)"

section \<open>Order\<close>

datatype ordering = OLess | OEqual | OGreater

definition cmp_of :: "'a::linorder \<Rightarrow> 'a \<Rightarrow> ordering" where
  "cmp_of a b = (if a < b then OLess else if a = b then OEqual else OGreater)"

definition f64_ordering :: "f64 \<Rightarrow> f64 \<Rightarrow> ordering option" where
  "f64_ordering a b =
     (case f64_cmp a b of
        None \<Rightarrow> None | Some c \<Rightarrow> Some (if c < 0 then OLess else if c = 0 then OEqual else OGreater))"

fun num_of :: "'o val \<Rightarrow> f64 option" where
  "num_of (VInt n) = Some (of_i64 n)"
| "num_of (VFloat f) = Some f"
| "num_of _ = None"

fun tuple_ordering :: "('o val \<Rightarrow> 'o val \<Rightarrow> bool) \<Rightarrow> 'o val list \<Rightarrow> 'o val list \<Rightarrow> ierr + ordering"
and value_ordering :: "('o val \<Rightarrow> 'o val \<Rightarrow> bool) \<Rightarrow> 'o val \<Rightarrow> 'o val \<Rightarrow> ierr + ordering" where
  "tuple_ordering p [] ys = Inr (cmp_of 0 (length ys))"
| "tuple_ordering p (x # xs) ys =
     (case ys of
        [] \<Rightarrow> Inr OGreater
      | y # ys \<Rightarrow> if loose p x y then tuple_ordering p xs ys else value_ordering p x y)"
| "value_ordering p (VInt a) y =
     (case y of VInt b \<Rightarrow> Inr (cmp_of a b)
      | _ \<Rightarrow> (case num_of y of
               Some b \<Rightarrow> Inr (case f64_ordering (of_i64 a) b of Some r \<Rightarrow> r | None \<Rightarrow> OEqual)
             | None \<Rightarrow> Inl (TypeError (''cannot order Int and '' @ type_name y @
                 '' inside a tuple: `<` orders numbers, strings and tuples''))))"
| "value_ordering p (VFloat a) y =
     (case num_of y of
        Some b \<Rightarrow> Inr (case f64_ordering a b of Some r \<Rightarrow> r | None \<Rightarrow> OEqual)
      | None \<Rightarrow> Inl (TypeError (''cannot order Float and '' @ type_name y @
          '' inside a tuple: `<` orders numbers, strings and tuples'')))"
| "value_ordering p (VStr a) y =
     (case y of VStr b \<Rightarrow> Inr (cmp_of a b)
      | _ \<Rightarrow> Inl (TypeError (''cannot order String and '' @ type_name y @
          '' inside a tuple: `<` orders numbers, strings and tuples'')))"
| "value_ordering p (VTuple a) y =
     (case y of VTuple b \<Rightarrow> tuple_ordering p a b
      | _ \<Rightarrow> Inl (TypeError (''cannot order Tuple and '' @ type_name y @
          '' inside a tuple: `<` orders numbers, strings and tuples'')))"
| "value_ordering p x y = Inl (TypeError (''cannot order '' @ type_name x @ '' and '' @ type_name y @
     '' inside a tuple: `<` orders numbers, strings and tuples''))"

section \<open>Arithmetic\<close>

definition overflow :: "string \<Rightarrow> ierr" where
  "overflow what =
     RuntimeError (''Integer overflow in '' @ what @ '' (bigint.of gives arbitrary precision)'')"

definition checked_int :: "string \<Rightarrow> int \<Rightarrow> 'o res" where
  "checked_int what n = (if i64_ok n then Inr (VInt n) else Inl (overflow what))"

definition float_overflow_message :: "string \<Rightarrow> string" where
  "float_overflow_message what =
     ''Float overflow in '' @ what @ '' (the result is not a finite number)''"

definition float_result :: "string \<Rightarrow> f64 \<Rightarrow> 'o res" where
  "float_result what r =
     (if is_finite r then Inr (VFloat r) else Inl (RuntimeError (float_overflow_message what)))"

definition div_zero :: ierr where "div_zero = RuntimeError ''Division by zero''"
definition mod_zero :: ierr where "mod_zero = RuntimeError ''Modulo by zero''"

text \<open>The arms for two numbers.\<close>

fun int_arith :: "binop \<Rightarrow> int \<Rightarrow> int \<Rightarrow> 'o res option" where
  "int_arith Add a b = Some (checked_int ''addition'' (a + b))"
| "int_arith Subtract a b = Some (checked_int ''subtraction'' (a - b))"
| "int_arith Multiply a b = Some (checked_int ''multiplication'' (a * b))"
| "int_arith Divide a b =
     Some (if b = 0 then Inl div_zero else checked_int ''division'' (a sdiv b))"
| "int_arith Modulo a b =
     Some (if b = 0 then Inl mod_zero
           else if a = i64_min \<and> b = -1 then Inl (overflow ''modulo'')
           else Inr (VInt (a smod b)))"
| "int_arith Equal a b = Some (Inr (VBool (a = b)))"
| "int_arith NotEqual a b = Some (Inr (VBool (a \<noteq> b)))"
| "int_arith LessThan a b = Some (Inr (VBool (a < b)))"
| "int_arith LessThanEqual a b = Some (Inr (VBool (a \<le> b)))"
| "int_arith GreaterThan a b = Some (Inr (VBool (a > b)))"
| "int_arith GreaterThanEqual a b = Some (Inr (VBool (a \<ge> b)))"
| "int_arith _ a b = None"

fun float_arith :: "binop \<Rightarrow> f64 \<Rightarrow> f64 \<Rightarrow> 'o res option" where
  "float_arith Add a b = Some (float_result ''addition'' (f64_add a b))"
| "float_arith Subtract a b = Some (float_result ''subtraction'' (f64_sub a b))"
| "float_arith Multiply a b = Some (float_result ''multiplication'' (f64_mul a b))"
| "float_arith Divide a b =
     Some (if f64_eq b f64_zero then Inl div_zero else float_result ''division'' (f64_div a b))"
| "float_arith Modulo a b =
     Some (if f64_eq b f64_zero then Inl mod_zero else Inr (VFloat (f64_rem a b)))"
| "float_arith Equal a b = Some (Inr (VBool (f64_eq a b)))"
| "float_arith NotEqual a b = Some (Inr (VBool (\<not> f64_eq a b)))"
| "float_arith LessThan a b = Some (Inr (VBool (f64_lt a b)))"
| "float_arith LessThanEqual a b = Some (Inr (VBool (f64_le a b)))"
| "float_arith GreaterThan a b = Some (Inr (VBool (f64_lt b a)))"
| "float_arith GreaterThanEqual a b = Some (Inr (VBool (f64_le b a)))"
| "float_arith _ a b = None"

text \<open>An Int and a Float: arithmetic and order in floating point, equality exact.\<close>

definition int_float_arith :: "binop \<Rightarrow> int \<Rightarrow> f64 \<Rightarrow> 'o res option" where
  "int_float_arith op a b =
     (case op of
        Equal \<Rightarrow> Some (Inr (VBool (int_float_eq a b)))
      | NotEqual \<Rightarrow> Some (Inr (VBool (\<not> int_float_eq a b)))
      | _ \<Rightarrow> float_arith op (of_i64 a) b)"

definition float_int_arith :: "binop \<Rightarrow> f64 \<Rightarrow> int \<Rightarrow> 'o res option" where
  "float_int_arith op a b =
     (case op of
        Equal \<Rightarrow> Some (Inr (VBool (int_float_eq b a)))
      | NotEqual \<Rightarrow> Some (Inr (VBool (\<not> int_float_eq b a)))
      | Divide \<Rightarrow> Some (if b = 0 then Inl div_zero else float_result ''division'' (f64_div a (of_i64 b)))
      | Modulo \<Rightarrow> Some (if b = 0 then Inl mod_zero else Inr (VFloat (f64_rem a (of_i64 b))))
      | _ \<Rightarrow> float_arith op a (of_i64 b))"

fun str_op :: "binop \<Rightarrow> string \<Rightarrow> string \<Rightarrow> 'o res option" where
  "str_op Add a b = Some (Inr (VStr (a @ b)))"
| "str_op Equal a b = Some (Inr (VBool (a = b)))"
| "str_op NotEqual a b = Some (Inr (VBool (a \<noteq> b)))"
| "str_op LessThan a b = Some (Inr (VBool (a < b)))"
| "str_op LessThanEqual a b = Some (Inr (VBool (a \<le> b)))"
| "str_op GreaterThan a b = Some (Inr (VBool (a > b)))"
| "str_op GreaterThanEqual a b = Some (Inr (VBool (a \<ge> b)))"
| "str_op _ a b = None"

fun bool_op :: "binop \<Rightarrow> bool \<Rightarrow> bool \<Rightarrow> 'o res option" where
  "bool_op Equal a b = Some (Inr (VBool (a = b)))"
| "bool_op NotEqual a b = Some (Inr (VBool (a \<noteq> b)))"
| "bool_op AndOp a b = Some (Inr (VBool (a \<and> b)))"
| "bool_op OrOp a b = Some (Inr (VBool (a \<or> b)))"
| "bool_op _ a b = None"

text \<open>The kinds \<open>==\<close> walks.\<close>

fun container :: "'o val \<Rightarrow> bool" where
  "container (VEnum _ _ _) = True" | "container (VList _) = True" | "container (VTuple _) = True"
| "container (VMap _) = True" | "container (VStruct _ _) = True" | "container (VOk _) = True"
| "container (VErr _) = True" | "container _ = False"

definition container_eq :: "('o val \<Rightarrow> 'o val \<Rightarrow> bool) \<Rightarrow> 'o val \<Rightarrow> 'o val \<Rightarrow> ierr + bool" where
  "container_eq p l r =
     (if same_collection p l r then Inr True
      else (case watch_uncomparable (loose_eq p l r) of
              (True, Some kind) \<Rightarrow> Inl (TypeError (uncomparable_message kind))
            | (eq, _) \<Rightarrow> Inr eq))"

fun order_answer :: "binop \<Rightarrow> ordering \<Rightarrow> bool" where
  "order_answer LessThan c = (c = OLess)"
| "order_answer LessThanEqual c = (c \<noteq> OGreater)"
| "order_answer GreaterThan c = (c = OGreater)"
| "order_answer _ c = (c \<noteq> OLess)"

definition is_order :: "binop \<Rightarrow> bool" where
  "is_order op \<longleftrightarrow> op \<in> {LessThan, LessThanEqual, GreaterThan, GreaterThanEqual}"

text \<open>Every arm before the tuple arithmetic; None where no arm applies.\<close>

definition add_text_error :: "'o val \<Rightarrow> 'o val \<Rightarrow> ierr" where
  "add_text_error l r =
     TypeError (''cannot add '' @ type_name l @ '' and '' @ type_name r @ ''; use to_string(...) to convert'')"

definition tuple_order :: "('o val \<Rightarrow> 'o val \<Rightarrow> bool) \<Rightarrow> binop \<Rightarrow> 'o val list \<Rightarrow> 'o val list \<Rightarrow> 'o res option" where
  "tuple_order p op a b =
     (if is_order op
      then Some (case tuple_ordering p a b of
                   Inl e \<Rightarrow> Inl e | Inr c \<Rightarrow> Inr (VBool (order_answer op c)))
      else None)"

text \<open>The arms that read both operands' kinds.\<close>

definition kind_arms :: "('o val \<Rightarrow> 'o val \<Rightarrow> bool) \<Rightarrow> binop \<Rightarrow> 'o val \<Rightarrow> 'o val \<Rightarrow> 'o res option" where
  "kind_arms p op l r =
     (case l of
        VInt a \<Rightarrow>
          (case r of
             VInt b \<Rightarrow> int_arith op a b
           | VFloat b \<Rightarrow> int_float_arith op a b
           | VStr _ \<Rightarrow> if op = Add then Some (Inl (add_text_error l r)) else None
           | _ \<Rightarrow> None)
      | VFloat a \<Rightarrow>
          (case r of
             VFloat b \<Rightarrow> float_arith op a b
           | VInt b \<Rightarrow> float_int_arith op a b
           | VStr _ \<Rightarrow> if op = Add then Some (Inl (add_text_error l r)) else None
           | _ \<Rightarrow> None)
      | VStr a \<Rightarrow>
          (case r of
             VStr b \<Rightarrow> str_op op a b
           | VInt _ \<Rightarrow> if op = Add then Some (Inl (add_text_error l r)) else None
           | VFloat _ \<Rightarrow> if op = Add then Some (Inl (add_text_error l r)) else None
           | _ \<Rightarrow> None)
      | VBool a \<Rightarrow> (case r of VBool b \<Rightarrow> bool_op op a b | _ \<Rightarrow> None)
      | VTuple a \<Rightarrow> (case r of VTuple b \<Rightarrow> tuple_order p op a b | _ \<Rightarrow> None)
      | _ \<Rightarrow> None)"

text \<open>\<open>==\<close> and \<open>!=\<close> of two containers.\<close>

definition container_arm :: "('o val \<Rightarrow> 'o val \<Rightarrow> bool) \<Rightarrow> binop \<Rightarrow> 'o val \<Rightarrow> 'o val \<Rightarrow> 'o res" where
  "container_arm p op l r =
     (case container_eq p l r of Inl e \<Rightarrow> Inl e | Inr eq \<Rightarrow> Inr (VBool (eq = (op = Equal))))"

definition op_arms :: "('o val \<Rightarrow> 'o val \<Rightarrow> bool) \<Rightarrow> binop \<Rightarrow> 'o val \<Rightarrow> 'o val \<Rightarrow> 'o res option" where
  "op_arms p op l r =
     (case (if container l \<and> container r \<and> (op = Equal \<or> op = NotEqual)
            then Some (container_arm p op l r) else kind_arms p op l r) of
        Some res \<Rightarrow> Some res
      | None \<Rightarrow>
          if op = Equal \<and> type_name l \<noteq> type_name r then Some (Inr (VBool False))
          else if op = NotEqual \<and> type_name l \<noteq> type_name r then Some (Inr (VBool True))
          else None)"

definition quoted :: "string \<Rightarrow> string" where
  "quoted s = [CHR 0x27] @ s @ [CHR 0x27]"

definition op_type_error :: "binop \<Rightarrow> 'o val \<Rightarrow> 'o val \<Rightarrow> ierr" where
  "op_type_error op l r =
     TypeError (''Invalid binary operation: cannot apply '' @ quoted (binop_symbol op) @ '' to '' @
       type_name l @ '' and '' @ type_name r)"

definition is_number :: "'o val \<Rightarrow> bool" where
  "is_number v \<longleftrightarrow> (case v of VInt _ \<Rightarrow> True | VFloat _ \<Rightarrow> True | _ \<Rightarrow> False)"

definition is_arith :: "binop \<Rightarrow> bool" where
  "is_arith op \<longleftrightarrow> op \<in> {Add, Subtract, Multiply, Divide, Modulo}"

definition tuple_length_error :: "binop \<Rightarrow> nat \<Rightarrow> nat \<Rightarrow> ierr" where
  "tuple_length_error op m n =
     TypeError (''cannot apply '' @ quoted (binop_symbol op) @ '' to tuples of '' @ show_nat m @
       '' and '' @ show_nat n @ '' elements'')"

fun as_tuple :: "'o val \<Rightarrow> 'o val list option" where
  "as_tuple (VTuple xs) = Some xs"
| "as_tuple _ = None"

fun as_list :: "'o val \<Rightarrow> 'o val list option" where
  "as_list (VList xs) = Some xs"
| "as_list _ = None"

fun is_native :: "'o val \<Rightarrow> bool" where
  "is_native (VNative _ _) = True"
| "is_native _ = False"

lemma as_tuple_size: "as_tuple v = Some xs \<Longrightarrow> size_list size xs < size v"
  by (cases v) auto

definition tuple_res :: "ierr + 'o val list \<Rightarrow> 'o res" where
  "tuple_res r = (case r of Inl e \<Rightarrow> Inl e | Inr vs \<Rightarrow> Inr (VTuple vs))"

text \<open>\<open>collect\<close> into a Result stops at the first error.\<close>

definition cons_res :: "'o res \<Rightarrow> (unit \<Rightarrow> ierr + 'o val list) \<Rightarrow> ierr + 'o val list" where
  "cons_res r rest =
     (case r of Inl e \<Rightarrow> Inl e
      | Inr v \<Rightarrow> (case rest () of Inl e \<Rightarrow> Inl e | Inr vs \<Rightarrow> Inr (v # vs)))"

text \<open>The arms before the tuple arithmetic, the presence test and list concatenation first.\<close>

definition plain_op :: "('o val \<Rightarrow> 'o val \<Rightarrow> bool) \<Rightarrow> 'o val \<Rightarrow> binop \<Rightarrow> 'o val \<Rightarrow> 'o res option" where
  "plain_op p l op r =
     (if (l = VUnit \<or> r = VUnit) \<and> op = Equal then Some (Inr (VBool (l = VUnit \<and> r = VUnit)))
      else if (l = VUnit \<or> r = VUnit) \<and> op = NotEqual
      then Some (Inr (VBool (\<not> (l = VUnit \<and> r = VUnit))))
      else
        (case (if op = Add then as_list l else None) of
           Some a \<Rightarrow> (case as_list r of Some b \<Rightarrow> Some (Inr (VList (a @ b))) | None \<Rightarrow> op_arms p op l r)
         | None \<Rightarrow> op_arms p op l r))"

text \<open>The rest of \<open>eval_binary_op\<close> below the native hook, and \<open>tuple_arith\<close>, which applies the whole to
  the elements.\<close>

function eval_values :: "'o rt \<Rightarrow> 'o val \<Rightarrow> binop \<Rightarrow> 'o val \<Rightarrow> 'o res"
and eval_op :: "'o rt \<Rightarrow> 'o val \<Rightarrow> binop \<Rightarrow> 'o val \<Rightarrow> 'o res"
and tuple_both :: "'o rt \<Rightarrow> 'o val list \<Rightarrow> binop \<Rightarrow> 'o val list \<Rightarrow> ierr + 'o val list"
and tuple_left :: "'o rt \<Rightarrow> 'o val list \<Rightarrow> binop \<Rightarrow> 'o val \<Rightarrow> ierr + 'o val list"
and tuple_right :: "'o rt \<Rightarrow> 'o val \<Rightarrow> binop \<Rightarrow> 'o val list \<Rightarrow> ierr + 'o val list" where
  "eval_values R l op r =
     (case plain_op (same_addr R) l op r of
        Some res \<Rightarrow> res
      | None \<Rightarrow>
          if \<not> is_arith op then Inl (op_type_error op l r)
          else
            (case as_tuple l of
               Some a \<Rightarrow>
                 (case as_tuple r of
                    Some b \<Rightarrow>
                      if length a \<noteq> length b then Inl (tuple_length_error op (length a) (length b))
                      else tuple_res (tuple_both R a op b)
                  | None \<Rightarrow>
                      if is_number r \<and> op \<in> {Multiply, Divide, Modulo}
                      then tuple_res (tuple_left R a op r) else Inl (op_type_error op l r))
             | None \<Rightarrow>
                 (case as_tuple r of
                    Some b \<Rightarrow>
                      if is_number l \<and> op = Multiply
                      then tuple_res (tuple_right R l op b) else Inl (op_type_error op l r)
                  | None \<Rightarrow> Inl (op_type_error op l r))))"
| "eval_op R l op r =
     (if op = Coalesce then Inr (if l = VUnit then r else l)
      else
        (case (if is_native l \<or> is_native r then binary_op_hook R op l r else None) of
           Some (Inl msg) \<Rightarrow> Inl (RuntimeError msg)
         | Some (Inr v) \<Rightarrow> Inr v
         | None \<Rightarrow> eval_values R l op r))"
| "tuple_both R [] op ys = Inr []"
| "tuple_both R (x # xs) op [] = Inr []"
| "tuple_both R (x # xs) op (y # ys) = cons_res (eval_op R x op y) (\<lambda>_. tuple_both R xs op ys)"
| "tuple_left R [] op n = Inr []"
| "tuple_left R (x # xs) op n = cons_res (eval_op R x op n) (\<lambda>_. tuple_left R xs op n)"
| "tuple_right R n op [] = Inr []"
| "tuple_right R n op (y # ys) = cons_res (eval_op R n op y) (\<lambda>_. tuple_right R n op ys)"
  by pat_completeness auto
termination
  by (relation "measure (\<lambda>x. case x of
        Inl (Inl (_, l, _, r)) \<Rightarrow> 3 * (size l + size r)
      | Inl (Inr (_, l, _, r)) \<Rightarrow> 3 * (size l + size r) + 1
      | Inr (Inl (_, xs, _, ys)) \<Rightarrow> 3 * (size_list size xs + size_list size ys) + 2
      | Inr (Inr (Inl (_, xs, _, r))) \<Rightarrow> 3 * (size_list size xs + size r) + 2
      | Inr (Inr (Inr (_, l, _, ys))) \<Rightarrow> 3 * (size l + size_list size ys) + 2)")
    (auto dest!: as_tuple_size)

declare eval_values.simps eval_op.simps [simp del]

definition eval_unary :: "'o rt \<Rightarrow> unop \<Rightarrow> 'o val \<Rightarrow> 'o res" where
  "eval_unary R op v =
     (case (case v of VNative _ _ \<Rightarrow> unary_op_hook R op v | _ \<Rightarrow> None) of
        Some (Inl msg) \<Rightarrow> Inl (RuntimeError msg)
      | Some (Inr u) \<Rightarrow> Inr u
      | None \<Rightarrow>
          (case (op, v) of
             (Negate, VInt n) \<Rightarrow> checked_int ''negation'' (- n)
           | (Negate, VFloat x) \<Rightarrow> Inr (VFloat (f64_neg x))
           | (Not, VBool b) \<Rightarrow> Inr (VBool (\<not> b))
           | _ \<Rightarrow> Inl (TypeError (''Invalid unary operation: cannot apply '' @ quoted (unop_symbol op) @
                    '' to '' @ type_name v))))"

definition condition_error :: "string \<Rightarrow> string" where
  "condition_error t =
     ''a condition must be a Bool, got '' @ t @ '': say what is meant (`len(xs) > 0`, `x != ()`, `s != '' @
     [CHR 0x22, CHR 0x22] @ ''`)''"

definition to_boolean :: "'o val \<Rightarrow> ierr + bool" where
  "to_boolean v = (case v of VBool b \<Rightarrow> Inr b | _ \<Rightarrow> Inl (TypeError (condition_error (type_name v))))"

definition eval_range :: "'o val \<Rightarrow> 'o val \<Rightarrow> bool \<Rightarrow> 'o res" where
  "eval_range start stop inclusive =
     (case start of
        VInt a \<Rightarrow> (case stop of
                    VInt b \<Rightarrow> Inr (VRange a b inclusive)
                  | _ \<Rightarrow> Inl (TypeError ''Range end must be an integer''))
      | _ \<Rightarrow> Inl (TypeError ''Range start must be an integer''))"

section \<open>Equality is reflexive\<close>

text \<open>Data all the way down: no function, builtin or range at any depth.\<close>

fun comparable :: "'o val \<Rightarrow> bool"
and comparables :: "'o val list \<Rightarrow> bool"
and comparable_fields :: "'o vmap \<Rightarrow> bool"
and comparable_data :: "'o vdata \<Rightarrow> bool" where
  "comparable (VList xs) = comparables xs"
| "comparable (VMap x) = comparable_fields x"
| "comparable (VTuple xs) = comparables xs"
| "comparable (VStruct _ x) = comparable_fields x"
| "comparable (VOk v) = comparable v"
| "comparable (VErr v) = comparable v"
| "comparable (VEnum _ _ d) = comparable_data d"
| "comparable v = (uncomparable_kind v = None)"
| "comparables [] = True"
| "comparables (v # vs) = (comparable v \<and> comparables vs)"
| "comparable_fields [] = True"
| "comparable_fields ((_, v) # x) = (comparable v \<and> comparable_fields x)"
| "comparable_data DUnit = True"
| "comparable_data (DTuple xs) = comparables xs"
| "comparable_data (DStruct x) = comparable_fields x"

lemma comparable_kind: "comparable v \<Longrightarrow> uncomparable_kind v = None"
  by (cases v) auto

lemma note_none [simp]: "note_uncomparable None w = (False, w)"
  by (simp add: note_uncomparable_def)

lemma loose_fields_lookup:
  assumes "distinct (map fst (q @ x))"
    and "\<forall>(k, v) \<in> set x. loose_eq p v v w = (True, w)"
  shows "loose_fields p x (q @ x) w = (True, w)"
proof -
  have "loose_fields p x m w = (True, w)"
    if "\<forall>(k, v) \<in> set x. map_of m k = Some v \<and> loose_eq p v v w = (True, w)" for m
    using that by (induction x) auto
  moreover have "map_of (q @ x) k = Some v" if "(k, v) \<in> set x" for k v
    using assms(1) that by (intro map_of_is_SomeI) auto
  ultimately show ?thesis using assms(2) by fastforce
qed

lemma loose_refl:
  fixes v :: "'o val" and vs :: "'o val list" and x :: "'o vmap" and d :: "'o vdata"
  shows "val_wf v \<Longrightarrow> comparable v \<Longrightarrow> loose_eq p v v w = (True, w)"
  and "vals_wf vs \<Longrightarrow> comparables vs \<Longrightarrow> loose_list p vs vs w = (True, w)"
  and "fields_wf x \<Longrightarrow> comparable_fields x \<Longrightarrow> \<forall>(k, v) \<in> set x. loose_eq p v v w = (True, w)"
  and "data_wf d \<Longrightarrow> comparable_data d \<Longrightarrow>
    (case d of DTuple xs \<Rightarrow> loose_list p xs xs w = (True, w)
     | DStruct y \<Rightarrow> loose_fields p y y w = (True, w) | DUnit \<Rightarrow> True)"
proof (induction v and vs and x and d rule: val_wf_vals_wf_fields_wf_data_wf.induct)
qed (use loose_fields_lookup [of "[]", simplified] in
  \<open>auto simp: loose_eq.simps uncomparable_of_def comparable_kind f64_eq_refl is_finite_not_nan Let_def split: vdata.split\<close>)

section \<open>Results stay in range\<close>

lemma checked_int_wf: "checked_int what n = Inr v \<Longrightarrow> val_wf v"
  by (auto simp: checked_int_def split: if_splits)

lemma float_result_wf: "float_result what f = Inr v \<Longrightarrow> val_wf v"
  by (auto simp: float_result_def split: if_splits)

lemma int_arith_wf:
  "int_arith op a b = Some (Inr v) \<Longrightarrow> op \<noteq> Modulo \<Longrightarrow> val_wf v"
  by (cases op) (auto dest: checked_int_wf split: if_splits)

lemma float_arith_wf: "float_arith op a b = Some (Inr v) \<Longrightarrow> op \<noteq> Modulo \<Longrightarrow> val_wf v"
  by (cases op) (auto dest: float_result_wf split: if_splits)

lemma str_op_wf: "str_op op a b = Some (Inr v) \<Longrightarrow> val_wf v"
  by (cases op) auto

lemma bool_op_wf: "bool_op op a b = Some (Inr v) \<Longrightarrow> val_wf v"
  by (cases op) auto

lemma int_float_arith_wf: "int_float_arith op a b = Some (Inr v) \<Longrightarrow> op \<noteq> Modulo \<Longrightarrow> val_wf v"
  by (cases op) (auto simp: int_float_arith_def dest: float_result_wf split: if_splits)

lemma float_int_arith_wf: "float_int_arith op a b = Some (Inr v) \<Longrightarrow> op \<noteq> Modulo \<Longrightarrow> val_wf v"
  by (cases op) (auto simp: float_int_arith_def dest: float_result_wf split: if_splits)

lemma tuple_order_wf: "tuple_order p op a b = Some (Inr v) \<Longrightarrow> val_wf v"
  by (auto simp: tuple_order_def split: if_splits sum.splits)

lemma kind_arms_wf: "kind_arms p op l r = Some (Inr v) \<Longrightarrow> op \<noteq> Modulo \<Longrightarrow> val_wf v"
  by (cases l; simp add: kind_arms_def split: val.split_asm if_splits)
    (blast dest: int_arith_wf float_arith_wf str_op_wf bool_op_wf int_float_arith_wf
      float_int_arith_wf tuple_order_wf)+

lemma container_arm_wf: "container_arm p op l r = Inr v \<Longrightarrow> val_wf v"
  by (auto simp: container_arm_def split: sum.splits)

lemma op_arms_wf: "op_arms p op l r = Some (Inr v) \<Longrightarrow> op \<noteq> Modulo \<Longrightarrow> val_wf v"
  by (auto simp: op_arms_def dest: kind_arms_wf container_arm_wf split: if_splits option.splits)

lemma vals_wf_append [simp]: "vals_wf (xs @ ys) \<longleftrightarrow> vals_wf xs \<and> vals_wf ys"
  by (induction xs) auto

lemma as_tuple_wf: "as_tuple v = Some xs \<Longrightarrow> val_wf v \<Longrightarrow> vals_wf xs"
  by (cases v) auto

lemma as_list_wf: "as_list v = Some xs \<Longrightarrow> val_wf v \<Longrightarrow> vals_wf xs"
  by (cases v) auto

lemma plain_op_wf:
  assumes "plain_op p l op r = Some (Inr v)" and "op \<noteq> Modulo" and "val_wf l" and "val_wf r"
  shows "val_wf v"
  using assms
  by (auto simp: plain_op_def dest: op_arms_wf as_list_wf split: if_splits option.splits)

lemma cons_res_wf:
  assumes "cons_res r rest = Inr ws"
  obtains w vs where "r = Inr w" and "rest () = Inr vs" and "ws = w # vs"
  using assms by (auto simp: cons_res_def split: sum.splits)

lemma tuple_res_Inr: "tuple_res r = Inr v \<longleftrightarrow> (\<exists>vs. r = Inr vs \<and> v = VTuple vs)"
  by (auto simp: tuple_res_def split: sum.splits)

text \<open>No native value among the operands: none at any depth of a tuple, which is as far as an operator
  looks for operands of its own.\<close>

fun no_native :: "'o val \<Rightarrow> bool" where
  "no_native (VNative _ _) = False"
| "no_native (VTuple xs) = list_all no_native xs"
| "no_native _ = True"

lemma no_native_not_native: "no_native v \<Longrightarrow> \<not> is_native v"
  by (cases v) auto

lemma as_tuple_no_native: "as_tuple v = Some xs \<Longrightarrow> no_native v \<Longrightarrow> list_all no_native xs"
  by (cases v) auto

lemma eval_wf:
  fixes R :: "'o rt"
  shows "eval_values R l op r = Inr v \<Longrightarrow> op \<noteq> Modulo \<Longrightarrow> no_native l \<Longrightarrow> no_native r \<Longrightarrow>
      val_wf l \<Longrightarrow> val_wf r \<Longrightarrow> val_wf v"
    and "eval_op R l op r = Inr v \<Longrightarrow> op \<noteq> Modulo \<Longrightarrow> no_native l \<Longrightarrow> no_native r \<Longrightarrow>
      val_wf l \<Longrightarrow> val_wf r \<Longrightarrow> val_wf v"
    and "tuple_both R xs op ys = Inr vs \<Longrightarrow> op \<noteq> Modulo \<Longrightarrow> list_all no_native xs \<Longrightarrow> list_all no_native ys \<Longrightarrow>
      vals_wf xs \<Longrightarrow> vals_wf ys \<Longrightarrow> vals_wf vs"
    and "tuple_left R xs op r = Inr vs \<Longrightarrow> op \<noteq> Modulo \<Longrightarrow> list_all no_native xs \<Longrightarrow> no_native r \<Longrightarrow>
      vals_wf xs \<Longrightarrow> val_wf r \<Longrightarrow> vals_wf vs"
    and "tuple_right R l op ys = Inr vs \<Longrightarrow> op \<noteq> Modulo \<Longrightarrow> no_native l \<Longrightarrow> list_all no_native ys \<Longrightarrow>
      val_wf l \<Longrightarrow> vals_wf ys \<Longrightarrow> vals_wf vs"
proof (induction R l op r and R l op r and R xs op ys and R xs op r and R l op ys
    arbitrary: v and v and vs and vs and vs
    rule: eval_values_eval_op_tuple_both_tuple_left_tuple_right.induct)
  case (1 R l op r)
  show ?case
  proof (cases "plain_op (same_addr R) l op r")
    case (Some res)
    with "1.prems" show ?thesis by (auto simp: eval_values.simps [of R l] dest: plain_op_wf)
  next
    case None
    with "1.prems" show ?thesis
      by (auto simp: eval_values.simps [of R l] tuple_res_Inr as_tuple_wf as_tuple_no_native "1.IH"
          split: if_splits option.splits)
  qed
next
  case (2 R l op r)
  then show ?case
    by (auto simp: eval_op.simps [of R l] no_native_not_native split: if_splits option.splits sum.splits)
qed (auto elim!: cons_res_wf)

end
