(* ===== verification/OperatorLaws.thy ===== *)
theory OperatorLaws
  imports Operators
begin

text \<open>
  What the operators of \<open>Operators\<close> promise a program: equality is reflexive on data and \<open>!=\<close> negates
  it, results stay in range, Int division is truncated division, tuples order lexicographically, and
  where the order and the equality of mixed numbers disagree.
\<close>

text \<open>The operators' answers when no native hook applies.\<close>

lemma eval_op_plain:
  assumes "op \<noteq> Coalesce" and "\<not> is_native l" and "\<not> is_native r"
  shows "eval_op R l op r = eval_values R l op r"
  using assms by (simp add: eval_op.simps)

text \<open>The kinds with an arm for \<open>==\<close>.\<close>

definition has_equality :: "'o val \<Rightarrow> bool" where
  "has_equality v \<longleftrightarrow>
     (case v of
        VInt _ \<Rightarrow> True | VFloat _ \<Rightarrow> True | VStr _ \<Rightarrow> True | VBool _ \<Rightarrow> True | VUnit \<Rightarrow> True | _ \<Rightarrow> container v)"

lemma has_equality_not_native: "has_equality v \<Longrightarrow> \<not> is_native v"
  by (cases v) (auto simp: has_equality_def)

lemma container_eq_refl:
  assumes "val_wf v" and "comparable v"
  shows "container_eq p v v = Inr True"
  using assms by (auto simp: container_eq_def watch_uncomparable_def loose_refl)

lemma op_arms_equal_refl:
  assumes "has_equality v" and "v \<noteq> VUnit" and "val_wf v" and "comparable v"
  shows "op_arms p Equal v v = Some (Inr (VBool True))"
proof (cases "container v")
  case True
  with assms show ?thesis by (simp add: op_arms_def container_arm_def container_eq_refl)
next
  case False
  with assms show ?thesis
    by (cases v) (auto simp: has_equality_def op_arms_def kind_arms_def f64_eq_refl is_finite_not_nan)
qed

text \<open>\<open>==\<close> is reflexive: a value built from data alone, its Floats finite and its maps' keys
  distinct, equals itself, whatever the run time says of addresses; the answer is never an error.\<close>

theorem equality_reflexive:
  assumes "has_equality v" and "val_wf v" and "comparable v"
  shows "eval_op R v Equal v = Inr (VBool True)"
  using assms has_equality_not_native [OF assms(1)]
  by (cases "v = VUnit")
    (auto simp: eval_op_plain eval_values.simps plain_op_def op_arms_equal_refl)

definition demo_rt :: "nat rt" where
  "demo_rt = \<lparr>same_addr = \<lambda>_ _. False, registered = [], module_of = \<lambda>_. []\<rparr>"

definition demo_record :: "nat val" where
  "demo_record = VStruct ''P'' [(''x'', VList [VInt 1, VOk (VStr ''a'')]), (''y'', VMap [(''k'', VFloat f64_one)])]"

theorem equality_reflexive_witness:
  "eval_op demo_rt demo_record Equal demo_record = Inr (VBool True)"
  by (rule equality_reflexive)
    (simp_all add: demo_record_def has_equality_def i64_ok_def i64_min_def i64_max_def f64_one_def)

lemma kind_arms_not_equal:
  "kind_arms p NotEqual l r = None \<and> kind_arms p Equal l r = None \<or>
   (\<exists>b. kind_arms p Equal l r = Some (Inr (VBool b)) \<and> kind_arms p NotEqual l r = Some (Inr (VBool (\<not> b))))"
  by (cases l; simp add: kind_arms_def split: val.split)
    (auto simp: int_float_arith_def float_int_arith_def tuple_order_def is_order_def)

lemma op_arms_not_equal:
  "op_arms p NotEqual l r =
     map_option (\<lambda>res. case res of
       Inl e \<Rightarrow> Inl e | Inr v \<Rightarrow> (case v of VBool b \<Rightarrow> Inr (VBool (\<not> b)) | _ \<Rightarrow> Inr v)) (op_arms p Equal l r)"
  using kind_arms_not_equal [of p l r]
  by (auto simp: op_arms_def container_arm_def split: sum.splits)

text \<open>\<open>!=\<close> is the negation of \<open>==\<close>: where \<open>==\<close> answers, it answers a Bool and \<open>!=\<close> answers the
  other one; where \<open>==\<close> is an error so is \<open>!=\<close>.\<close>

theorem not_equal_negates:
  assumes "\<not> is_native l" and "\<not> is_native r"
  shows "case eval_op R l Equal r of
      Inl e \<Rightarrow> isl (eval_op R l NotEqual r)
    | Inr v \<Rightarrow> \<exists>b. v = VBool b \<and> eval_op R l NotEqual r = Inr (VBool (\<not> b))"
proof -
  have bool: "\<exists>b. v = VBool b" if "op_arms (same_addr R) Equal l r = Some (Inr v)" for v
    using that kind_arms_not_equal [of "same_addr R" l r]
    by (auto simp: op_arms_def container_arm_def split: sum.splits if_splits)
  show ?thesis
    using assms bool
    by (auto simp: eval_op_plain eval_values.simps plain_op_def op_arms_not_equal is_arith_def
        split: option.split sum.split)
qed

theorem not_equal_negates_witness:
  "eval_op demo_rt (VList [VInt 1]) NotEqual (VList [VInt 2]) = Inr (VBool True)"
proof -
  have "eval_op demo_rt (VList [VInt 1]) Equal (VList [VInt (2 :: int)]) = Inr (VBool False)"
    by code_simp
  then show ?thesis
    using not_equal_negates [of "VList [VInt 1]" "VList [VInt 2]" demo_rt] by auto
qed

text \<open>C12: an operator's result stays in range: from operands whose Ints are 64-bit and whose Floats are
  finite, and that hold no native value at any depth of a tuple (a native value's module answers for its
  own operators, which are not modelled), every operator but \<open>%\<close> answers such a value or an error;
  nothing wraps and no infinity or NaN comes out, at any depth of a tuple.\<close>

theorem results_in_range:
  assumes "no_native l" and "no_native r" and "val_wf l" and "val_wf r" and "op \<noteq> Modulo"
    and "eval_op R l op r = Inr v"
  shows "val_wf v"
  using eval_wf(2) [OF assms(6) assms(5) assms(1-4)] .

theorem results_in_range_witness:
  "val_wf (VTuple [VInt 4, VInt 6] :: nat val)"
proof -
  have "eval_op demo_rt (VTuple [VInt 1, VInt 2]) Add (VTuple [VInt 3, VInt 4]) = Inr (VTuple [VInt 4, VInt 6])"
    by (simp add: eval_op.simps eval_values.simps plain_op_def op_arms_def kind_arms_def tuple_order_def
        is_order_def is_arith_def cons_res_def tuple_res_def checked_int_def i64_ok_def i64_min_def
        i64_max_def)
  then show ?thesis
    by (rule results_in_range [rotated 5])
      (simp_all add: i64_ok_def i64_min_def i64_max_def)
qed

lemma i64_ok_abs: "\<bar>q\<bar> \<le> 2 ^ 63 \<Longrightarrow> q \<noteq> 2 ^ 63 \<Longrightarrow> i64_ok q"
  by (simp add: i64_ok_def i64_min_def i64_max_def abs_le_iff)

lemma sdiv_in_range:
  assumes "i64_ok a" and "\<not> (a = i64_min \<and> b = -1)"
  shows "i64_ok (a sdiv b)"
proof (rule i64_ok_abs)
  have small: "\<bar>a sdiv b\<bar> \<le> \<bar>a\<bar>" using sdiv_int_range [of a b] by auto
  have bound: "\<bar>a\<bar> \<le> 2 ^ 63"
    using assms(1) by (simp add: i64_ok_def i64_min_def i64_max_def abs_le_iff)
  with small show "\<bar>a sdiv b\<bar> \<le> 2 ^ 63" by simp
  show "a sdiv b \<noteq> 2 ^ 63"
  proof
    assume q: "a sdiv b = 2 ^ 63"
    with small have "2 ^ 63 \<le> \<bar>a\<bar>" by simp
    with assms(1) have "a = i64_min"
      by (simp add: i64_ok_def i64_min_def i64_max_def abs_if split: if_splits)
    with q assms(2) int_sdiv_negated_is_minus1 [of a b] show False
      by (simp add: i64_min_def)
  qed
qed

lemma smod_sign:
  fixes a b :: int
  shows "a smod b = 0 \<or> sgn (a smod b) = sgn a"
proof (cases "\<bar>a\<bar> mod \<bar>b\<bar> = 0")
  case False
  then have "sgn (\<bar>a\<bar> mod \<bar>b\<bar>) = 1"
    by (cases "b = 0") (auto simp: sgn_if not_less intro: order.antisym)
  then show ?thesis unfolding smod_int_alt_def by (simp add: sgn_mult)
qed (simp add: smod_int_alt_def)

text \<open>Int division and remainder: unless the divisor is zero or the quotient leaves the 64-bit range
  (each an error), \<open>/\<close> and \<open>%\<close> answer the truncated quotient and the remainder with the dividend's
  sign.\<close>

theorem int_division:
  assumes "i64_ok a" and "i64_ok b"
  shows "if b = 0 then
      eval_op R (VInt a) Divide (VInt b) = Inl div_zero \<and> eval_op R (VInt a) Modulo (VInt b) = Inl mod_zero
    else if a = i64_min \<and> b = -1 then
      eval_op R (VInt a) Divide (VInt b) = Inl (overflow ''division'') \<and>
      eval_op R (VInt a) Modulo (VInt b) = Inl (overflow ''modulo'')
    else \<exists>q m. eval_op R (VInt a) Divide (VInt b) = Inr (VInt q) \<and>
      eval_op R (VInt a) Modulo (VInt b) = Inr (VInt m) \<and>
      a = q * b + m \<and> \<bar>m\<bar> < \<bar>b\<bar> \<and> (m = 0 \<or> sgn m = sgn a) \<and> i64_ok q"
proof -
  have answers: "eval_op R (VInt a) Divide (VInt b) = the (int_arith Divide a b)"
      "eval_op R (VInt a) Modulo (VInt b) = the (int_arith Modulo a b)"
    by (simp_all add: eval_op_plain eval_values.simps plain_op_def op_arms_def kind_arms_def)
  have small: "\<bar>a smod b\<bar> < \<bar>b\<bar>" if "b \<noteq> 0"
    using smod_int_range [OF that, of a] by auto
  have quotient: "i64_ok (a sdiv b)" if "\<not> (a = i64_min \<and> b = -1)"
    using sdiv_in_range assms(1) that by blast
  have edge: "\<not> i64_ok (i64_min sdiv -1)"
    by (simp add: i64_ok_def i64_min_def i64_max_def)
  show ?thesis
    unfolding answers using small quotient edge smod_sign [of a b] sdiv_mult_smod_eq [of a b]
    by (auto simp: checked_int_def)
qed

theorem int_division_witness:
  "eval_op demo_rt (VInt (-7)) Divide (VInt 2) = Inr (VInt (-3)) \<and>
   eval_op demo_rt (VInt (-7)) Modulo (VInt 2) = Inr (VInt (-1))"
proof -
  have "\<exists>q m. eval_op demo_rt (VInt (-7)) Divide (VInt 2) = Inr (VInt q) \<and>
      eval_op demo_rt (VInt (-7)) Modulo (VInt 2) = Inr (VInt m) \<and>
      - 7 = q * 2 + m \<and> \<bar>m\<bar> < 2 \<and> (m = 0 \<or> sgn m = -1)"
    using int_division [of "-7" 2 demo_rt] by (auto simp: i64_ok_def i64_min_def i64_max_def)
  then obtain q m where ans: "eval_op demo_rt (VInt (-7)) Divide (VInt 2) = Inr (VInt q)"
      "eval_op demo_rt (VInt (-7)) Modulo (VInt 2) = Inr (VInt m)"
      and "- 7 = q * 2 + m" and "\<bar>m\<bar> < 2" and "m = 0 \<or> sgn m = -1"
    by blast
  moreover from this have "m \<noteq> 0" by presburger
  ultimately have "m = -1 \<and> q = -3" by (auto simp: sgn_if split: if_splits)
  then show ?thesis using ans by simp
qed

lemma loose_ints [simp]: "loose p (VInt a) (VInt b) \<longleftrightarrow> a = b"
  by (simp add: loose_def loose_eq.simps note_uncomparable_def uncomparable_of_def same_collection_def)

lemma tuple_ordering_ints:
  "tuple_ordering p (map VInt xs) (map VInt ys) = Inr (cmp_of xs ys)"
proof (induction xs arbitrary: ys)
  case Nil
  then show ?case by (cases ys) (auto simp: cmp_of_def)
qed (auto simp: cmp_of_def split: list.split if_splits)

text \<open>Tuples of Ints order as lists do, first difference first, a prefix below the longer tuple, and
  that is a total order: for each of the four operators.\<close>

lemma tuple_order_lexicographic:
  "eval_op R (VTuple (map VInt xs)) LessThan (VTuple (map VInt ys)) = Inr (VBool (xs < ys))
   \<and> eval_op R (VTuple (map VInt xs)) LessThanEqual (VTuple (map VInt ys)) = Inr (VBool (xs \<le> ys))
   \<and> eval_op R (VTuple (map VInt xs)) GreaterThan (VTuple (map VInt ys)) = Inr (VBool (xs > ys))
   \<and> eval_op R (VTuple (map VInt xs)) GreaterThanEqual (VTuple (map VInt ys)) = Inr (VBool (xs \<ge> ys))"
  by (auto simp: eval_op_plain eval_values.simps plain_op_def op_arms_def kind_arms_def tuple_order_def
      is_order_def tuple_ordering_ints cmp_of_def)

text \<open>An Int and a Float are ordered after rounding the Int but equal only exactly, so \<open><=\<close> and
  \<open>>=\<close> can both hold of two unequal numbers; inside tuples the same disagreement makes a Float equal
  to an Int order as equal yet end the walk: \<open>(1, 2) <= (1.0, 1)\<close> is true.\<close>

theorem mixed_order_disagrees:
  "eval_op demo_rt (VInt (2 ^ 53 + 1)) LessThanEqual (VFloat (of_i64 (2 ^ 53))) = Inr (VBool True) \<and>
   eval_op demo_rt (VInt (2 ^ 53 + 1)) GreaterThanEqual (VFloat (of_i64 (2 ^ 53))) = Inr (VBool True) \<and>
   eval_op demo_rt (VInt (2 ^ 53 + 1)) Equal (VFloat (of_i64 (2 ^ 53))) = Inr (VBool False) \<and>
   eval_op demo_rt (VTuple [VInt 1, VInt 2]) LessThanEqual (VTuple [VFloat f64_one, VInt 1]) = Inr (VBool True)"
  by code_simp

end
