(* ===== verification/Paths.thy ===== *)
theory Paths
  imports Prelude
begin

text \<open>
  Text and file paths as Rust's standard library has them on Unix, and the gate's own path functions
  of \<open>src/caps.rs\<close>: \<open>gate_path\<close>, which places a path where the system would take it, and the look-up
  of a program on PATH. A \<open>PathBuf\<close> is its text. The file system itself is the record \<open>file_sys\<close>, a
  parameter.
\<close>

section \<open>Text\<close>

definition is_white :: "char \<Rightarrow> bool" where
  "is_white c \<longleftrightarrow> (let n = of_char c :: nat in (9 \<le> n \<and> n \<le> 13) \<or> n = 32 \<or> n = 133 \<or> n = 160)"

definition trim_start :: "string \<Rightarrow> string" where
  "trim_start s = dropWhile is_white s"

definition trim :: "string \<Rightarrow> string" where
  "trim s = rev (dropWhile is_white (rev (trim_start s)))"

text \<open>The first word of \<open>split_whitespace\<close>.\<close>

definition first_word :: "string \<Rightarrow> string option" where
  "first_word s =
     (case takeWhile (\<lambda>c. \<not> is_white c) (trim_start s) of [] \<Rightarrow> None | w \<Rightarrow> Some w)"

fun contains_text :: "string \<Rightarrow> string \<Rightarrow> bool" where
  "contains_text p [] = (p = [])"
| "contains_text p (c # s) = (take (length p) (c # s) = p \<or> contains_text p s)"

definition is_alnum :: "char \<Rightarrow> bool" where
  "is_alnum c \<longleftrightarrow>
     (let n = of_char c :: nat
      in (48 \<le> n \<and> n \<le> 57) \<or> (65 \<le> n \<and> n \<le> 90) \<or> (97 \<le> n \<and> n \<le> 122))"

definition to_lower :: "char \<Rightarrow> char" where
  "to_lower c = (let n = of_char c :: nat in if 65 \<le> n \<and> n \<le> 90 then char_of (n + 32) else c)"

text \<open>\<open>str::split\<close> at a class of characters.\<close>

fun split_at :: "(char \<Rightarrow> bool) \<Rightarrow> string \<Rightarrow> string list" where
  "split_at p [] = [[]]"
| "split_at p (x # xs) =
     (if p x then [] # split_at p xs
      else (case split_at p xs of [] \<Rightarrow> [[x]] | w # ws \<Rightarrow> (x # w) # ws))"

definition after_first :: "char \<Rightarrow> string \<Rightarrow> string option" where
  "after_first c s = (case dropWhile (\<lambda>x. x \<noteq> c) s of [] \<Rightarrow> None | _ # r \<Rightarrow> Some r)"

section \<open>Paths\<close>

text \<open>The length of an \<open>OsStr\<close>, in UTF-8 bytes.\<close>

definition os_len :: "string \<Rightarrow> nat" where
  "os_len s = (\<Sum>c\<leftarrow>s. if of_char c < (128 :: nat) then 1 else 2)"

datatype component = RootDir | CurDir | ParentDir | Normal string

definition is_absolute :: "string \<Rightarrow> bool" where
  "is_absolute p \<longleftrightarrow> take 1 p = ''/''"

definition component_of :: "string \<Rightarrow> component" where
  "component_of s = (if s = ''..'' then ParentDir else Normal s)"

text \<open>\<open>Path::components\<close>: empty parts and \<open>.\<close> are skipped, but for a leading \<open>.\<close>.\<close>

definition components :: "string \<Rightarrow> component list" where
  "components p =
     (let parts = split_on (CHR ''/'') p
      in (if is_absolute p then [RootDir] else if hd parts = ''.'' then [CurDir] else []) @
         map component_of (filter (\<lambda>s. s \<noteq> [] \<and> s \<noteq> ''.'') parts))"

text \<open>\<open>Path::starts_with\<close>: whole components.\<close>

definition path_under :: "string \<Rightarrow> string \<Rightarrow> bool" where
  "path_under dir p \<longleftrightarrow> take (length (components dir)) (components p) = components dir"

definition path_push :: "string \<Rightarrow> string \<Rightarrow> string" where
  "path_push p s =
     (if is_absolute s then s
      else if p = [] \<or> last p = CHR ''/'' then p @ s
      else p @ ''/'' @ s)"

definition path_join :: "string \<Rightarrow> string \<Rightarrow> string" where
  "path_join p s = path_push p s"

text \<open>\<open>Path::parent\<close>: trailing separators and \<open>.\<close> parts go with the last component.\<close>

fun trim_parts :: "string list \<Rightarrow> string list" where
  "trim_parts [] = []"
| "trim_parts [x] = [x]"
| "trim_parts (x # xs) =
     (case trim_parts xs of [y] \<Rightarrow> if y = [] \<or> y = ''.'' then [x] else [x, y] | ys \<Rightarrow> x # ys)"

definition path_parent :: "string \<Rightarrow> string option" where
  "path_parent p =
     (let parts = trim_parts (split_on (CHR ''/'') p)
      in if is_absolute p
         then (if length parts \<le> 1 then None
               else let q = trim_parts (butlast parts)
                    in Some (if q = [[]] then ''/'' else join ''/'' q))
         else if p = [] then None
         else Some (join ''/'' (trim_parts (butlast parts))))"

definition path_pop :: "string \<Rightarrow> string" where
  "path_pop p = (case path_parent p of Some q \<Rightarrow> q | None \<Rightarrow> p)"

text \<open>\<open>Path::file_name\<close>.\<close>

definition file_name :: "string \<Rightarrow> string option" where
  "file_name p =
     (case rev (components p) of Normal s # _ \<Rightarrow> Some s | _ \<Rightarrow> None)"

section \<open>The file system and the gate's paths\<close>

record file_sys =
  canonical :: "string \<Rightarrow> string option"
  link_target :: "string \<Rightarrow> string option"
  executable :: "string \<Rightarrow> bool"
  work_dir :: string
  path_var :: "string option"

text \<open>
  \<open>gate_resolve\<close> and its walk over the components: \<open>at\<close> is real while nothing is \<open>missing\<close>. A chain
  of links to nothing is followed forty times.
\<close>

function gate_resolve :: "file_sys \<Rightarrow> nat \<Rightarrow> string \<Rightarrow> string"
and gate_walk :: "file_sys \<Rightarrow> nat \<Rightarrow> string \<Rightarrow> bool \<Rightarrow> component list \<Rightarrow> string" where
  "gate_resolve F depth p =
     (case canonical F p of
        Some real \<Rightarrow> real
      | None \<Rightarrow> gate_walk F depth [] False (components p))"
| "gate_walk F depth at missing [] = at"
| "gate_walk F depth at missing (c # cs) =
     (case c of
        RootDir \<Rightarrow> gate_walk F depth (path_push at ''/'') missing cs
      | CurDir \<Rightarrow> gate_walk F depth at missing cs
      | ParentDir \<Rightarrow> gate_walk F depth (path_pop at) missing cs
      | Normal name \<Rightarrow>
          if missing then gate_walk F depth (path_push at name) True cs
          else
            (case canonical F (path_push at name) of
               Some real \<Rightarrow> gate_walk F depth real False cs
             | None \<Rightarrow>
                 (case link_target F (path_push at name) of
                    None \<Rightarrow> gate_walk F depth (path_push at name) True cs
                  | Some t \<Rightarrow>
                      if depth < 40
                      then gate_walk F depth
                        (gate_resolve F (depth + 1)
                          (path_join (case path_parent (path_push at name) of Some b \<Rightarrow> b | None \<Rightarrow> []) t))
                        True cs
                      else gate_walk F depth (path_push at name) True cs)))"
  by pat_completeness auto
termination
  by (relation "measures [\<lambda>x. case x of Inl (_, d, _) \<Rightarrow> 40 - d | Inr (_, d, _, _, _) \<Rightarrow> 40 - d,
        \<lambda>x. case x of Inl _ \<Rightarrow> 1 | Inr _ \<Rightarrow> 0,
        \<lambda>x. case x of Inl _ \<Rightarrow> 0 | Inr (_, _, _, _, cs) \<Rightarrow> length cs]")
    auto

declare gate_resolve.simps [simp del] gate_walk.simps(2) [simp del]

definition gate_path :: "file_sys \<Rightarrow> string \<Rightarrow> string" where
  "gate_path F p =
     gate_resolve F 0 (if is_absolute p then p else path_join (work_dir F) p)"

text \<open>The executable a bare name finds on a PATH, in its absolute folders only.\<close>

fun find_in_dirs :: "file_sys \<Rightarrow> string \<Rightarrow> string list \<Rightarrow> string option" where
  "find_in_dirs F program [] = None"
| "find_in_dirs F program (dir # dirs) =
     (if \<not> is_absolute dir then find_in_dirs F program dirs
      else if executable F (path_join dir program) then Some (path_join dir program)
      else find_in_dirs F program dirs)"

definition find_on_path :: "file_sys \<Rightarrow> string \<Rightarrow> string \<Rightarrow> string option" where
  "find_on_path F program path = find_in_dirs F program (split_on (CHR '':'') path)"

definition find_on_own_path :: "file_sys \<Rightarrow> string \<Rightarrow> string option" where
  "find_on_own_path F program =
     find_on_path F program (case path_var F of Some p \<Rightarrow> p | None \<Rightarrow> ''/usr/bin:/bin'')"

section \<open>Facts\<close>

lemma path_under_refl [simp]: "path_under p p"
  by (simp add: path_under_def)

lemma path_under_trans: "path_under a b \<Longrightarrow> path_under b c \<Longrightarrow> path_under a c"
  unfolding path_under_def by (metis append_eq_conv_conj append_take_drop_id append.assoc)

lemma find_in_dirs_sound:
  "find_in_dirs F program dirs = Some p \<Longrightarrow>
     \<exists>dir \<in> set dirs. is_absolute dir \<and> p = path_join dir program \<and> executable F p"
  by (induction dirs) (auto split: if_splits)

end
