(* ===== verification/Caps.thy ===== *)
theory Caps
  imports Effects Values Paths
begin

text \<open>
  Capabilities (\<open>src/caps.rs\<close>): what a program, each of its dependencies and each module it loads at run
  time may touch. Grants and their intersection, the written manifest and its resolution, the table that
  attributes code to a grant by the directory it was defined in, the registry of modules loaded at run
  time, the scope a module is held to (its folders, its programs), and the profile of what a run used.
  An error or a denial is a datatype that carries what the message names.
\<close>

section \<open>Grants\<close>

datatype fs_cap = FsNone | FsReadOnly | FsFull

record caps =
  c_fs :: fs_cap
  c_net :: bool
  c_proc :: bool
  c_db :: bool
  c_env :: bool

definition caps_default :: caps where
  "caps_default = \<lparr>c_fs = FsFull, c_net = True, c_proc = True, c_db = True, c_env = True\<rparr>"

definition caps_none :: caps where
  "caps_none = \<lparr>c_fs = FsNone, c_net = False, c_proc = False, c_db = False, c_env = False\<rparr>"

fun fs_meet :: "fs_cap \<Rightarrow> fs_cap \<Rightarrow> fs_cap" where
  "fs_meet FsNone _ = FsNone"
| "fs_meet _ FsNone = FsNone"
| "fs_meet FsReadOnly _ = FsReadOnly"
| "fs_meet _ FsReadOnly = FsReadOnly"
| "fs_meet FsFull FsFull = FsFull"

definition intersect :: "caps \<Rightarrow> caps \<Rightarrow> caps" where
  "intersect a b =
     \<lparr>c_fs = fs_meet (c_fs a) (c_fs b), c_net = (c_net a \<and> c_net b), c_proc = (c_proc a \<and> c_proc b),
      c_db = (c_db a \<and> c_db b), c_env = (c_env a \<and> c_env b)\<rparr>"

fun fs_rank :: "fs_cap \<Rightarrow> nat" where
  "fs_rank FsNone = 0" | "fs_rank FsReadOnly = 1" | "fs_rank FsFull = 2"

definition fs_allows :: "fs_cap \<Rightarrow> fs_cap \<Rightarrow> bool" where
  "fs_allows granted needed \<longleftrightarrow> fs_rank granted \<ge> fs_rank needed"

fun fs_word :: "fs_cap \<Rightarrow> string" where
  "fs_word FsNone = ''false''"
| "fs_word FsReadOnly = [CHR 0x22] @ ''read'' @ [CHR 0x22]"
| "fs_word FsFull = ''true''"

definition show_bool :: "bool \<Rightarrow> string" where
  "show_bool b = (if b then ''true'' else ''false'')"

definition caps_summary :: "caps \<Rightarrow> string" where
  "caps_summary c =
     ''fs='' @ (case c_fs c of FsNone \<Rightarrow> ''false'' | FsReadOnly \<Rightarrow> ''read'' | FsFull \<Rightarrow> ''true'') @
     '' net='' @ show_bool (c_net c) @ '' proc='' @ show_bool (c_proc c) @
     '' db='' @ show_bool (c_db c) @ '' env='' @ show_bool (c_env c)"

section \<open>The gate\<close>

definition required :: "string \<Rightarrow> cap_use option" where
  "required name = e_cap (classify name)"

fun denies :: "caps \<Rightarrow> cap_use \<Rightarrow> string option" where
  "denies c FsRead = (case c_fs c of FsNone \<Rightarrow> Some ''fs'' | _ \<Rightarrow> None)"
| "denies c FsWrite = (case c_fs c of FsFull \<Rightarrow> None | _ \<Rightarrow> Some ''fs'')"
| "denies c UsesNet = (if \<not> c_net c then Some ''net'' else None)"
| "denies c UsesDb = (if \<not> c_db c then Some ''db'' else None)"
| "denies c UsesProc = (if \<not> c_proc c then Some ''proc'' else None)"
| "denies c UsesEnv = (if \<not> c_env c then Some ''env'' else None)"

definition cap_check :: "caps \<Rightarrow> string \<Rightarrow> string option" where
  "cap_check c name = (case required name of None \<Rightarrow> None | Some u \<Rightarrow> denies c u)"

section \<open>What an argument implies\<close>

definition is_in_memory_db :: "string \<Rightarrow> bool" where
  "is_in_memory_db path \<longleftrightarrow>
     (let p = trim path
      in p = [] \<or> p = '':memory:'' \<or> starts_with ''file::memory:'' p \<or> contains_text ''mode=memory'' p)"

definition has_attach :: "string \<Rightarrow> bool" where
  "has_attach sql \<longleftrightarrow>
     (\<exists>tok \<in> set (split_at (\<lambda>c. \<not> is_alnum c \<and> c \<noteq> CHR ''_'') sql). map to_lower tok = ''attach'')"

definition sql_calls :: "string list" where
  "sql_calls = [''db.execute'', ''db.query'', ''db.query_one'', ''db.query_rows'', ''db.query_frame'', ''db.cursor'']"

definition implied_fs :: "string \<Rightarrow> string option \<Rightarrow> fs_cap option" where
  "implied_fs name arg =
     (case arg of
        None \<Rightarrow> None
      | Some a \<Rightarrow>
          if name = ''db.open'' then (if is_in_memory_db a then None else Some FsFull)
          else if name \<in> set sql_calls then (if has_attach a then Some FsFull else None)
          else None)"

definition db_open_is_readonly :: "string \<Rightarrow> bool \<Rightarrow> bool" where
  "db_open_is_readonly path readonly_option \<longleftrightarrow>
     readonly_option \<or>
     (starts_with ''file:'' path \<and>
      (case after_first (CHR ''?'') path of
         Some q \<Rightarrow> ''mode=ro'' \<in> set (split_on (CHR ''&'') q) | None \<Rightarrow> False))"

section \<open>The manifest\<close>

datatype cap_value = Flag bool | Level string

record caps_spec =
  s_fs :: "cap_value option"
  s_net :: "bool option"
  s_proc :: "bool option"
  s_db :: "bool option"
  s_env :: "bool option"

datatype 'o caps_error =
  BadFsLevel string
| UnknownDependency string
| UnknownCapability string
| GrantNotMap string
| GrantFlag string string
| GrantFs "'o val"
| GrantItem string string
| GrantList string string
| GrantProc string

definition res_bind :: "'e + 'a \<Rightarrow> ('a \<Rightarrow> 'e + 'b) \<Rightarrow> 'e + 'b" where
  "res_bind r k = (case r of Inl e \<Rightarrow> Inl e | Inr x \<Rightarrow> k x)"

lemma res_bind_simps [simp]: "res_bind (Inl e) k = Inl e" "res_bind (Inr x) k = k x"
  by (simp_all add: res_bind_def)

lemma res_bind_ok: "res_bind r k = Inr y \<longleftrightarrow> (\<exists>x. r = Inr x \<and> k x = Inr y)"
  by (cases r) auto

definition resolve_fs :: "cap_value option \<Rightarrow> 'o caps_error + fs_cap" where
  "resolve_fs v =
     (case v of
        None \<Rightarrow> Inr FsFull
      | Some (Flag b) \<Rightarrow> Inr (if b then FsFull else FsNone)
      | Some (Level s) \<Rightarrow> if s = ''read'' then Inr FsReadOnly else Inl (BadFsLevel s))"

definition with_default :: "'a option \<Rightarrow> 'a \<Rightarrow> 'a" where
  "with_default x d = (case x of Some y \<Rightarrow> y | None \<Rightarrow> d)"

definition resolve_spec :: "caps_spec \<Rightarrow> 'o caps_error + caps" where
  "resolve_spec spec =
     res_bind (resolve_fs (s_fs spec)) (\<lambda>fs. Inr
       \<lparr>c_fs = fs, c_net = with_default (s_net spec) True, c_proc = with_default (s_proc spec) True,
        c_db = with_default (s_db spec) True, c_env = with_default (s_env spec) True\<rparr>)"

record caps_config =
  base :: caps_spec
  dependencies :: "(string \<times> caps_spec) list"

section \<open>The table\<close>

type_synonym dep_entry = "string \<times> string \<times> caps"

record cap_table =
  app :: caps
  deps :: "dep_entry list"
  fixed :: bool

text \<open>The resolved attenuations, in the manifest's order; \<open>dep_dirs\<close> finds a dependency's folder.\<close>

fun build_deps ::
  "file_sys \<Rightarrow> (string \<Rightarrow> string option) \<Rightarrow> caps \<Rightarrow> (string \<times> caps_spec) list \<Rightarrow> 'o caps_error + dep_entry list"
where
  "build_deps F dep_dirs own [] = Inr []"
| "build_deps F dep_dirs own ((name, spec) # rest) =
     (case dep_dirs name of
        None \<Rightarrow> Inl (UnknownDependency name)
      | Some dir \<Rightarrow>
          res_bind (resolve_spec spec) (\<lambda>c.
            res_bind (build_deps F dep_dirs own rest) (\<lambda>ds.
              Inr ((with_default (canonical F dir) dir, name, intersect c own) # ds))))"

text \<open>\<open>sort_by_key\<close> with \<open>Reverse\<close> of the length: longest first, stable.\<close>

definition longest_first :: "('a \<Rightarrow> string) \<Rightarrow> 'a list \<Rightarrow> 'a list" where
  "longest_first dir xs = sort_key (\<lambda>x. - int (os_len (dir x))) xs"

definition cap_table_build ::
  "file_sys \<Rightarrow> (string \<Rightarrow> string option) \<Rightarrow> caps_config \<Rightarrow> 'o caps_error + cap_table" where
  "cap_table_build F dep_dirs config =
     res_bind (resolve_spec (base config)) (\<lambda>own.
       res_bind (build_deps F dep_dirs own (dependencies config)) (\<lambda>ds.
         Inr \<lparr>app = own, deps = longest_first fst ds, fixed = False\<rparr>))"

definition caps_for :: "cap_table \<Rightarrow> string option \<Rightarrow> caps \<times> string option" where
  "caps_for T def_file =
     (case def_file of
        None \<Rightarrow> (app T, None)
      | Some path \<Rightarrow>
          (case find (\<lambda>(dir, _, _). path_under dir path) (deps T) of
             Some (_, name, c) \<Rightarrow> (c, Some name)
           | None \<Rightarrow> (app T, None)))"

section \<open>Modules loaded at run time\<close>

record module_grant =
  g_dir :: string
  g_name :: string
  g_caps :: caps
  fs_roots :: "string list option"
  proc_allow :: "string list option"
  unloaded :: bool

text \<open>The registry and its \<open>MODULES_ACTIVE\<close> flag.\<close>

record registry =
  mods :: "module_grant list"
  active :: bool

definition registry_empty :: registry where
  "registry_empty = \<lparr>mods = [], active = False\<rparr>"

definition module_for :: "registry \<Rightarrow> string \<Rightarrow> module_grant option" where
  "module_for r path =
     (if \<not> active r then None else find (\<lambda>g. path_under (g_dir g) path) (mods r))"

definition module_at :: "registry \<Rightarrow> string \<Rightarrow> module_grant option" where
  "module_at r dir = find (\<lambda>g. g_dir g = dir \<and> \<not> unloaded g) (mods r)"

text \<open>\<open>position\<close> and \<open>remove\<close>: the first match taken out.\<close>

fun take_first :: "('a \<Rightarrow> bool) \<Rightarrow> 'a list \<Rightarrow> 'a option \<times> 'a list" where
  "take_first P [] = (None, [])"
| "take_first P (x # xs) =
     (if P x then (Some x, xs) else (let (y, ys) = take_first P xs in (y, x # ys)))"

definition register_module :: "module_grant \<Rightarrow> registry \<Rightarrow> module_grant option \<times> registry" where
  "register_module g r =
     (let (old, ms) = take_first (\<lambda>h. g_dir h = g_dir g) (mods r)
      in (old, \<lparr>mods = longest_first g_dir (ms @ [g]), active = True\<rparr>))"

definition tombstone :: "module_grant \<Rightarrow> module_grant" where
  "tombstone g = g\<lparr>g_caps := caps_none, fs_roots := Some [], proc_allow := Some [], unloaded := True\<rparr>"

fun update_first :: "('a \<Rightarrow> bool) \<Rightarrow> ('a \<Rightarrow> 'a) \<Rightarrow> 'a list \<Rightarrow> 'a list" where
  "update_first P f [] = []"
| "update_first P f (x # xs) = (if P x then f x # xs else x # update_first P f xs)"

definition unregister_module :: "string \<Rightarrow> registry \<Rightarrow> bool \<times> registry" where
  "unregister_module dir r =
     (case module_at r dir of
        None \<Rightarrow> (False, r)
      | Some _ \<Rightarrow> (True, r\<lparr>mods := update_first (\<lambda>g. g_dir g = dir \<and> \<not> unloaded g) tombstone (mods r)\<rparr>))"

definition remove_module :: "string \<Rightarrow> registry \<Rightarrow> bool \<times> registry" where
  "remove_module dir r =
     (let ms = filter (\<lambda>g. g_dir g \<noteq> dir) (mods r)
      in (length ms \<noteq> length (mods r),
          \<lparr>mods = ms, active = (if ms = [] then False else active r)\<rparr>))"

section \<open>Scope\<close>

definition is_transparent_file :: "string \<Rightarrow> bool" where
  "is_transparent_file file \<longleftrightarrow> starts_with ''__embedded__/'' file \<or> starts_with ''__stdlib__/'' file"

definition host_names :: "string list" where
  "host_names =
     [''runtime.load_module'', ''runtime.unload_module'', ''runtime.profile_start'', ''runtime.profile_stop'',
      ''runtime.profile_live_start'', ''runtime.profile_live_stop'']"

definition host_only :: "string \<Rightarrow> bool" where
  "host_only name \<longleftrightarrow> starts_with ''gui.'' name \<or> starts_with ''tty.'' name \<or> name \<in> set host_names"

definition two_paths :: "string \<Rightarrow> bool" where
  "two_paths name \<longleftrightarrow>
     (let f = (case strip_prefix ''fs.'' name of Some f \<Rightarrow> f | None \<Rightarrow> [])
      in contains_text ''copy'' f \<or> contains_text ''rename'' f \<or> contains_text ''move'' f \<or>
         contains_text ''link'' f)"

text \<open>The programs a call names: None for an argv's head that is not a string.\<close>

definition programs_of :: "string \<Rightarrow> string option \<Rightarrow> string option list \<Rightarrow> string option list" where
  "programs_of name first heads =
     (if heads \<noteq> [] then heads
      else (case first of
              Some s \<Rightarrow>
                if name \<noteq> ''os.exit''
                then (case first_word s of Some w \<Rightarrow> [Some w] | None \<Rightarrow> [])
                else []
            | None \<Rightarrow> []))"

definition has_slash :: "string \<Rightarrow> bool" where
  "has_slash p \<longleftrightarrow> CHR ''/'' \<in> set p"

definition program_allowed :: "file_sys \<Rightarrow> string list \<Rightarrow> string \<Rightarrow> bool" where
  "program_allowed F allow prog =
     (if \<not> has_slash prog then prog \<in> set allow
      else if prog \<in> set allow then True
      else
        (case file_name prog of
           None \<Rightarrow> False
         | Some b \<Rightarrow>
             if b \<notin> set allow then False
             else (case (Option.bind (find_on_own_path F b) (canonical F), canonical F prog) of
                     (Some listed, Some named) \<Rightarrow> listed = named
                   | _ \<Rightarrow> False)))"

definition pinned_program :: "file_sys \<Rightarrow> string \<Rightarrow> string option" where
  "pinned_program F prog = (if has_slash prog \<or> prog = [] then None else find_on_own_path F prog)"

datatype denial =
  UnloadedModule string string
| HostsOwn string string
| OutsideRoots string string string "string list"
| ExitsHost string "string list"
| NotAProgram string string "string list"
| RunsOther string string string "string list"
| NotOnPath string string string "string list"

fun root_denial :: "file_sys \<Rightarrow> module_grant \<Rightarrow> string \<Rightarrow> string list \<Rightarrow> string list \<Rightarrow> denial option" where
  "root_denial F g name roots [] = None"
| "root_denial F g name roots (p # ps) =
     (let at = gate_path F p
      in if \<not> (\<exists>r \<in> set roots. path_under r at)
         then Some (OutsideRoots name at (g_name g) roots)
         else root_denial F g name roots ps)"

fun program_denial ::
  "file_sys \<Rightarrow> module_grant \<Rightarrow> string \<Rightarrow> string list \<Rightarrow> string option list \<Rightarrow> denial option" where
  "program_denial F g name allow [] = None"
| "program_denial F g name allow (p # ps) =
     (case p of
        None \<Rightarrow> Some (NotAProgram name (g_name g) allow)
      | Some prog \<Rightarrow>
          if \<not> program_allowed F allow prog then Some (RunsOther name prog (g_name g) allow)
          else if \<not> has_slash prog \<and> pinned_program F prog = None
          then Some (NotOnPath name prog (g_name g) allow)
          else program_denial F g name allow ps)"

definition somes :: "'a option list \<Rightarrow> 'a list" where
  "somes xs = List.map_filter id xs"

definition scope_denial ::
  "file_sys \<Rightarrow> module_grant \<Rightarrow> string \<Rightarrow> string option list \<Rightarrow> string option list \<Rightarrow> denial option" where
  "scope_denial F g name strings heads =
     (if unloaded g \<and> (host_only name \<or> required name \<noteq> None) then Some (UnloadedModule (g_dir g) name)
      else if host_only name then Some (HostsOwn name (g_name g))
      else if required name = Some FsRead \<or> required name = Some FsWrite then
        (case fs_roots g of
           None \<Rightarrow> None
         | Some roots \<Rightarrow> root_denial F g name roots (somes (take (if two_paths name then 2 else 1) strings)))
      else if required name = Some UsesProc then
        (case proc_allow g of
           None \<Rightarrow> None
         | Some allow \<Rightarrow>
             if name = ''os.exit'' then Some (ExitsHost (g_name g) allow)
             else program_denial F g name allow
               (programs_of name (case strings of s # _ \<Rightarrow> s | [] \<Rightarrow> None) heads))
      else None)"

section \<open>Grants as values\<close>

definition grant_get :: "'o val \<Rightarrow> string \<Rightarrow> 'o val option" where
  "grant_get v k = (case v of VMap m \<Rightarrow> map_of m k | _ \<Rightarrow> None)"

definition grant_flag :: "'o val \<Rightarrow> string \<Rightarrow> 'o caps_error + bool" where
  "grant_flag v k =
     (case grant_get v k of
        None \<Rightarrow> Inr False
      | Some x \<Rightarrow>
          (case x of VUnit \<Rightarrow> Inr False | VBool b \<Rightarrow> Inr b | _ \<Rightarrow> Inl (GrantFlag k (type_name x))))"

definition grant_fs :: "'o val \<Rightarrow> 'o caps_error + fs_cap" where
  "grant_fs v =
     (case grant_get v ''fs'' of
        None \<Rightarrow> Inr FsNone
      | Some x \<Rightarrow>
          (case x of
             VUnit \<Rightarrow> Inr FsNone
           | VBool b \<Rightarrow> Inr (if b then FsFull else FsNone)
           | VStr s \<Rightarrow> if s = ''read'' then Inr FsReadOnly else Inl (GrantFs x)
           | _ \<Rightarrow> Inl (GrantFs x)))"

fun string_items :: "string \<Rightarrow> 'o val list \<Rightarrow> 'o caps_error + string list" where
  "string_items k [] = Inr []"
| "string_items k (v # vs) =
     (case v of
        VStr s \<Rightarrow> res_bind (string_items k vs) (\<lambda>ss. Inr (s # ss))
      | _ \<Rightarrow> Inl (GrantItem k (type_name v)))"

definition grant_strings :: "'o val \<Rightarrow> string \<Rightarrow> 'o caps_error + string list option" where
  "grant_strings v k =
     (case grant_get v k of
        None \<Rightarrow> Inr None
      | Some x \<Rightarrow>
          (case x of
             VUnit \<Rightarrow> Inr None
           | VList items \<Rightarrow> res_bind (string_items k items) (\<lambda>ss. Inr (Some ss))
           | _ \<Rightarrow> Inl (GrantList k (type_name x))))"

definition grant_proc :: "'o val \<Rightarrow> 'o caps_error + bool \<times> string list option" where
  "grant_proc v =
     (case grant_get v ''proc'' of
        None \<Rightarrow> Inr (False, None)
      | Some x \<Rightarrow>
          (case x of
             VUnit \<Rightarrow> Inr (False, None)
           | VBool b \<Rightarrow> Inr (b, None)
           | VList _ \<Rightarrow> res_bind (grant_strings v ''proc'') (\<lambda>allow. Inr (True, allow))
           | _ \<Rightarrow> Inl (GrantProc (type_name x))))"

definition grant_from_value ::
  "file_sys \<Rightarrow> string \<Rightarrow> string \<Rightarrow> 'o val \<Rightarrow> 'o caps_error + module_grant" where
  "grant_from_value F dir default_name v =
     (case v of
        VMap _ \<Rightarrow>
          res_bind (grant_fs v) (\<lambda>fs.
          res_bind (grant_proc v) (\<lambda>(pr, allow).
          res_bind (grant_strings v ''fs_roots'') (\<lambda>roots.
          res_bind (grant_flag v ''net'') (\<lambda>net.
          res_bind (grant_flag v ''db'') (\<lambda>db.
          res_bind (grant_flag v ''env'') (\<lambda>env.
            Inr \<lparr>g_dir = dir,
                 g_name = (case grant_get v ''name'' of Some (VStr s) \<Rightarrow> s | _ \<Rightarrow> default_name),
                 g_caps = \<lparr>c_fs = fs, c_net = net, c_proc = pr, c_db = db, c_env = env\<rparr>,
                 fs_roots = map_option (map (gate_path F)) roots,
                 proc_allow = allow, unloaded = False\<rparr>))))))
      | VUnit \<Rightarrow>
          Inr \<lparr>g_dir = dir, g_name = default_name, g_caps = caps_none, fs_roots = None,
               proc_allow = None, unloaded = False\<rparr>
      | _ \<Rightarrow> Inl (GrantNotMap (type_name v)))"

definition grant_value :: "module_grant \<Rightarrow> 'o val" where
  "grant_value g =
     VMap
       [(''name'', VStr (g_name g)),
        (''dir'', VStr (g_dir g)),
        (''fs'', case c_fs (g_caps g) of
                 FsNone \<Rightarrow> VBool False | FsReadOnly \<Rightarrow> VStr ''read'' | FsFull \<Rightarrow> VBool True),
        (''fs_roots'', case fs_roots g of None \<Rightarrow> VUnit | Some rs \<Rightarrow> VList (map VStr rs)),
        (''proc'', case proc_allow g of
                   Some allow \<Rightarrow> if c_proc (g_caps g) then VList (map VStr allow) else VBool False
                 | None \<Rightarrow> VBool (c_proc (g_caps g))),
        (''net'', VBool (c_net (g_caps g))),
        (''db'', VBool (c_db (g_caps g))),
        (''env'', VBool (c_env (g_caps g)))]"

section \<open>The profile and \<open>--deny\<close>\<close>

text \<open>The least privilege a set of exercised capabilities implies.\<close>

definition suggested_fs :: "cap_use set \<Rightarrow> fs_cap" where
  "suggested_fs used =
     (if FsWrite \<in> used then FsFull else if FsRead \<in> used then FsReadOnly else FsNone)"

definition suggested_caps :: "cap_use set \<Rightarrow> caps" where
  "suggested_caps used =
     \<lparr>c_fs = suggested_fs used, c_net = (UsesNet \<in> used), c_proc = (UsesProc \<in> used),
      c_db = (UsesDb \<in> used), c_env = (UsesEnv \<in> used)\<rparr>"

definition nl :: string where "nl = [CHR 0x0A]"

definition suggested_block :: "cap_use set \<Rightarrow> string" where
  "suggested_block used =
     (let c = suggested_caps used
      in ''[capabilities]'' @ nl @ ''fs = '' @ fs_word (c_fs c) @ nl @ ''net = '' @ show_bool (c_net c) @ nl @
         ''db = '' @ show_bool (c_db c) @ nl @ ''proc = '' @ show_bool (c_proc c) @ nl @
         ''env = '' @ show_bool (c_env c) @ nl)"

text \<open>What the report lists as exercised.\<close>

definition exercised :: "cap_use set \<Rightarrow> string list" where
  "exercised used =
     (case suggested_fs used of
        FsFull \<Rightarrow> [''fs (read+write)''] | FsReadOnly \<Rightarrow> [''fs (read)''] | FsNone \<Rightarrow> []) @
     (if UsesNet \<in> used then [''net''] else []) @ (if UsesDb \<in> used then [''db''] else []) @
     (if UsesProc \<in> used then [''proc''] else []) @ (if UsesEnv \<in> used then [''env''] else [])"

definition deny_item :: "string \<Rightarrow> caps \<Rightarrow> 'o caps_error + caps" where
  "deny_item item c =
     (if item = ''fs'' then Inr (c\<lparr>c_fs := FsNone\<rparr>)
      else if item = ''fs-write'' then Inr (c\<lparr>c_fs := FsReadOnly\<rparr>)
      else if item = ''net'' then Inr (c\<lparr>c_net := False\<rparr>)
      else if item = ''proc'' then Inr (c\<lparr>c_proc := False\<rparr>)
      else if item = ''db'' then Inr (c\<lparr>c_db := False\<rparr>)
      else if item = ''env'' then Inr (c\<lparr>c_env := False\<rparr>)
      else Inl (UnknownCapability item))"

fun deny_items :: "string list \<Rightarrow> caps \<Rightarrow> 'o caps_error + caps" where
  "deny_items [] c = Inr c"
| "deny_items (i # is) c = res_bind (deny_item i c) (deny_items is)"

definition deny_list :: "string \<Rightarrow> string list" where
  "deny_list s = filter (\<lambda>x. x \<noteq> []) (map trim (split_on (CHR '','') s))"

definition parse_deny :: "string \<Rightarrow> 'o caps_error + caps" where
  "parse_deny s = deny_items (deny_list s) caps_default"

end
