(* ===== verification/CapsLaws.thy ===== *)
theory CapsLaws
  imports Caps "HOL-Library.Multiset"
begin

text \<open>
  What \<open>Caps\<close> promises: intersection is the meet of what two grants allow (the locale \<open>grant_meet\<close>,
  interpreted on file system levels and on whole grants), a dependency never exceeds the program, the
  registry of loaded modules stays sorted and without repetition in every reachable state, the code of
  an unloaded module is refused every effect, a module stays inside its folders and programs, a grant
  reads back as it was written, and the suggested manifest permits what was used and nothing else.
\<close>

section \<open>Meets of grants\<close>

locale grant_meet =
  fixes meet :: "'g \<Rightarrow> 'g \<Rightarrow> 'g"
    and permits :: "'g \<Rightarrow> 'u \<Rightarrow> bool"
  assumes permits_meet: "permits (meet a b) u \<longleftrightarrow> permits a u \<and> permits b u"
begin

lemma meet_shrinks: "permits (meet a b) u \<Longrightarrow> permits b u"
  by (simp add: permits_meet)

lemma permits_fold: "permits (fold meet gs g) u \<longleftrightarrow> permits g u \<and> (\<forall>h \<in> set gs. permits h u)"
  by (induction gs arbitrary: g) (auto simp: permits_meet)

end

lemma fs_allows_meet: "fs_allows (fs_meet a b) u \<longleftrightarrow> fs_allows a u \<and> fs_allows b u"
  by (cases a; cases b; cases u) (auto simp: fs_allows_def)

interpretation fs_meet: grant_meet fs_meet fs_allows
  by unfold_locales (rule fs_allows_meet)

text \<open>A grant permits a builtin when the gate has nothing to deny.\<close>

definition permits :: "caps \<Rightarrow> string \<Rightarrow> bool" where
  "permits c name \<longleftrightarrow> cap_check c name = None"

lemma denies_fs:
  "denies c FsRead = None \<longleftrightarrow> fs_allows (c_fs c) FsReadOnly"
  "denies c FsWrite = None \<longleftrightarrow> fs_allows (c_fs c) FsFull"
  by (cases "c_fs c"; simp add: fs_allows_def)+

lemma denies_intersect: "denies (intersect a b) u = None \<longleftrightarrow> denies a u = None \<and> denies b u = None"
proof (cases "u = FsRead \<or> u = FsWrite")
  case True
  then show ?thesis
    by (auto simp: denies_fs intersect_def fs_allows_meet simp del: denies.simps)
qed (cases u; auto simp: intersect_def)

lemma permits_intersect: "permits (intersect a b) n \<longleftrightarrow> permits a n \<and> permits b n"
  by (simp add: permits_def cap_check_def denies_intersect split: option.split)

interpretation grants: grant_meet intersect permits
  by unfold_locales (rule permits_intersect)

lemma caps_none_denies: "required n \<noteq> None \<Longrightarrow> \<not> permits caps_none n"
proof -
  assume "required n \<noteq> None"
  then obtain u where "required n = Some u" by blast
  then show ?thesis by (cases u) (simp_all add: permits_def cap_check_def caps_none_def)
qed

lemma fs_meet_simps [simp]:
  "fs_meet a FsNone = FsNone" "fs_meet a FsFull = a" "fs_meet FsFull a = a" "fs_meet a a = a"
  by (cases a; simp)+

section \<open>The table of dependencies\<close>

lemma find_SomeD: "find P xs = Some x \<Longrightarrow> x \<in> set xs \<and> P x"
  by (induction xs) (auto split: if_splits)

lemma build_deps_entry:
  assumes "(build_deps F dep_dirs own specs :: 'o caps_error + dep_entry list) = Inr ds"
    and "(dir, name, c) \<in> set ds"
  shows "\<exists>spec d. (name, spec) \<in> set specs \<and> c = intersect d own"
  using assms
proof (induction specs arbitrary: ds)
  case (Cons s specs)
  obtain n sp where s: "s = (n, sp)" by (cases s)
  with Cons.prems obtain d0 e rest
      where rest: "(build_deps F dep_dirs own specs :: 'o caps_error + dep_entry list) = Inr rest"
      and ds: "ds = (with_default (canonical F d0) d0, n, intersect e own) # rest"
    by (auto simp: res_bind_ok split: option.splits)
  show ?case
  proof (cases "(dir, name, c) \<in> set rest")
    case True
    with Cons.IH [OF rest] show ?thesis by (fastforce simp: s)
  next
    case False
    with Cons.prems(2) ds show ?thesis by (auto simp: s)
  qed
qed simp

lemma set_longest_first [simp]: "set (longest_first f xs) = set xs"
  by (simp add: longest_first_def)

lemma sorted_longest_first: "sorted_wrt (\<lambda>x y. os_len (f x) \<ge> os_len (f y)) (longest_first f xs)"
proof -
  have "sorted (map (\<lambda>x. - int (os_len (f x))) (longest_first f xs))"
    by (simp add: longest_first_def)
  then show ?thesis by (simp add: sorted_map)
qed

lemma find_longest:
  assumes "sorted_wrt (\<lambda>x y. os_len (f x) \<ge> os_len (f y)) xs" and "find P xs = Some x"
    and "y \<in> set xs" and "P y"
  shows "os_len (f y) \<le> os_len (f x)"
  using assms by (induction xs) (auto split: if_splits)

lemma caps_for_cases:
  assumes "caps_for T file = (c, who)"
  obtains (own) "who = None" and "c = app T"
      and "\<forall>path. file = Some path \<longrightarrow> (\<forall>(dir, _, _) \<in> set (deps T). \<not> path_under dir path)"
  | (dep) path dir name where "file = Some path" and "who = Some name"
      and "find (\<lambda>(dir, _, _). path_under dir path) (deps T) = Some (dir, name, c)"
proof (cases "\<exists>path e. file = Some path \<and> find (\<lambda>(dir, _, _). path_under dir path) (deps T) = Some e")
  case True
  then show ?thesis using assms dep by (auto simp: caps_for_def)
next
  case False
  then show ?thesis using assms own
    by (auto simp: caps_for_def find_None_iff split: option.splits)
qed

text \<open>A table whose dependencies are all attenuations of the program's grant, as \<open>build\<close> makes it.\<close>

definition table_ok :: "cap_table \<Rightarrow> bool" where
  "table_ok T \<longleftrightarrow>
     sorted_wrt (\<lambda>d e. os_len (fst d) \<ge> os_len (fst e)) (deps T) \<and>
     (\<forall>(_, _, c) \<in> set (deps T). \<exists>d. c = intersect d (app T))"

lemma build_table_ok:
  assumes "(cap_table_build F dep_dirs config :: 'o caps_error + cap_table) = Inr T"
  shows "table_ok T"
proof -
  obtain ds where ds: "(build_deps F dep_dirs (app T) (dependencies config) :: 'o caps_error + _) = Inr ds"
      and T: "deps T = longest_first fst ds"
    using assms by (auto simp: cap_table_build_def res_bind_ok)
  show ?thesis
    using build_deps_entry [OF ds] sorted_longest_first [of fst ds]
    by (fastforce simp: table_ok_def T)
qed

lemma caps_for_within:
  assumes "table_ok T" and "caps_for T file = (c, who)" and "permits c n"
  shows "permits (app T) n"
  using assms(2)
proof (cases rule: caps_for_cases)
  case (dep path dir name)
  then have "(dir, name, c) \<in> set (deps T)" by (auto dest: find_SomeD)
  with assms(1) obtain d where "c = intersect d (app T)" by (auto simp: table_ok_def)
  with assms(3) show ?thesis using grants.meet_shrinks by blast
qed (use assms(3) in simp)

text \<open>A dependency never exceeds the program. The grant that governs any file's code permits nothing
  the program's own grant does not; code of no dependency has the program's grant; and a file under
  several dependencies' folders answers to the longest.\<close>

lemma dependency_within_app:
  assumes "(cap_table_build F dep_dirs config :: 'o caps_error + cap_table) = Inr T"
    and "caps_for T file = (c, who)"
  shows "(permits c n \<longrightarrow> permits (app T) n) \<and>
    (case who of
       None \<Rightarrow> c = app T \<and>
         (\<forall>path. file = Some path \<longrightarrow> (\<forall>(dir, _, _) \<in> set (deps T). \<not> path_under dir path))
     | Some name \<Rightarrow> \<exists>path dir. file = Some path \<and> (dir, name, c) \<in> set (deps T) \<and> path_under dir path \<and>
         (\<forall>(dir', _, _) \<in> set (deps T). path_under dir' path \<longrightarrow> os_len dir' \<le> os_len dir))"
proof -
  have ok: "table_ok T" using assms(1) by (rule build_table_ok)
  from assms(2) show ?thesis
  proof (cases rule: caps_for_cases)
    case (dep path dir name)
    then have "(dir, name, c) \<in> set (deps T)" and "path_under dir path" by (auto dest: find_SomeD)
    moreover have "\<forall>(dir', _, _) \<in> set (deps T). path_under dir' path \<longrightarrow> os_len dir' \<le> os_len dir"
      using find_longest [OF _ dep(3), of fst] ok by (fastforce simp: table_ok_def)
    ultimately show ?thesis
      using dep caps_for_within [OF ok assms(2)] by auto
  qed auto
qed

definition demo_fs :: file_sys where
  "demo_fs = \<lparr>canonical = (\<lambda>p. Some p), link_target = (\<lambda>_. None), executable = (\<lambda>_. False),
    work_dir = ''/'', path_var = None\<rparr>"

definition demo_spec :: caps_spec where
  "demo_spec = \<lparr>s_fs = None, s_net = None, s_proc = None, s_db = None, s_env = None\<rparr>"

definition demo_config :: caps_config where
  "demo_config = \<lparr>base = demo_spec\<lparr>s_net := Some False\<rparr>,
     dependencies = [(''lib'', demo_spec\<lparr>s_fs := Some (Level ''read'')\<rparr>)]\<rparr>"

definition demo_table :: cap_table where
  "demo_table = \<lparr>app = caps_default\<lparr>c_net := False\<rparr>,
     deps = [(''/p/lib'', ''lib'', caps_default\<lparr>c_fs := FsReadOnly, c_net := False\<rparr>)], fixed = False\<rparr>"

theorem dependency_within_app_witness:
  "\<not> permits (fst (caps_for demo_table (Some ''/p/lib/a.ol''))) ''http.get''"
proof -
  have build: "(cap_table_build demo_fs [''lib'' \<mapsto> ''/p/lib''] demo_config :: unit caps_error + cap_table) = Inr demo_table"
    by code_simp
  have who: "caps_for demo_table (Some ''/p/lib/a.ol'') =
      (caps_default\<lparr>c_fs := FsReadOnly, c_net := False\<rparr>, Some ''lib'')"
    by code_simp
  have "\<not> permits (app demo_table) ''http.get''" by code_simp
  with dependency_within_app [OF build who, of "''http.get''"] who show ?thesis by simp
qed

section \<open>The registry of loaded modules\<close>

datatype registry_op = Register module_grant | Unregister string | Remove string

fun registry_step :: "registry_op \<Rightarrow> registry \<Rightarrow> registry" where
  "registry_step (Register g) r = snd (register_module g r)"
| "registry_step (Unregister dir) r = snd (unregister_module dir r)"
| "registry_step (Remove dir) r = snd (remove_module dir r)"

text \<open>A tombstone put back is still one.\<close>

definition grant_ok :: "module_grant \<Rightarrow> bool" where
  "grant_ok g \<longleftrightarrow> (unloaded g \<longrightarrow> tombstone g = g)"

fun registry_pre :: "registry_op \<Rightarrow> registry \<Rightarrow> bool" where
  "registry_pre (Register g) r = grant_ok g"
| "registry_pre _ r = True"

definition reg_inv :: "registry \<Rightarrow> bool" where
  "reg_inv r \<longleftrightarrow>
     sorted_wrt (\<lambda>g h. os_len (g_dir g) \<ge> os_len (g_dir h)) (mods r) \<and>
     distinct (map g_dir (mods r)) \<and> (active r \<longleftrightarrow> mods r \<noteq> []) \<and> list_all grant_ok (mods r)"

lemma take_first_filter:
  assumes "distinct (map f xs)"
  shows "snd (take_first (\<lambda>x. f x = k) xs) = filter (\<lambda>x. f x \<noteq> k) xs"
  using assms by (induction xs) (auto simp: case_prod_unfold image_iff intro!: filter_True [symmetric])

lemma update_first_map:
  assumes "distinct (map f xs)" and "\<And>x. P x \<Longrightarrow> f x = k"
  shows "update_first P g xs = map (\<lambda>x. if P x then g x else x) xs"
  using assms(1)
proof (induction xs)
  case (Cons x xs)
  show ?case
  proof (cases "P x")
    case True
    then have "\<not> P y" if "y \<in> set xs" for y
      using Cons.prems assms(2) that by (metis distinct.simps(2) image_eqI list.set_map list.simps(9))
    with True show ?thesis by (auto intro!: map_idI [symmetric])
  next
    case False
    with Cons show ?thesis by simp
  qed
qed simp

lemma mset_longest_first [simp]: "mset (longest_first f xs) = mset xs"
  by (simp add: longest_first_def)

lemma longest_first_eq_Nil [simp]: "longest_first f xs = [] \<longleftrightarrow> xs = []"
  by (simp add: longest_first_def) (metis length_0_conv length_sort)

lemma distinct_longest_first [simp]:
  "distinct (map g (longest_first f xs)) \<longleftrightarrow> distinct (map g xs)"
  by (metis mset_longest_first mset_eq_imp_distinct_iff mset_map)

lemma tombstone_fields [simp]:
  "g_dir (tombstone g) = g_dir g" "unloaded (tombstone g)" "tombstone (tombstone g) = tombstone g"
  "g_caps (tombstone g) = caps_none"
  by (simp_all add: tombstone_def)

lemma register_inv:
  assumes "reg_inv r" and "grant_ok g"
  shows "reg_inv (snd (register_module g r))"
proof -
  let ?ms = "filter (\<lambda>h. g_dir h \<noteq> g_dir g) (mods r)"
  have "snd (register_module g r) = \<lparr>mods = longest_first g_dir (?ms @ [g]), active = True\<rparr>"
    using assms(1) take_first_filter [of g_dir "mods r" "g_dir g"]
    by (simp add: register_module_def case_prod_unfold reg_inv_def)
  with assms show ?thesis
    by (auto simp: reg_inv_def sorted_longest_first list_all_iff distinct_map_filter)
qed

lemma unregister_map:
  assumes "reg_inv r"
  shows "snd (unregister_module dir r) =
    r\<lparr>mods := map (\<lambda>g. if g_dir g = dir \<and> \<not> unloaded g then tombstone g else g) (mods r)\<rparr>"
proof (cases "module_at r dir")
  case None
  then have "map (\<lambda>g. if g_dir g = dir \<and> \<not> unloaded g then tombstone g else g) (mods r) = mods r"
    by (auto simp: module_at_def find_None_iff intro!: map_idI)
  with None show ?thesis by (simp add: unregister_module_def)
next
  case (Some g)
  have "distinct (map g_dir (mods r))" using assms by (simp add: reg_inv_def)
  from update_first_map [OF this, of "\<lambda>g. g_dir g = dir \<and> \<not> unloaded g" dir tombstone] Some
  show ?thesis by (simp add: unregister_module_def)
qed

lemma unregister_inv:
  assumes "reg_inv r"
  shows "reg_inv (snd (unregister_module dir r))"
proof -
  let ?f = "\<lambda>g. if g_dir g = dir \<and> \<not> unloaded g then tombstone g else g"
  have dir: "g_dir (?f g) = g_dir g" for g by simp
  have "map g_dir (map ?f (mods r)) = map g_dir (mods r)" by simp
  then have "distinct (map g_dir (map ?f (mods r)))"
    using assms by (simp add: reg_inv_def del: map_map)
  moreover have "sorted_wrt (\<lambda>g h. os_len (g_dir g) \<ge> os_len (g_dir h)) (map ?f (mods r))"
    using assms unfolding sorted_wrt_map dir reg_inv_def by blast
  moreover have "list_all grant_ok (map ?f (mods r))"
    using assms by (auto simp: reg_inv_def list_all_iff grant_ok_def)
  ultimately show ?thesis
    using assms by (simp add: reg_inv_def unregister_map del: map_map)
qed

lemma remove_inv: "reg_inv r \<Longrightarrow> reg_inv (snd (remove_module dir r))"
  by (auto simp: reg_inv_def remove_module_def Let_def sorted_wrt_filter distinct_map_filter list_all_iff)

interpretation registry_machine: inv_machine registry_empty registry_step registry_pre reg_inv
proof
  show "reg_inv registry_empty" by (simp add: reg_inv_def registry_empty_def)
  show "reg_inv s \<Longrightarrow> registry_pre op s \<Longrightarrow> reg_inv (registry_step op s)" for s op
    by (cases op) (auto intro: register_inv unregister_inv remove_inv)
qed

lemma module_for_some:
  assumes "reg_inv r"
  shows "module_for r path = find (\<lambda>g. path_under (g_dir g) path) (mods r)"
  using assms by (auto simp: module_for_def reg_inv_def)

text \<open>C25: the registry of loaded modules. After any sequence of loads, unloads and removals (a grant put
  back after a failed load being one it held) no folder is registered twice, the flag that lets the gate
  skip it says whether there is any, and code answers to the module of the deepest folder above it, to
  none only when it is under none.\<close>

theorem registry_consistent:
  assumes "obliged registry_step registry_pre ops registry_empty"
    and "r = run_ops registry_step ops registry_empty"
  shows "distinct (map g_dir (mods r)) \<and> (active r \<longleftrightarrow> mods r \<noteq> []) \<and>
    (case module_for r path of
       None \<Rightarrow> \<forall>g \<in> set (mods r). \<not> path_under (g_dir g) path
     | Some g \<Rightarrow> g \<in> set (mods r) \<and> path_under (g_dir g) path \<and>
         (\<forall>h \<in> set (mods r). path_under (g_dir h) path \<longrightarrow> os_len (g_dir h) \<le> os_len (g_dir g)))"
proof -
  have inv: "reg_inv r" using registry_machine.inv_reachable [OF assms(1)] assms(2) by simp
  let ?P = "\<lambda>g. path_under (g_dir g) path"
  have "case find ?P (mods r) of
       None \<Rightarrow> \<forall>g \<in> set (mods r). \<not> ?P g
     | Some g \<Rightarrow> g \<in> set (mods r) \<and> ?P g \<and> (\<forall>h \<in> set (mods r). ?P h \<longrightarrow> os_len (g_dir h) \<le> os_len (g_dir g))"
    using inv find_longest [of g_dir "mods r" ?P]
    by (auto simp: reg_inv_def find_None_iff dest: find_SomeD split: option.split)
  with inv show ?thesis by (simp add: module_for_some reg_inv_def)
qed

definition demo_grant :: "string \<Rightarrow> module_grant" where
  "demo_grant dir = \<lparr>g_dir = dir, g_name = ''plugin'', g_caps = caps_default, fs_roots = None,
     proc_allow = None, unloaded = False\<rparr>"

definition demo_ops :: "registry_op list" where
  "demo_ops = [Register (demo_grant ''/a''), Register (demo_grant ''/a/b''), Unregister ''/a'',
     Remove ''/c'']"

theorem registry_consistent_witness:
  "map_option g_dir (module_for (run_ops registry_step demo_ops registry_empty) ''/a/b/x.ol'') = Some ''/a/b''"
proof -
  have ok: "obliged registry_step registry_pre demo_ops registry_empty" by code_simp
  let ?r = "run_ops registry_step demo_ops registry_empty" and ?p = "''/a/b/x.ol''"
  have mods: "map g_dir (mods ?r) = [''/a/b'', ''/a'']" and under: "path_under ''/a/b'' ?p"
      and len: "os_len ''/a'' < os_len ''/a/b''"
    by code_simp+
  have "''/a/b'' \<in> set (map g_dir (mods ?r))" unfolding mods by simp
  then obtain h where h: "''/a/b'' = g_dir h" "h \<in> set (mods ?r)"
    unfolding set_map by (rule imageE)
  note c = registry_consistent [OF ok refl, of ?p, THEN conjunct2, THEN conjunct2]
  show ?thesis
  proof (cases "module_for ?r ?p")
    case None
    with c h under show ?thesis by auto
  next
    case (Some g)
    with c have "g \<in> set (mods ?r)" and "\<forall>h \<in> set (mods ?r). path_under (g_dir h) ?p \<longrightarrow> os_len (g_dir h) \<le> os_len (g_dir g)"
      by simp_all
    moreover from this h under have "os_len ''/a/b'' \<le> os_len (g_dir g)" by fastforce
    moreover have "g_dir g \<in> set (map g_dir (mods ?r))"
      unfolding set_map using calculation(1) by (rule imageI)
    ultimately show ?thesis using Some len unfolding mods by auto
  qed
qed

section \<open>What a module may do\<close>

lemma find_map_same:
  assumes "\<And>x. Q (f x) = Q x"
  shows "find Q (map f xs) = map_option f (find Q xs)"
  by (induction xs) (auto simp: assms)

text \<open>The code of an unloaded module is powerless. Once a module is unloaded whatever still runs of it
  is refused, by the scope gate, every builtin that has an effect or is the host's, whatever its
  arguments, and by the capability gate every builtin that has an effect; other modules keep their
  grants.\<close>

theorem unloaded_is_powerless:
  assumes "reg_inv r" and "unregister_module dir r = (True, r')"
    and "module_for r path = Some g" and "g_dir g = dir"
  shows "(\<exists>g'. module_for r' path = Some g' \<and> g_dir g' = dir \<and>
      (\<forall>name strings heads. required name \<noteq> None \<or> host_only name \<longrightarrow>
         scope_denial F g' name strings heads = Some (UnloadedModule dir name)) \<and>
      (\<forall>name. required name \<noteq> None \<longrightarrow> \<not> permits (g_caps g') name)) \<and>
    (\<forall>q h. module_for r q = Some h \<and> g_dir h \<noteq> dir \<longrightarrow> module_for r' q = Some h)"
proof -
  let ?f = "\<lambda>g. if g_dir g = dir \<and> \<not> unloaded g then tombstone g else g"
  have r': "r' = r\<lparr>mods := map ?f (mods r)\<rparr>"
    using assms(2) unregister_map [OF assms(1), of dir] by simp
  have inv': "reg_inv r'" using unregister_inv [OF assms(1), of dir] assms(2) by simp
  have mods': "mods r' = map ?f (mods r)" by (simp add: r')
  have find: "module_for r' q = map_option ?f (module_for r q)" for q
  proof -
    have "find (\<lambda>g. path_under (g_dir g) q) (map ?f (mods r)) =
        map_option ?f (find (\<lambda>g. path_under (g_dir g) q) (mods r))"
      by (rule find_map_same) simp
    then show ?thesis by (simp add: module_for_some [OF assms(1)] module_for_some [OF inv'] mods')
  qed
  have "grant_ok g"
    using assms(1,3) by (auto simp: module_for_some reg_inv_def list_all_iff dest: find_SomeD)
  then have "unloaded g \<Longrightarrow> g_caps g = caps_none"
    using tombstone_fields(4) [of g] by (simp add: grant_ok_def)
  then have "unloaded (?f g)" and "g_caps (?f g) = caps_none" and "g_dir (?f g) = dir"
    using assms(4) by auto
  then show ?thesis
    using find assms(3) caps_none_denies by (auto simp: scope_denial_def)
qed

definition demo_registry :: registry where
  "demo_registry = \<lparr>mods = [demo_grant ''/a''], active = True\<rparr>"

theorem unloaded_is_powerless_witness:
  "\<exists>g. module_for (snd (unregister_module ''/a'' demo_registry)) ''/a/x.ol'' = Some g \<and>
    scope_denial demo_fs g ''fs.read_file'' [Some ''/etc/passwd''] [] = Some (UnloadedModule ''/a'' ''fs.read_file'')"
proof -
  have inv: "reg_inv demo_registry"
    by (simp add: reg_inv_def demo_registry_def grant_ok_def demo_grant_def)
  have out: "fst (unregister_module ''/a'' demo_registry)"
    and found: "module_for demo_registry ''/a/x.ol'' = Some (demo_grant ''/a'')"
    and effect: "required ''fs.read_file'' = Some FsRead"
    by code_simp+
  from out have "unregister_module ''/a'' demo_registry = (True, snd (unregister_module ''/a'' demo_registry))"
    by (simp add: prod_eq_iff)
  from unloaded_is_powerless [OF inv this found, THEN conjunct1, of demo_fs] effect show ?thesis
    by (simp add: demo_grant_def) blast
qed

lemma root_denial_none:
  "root_denial F g name roots ps = None \<longleftrightarrow> (\<forall>p \<in> set ps. \<exists>r \<in> set roots. path_under r (gate_path F p))"
  by (induction ps) (auto simp: Let_def)

lemma program_denial_none:
  "program_denial F g name allow ps = None \<longleftrightarrow>
     (\<forall>p \<in> set ps. \<exists>prog. p = Some prog \<and> program_allowed F allow prog \<and>
        (has_slash prog \<or> pinned_program F prog \<noteq> None))"
  by (induction ps) (auto split: option.splits)

lemma somes_Nil [simp]: "somes [] = []"
  by (simp add: somes_def)

text \<open>What the scope gate checks of a call of loaded code: it lets it through exactly when it is none of the
  host's own builtins; for a file system call under a grant of folders, the paths among its first argument
  (the first two for a copy or a move) lie, with links resolved, under one of them, and no other argument is
  looked at (\<open>Gate.scope_escapes\<close>); and for a call that starts programs under a list, each is a string the
  list allows and, if bare, one the host's own PATH holds, and the call does not end the host.\<close>

lemma scope_exact:
  assumes "\<not> unloaded g"
  shows "scope_denial F g name strings heads = None \<longleftrightarrow>
    \<not> host_only name \<and>
    (\<forall>roots. fs_roots g = Some roots \<and> (required name = Some FsRead \<or> required name = Some FsWrite) \<longrightarrow>
       (\<forall>p \<in> set (somes (take (if two_paths name then 2 else 1) strings)).
          \<exists>r \<in> set roots. path_under r (gate_path F p))) \<and>
    (\<forall>allow. proc_allow g = Some allow \<and> required name = Some UsesProc \<longrightarrow>
       name \<noteq> ''os.exit'' \<and>
       (\<forall>p \<in> set (programs_of name (case strings of s # _ \<Rightarrow> s | [] \<Rightarrow> None) heads).
          \<exists>prog. p = Some prog \<and> program_allowed F allow prog \<and>
            (has_slash prog \<or> pinned_program F prog \<noteq> None)))"
  using assms
  by (auto simp: scope_denial_def root_denial_none program_denial_none split: option.splits)

definition held_grant :: module_grant where
  "held_grant = demo_grant ''/plugin''\<lparr>fs_roots := Some [''/work''], proc_allow := Some [''olang'']\<rparr>"

lemma scope_exact_example:
  "scope_denial demo_fs held_grant ''fs.write_file'' [Some ''/work/out.txt'', Some ''/etc''] [] = None \<and>
   scope_denial demo_fs held_grant ''fs.write_file'' [Some ''/etc/passwd''] [] \<noteq> None"
proof -
  have "\<not> unloaded held_grant" by (simp add: held_grant_def demo_grant_def)
  note exact = scope_exact [OF this, of demo_fs]
  have facts: "required ''fs.write_file'' = Some FsWrite" "\<not> host_only ''fs.write_file''"
      "\<not> two_paths ''fs.write_file''" "path_under ''/work'' (gate_path demo_fs ''/work/out.txt'')"
      "\<not> path_under ''/work'' (gate_path demo_fs ''/etc/passwd'')"
    by code_simp+
  have grant: "fs_roots held_grant = Some [''/work'']" by (simp add: held_grant_def)
  have named: "somes [Some p] = [p]" for p :: string by (simp add: somes_def List.map_filter_def)
  show ?thesis unfolding exact using facts by (auto simp: grant named)
qed

text \<open>A program allowed by name is that program. A path is allowed when it is listed whole, or when its
  last part is listed and it is the very file which that name finds on the host's PATH; a bare name only
  when it is listed.\<close>

theorem program_allowed_exact:
  "program_allowed F allow prog \<longleftrightarrow>
     prog \<in> set allow \<or>
     (has_slash prog \<and>
      (\<exists>b found real. file_name prog = Some b \<and> b \<in> set allow \<and> find_on_own_path F b = Some found \<and>
         canonical F found = Some real \<and> canonical F prog = Some real))"
  by (auto simp: program_allowed_def bind_eq_Some_conv split: option.splits)

section \<open>Grants read back\<close>

lemma string_items_map [simp]: "string_items k (map VStr ss) = Inr ss"
  by (induction ss) auto

text \<open>C31: a grant round trip. What \<open>runtime.module_grant\<close> answers for a loaded module, handed to
  \<open>runtime.load_module\<close> again, is the same grant: for a grant whose folders are real paths and whose
  list of programs is only there when it may run any.\<close>

theorem grant_roundtrip:
  assumes "\<not> unloaded g" and "\<forall>roots. fs_roots g = Some roots \<longrightarrow> (\<forall>r \<in> set roots. gate_path F r = r)"
    and "proc_allow g \<noteq> None \<longrightarrow> c_proc (g_caps g)"
  shows "grant_from_value F (g_dir g) default_name (grant_value g :: 'o val) = Inr g"
proof -
  let ?v = "grant_value g :: 'o val"
  have get: "grant_get ?v ''name'' = Some (VStr (g_name g))" "grant_get ?v ''net'' = Some (VBool (c_net (g_caps g)))"
      "grant_get ?v ''db'' = Some (VBool (c_db (g_caps g)))" "grant_get ?v ''env'' = Some (VBool (c_env (g_caps g)))"
    by (simp_all add: grant_get_def grant_value_def)
  have fs: "grant_fs ?v = Inr (c_fs (g_caps g))"
    by (cases "c_fs (g_caps g)") (simp_all add: grant_fs_def grant_get_def grant_value_def)
  have roots: "grant_strings ?v ''fs_roots'' = Inr (fs_roots g)"
    by (cases "fs_roots g") (simp_all add: grant_strings_def grant_get_def grant_value_def)
  have pr: "grant_proc ?v = Inr (c_proc (g_caps g), proc_allow g)"
    using assms(3)
    by (cases "proc_allow g") (simp_all add: grant_proc_def grant_strings_def grant_get_def grant_value_def)
  have real: "map_option (map (gate_path F)) (fs_roots g) = fs_roots g"
    using assms(2) by (cases "fs_roots g") (auto intro: map_idI)
  obtain m where "?v = VMap m" by (simp add: grant_value_def)
  moreover have flag: "grant_flag ?v ''net'' = Inr (c_net (g_caps g))" "grant_flag ?v ''db'' = Inr (c_db (g_caps g))"
      "grant_flag ?v ''env'' = Inr (c_env (g_caps g))"
    by (simp_all add: grant_flag_def get)
  ultimately show ?thesis
    using fs roots pr get real assms(1) by (simp add: grant_from_value_def)
qed

theorem grant_roundtrip_witness:
  "grant_from_value demo_fs ''/plugin'' ''x'' (grant_value held_grant) = (Inr held_grant :: unit caps_error + module_grant)"
proof -
  have "gate_path demo_fs ''/work'' = ''/work''" by code_simp
  then show ?thesis
    using grant_roundtrip [of held_grant demo_fs "''x''"]
    by (simp add: held_grant_def demo_grant_def caps_default_def)
qed

text \<open>A module gets what its host says and nothing more: a key the grant leaves out is denied.\<close>

theorem grant_absent_denied:
  assumes "(grant_from_value F dir nm (VMap m) :: 'o caps_error + module_grant) = Inr g"
  shows "(map_of m ''fs'' = None \<longrightarrow> c_fs (g_caps g) = FsNone) \<and>
    (map_of m ''net'' = None \<longrightarrow> \<not> c_net (g_caps g)) \<and> (map_of m ''proc'' = None \<longrightarrow> \<not> c_proc (g_caps g)) \<and>
    (map_of m ''db'' = None \<longrightarrow> \<not> c_db (g_caps g)) \<and> (map_of m ''env'' = None \<longrightarrow> \<not> c_env (g_caps g)) \<and>
    g_dir g = dir \<and> \<not> unloaded g"
  using assms
  by (auto simp: grant_from_value_def res_bind_ok grant_fs_def grant_flag_def grant_proc_def grant_get_def)

theorem grant_absent_denied_witness:
  "c_net (g_caps (projr (grant_from_value demo_fs ''/p'' ''p'' (VMap [(''db'', VBool True)]) :: unit caps_error + module_grant))) = False"
proof -
  let ?r = "grant_from_value demo_fs ''/p'' ''p'' (VMap [(''db'', VBool True)]) :: unit caps_error + module_grant"
  have "isl ?r = False" by code_simp
  then have "?r = Inr (projr ?r)" by (simp add: sum.collapse)
  from grant_absent_denied [OF this] show ?thesis by simp
qed

section \<open>The suggested manifest and \<open>--deny\<close>\<close>

text \<open>the suggested manifest is the least privilege: it permits the builtins that need nothing and those
  whose capability the run exercised, reading being covered by writing, and denies all others.\<close>

theorem suggestion_exact:
  "permits (suggested_caps used) n \<longleftrightarrow>
     (case required n of
        None \<Rightarrow> True
      | Some u \<Rightarrow> u \<in> used \<or> (u = FsRead \<and> FsWrite \<in> used))"
  by (cases "required n"; cases "the (required n)")
    (auto simp: permits_def cap_check_def suggested_caps_def suggested_fs_def)







text \<open>So the order of a \<open>--deny\<close> list matters: a later \<open>fs-write\<close> gives back the reading that an earlier
  \<open>fs\<close> denied.\<close>

theorem deny_order:
  "c_fs (projr (parse_deny ''fs,fs-write'' :: unit caps_error + caps)) = FsReadOnly \<and>
   permits (projr (parse_deny ''fs,fs-write'' :: unit caps_error + caps)) ''fs.read_file'' \<and>
   \<not> permits (projr (parse_deny ''fs'' :: unit caps_error + caps)) ''fs.read_file''"
  by code_simp

end
