(* ===== verification/Gate.thy ===== *)
theory Gate
  imports CapsLaws
begin

text \<open>
  The gates every builtin call passes (\<open>src/interpreter/mod.rs\<close>, called first in
  \<open>src/builtin.rs\<close>'s \<open>call_internal\<close>): which file's code is running, the grant that governs it, the
  capability gate, the scope of a module loaded at run time with its programs pinned, macro expansion's
  purity, and the file system a database call reaches. The gate's state is a record of the interpreter's
  fields it reads and writes; the memo of real paths is one, so a path keeps the file it named first.
\<close>

section \<open>Attribution\<close>

record gate =
  caps_table :: "cap_table option"
  modules :: registry
  pregranted :: bool
  meta_mode :: bool
  file_stack :: "string option list"
  module_path :: "string option"
  loading_stack :: "string list"
  path_cache :: "string \<rightharpoonup> string"
  caps_trace :: "cap_use set option"

text \<open>The frames, innermost first: the language's own files are passed over.\<close>

fun innermost_file :: "string option list \<Rightarrow> string option" where
  "innermost_file [] = None"
| "innermost_file (None # fs) = None"
| "innermost_file (Some p # fs) = (if is_transparent_file p then innermost_file fs else Some p)"

definition gate_file :: "gate \<Rightarrow> string option" where
  "gate_file s =
     (case innermost_file (rev (file_stack s)) of
        Some p \<Rightarrow> Some p
      | None \<Rightarrow>
          (case module_path s of
             Some p \<Rightarrow>
               if is_transparent_file p
               then find (\<lambda>q. \<not> is_transparent_file q) (rev (loading_stack s))
               else Some p
           | None \<Rightarrow> None))"

definition current_canon_file :: "file_sys \<Rightarrow> gate \<Rightarrow> string option \<times> gate" where
  "current_canon_file F s =
     (case gate_file s of
        None \<Rightarrow> (None, s)
      | Some f \<Rightarrow>
          (case path_cache s f of
             Some p \<Rightarrow> (Some p, s)
           | None \<Rightarrow>
               let p = with_default (canonical F f) f
               in (Some p, s\<lparr>path_cache := (path_cache s)(f \<mapsto> p)\<rparr>)))"

definition restricted :: "gate \<Rightarrow> bool" where
  "restricted s \<longleftrightarrow> caps_table s \<noteq> None \<or> active (modules s)"

definition current_caps :: "file_sys \<Rightarrow> gate \<Rightarrow> (caps \<times> string option) option \<times> gate" where
  "current_caps F s =
     (if \<not> restricted s then (None, s)
      else
        let (canon, s1) = current_canon_file F s
        in case Option.bind canon (module_for (modules s)) of
             Some g \<Rightarrow>
               let c = (case caps_table s of Some T \<Rightarrow> intersect (g_caps g) (app T) | None \<Rightarrow> g_caps g)
               in (Some (c, Some (if unloaded g then ''unloaded:'' @ g_dir g else ''module:'' @ g_name g)), s1)
           | None \<Rightarrow>
               (case caps_table s of
                  None \<Rightarrow> (None, s1)
                | Some T \<Rightarrow> (Some (caps_for T canon), s1)))"

definition current_module_grant :: "file_sys \<Rightarrow> gate \<Rightarrow> module_grant option \<times> gate" where
  "current_module_grant F s =
     (if \<not> active (modules s) then (None, s)
      else (let (canon, s1) = current_canon_file F s in (Option.bind canon (module_for (modules s)), s1)))"

definition caller_caps :: "file_sys \<Rightarrow> gate \<Rightarrow> caps option \<times> gate" where
  "caller_caps F s = (let (r, s1) = current_caps F s in (map_option fst r, s1))"

definition effective_caps :: "file_sys \<Rightarrow> gate \<Rightarrow> caps \<times> gate" where
  "effective_caps F s = (let (r, s1) = caller_caps F s in (with_default r caps_default, s1))"

definition effective_fs :: "gate \<Rightarrow> fs_cap" where
  "effective_fs s = (case caps_table s of Some T \<Rightarrow> c_fs (app T) | None \<Rightarrow> FsFull)"

section \<open>The capability gate\<close>

datatype gate_denial =
  GateUnloaded string string
| ModuleDenied string string string caps
| DependencyDenied string string string caps
| ProgramDenied string string caps
| ScopeDenied denial
| NotAtExpansion string
| ReachesFs string fs_cap "string option" caps

definition set_cap_pregranted :: "gate \<Rightarrow> gate" where
  "set_cap_pregranted s = s\<lparr>pregranted := True\<rparr>"

definition denial_for :: "string \<Rightarrow> string \<Rightarrow> caps \<times> string option \<Rightarrow> gate_denial" where
  "denial_for cap name cw =
     (let (c, who) = cw in
      case who of
        None \<Rightarrow> ProgramDenied cap name c
      | Some pkg \<Rightarrow>
          (case strip_prefix ''unloaded:'' pkg of
             Some dir \<Rightarrow> GateUnloaded dir name
           | None \<Rightarrow>
               (case strip_prefix ''module:'' pkg of
                  Some m \<Rightarrow> ModuleDenied cap name m c
                | None \<Rightarrow> DependencyDenied cap name pkg c)))"

definition capability_denial :: "file_sys \<Rightarrow> string \<Rightarrow> gate \<Rightarrow> gate_denial option \<times> gate" where
  "capability_denial F name s =
     (if pregranted s then (None, s\<lparr>pregranted := False\<rparr>)
      else if \<not> restricted s then (None, s)
      else if required name = None then (None, s)
      else
        let (r, s1) = current_caps F s
        in (Option.bind r (\<lambda>cw. map_option (\<lambda>cap. denial_for cap name cw) (cap_check (fst cw) name)), s1))"

section \<open>The scope gate\<close>

fun as_text :: "'o val \<Rightarrow> string option" where
  "as_text (VStr s) = Some s"
| "as_text _ = None"

fun list_items :: "'o val \<Rightarrow> 'o val list option" where
  "list_items (VList vs) = Some vs"
| "list_items _ = None"

definition argv_head :: "'o val \<Rightarrow> string option" where
  "argv_head v = (case list_items v of Some (x # _) \<Rightarrow> as_text x | _ \<Rightarrow> None)"

definition argv_heads :: "string \<Rightarrow> 'o val list \<Rightarrow> string option list" where
  "argv_heads name args =
     (case args of
        [] \<Rightarrow> []
      | v # _ \<Rightarrow>
          (case list_items v of
             None \<Rightarrow> []
           | Some stages \<Rightarrow> if name = ''proc.pipeline'' then map argv_head stages else [argv_head v]))"

definition scope_check :: "file_sys \<Rightarrow> module_grant \<Rightarrow> string \<Rightarrow> 'o val list \<Rightarrow> denial option" where
  "scope_check F g name args = scope_denial F g name (map as_text args) (argv_heads name args)"

definition pin_argv :: "file_sys \<Rightarrow> 'o val \<Rightarrow> 'o val" where
  "pin_argv F v =
     (case list_items v of
        Some (x # xs) \<Rightarrow>
          (case Option.bind (as_text x) (pinned_program F) of
             Some found \<Rightarrow> VList (VStr found # xs)
           | None \<Rightarrow> v)
      | _ \<Rightarrow> v)"

definition pin_programs :: "file_sys \<Rightarrow> string \<Rightarrow> 'o val list \<Rightarrow> 'o val list" where
  "pin_programs F name args =
     (case args of
        [] \<Rightarrow> []
      | v # vs \<Rightarrow>
          if name = ''proc.pipeline''
          then (case list_items v of Some stages \<Rightarrow> VList (map (pin_argv F) stages) # vs | None \<Rightarrow> args)
          else pin_argv F v # vs)"

definition scope_gate ::
  "file_sys \<Rightarrow> string \<Rightarrow> 'o val list \<Rightarrow> gate \<Rightarrow> denial option \<times> 'o val list \<times> gate" where
  "scope_gate F name args s =
     (if \<not> active (modules s) then (None, args, s)
      else if \<not> host_only name \<and> required name = None then (None, args, s)
      else
        let (grant, s1) = current_module_grant F s
        in case grant of
             None \<Rightarrow> (None, args, s1)
           | Some g \<Rightarrow>
               (case scope_check F g name args of
                  Some d \<Rightarrow> (Some d, args, s1)
                | None \<Rightarrow>
                    if proc_allow g \<noteq> None \<and> required name = Some UsesProc
                    then (None, pin_programs F name args, s1)
                    else (None, args, s1)))"

section \<open>Expansion, and the file system behind a database\<close>

definition expansion_denial :: "string \<Rightarrow> gate \<Rightarrow> gate_denial option" where
  "expansion_denial name s =
     (if \<not> meta_mode s then None
      else if expansion_blocked name then Some (NotAtExpansion name) else None)"

definition nth_arg :: "nat \<Rightarrow> 'o val list \<Rightarrow> 'o val option" where
  "nth_arg n args = (if n < length args then Some (args ! n) else None)"

fun asks_readonly :: "'o val option \<Rightarrow> bool" where
  "asks_readonly (Some (VMap m)) = (map_of m ''readonly'' = Some (VBool True))"
| "asks_readonly _ = False"

definition needed_fs :: "string \<Rightarrow> 'o val list \<Rightarrow> fs_cap option" where
  "needed_fs name args =
     (if name = ''db.open'' \<or> name \<in> set sql_calls then
        let path = Option.bind (nth_arg (if name = ''db.open'' then 0 else 1) args) as_text
        in map_option
             (\<lambda>needed. if name = ''db.open'' \<and> db_open_is_readonly (with_default path []) (asks_readonly (nth_arg 1 args))
                       then FsReadOnly else needed)
             (implied_fs name path)
      else None)"

definition implied_fs_denial ::
  "file_sys \<Rightarrow> string \<Rightarrow> 'o val list \<Rightarrow> gate \<Rightarrow> gate_denial option \<times> gate" where
  "implied_fs_denial F name args s =
     (if \<not> restricted s then (None, s)
      else
        case needed_fs name args of
          None \<Rightarrow> (None, s)
        | Some needed \<Rightarrow>
            let (r, s1) = current_caps F s
            in (case r of
                  None \<Rightarrow> (None, s1)
                | Some (c, who) \<Rightarrow>
                    if fs_allows (c_fs c) needed then (None, s1)
                    else (Some (case Option.bind who (strip_prefix ''unloaded:'') of
                                  Some dir \<Rightarrow> GateUnloaded dir name
                                | None \<Rightarrow> ReachesFs name needed who c), s1)))"

definition record_caps_use :: "string \<Rightarrow> gate \<Rightarrow> gate" where
  "record_caps_use name s =
     (case (caps_trace s, required name) of
        (Some used, Some u) \<Rightarrow> s\<lparr>caps_trace := Some (insert u used)\<rparr>
      | _ \<Rightarrow> s)"

definition drain_caps_trace :: "gate \<Rightarrow> cap_use set \<times> gate" where
  "drain_caps_trace s =
     (case caps_trace s of Some used \<Rightarrow> (used, s\<lparr>caps_trace := Some {}\<rparr>) | None \<Rightarrow> ({}, s))"

text \<open>The gates of a call in their order: the arguments it goes on with, or the denial.\<close>

definition call_gate ::
  "file_sys \<Rightarrow> string \<Rightarrow> 'o val list \<Rightarrow> gate \<Rightarrow> (gate_denial + 'o val list) \<times> gate" where
  "call_gate F name args s =
     (let (d1, s1) = capability_denial F name s in
      case d1 of Some d \<Rightarrow> (Inl d, s1) | None \<Rightarrow>
      (let (d2, args2, s2) = scope_gate F name args s1 in
       case d2 of Some d \<Rightarrow> (Inl (ScopeDenied d), s2) | None \<Rightarrow>
       (case expansion_denial name s2 of Some d \<Rightarrow> (Inl d, s2) | None \<Rightarrow>
        (let (d3, s3) = implied_fs_denial F name args2 s2 in
         case d3 of Some d \<Rightarrow> (Inl d, s3) | None \<Rightarrow> (Inr args2, record_caps_use name s3)))))"

section \<open>Facts\<close>

text \<open>Looking up the running file's real path changes the memo only, and is stable after it.\<close>

definition looked_up :: "file_sys \<Rightarrow> gate \<Rightarrow> gate" where
  "looked_up F s = snd (current_canon_file F s)"

definition running_file :: "file_sys \<Rightarrow> gate \<Rightarrow> string option" where
  "running_file F s = fst (current_canon_file F s)"

definition running_module :: "file_sys \<Rightarrow> gate \<Rightarrow> module_grant option" where
  "running_module F s = Option.bind (running_file F s) (module_for (modules s))"

lemma current_canon_file_eq: "current_canon_file F s = (running_file F s, looked_up F s)"
  by (simp add: looked_up_def running_file_def)

lemma looked_up_fields [simp]:
  "caps_table (looked_up F s) = caps_table s" "modules (looked_up F s) = modules s"
  "pregranted (looked_up F s) = pregranted s" "meta_mode (looked_up F s) = meta_mode s"
  "file_stack (looked_up F s) = file_stack s" "module_path (looked_up F s) = module_path s"
  "loading_stack (looked_up F s) = loading_stack s" "caps_trace (looked_up F s) = caps_trace s"
  by (auto simp: looked_up_def current_canon_file_def Let_def split: option.splits)

lemma gate_file_looked_up [simp]: "gate_file (looked_up F s) = gate_file s"
  by (simp add: gate_file_def split: option.split)

lemma looked_up_idem [simp]:
  "looked_up F (looked_up F s) = looked_up F s" "running_file F (looked_up F s) = running_file F s"
proof -
  have "current_canon_file F (looked_up F s) = (running_file F s, looked_up F s)"
  proof (cases "gate_file s")
    case None
    then show ?thesis by (simp add: current_canon_file_def looked_up_def running_file_def)
  next
    case (Some f)
    then have "path_cache (looked_up F s) f = running_file F s" and "running_file F s \<noteq> None"
      by (auto simp: current_canon_file_def looked_up_def running_file_def Let_def split: option.splits)
    with Some show ?thesis by (auto simp: current_canon_file_def [of F "looked_up F s"])
  qed
  then show "looked_up F (looked_up F s) = looked_up F s" "running_file F (looked_up F s) = running_file F s"
    by (simp_all add: looked_up_def [of F "looked_up F s"] running_file_def [of F "looked_up F s"])
qed

lemma running_module_looked_up [simp]: "running_module F (looked_up F s) = running_module F s"
  by (simp add: running_module_def)

lemma restricted_looked_up [simp]: "restricted (looked_up F s) = restricted s"
  by (simp add: restricted_def)

text \<open>The grant of the running code and who it is, without the memo.\<close>

definition grant_of :: "file_sys \<Rightarrow> gate \<Rightarrow> (caps \<times> string option) option" where
  "grant_of F s = fst (current_caps F s)"

lemma current_caps_eq:
  "current_caps F s = (grant_of F s, if restricted s then looked_up F s else s)"
  by (auto simp: current_caps_def grant_of_def current_canon_file_eq Let_def split: option.splits)

lemma grant_of_looked_up [simp]: "grant_of F (looked_up F s) = grant_of F s"
  by (simp add: grant_of_def current_caps_def current_canon_file_eq Let_def split: option.split)

lemma grant_of_module:
  assumes "running_module F s = Some g"
  shows "grant_of F s =
    (if restricted s
     then Some (case caps_table s of Some T \<Rightarrow> intersect (g_caps g) (app T) | None \<Rightarrow> g_caps g,
                Some (if unloaded g then ''unloaded:'' @ g_dir g else ''module:'' @ g_name g))
     else None)"
  using assms by (simp add: grant_of_def current_caps_def current_canon_file_eq running_module_def)

lemma module_active: "running_module F s = Some g \<Longrightarrow> active (modules s)"
  by (auto simp: running_module_def module_for_def bind_eq_Some_conv split: if_splits)

lemma current_module_grant_eq:
  "current_module_grant F s = (running_module F s, if active (modules s) then looked_up F s else s)"
  by (cases "running_file F s")
    (auto simp: current_module_grant_def current_canon_file_eq running_module_def module_for_def)

lemma strip_unloaded [simp]: "strip_prefix p (p @ d) = Some d"
  by (simp add: strip_prefix_def starts_with_def)

lemma capability_denial_eq:
  assumes "\<not> pregranted s"
  shows "capability_denial F name s =
    (if restricted s \<and> required name \<noteq> None
     then (Option.bind (grant_of F s) (\<lambda>cw. map_option (\<lambda>cap. denial_for cap name cw) (cap_check (fst cw) name)),
           looked_up F s)
     else (None, s))"
  using assms by (auto simp: capability_denial_def current_caps_eq)

lemma scope_gate_cases:
  assumes "scope_gate F name args s = (d, args', s')"
  shows "s' = s \<or> s' = looked_up F s"
    and "running_module F s = Some g \<Longrightarrow> host_only name \<or> required name \<noteq> None \<Longrightarrow>
      d = scope_check F g name args \<and>
      args' = (if d = None \<and> proc_allow g \<noteq> None \<and> required name = Some UsesProc
               then pin_programs F name args else args)"
    and "required name \<noteq> Some UsesProc \<Longrightarrow> args' = args"
  using assms module_active [of F s g]
  by (auto simp: scope_gate_def current_module_grant_eq split: option.splits if_splits)

lemma implied_fs_denial_none:
  assumes "implied_fs_denial F name args s = (None, s')" and "restricted s"
    and "grant_of F s = Some (c, who)" and "needed_fs name args = Some needed"
  shows "fs_allows (c_fs c) needed"
  using assms by (auto simp: implied_fs_denial_def current_caps_eq Let_def split: if_splits)

lemma sql_calls_db: "name = ''db.open'' \<or> name \<in> set sql_calls \<Longrightarrow> required name = Some UsesDb"
proof -
  assume "name = ''db.open'' \<or> name \<in> set sql_calls"
  then have "name \<in> set (''db.open'' # sql_calls)" by auto
  moreover have "list_all (\<lambda>n. required n = Some UsesDb) (''db.open'' # sql_calls)" by code_simp
  ultimately show ?thesis by (auto simp: list_all_iff)
qed

section \<open>Properties\<close>

text \<open>C21: the gates of a call are one policy, fail closed. A call that passes them all, made by code whose
  grant is \<open>c\<close> and not pre-granted at compile time, needs nothing \<open>c\<close> denies; is no effect inside a
  macro; reaches the file system through a database at most at the level \<open>c\<close> grants; and, when a module
  loaded at run time makes it, is within that module's scope.\<close>

theorem call_gate_sound:
  assumes "fst (call_gate F name args s) = Inr args'" and "\<not> pregranted s"
    and "fst (current_caps F s) = Some (c, who)"
  shows "permits c name \<and> \<not> (meta_mode s \<and> expansion_blocked name) \<and>
    (\<forall>needed. needed_fs name args = Some needed \<longrightarrow> fs_allows (c_fs c) needed) \<and>
    (\<forall>g. running_module F s = Some g \<and> (host_only name \<or> required name \<noteq> None) \<longrightarrow>
       scope_check F g name args = None)"
proof -
  have grant: "grant_of F s = Some (c, who)" using assms(3) by (simp add: grant_of_def)
  then have res: "restricted s" by (auto simp: grant_of_def current_caps_def split: if_splits)
  obtain d1 s1 where c1: "capability_denial F name s = (d1, s1)" by (cases "capability_denial F name s")
  obtain d2 args2 s2 where c2: "scope_gate F name args s1 = (d2, args2, s2)" by (metis prod_cases3)
  obtain d3 s3 where c3: "implied_fs_denial F name args2 s2 = (d3, s3)"
    by (cases "implied_fs_denial F name args2 s2")
  from assms(1) c1 c2 c3 have none: "d1 = None" "d2 = None" "expansion_denial name s2 = None" "d3 = None"
    by (auto simp: call_gate_def split: option.splits)
  have s1: "s1 = s \<or> s1 = looked_up F s"
    using c1 capability_denial_eq [OF assms(2)] by (auto split: if_splits)
  have s2: "s2 = s \<or> s2 = looked_up F s"
    using scope_gate_cases(1) [OF c2] s1 by auto
  have "permits c name"
    using c1 none(1) grant res capability_denial_eq [OF assms(2), of F name]
    by (auto simp: permits_def cap_check_def split: if_splits option.splits)
  moreover have "\<not> (meta_mode s \<and> expansion_blocked name)"
    using none(3) s2 by (auto simp: expansion_denial_def split: if_splits)
  moreover have "fs_allows (c_fs c) needed" if needed: "needed_fs name args = Some needed" for needed
  proof -
    have "required name = Some UsesDb"
      using needed sql_calls_db by (auto simp: needed_fs_def split: if_splits)
    then have "args2 = args" using scope_gate_cases(3) [OF c2] by simp
    moreover have "restricted s2" and "grant_of F s2 = Some (c, who)" using s2 res grant by auto
    ultimately show ?thesis using implied_fs_denial_none c3 none(4) needed by blast
  qed
  moreover have "scope_check F g name args = None"
    if "running_module F s = Some g" and "host_only name \<or> required name \<noteq> None" for g
    using scope_gate_cases(2) [OF c2, of g] none(2) that s1 by auto
  ultimately show ?thesis by blast
qed

text \<open>A host without a manifest that has loaded a plugin, and the plugin's code running.\<close>

definition plugin_gate :: "module_grant \<Rightarrow> gate" where
  "plugin_gate g =
     \<lparr>caps_table = None, modules = \<lparr>mods = [g], active = True\<rparr>, pregranted = False, meta_mode = False,
      file_stack = [Some ''/plugin/p.ol'', Some ''__embedded__/gg''], module_path = None, loading_stack = [],
      path_cache = Map.empty, caps_trace = None\<rparr>"

theorem call_gate_sound_witness:
  "scope_check demo_fs held_grant ''fs.write_file'' [VStr ''/work/a'', VStr ''text'' :: unit val] = None"
proof -
  have pass: "fst (call_gate demo_fs ''fs.write_file'' [VStr ''/work/a'', VStr ''text'' :: unit val] (plugin_gate held_grant)) =
      Inr [VStr ''/work/a'', VStr ''text'']"
    and who: "fst (current_caps demo_fs (plugin_gate held_grant)) = Some (caps_default, Some ''module:plugin'')"
    and mod: "running_module demo_fs (plugin_gate held_grant) = Some held_grant"
    and effect: "required ''fs.write_file'' = Some FsWrite"
    by code_simp+
  have "\<not> pregranted (plugin_gate held_grant)" by (simp add: plugin_gate_def)
  from call_gate_sound [OF pass this who] mod effect show ?thesis by simp
qed

text \<open>C22: nothing runs above the program. Under a manifest the grant of whatever code is running, a
  dependency's or a loaded module's, permits nothing the program's own grant does not.\<close>

theorem gate_within_app:
  assumes "caps_table s = Some T" and "(cap_table_build F0 dirs config :: 'o caps_error + cap_table) = Inr T"
    and "fst (current_caps F s) = Some (c, who)" and "permits c name"
  shows "permits (app T) name"
proof (cases "running_module F s")
  case (Some g)
  with grant_of_module [OF Some] assms(1,3) have "c = intersect (g_caps g) (app T)"
    by (auto simp: grant_of_def restricted_def)
  with assms(4) show ?thesis using grants.meet_shrinks by blast
next
  case None
  then have "caps_for T (running_file F s) = (c, who)"
    using assms(1,3)
    by (auto simp: current_caps_def current_canon_file_eq running_module_def restricted_def)
  with assms(4) show ?thesis using caps_for_within [OF build_table_ok [OF assms(2)]] by blast
qed

theorem gate_within_app_witness:
  "\<not> permits (fst (the (fst (current_caps demo_fs
      ((plugin_gate held_grant)\<lparr>caps_table := Some demo_table\<rparr>))))) ''http.get''"
proof -
  let ?s = "(plugin_gate held_grant)\<lparr>caps_table := Some demo_table\<rparr>"
  have table: "caps_table ?s = Some demo_table" by simp
  have build: "(cap_table_build demo_fs [''lib'' \<mapsto> ''/p/lib''] demo_config :: unit caps_error + cap_table) = Inr demo_table"
    and who: "fst (current_caps demo_fs ?s) = Some (caps_default\<lparr>c_net := False\<rparr>, Some ''module:plugin'')"
    and app: "\<not> permits (app demo_table) ''http.get''"
    by code_simp+
  from gate_within_app [OF table build who, of "''http.get''"] app who show ?thesis by auto
qed

text \<open>the language's own modules act for their caller: a call from one of them is attributed as a call
  from the code that called it, and never to itself.\<close>

theorem gate_transparent:
  assumes "is_transparent_file t"
  shows "gate_file (s\<lparr>file_stack := fs @ [Some t]\<rparr>) = gate_file (s\<lparr>file_stack := fs\<rparr>) \<and>
    gate_file s \<noteq> Some t"
proof -
  have "innermost_file fs' = Some p \<Longrightarrow> \<not> is_transparent_file p" for fs' p
    by (induction fs' rule: innermost_file.induct) (auto split: if_splits)
  with assms show ?thesis
    by (auto simp: gate_file_def dest: find_SomeD split: option.splits if_splits)
qed

theorem gate_transparent_witness:
  "gate_file (plugin_gate held_grant) = gate_file ((plugin_gate held_grant)\<lparr>file_stack := [Some ''/plugin/p.ol'']\<rparr>)"
proof -
  have "is_transparent_file ''__embedded__/gg''" by code_simp
  from gate_transparent [OF this, where s = "plugin_gate held_grant" and fs = "[Some ''/plugin/p.ol'']"]
  show ?thesis by (simp add: plugin_gate_def)
qed

text \<open>C24: an unloaded module's code can do nothing, manifest or not: every call of it that has an effect is
  stopped at the first gate, with the module's folder named.\<close>

theorem gate_stops_unloaded:
  assumes "reg_inv (modules s)" and "running_module F s = Some g" and "unloaded g"
    and "required name \<noteq> None" and "\<not> pregranted s"
  shows "fst (call_gate F name args s) = Inl (GateUnloaded (g_dir g) name)"
proof -
  have act: "active (modules s)" using assms(2) by (rule module_active)
  obtain u where u: "required name = Some u" using assms(4) by blast
  have "g \<in> set (mods (modules s))"
    using assms(2) by (auto simp: running_module_def module_for_def bind_eq_Some_conv dest: find_SomeD split: if_splits)
  with assms(1,3) have "tombstone g = g" by (auto simp: reg_inv_def list_all_iff grant_ok_def)
  then have "g_caps g = caps_none" using tombstone_fields(4) [of g] by simp
  then obtain c where grant: "grant_of F s = Some (c, Some (''unloaded:'' @ g_dir g))" and "\<not> permits c name"
    using grant_of_module [OF assms(2)] act assms(3) caps_none_denies [OF assms(4)] grants.permits_meet
    by (auto simp: restricted_def split: option.splits)
  then obtain cap where "cap_check c name = Some cap" by (auto simp: permits_def)
  with grant act assms(5) u show ?thesis
    by (simp add: call_gate_def capability_denial_eq denial_for_def restricted_def strip_prefix_def starts_with_def)
qed

theorem gate_stops_unloaded_witness:
  "fst (call_gate demo_fs ''http.get'' [VStr ''x'' :: unit val] (plugin_gate (tombstone held_grant))) =
    Inl (GateUnloaded ''/plugin'' ''http.get'')"
proof -
  let ?s = "plugin_gate (tombstone held_grant)"
  have "reg_inv (modules ?s)" by (simp add: plugin_gate_def reg_inv_def grant_ok_def)
  moreover have "running_module demo_fs ?s = Some (tombstone held_grant)"
    and "required ''http.get'' = Some UsesNet"
    by code_simp+
  ultimately have "fst (call_gate demo_fs ''http.get'' [VStr ''x'' :: unit val] ?s) =
      Inl (GateUnloaded (g_dir (tombstone held_grant)) ''http.get'')"
    by (intro gate_stops_unloaded) (simp_all add: plugin_gate_def)
  then show ?thesis by (simp add: held_grant_def demo_grant_def)
qed

lemma argv_head_pin:
  "argv_head (pin_argv F v) =
     map_option (\<lambda>p. with_default (pinned_program F p) p) (argv_head v)"
proof (cases "list_items v")
  case None
  then show ?thesis by (simp add: argv_head_def pin_argv_def)
next
  case (Some vs)
  show ?thesis
  proof (cases vs)
    case Nil
    with Some show ?thesis by (simp add: argv_head_def pin_argv_def)
  next
    case (Cons x xs)
    with Some show ?thesis
      by (cases "Option.bind (as_text x) (pinned_program F)"; cases "as_text x")
        (auto simp: argv_head_def pin_argv_def with_default_def)
  qed
qed

lemma list_items_pin: "(list_items (pin_argv F v) = None) = (list_items v = None)"
  by (auto simp: pin_argv_def split: option.splits list.splits)

lemma argv_heads_pin:
  "argv_heads name (pin_programs F name args) =
     map (map_option (\<lambda>p. with_default (pinned_program F p) p)) (argv_heads name args)"
proof (cases args)
  case (Cons v vs)
  show ?thesis
  proof (cases "list_items v")
    case None
    with Cons list_items_pin [of F v] show ?thesis by (simp add: argv_heads_def pin_programs_def)
  next
    case (Some stages)
    with list_items_pin [of F v] obtain stages' where "list_items (pin_argv F v) = Some stages'" by auto
    with Cons Some show ?thesis by (simp add: argv_heads_def pin_programs_def argv_head_pin)
  qed
qed (simp add: argv_heads_def pin_programs_def)

text \<open>C23: a plugin held to a list of programs starts those and no others, whatever PATH it hands its child:
  every program an argv of a call that passes names is, by then, either the file the host's own PATH
  finds for a name on the list, or a path the list allows.\<close>

theorem programs_pinned:
  assumes "scope_gate F name args s = (None, args', s')" and "running_module F s = Some g"
    and "proc_allow g = Some allow" and "\<not> unloaded g" and "required name = Some UsesProc"
    and "h \<in> set (argv_heads name args')"
  shows "\<exists>prog. h = Some prog \<and>
    ((\<exists>a \<in> set allow. find_on_own_path F a = Some prog) \<or> (has_slash prog \<and> program_allowed F allow prog))"
proof -
  have check: "scope_check F g name args = None" and args': "args' = pin_programs F name args"
    using scope_gate_cases(2) [OF assms(1,2)] assms(3,5) by auto
  let ?heads = "argv_heads name args"
  from assms(6) obtain h0 where h0: "h0 \<in> set ?heads"
      and h: "h = map_option (\<lambda>p. with_default (pinned_program F p) p) h0"
    by (auto simp: args' argv_heads_pin)
  then have "programs_of name x ?heads = ?heads" for x by (auto simp: programs_of_def)
  with check h0 assms(3-5) obtain p where p: "h0 = Some p" "program_allowed F allow p"
      "has_slash p \<or> pinned_program F p \<noteq> None"
    unfolding scope_check_def scope_denial_def
    by (auto simp: program_denial_none split: if_splits)
  show ?thesis
  proof (cases "has_slash p")
    case True
    with h p show ?thesis by (simp add: pinned_program_def with_default_def)
  next
    case False
    with p obtain f where "pinned_program F p = Some f" and "p \<in> set allow"
      by (auto simp: program_allowed_def)
    with h p(1) False show ?thesis
      by (auto simp: pinned_program_def with_default_def split: if_splits)
  qed
qed

definition path_fs :: file_sys where
  "path_fs = demo_fs\<lparr>executable := (\<lambda>p. p = ''/usr/bin/olang'')\<rparr>"

theorem programs_pinned_witness:
  "argv_heads ''os.exec'' (fst (snd (scope_gate path_fs ''os.exec'' [VList [VStr ''olang'', VStr ''test'' :: unit val]]
      (plugin_gate held_grant)))) = [Some ''/usr/bin/olang'']"
proof -
  let ?args = "[VList [VStr ''olang'', VStr ''test'' :: unit val]]"
  let ?out = "scope_gate path_fs ''os.exec'' ?args (plugin_gate held_grant)"
  have pass: "fst ?out = None" and mod: "running_module path_fs (plugin_gate held_grant) = Some held_grant"
    and heads: "map (map_option has_slash) (argv_heads ''os.exec'' (fst (snd ?out))) = [Some True]"
    and found: "find_on_own_path path_fs ''olang'' = Some ''/usr/bin/olang''"
    and effect: "required ''os.exec'' = Some UsesProc"
    by code_simp+
  have out: "scope_gate path_fs ''os.exec'' ?args (plugin_gate held_grant) = (None, fst (snd ?out), snd (snd ?out))"
    using pass by (simp add: prod_eq_iff)
  have grant: "proc_allow held_grant = Some [''olang'']" "\<not> unloaded held_grant"
    by (simp_all add: held_grant_def demo_grant_def)
  obtain h where h: "argv_heads ''os.exec'' (fst (snd ?out)) = [Some h]"
    using heads by auto
  from programs_pinned [OF out mod grant effect, of "Some h"] h found
  have "h = ''/usr/bin/olang'' \<or> program_allowed path_fs [''olang''] h" by auto
  moreover have "fst (snd ?out) = [VList [VStr ''/usr/bin/olang'', VStr ''test'']]" by code_simp
  ultimately show ?thesis using h by (simp add: argv_heads_def argv_head_def)
qed

lemma call_gate_passes:
  assumes "\<not> pregranted s" and "\<not> meta_mode s" and "fst (current_caps F s) = Some (c, who)"
    and "permits c name" and "c_fs c = FsFull" and "required name \<noteq> Some UsesProc"
  shows "fst (call_gate F name args s) = Inr args \<longleftrightarrow> fst (scope_gate F name args s) = None"
proof -
  have g: "grant_of F s = Some (c, who)" using assms(3) by (simp add: grant_of_def)
  have "cap_check c name = None" using assms(4) by (simp add: permits_def)
  then have cap: "fst (capability_denial F name s) = None" using assms(1) g by (simp add: capability_denial_eq)
  have s1: "snd (capability_denial F name s) \<in> {s, looked_up F s}" using assms(1) by (simp add: capability_denial_eq)
  have same: "fst (scope_gate F name args (looked_up F s)) = fst (scope_gate F name args s)"
    by (auto simp: scope_gate_def current_module_grant_eq split: option.splits)
  obtain d2 args2 s2 where c2: "scope_gate F name args (snd (capability_denial F name s)) = (d2, args2, s2)"
    by (metis prod_cases3)
  have d2: "d2 = fst (scope_gate F name args s)" using s1 c2 same by auto
  have args2: "args2 = args" using scope_gate_cases(3) [OF c2] assms(6) by simp
  have "s2 \<in> {s, looked_up F s}" using s1 scope_gate_cases(1) [OF c2] by auto
  then have s2: "\<not> meta_mode s2" "grant_of F s2 = Some (c, who)" using assms(2) g by auto
  have all: "fs_allows FsFull l" for l by (cases l) (simp_all add: fs_allows_def)
  have "fst (implied_fs_denial F name args s2) = None"
    using s2(2) assms(5) all by (auto simp: implied_fs_denial_def current_caps_eq Let_def split: option.splits)
  with cap c2 d2 args2 s2(1) show ?thesis
    by (auto simp: call_gate_def expansion_denial_def split_beta Let_def split: option.splits)
qed

lemma scope_gate_fs:
  assumes "running_module F s = Some g" and "\<not> unloaded g" and "fs_roots g = Some roots"
    and "required name = Some FsRead \<or> required name = Some FsWrite" and "\<not> host_only name"
  shows "fst (scope_gate F name args s) = None \<longleftrightarrow>
    (\<forall>p \<in> set (somes (take (if two_paths name then 2 else 1) (map as_text args))).
       \<exists>r \<in> set roots. path_under r (gate_path F p))"
proof -
  obtain d args' s' where c: "scope_gate F name args s = (d, args', s')" by (metis prod_cases3)
  have "required name \<noteq> None" using assms(4) by auto
  then have "d = scope_check F g name args" using scope_gate_cases(2) [OF c assms(1)] by simp
  then show ?thesis using c assms(2-5) by (auto simp: scope_check_def scope_exact)
qed

lemma scope_gate_db:
  assumes "required name = Some UsesDb" and "\<not> host_only name" and "\<And>g. running_module F s = Some g \<Longrightarrow> \<not> unloaded g"
  shows "fst (scope_gate F name args s) = None"
  using assms
  by (auto simp: scope_gate_def current_module_grant_eq scope_check_def scope_denial_def split: option.splits)

text \<open>C34: two ways out of a plugin's folders. Take a running module held to some folders, with full use of the
  file system otherwise and of databases, past compilation and outside a macro. Its \<open>fs.write_file(p, v)\<close>
  passes the gates exactly when \<open>p\<close>, links resolved, lies under one of the folders. Its
  \<open>ods.write_csv(x, p)\<close>, for any \<open>x\<close> that is not a string, and its \<open>db.open(p)\<close> pass whatever \<open>p\<close> is; and
  so, as far as the scope gate goes, does any call that needs the file system, is none of the host's own
  and has a first argument that is not a string, a copy or a move apart.\<close>

theorem scope_escapes:
  fixes v :: "'o val" and x :: "'o val"
  assumes "running_module F s = Some g" and "\<not> unloaded g" and "fs_roots g = Some roots"
    and "\<not> pregranted s" and "\<not> meta_mode s"
    and "fst (current_caps F s) = Some (c, who)" and "c_fs c = FsFull" and "c_db c"
  shows "(fst (call_gate F ''fs.write_file'' [VStr p, v] s) = Inr [VStr p, v] \<longleftrightarrow>
      (\<exists>r \<in> set roots. path_under r (gate_path F p))) \<and>
    (as_text x = None \<longrightarrow> fst (call_gate F ''ods.write_csv'' [x, VStr p] s) = Inr [x, VStr p]) \<and>
    fst (call_gate F ''db.open'' [VStr p :: 'o val] s) = Inr [VStr p] \<and>
    (\<forall>name rest. (required name = Some FsRead \<or> required name = Some FsWrite) \<and> \<not> host_only name \<and>
       \<not> two_paths name \<and> as_text x = None \<longrightarrow> fst (scope_gate F name (x # rest) s) = None)"
proof -
  have facts: "required ''fs.write_file'' = Some FsWrite" "\<not> host_only ''fs.write_file''" "\<not> two_paths ''fs.write_file''"
      "required ''ods.write_csv'' = Some FsWrite" "\<not> host_only ''ods.write_csv''" "\<not> two_paths ''ods.write_csv''"
      "required ''db.open'' = Some UsesDb" "\<not> host_only ''db.open''"
    by code_simp+
  have may: "permits c ''fs.write_file''" "permits c ''ods.write_csv''" "permits c ''db.open''"
    using assms(7,8) facts by (simp_all add: permits_def cap_check_def)
  have named: "somes [Some y] = [y]" "somes [None] = ([] :: string list)" for y :: string
    by (simp_all add: somes_def List.map_filter_def)
  note gate = call_gate_passes [OF assms(4-6) _ assms(7)] and fs = scope_gate_fs [OF assms(1-3)]
  show ?thesis
    using facts may scope_gate_db [of "''db.open''" F s "[VStr p]"] assms(1,2) by (auto simp: gate fs named)
qed

theorem scope_escapes_witness:
  "fst (call_gate demo_fs ''fs.write_file'' [VStr ''/etc/x'', VStr ''text'' :: unit val] (plugin_gate held_grant)) \<noteq>
     Inr [VStr ''/etc/x'', VStr ''text''] \<and>
   fst (call_gate demo_fs ''ods.write_csv'' [VUnit, VStr ''/etc/x'' :: unit val] (plugin_gate held_grant)) =
     Inr [VUnit, VStr ''/etc/x''] \<and>
   fst (call_gate demo_fs ''db.open'' [VStr ''/etc/x'' :: unit val] (plugin_gate held_grant)) = Inr [VStr ''/etc/x'']"
proof -
  have run: "running_module demo_fs (plugin_gate held_grant) = Some held_grant"
    and who: "fst (current_caps demo_fs (plugin_gate held_grant)) = Some (caps_default, Some ''module:plugin'')"
    and out: "\<not> path_under ''/work'' (gate_path demo_fs ''/etc/x'')"
    by code_simp+
  have "\<not> unloaded held_grant" "fs_roots held_grant = Some [''/work'']"
    "\<not> pregranted (plugin_gate held_grant)" "\<not> meta_mode (plugin_gate held_grant)"
    by (simp_all add: held_grant_def demo_grant_def plugin_gate_def)
  from scope_escapes [OF run this who, of "''/etc/x''" "VStr ''text'' :: unit val" VUnit] out
  show ?thesis by (simp add: caps_default_def)
qed

end
