(* ===== verification/Patterns.thy ===== *)
theory Patterns
  imports Values
begin

text \<open>
  Pattern matching (\<open>src/interpreter/patterns.rs\<close>) and the choice of a \<open>match\<close>'s arm
  (\<open>interpreter/mod.rs\<close>). Parameters: the declared unit variants and how a bare name is looked up
  (\<open>variants\<close>, \<open>peek\<close>: the interpreter's tables), and how a guard and an arm evaluate.
\<close>

section \<open>Patterns\<close>

text \<open>\<open>'g\<close> is a guard's expression.\<close>

datatype ('o, 'g) pat =
  PLiteral "'o val"
| PIdent string
| PWildcard
| PList "('o, 'g) pat list" "string option"
| PTuple "('o, 'g) pat list"
| POk "('o, 'g) pat"
| PErr "('o, 'g) pat"
| PVariant string "('o, 'g) pat list"
| PStruct string "(string \<times> ('o, 'g) pat) list"
| PRecord "(string \<times> ('o, 'g) pat) list"
| PRange "('o, 'g) pat" "('o, 'g) pat" bool
| POr "('o, 'g) pat list"
| PGuarded "('o, 'g) pat" 'g
| PRest string

definition unit_variant :: "string set \<Rightarrow> (string \<Rightarrow> 'o val option) \<Rightarrow> string \<Rightarrow> 'o val option" where
  "unit_variant variants peek name =
     (if name \<in> variants then
        (case peek name of Some (VEnum t n DUnit) \<Rightarrow> Some (VEnum t n DUnit) | _ \<Rightarrow> None)
      else None)"

fun int_literal :: "('o, 'g) pat \<Rightarrow> int option" where
  "int_literal (PLiteral (VInt n)) = Some n"
| "int_literal _ = None"

text \<open>The first character of a bound; the null character for an empty one.\<close>

fun char_literal :: "('o, 'g) pat \<Rightarrow> char option" where
  "char_literal (PLiteral (VStr s)) = Some (case s of [] \<Rightarrow> CHR 0x00 | c # _ \<Rightarrow> c)"
| "char_literal _ = None"

definition in_range :: "'a::linorder \<Rightarrow> 'a \<Rightarrow> bool \<Rightarrow> 'a \<Rightarrow> bool" where
  "in_range lo hi inclusive x \<longleftrightarrow> (if inclusive then lo \<le> x \<and> x \<le> hi else lo \<le> x \<and> x < hi)"

definition range_matches :: "('o, 'g) pat \<Rightarrow> ('o, 'g) pat \<Rightarrow> bool \<Rightarrow> 'o val \<Rightarrow> bool" where
  "range_matches lo hi inclusive v =
     (case v of
        VInt n \<Rightarrow>
          (case (int_literal lo, int_literal hi) of (Some a, Some b) \<Rightarrow> in_range a b inclusive n | _ \<Rightarrow> False)
      | VStr s \<Rightarrow>
          (case (char_literal lo, char_literal hi) of
             (Some a, Some b) \<Rightarrow> (case s of [c] \<Rightarrow> in_range a b inclusive c | _ \<Rightarrow> False)
           | _ \<Rightarrow> False)
      | _ \<Rightarrow> False)"

text \<open>The values a pattern's parts are matched against in turn, when the value has its shape.\<close>

definition as_items :: "'o val \<Rightarrow> 'o val list option" where
  "as_items v = (case v of VTuple xs \<Rightarrow> Some xs | VList xs \<Rightarrow> Some xs | _ \<Rightarrow> None)"

definition variant_items :: "string \<Rightarrow> 'o val \<Rightarrow> 'o val list option" where
  "variant_items name v =
     (case v of
        VEnum _ n d \<Rightarrow>
          if name \<noteq> n then None
          else (case d of
                  DUnit \<Rightarrow> Some []
                | DTuple xs \<Rightarrow> Some xs
                | DStruct fields \<Rightarrow> Some (map snd (sort_key fst fields)))
      | VTuple xs \<Rightarrow> Some xs
      | _ \<Rightarrow> None)"

text \<open>
  The matcher. Bindings are inserted as it goes, so a match that fails leaves those it made; an
  alternative's are kept apart until it matches.
\<close>

function (sequential) match_bind ::
  "string set \<Rightarrow> (string \<Rightarrow> 'o val option) \<Rightarrow> ('o, 'g) pat \<Rightarrow> 'o val \<Rightarrow> 'o vmap \<Rightarrow> bool \<times> 'o vmap"
and match_all ::
  "string set \<Rightarrow> (string \<Rightarrow> 'o val option) \<Rightarrow> ('o, 'g) pat list \<Rightarrow> 'o val list \<Rightarrow> 'o vmap \<Rightarrow> bool \<times> 'o vmap"
and match_fields ::
  "string set \<Rightarrow> (string \<Rightarrow> 'o val option) \<Rightarrow> (string \<times> ('o, 'g) pat) list \<Rightarrow> 'o vmap \<Rightarrow> 'o vmap \<Rightarrow> bool \<times> 'o vmap"
and match_alts ::
  "string set \<Rightarrow> (string \<Rightarrow> 'o val option) \<Rightarrow> ('o, 'g) pat list \<Rightarrow> 'o val \<Rightarrow> 'o vmap \<Rightarrow> bool \<times> 'o vmap" where
  "match_bind variants peek (PLiteral lit) v b = (val_eq lit v, b)"
| "match_bind variants peek (PIdent name) v b =
     (case unit_variant variants peek name of
        Some variant \<Rightarrow> (val_eq variant v, b)
      | None \<Rightarrow> (True, ix_put name v b))"
| "match_bind variants peek PWildcard v b = (True, b)"
| "match_bind variants peek (PList ps rest) v b =
     (case v of
        VList vs \<Rightarrow>
          (case rest of
             Some name \<Rightarrow>
               if length ps > length vs then (False, b)
               else (case match_all variants peek ps vs b of
                       (False, b') \<Rightarrow> (False, b')
                     | (True, b') \<Rightarrow> (True, ix_put name (VList (drop (length ps) vs)) b'))
           | None \<Rightarrow> if length ps \<noteq> length vs then (False, b) else match_all variants peek ps vs b)
      | _ \<Rightarrow> (False, b))"
| "match_bind variants peek (PTuple ps) v b =
     (case as_items v of
        Some vs \<Rightarrow> if length ps \<noteq> length vs then (False, b) else match_all variants peek ps vs b
      | None \<Rightarrow> (False, b))"
| "match_bind variants peek (POk p) v b =
     (case v of VOk x \<Rightarrow> match_bind variants peek p x b | _ \<Rightarrow> (False, b))"
| "match_bind variants peek (PErr p) v b =
     (case v of VErr x \<Rightarrow> match_bind variants peek p x b | _ \<Rightarrow> (False, b))"
| "match_bind variants peek (PVariant name ps) v b =
     (case variant_items name v of
        Some vs \<Rightarrow> if length ps \<noteq> length vs then (False, b) else match_all variants peek ps vs b
      | None \<Rightarrow> (False, b))"
| "match_bind variants peek (PStruct _ fps) v b =
     (case v of VStruct _ fields \<Rightarrow> match_fields variants peek fps fields b | _ \<Rightarrow> (False, b))"
| "match_bind variants peek (PRecord fps) v b =
     (case v of
        VStruct _ fields \<Rightarrow> match_fields variants peek fps fields b
      | VMap fields \<Rightarrow> match_fields variants peek fps fields b
      | _ \<Rightarrow> (False, b))"
| "match_bind variants peek (PRange lo hi inclusive) v b = (range_matches lo hi inclusive v, b)"
| "match_bind variants peek (POr alts) v b = match_alts variants peek alts v b"
| "match_bind variants peek (PGuarded p _) v b = match_bind variants peek p v b"
| "match_bind variants peek (PRest _) v b = (False, b)"
| "match_all variants peek [] vs b = (True, b)"
| "match_all variants peek (p # ps) vs b =
     (case vs of
        [] \<Rightarrow> (True, b)
      | v # vs \<Rightarrow>
          (case match_bind variants peek p v b of
             (False, b') \<Rightarrow> (False, b')
           | (True, b') \<Rightarrow> match_all variants peek ps vs b'))"
| "match_fields variants peek [] fields b = (True, b)"
| "match_fields variants peek ((name, p) # fps) fields b =
     (case map_of fields name of
        None \<Rightarrow> (False, b)
      | Some v \<Rightarrow>
          (case match_bind variants peek p v b of
             (False, b') \<Rightarrow> (False, b')
           | (True, b') \<Rightarrow> match_fields variants peek fps fields b'))"
| "match_alts variants peek [] v b = (False, b)"
| "match_alts variants peek (p # ps) v b =
     (case match_bind variants peek p v [] of
        (True, b') \<Rightarrow> (True, fold (\<lambda>(k, x). ix_put k x) b' b)
      | (False, _) \<Rightarrow> match_alts variants peek ps v b)"
  by pat_completeness auto
termination
  by (relation "measure (\<lambda>x. case x of
      Inl (Inl (_, _, p, _)) \<Rightarrow> size_pat (\<lambda>_. 0) (\<lambda>_. 0) p
    | Inl (Inr (_, _, ps, _)) \<Rightarrow> size_list (size_pat (\<lambda>_. 0) (\<lambda>_. 0)) ps
    | Inr (Inl (_, _, fps, _)) \<Rightarrow> size_list (size_prod (\<lambda>_. 0) (size_pat (\<lambda>_. 0) (\<lambda>_. 0))) fps
    | Inr (Inr (_, _, ps, _)) \<Rightarrow> size_list (size_pat (\<lambda>_. 0) (\<lambda>_. 0)) ps)") auto

section \<open>The arms of a match\<close>

record ('o, 'g, 'e) arm =
  a_pattern :: "('o, 'g) pat"
  a_guard :: "'g option"
  a_body :: 'e

datatype match_error = PatternMatchFailed | GuardError ierr

text \<open>
  The arm taken and the bindings its scope starts with. \<open>guard b g\<close> is the guard's value in a scope
  with the bindings, as a truth value or an error.
\<close>

fun select_arm ::
  "string set \<Rightarrow> (string \<Rightarrow> 'o val option) \<Rightarrow> ('o vmap \<Rightarrow> 'g \<Rightarrow> ierr + bool) \<Rightarrow> 'o val \<Rightarrow>
     ('o, 'g, 'e) arm list \<Rightarrow> match_error + 'e \<times> 'o vmap" where
  "select_arm variants peek guard v [] = Inl PatternMatchFailed"
| "select_arm variants peek guard v (a # arms) =
     (case match_bind variants peek (a_pattern a) v [] of
        (False, _) \<Rightarrow> select_arm variants peek guard v arms
      | (True, b) \<Rightarrow>
          (case (case a_guard a of None \<Rightarrow> Inr True | Some g \<Rightarrow> guard b g) of
             Inl e \<Rightarrow> Inl (GuardError e)
           | Inr True \<Rightarrow> Inr (a_body a, b)
           | Inr False \<Rightarrow> select_arm variants peek guard v arms))"

end
