(* ===== verification/PatternLaws.thy ===== *)
theory PatternLaws
  imports Patterns
begin

text \<open>
  What a match means. A pattern describes a value under an assignment of values to names; matching
  succeeds exactly when some assignment exists and binds one, for patterns that bind no name twice and
  whose alternatives bind the same names. A \<open>match\<close> takes the first arm that fits.
\<close>

section \<open>The specification\<close>

text \<open>The names a pattern binds, with repetitions; an alternative's are the first one's.\<close>

fun pat_vars :: "string set \<Rightarrow> (string \<Rightarrow> 'o val option) \<Rightarrow> ('o, 'g) pat \<Rightarrow> string list" where
  "pat_vars variants peek (PIdent name) = (if unit_variant variants peek name = None then [name] else [])"
| "pat_vars variants peek (PList ps rest) =
     concat (map (pat_vars variants peek) ps) @ (case rest of Some name \<Rightarrow> [name] | None \<Rightarrow> [])"
| "pat_vars variants peek (PTuple ps) = concat (map (pat_vars variants peek) ps)"
| "pat_vars variants peek (POk p) = pat_vars variants peek p"
| "pat_vars variants peek (PErr p) = pat_vars variants peek p"
| "pat_vars variants peek (PVariant _ ps) = concat (map (pat_vars variants peek) ps)"
| "pat_vars variants peek (PStruct _ fps) = concat (map (\<lambda>(_, p). pat_vars variants peek p) fps)"
| "pat_vars variants peek (PRecord fps) = concat (map (\<lambda>(_, p). pat_vars variants peek p) fps)"
| "pat_vars variants peek (POr alts) = (case alts of [] \<Rightarrow> [] | p # _ \<Rightarrow> pat_vars variants peek p)"
| "pat_vars variants peek (PGuarded p _) = pat_vars variants peek p"
| "pat_vars variants peek _ = []"

text \<open>No name twice, and every alternative the same names.\<close>

fun pat_ok :: "string set \<Rightarrow> (string \<Rightarrow> 'o val option) \<Rightarrow> ('o, 'g) pat \<Rightarrow> bool" where
  "pat_ok variants peek (PList ps rest) =
     (distinct (pat_vars variants peek (PList ps rest)) \<and> list_all (pat_ok variants peek) ps)"
| "pat_ok variants peek (PTuple ps) =
     (distinct (pat_vars variants peek (PTuple ps)) \<and> list_all (pat_ok variants peek) ps)"
| "pat_ok variants peek (POk p) = pat_ok variants peek p"
| "pat_ok variants peek (PErr p) = pat_ok variants peek p"
| "pat_ok variants peek (PVariant name ps) =
     (distinct (pat_vars variants peek (PVariant name ps)) \<and> list_all (pat_ok variants peek) ps)"
| "pat_ok variants peek (PStruct t fps) =
     (distinct (pat_vars variants peek (PStruct t fps)) \<and> list_all (\<lambda>(_, p). pat_ok variants peek p) fps)"
| "pat_ok variants peek (PRecord fps) =
     (distinct (pat_vars variants peek (PRecord fps)) \<and> list_all (\<lambda>(_, p). pat_ok variants peek p) fps)"
| "pat_ok variants peek (POr alts) =
     list_all (\<lambda>p. pat_ok variants peek p \<and> set (pat_vars variants peek p) = set (pat_vars variants peek (POr alts))) alts"
| "pat_ok variants peek (PGuarded p _) = pat_ok variants peek p"
| "pat_ok variants peek _ = True"

text \<open>A pattern describes a value when its names stand for \<open>\<sigma>\<close>'s values.\<close>

fun describes ::
  "string set \<Rightarrow> (string \<Rightarrow> 'o val option) \<Rightarrow> (string \<Rightarrow> 'o val option) \<Rightarrow> ('o, 'g) pat \<Rightarrow> 'o val \<Rightarrow> bool" where
  "describes variants peek \<sigma> (PLiteral lit) v = val_eq lit v"
| "describes variants peek \<sigma> (PIdent name) v =
     (case unit_variant variants peek name of Some variant \<Rightarrow> val_eq variant v | None \<Rightarrow> \<sigma> name = Some v)"
| "describes variants peek \<sigma> PWildcard v = True"
| "describes variants peek \<sigma> (PList ps rest) v =
     (\<exists>vs. v = VList vs \<and>
        (case rest of
           None \<Rightarrow> list_all2 (describes variants peek \<sigma>) ps vs
         | Some name \<Rightarrow> \<exists>us ws. vs = us @ ws \<and> list_all2 (describes variants peek \<sigma>) ps us \<and> \<sigma> name = Some (VList ws)))"
| "describes variants peek \<sigma> (PTuple ps) v =
     (\<exists>vs. as_items v = Some vs \<and> list_all2 (describes variants peek \<sigma>) ps vs)"
| "describes variants peek \<sigma> (POk p) v = (\<exists>x. v = VOk x \<and> describes variants peek \<sigma> p x)"
| "describes variants peek \<sigma> (PErr p) v = (\<exists>x. v = VErr x \<and> describes variants peek \<sigma> p x)"
| "describes variants peek \<sigma> (PVariant name ps) v =
     (\<exists>vs. variant_items name v = Some vs \<and> list_all2 (describes variants peek \<sigma>) ps vs)"
| "describes variants peek \<sigma> (PStruct _ fps) v =
     (\<exists>t fields. v = VStruct t fields \<and>
        list_all (\<lambda>(name, p). \<exists>x. map_of fields name = Some x \<and> describes variants peek \<sigma> p x) fps)"
| "describes variants peek \<sigma> (PRecord fps) v =
     (\<exists>fields. (v = VMap fields \<or> (\<exists>t. v = VStruct t fields)) \<and>
        list_all (\<lambda>(name, p). \<exists>x. map_of fields name = Some x \<and> describes variants peek \<sigma> p x) fps)"
| "describes variants peek \<sigma> (PRange lo hi inclusive) v =
     ((\<exists>a b n. lo = PLiteral (VInt a) \<and> hi = PLiteral (VInt b) \<and> v = VInt n \<and> a \<le> n \<and> (n < b \<or> inclusive \<and> n = b)) \<or>
      (\<exists>s t c. lo = PLiteral (VStr s) \<and> hi = PLiteral (VStr t) \<and> v = VStr [c] \<and> hd (s @ [CHR 0x00]) \<le> c \<and>
         (c < hd (t @ [CHR 0x00]) \<or> inclusive \<and> c = hd (t @ [CHR 0x00]))))"
| "describes variants peek \<sigma> (POr alts) v = list_ex (\<lambda>p. describes variants peek \<sigma> p v) alts"
| "describes variants peek \<sigma> (PGuarded p _) v = describes variants peek \<sigma> p v"
| "describes variants peek \<sigma> (PRest _) v = False"

text \<open>The matcher's ranges are those.\<close>

lemma int_literal_iff: "int_literal p = Some n \<longleftrightarrow> p = PLiteral (VInt n)"
  by (induction p rule: int_literal.induct) auto

lemma char_literal_iff: "char_literal p = Some c \<longleftrightarrow> (\<exists>s. p = PLiteral (VStr s) \<and> c = hd (s @ [CHR 0x00]))"
  by (induction p rule: char_literal.induct) (auto split: list.splits)

lemma range_exact [simp]:
  "range_matches lo hi inclusive v \<longleftrightarrow> describes {} (\<lambda>_. None) (\<lambda>_. None) (PRange lo hi inclusive) v"
proof (cases v)
  case (VInt n)
  then show ?thesis
    by (auto simp: range_matches_def in_range_def int_literal_iff split: option.splits)
next
  case (VStr s)
  then show ?thesis
    by (auto simp: range_matches_def in_range_def char_literal_iff split: option.splits list.splits)
qed (simp_all add: range_matches_def)

section \<open>What a match binds\<close>

lemma map_of_rev: "ix_ok b \<Longrightarrow> map_of (rev b) = map_of b"
  by (subst map_of_inject_set) (simp_all add: ix_ok_def rev_map [symmetric])

lemma get_merge:
  "ix_ok b' \<Longrightarrow> map_of (fold (\<lambda>(k, x). ix_put k x) b' b) = map_of b ++ map_of b'"
  by (simp add: ix.get_fold_put map_of_rev)

definition binds :: "string set \<Rightarrow> 'o vmap \<Rightarrow> 'o vmap \<Rightarrow> bool" where
  "binds V b b' \<longleftrightarrow>
     (ix_ok b \<longrightarrow> ix_ok b') \<and> dom (map_of b') = dom (map_of b) \<union> V \<and> (\<forall>x. x \<notin> V \<longrightarrow> map_of b' x = map_of b x)"

lemma binds_refl [simp]: "binds {} b b"
  by (simp add: binds_def)

lemma binds_put [simp]: "binds {x} b (ix_put x v b)"
  by (auto simp: binds_def ix.get_put ix.ok_put)

lemma binds_trans: "binds V b b' \<Longrightarrow> binds W b' b'' \<Longrightarrow> binds (V \<union> W) b b''"
  by (auto simp: binds_def)

lemma binds_merge: "binds V [] b' \<Longrightarrow> binds V b (fold (\<lambda>(k, x). ix_put k x) b' b)"
  by (auto simp: binds_def get_merge ix.ok_nil ix.ok_fold_put map_add_def split: option.splits)

abbreviation agrees :: "(string \<Rightarrow> 'o val option) \<Rightarrow> string set \<Rightarrow> 'o vmap \<Rightarrow> bool" where
  "agrees \<sigma> V b \<equiv> \<forall>x \<in> V. \<sigma> x = map_of b x"

lemma agrees_later: "binds W b b' \<Longrightarrow> V \<inter> W = {} \<Longrightarrow> agrees \<sigma> V b' \<Longrightarrow> agrees \<sigma> V b"
  by (auto simp: binds_def)

lemma match_sound:
  fixes p :: "('o, 'g) pat" and ps qs :: "('o, 'g) pat list" and fps :: "(string \<times> ('o, 'g) pat) list"
  shows "match_bind variants peek p v b = (True, b') \<Longrightarrow> pat_ok variants peek p \<Longrightarrow>
      binds (set (pat_vars variants peek p)) b b' \<and>
      (\<forall>\<sigma>. agrees \<sigma> (set (pat_vars variants peek p)) b' \<longrightarrow> describes variants peek \<sigma> p v)"
    and "match_all variants peek ps vs b = (True, b') \<Longrightarrow> length ps \<le> length vs \<Longrightarrow>
      distinct (concat (map (pat_vars variants peek) ps)) \<Longrightarrow> list_all (pat_ok variants peek) ps \<Longrightarrow>
      binds (set (concat (map (pat_vars variants peek) ps))) b b' \<and>
      (\<forall>\<sigma>. agrees \<sigma> (set (concat (map (pat_vars variants peek) ps))) b' \<longrightarrow>
        list_all2 (describes variants peek \<sigma>) ps (take (length ps) vs))"
    and "match_fields variants peek fps fs b = (True, b') \<Longrightarrow>
      distinct (concat (map (\<lambda>(_, p). pat_vars variants peek p) fps)) \<Longrightarrow>
      list_all (\<lambda>(_, p). pat_ok variants peek p) fps \<Longrightarrow>
      binds (set (concat (map (\<lambda>(_, p). pat_vars variants peek p) fps))) b b' \<and>
      (\<forall>\<sigma>. agrees \<sigma> (set (concat (map (\<lambda>(_, p). pat_vars variants peek p) fps))) b' \<longrightarrow>
        list_all (\<lambda>(name, p). \<exists>x. map_of fs name = Some x \<and> describes variants peek \<sigma> p x) fps)"
    and "match_alts variants peek qs v b = (True, b') \<Longrightarrow>
      list_all (\<lambda>p. pat_ok variants peek p \<and> set (pat_vars variants peek p) = V) qs \<Longrightarrow>
      binds V b b' \<and> (\<forall>\<sigma>. agrees \<sigma> V b' \<longrightarrow> list_ex (\<lambda>p. describes variants peek \<sigma> p v) qs)"
proof (induction variants peek p v b and variants peek ps vs b and variants peek fps fs b and variants peek qs v b
    arbitrary: b' and b' and b' and b' V rule: match_bind_match_all_match_fields_match_alts.induct)
  case (2 variants peek name v b)
  then show ?case by (auto simp: ix.get_put split: option.splits)
next
  case (4 variants peek ps rest v b)
  obtain vs where v: "v = VList vs" using "4.prems" by (cases v) auto
  show ?case
  proof (cases rest)
    case None
    then show ?thesis using "4.prems" "4.IH"(1) [OF v None] v None by (auto split: if_splits)
  next
    case (Some name)
    let ?V = "set (concat (map (pat_vars variants peek) ps))"
    obtain b1 where b1: "match_all variants peek ps vs b = (True, b1)" "length ps \<le> length vs"
        "b' = ix_put name (VList (drop (length ps) vs)) b1"
      using "4.prems" v Some by (auto split: if_splits prod.splits bool.splits)
    have ok: "name \<notin> ?V" "distinct (concat (map (pat_vars variants peek) ps))" "list_all (pat_ok variants peek) ps"
      using "4.prems"(2) Some by auto
    have IH: "binds ?V b b1" "\<forall>\<sigma>. agrees \<sigma> ?V b1 \<longrightarrow> list_all2 (describes variants peek \<sigma>) ps (take (length ps) vs)"
      using "4.IH"(2) [OF v Some _ b1(1) b1(2) ok(2,3)] b1(2) by auto
    have "binds (?V \<union> {name}) b b'" using binds_trans [OF IH(1) binds_put] b1(3) by simp
    moreover have "describes variants peek \<sigma> (PList ps rest) v" if "agrees \<sigma> (?V \<union> {name}) b'" for \<sigma>
    proof -
      have "agrees \<sigma> ?V b1" using that ok(1) b1(3) by (auto simp: ix.get_put)
      then have "list_all2 (describes variants peek \<sigma>) ps (take (length ps) vs)" using IH(2) by blast
      moreover have "\<sigma> name = Some (VList (drop (length ps) vs))" using that b1(3) by (simp add: ix.get_put)
      moreover have "vs = take (length ps) vs @ drop (length ps) vs" by simp
      ultimately show ?thesis using v Some by (simp del: append_take_drop_id) blast
    qed
    ultimately show ?thesis using Some by simp
  qed
next
  case (5 variants peek ps v b)
  then obtain vs where "as_items v = Some vs" "length ps = length vs" by (auto split: option.splits if_splits)
  then show ?case using 5 by auto
next
  case (6 variants peek p v b)
  then show ?case by (cases v) auto
next
  case (7 variants peek p v b)
  then show ?case by (cases v) auto
next
  case (8 variants peek name ps v b)
  then obtain vs where "variant_items name v = Some vs" "length ps = length vs" by (auto split: option.splits if_splits)
  then show ?case using 8 by auto
next
  case (9 variants peek t fps v b)
  then show ?case by (cases v) auto
next
  case (10 variants peek fps v b)
  then show ?case by (cases v) auto
next
  case (12 variants peek alts v b)
  then show ?case by (auto simp del: pat_vars.simps)
next
  case (16 variants peek p ps vs b)
  obtain v ws where vs: "vs = v # ws" using "16.prems"(2) by (cases vs) auto
  obtain b1 where b1: "match_bind variants peek p v b = (True, b1)" "match_all variants peek ps ws b1 = (True, b')"
    using "16.prems"(1) vs by (auto split: prod.splits bool.splits)
  let ?V = "set (pat_vars variants peek p)" and ?W = "set (concat (map (pat_vars variants peek) ps))"
  have head: "binds ?V b b1" "\<And>\<sigma>. agrees \<sigma> ?V b1 \<Longrightarrow> describes variants peek \<sigma> p v"
    using "16.IH"(1) [OF vs b1(1)] "16.prems"(4) by auto
  have tail: "binds ?W b1 b'" "\<And>\<sigma>. agrees \<sigma> ?W b' \<Longrightarrow> list_all2 (describes variants peek \<sigma>) ps (take (length ps) ws)"
    using "16.IH"(2) [OF vs b1(1)[symmetric] refl b1(2)] "16.prems"(2-4) vs by auto
  have disj: "?V \<inter> ?W = {}" using "16.prems"(3) by auto
  have "describes variants peek \<sigma> p v \<and> list_all2 (describes variants peek \<sigma>) ps (take (length ps) ws)"
    if "agrees \<sigma> (?V \<union> ?W) b'" for \<sigma>
    using head(2) [OF agrees_later [OF tail(1) disj]] tail(2) that by blast
  then show ?case using binds_trans [OF head(1) tail(1)] vs by simp
next
  case (18 variants peek name p fps fs b)
  obtain v where v: "map_of fs name = Some v" using "18.prems"(1) by (auto split: option.splits)
  obtain b1 where b1: "match_bind variants peek p v b = (True, b1)" "match_fields variants peek fps fs b1 = (True, b')"
    using "18.prems"(1) v by (auto split: prod.splits bool.splits)
  let ?V = "set (pat_vars variants peek p)" and ?W = "set (concat (map (\<lambda>(_, p). pat_vars variants peek p) fps))"
  have head: "binds ?V b b1" "\<And>\<sigma>. agrees \<sigma> ?V b1 \<Longrightarrow> describes variants peek \<sigma> p v"
    using "18.IH"(1) [OF v b1(1)] "18.prems"(3) by auto
  have tail: "binds ?W b1 b'" "\<And>\<sigma>. agrees \<sigma> ?W b' \<Longrightarrow>
      list_all (\<lambda>(name, p). \<exists>x. map_of fs name = Some x \<and> describes variants peek \<sigma> p x) fps"
    using "18.IH"(2) [OF v b1(1)[symmetric] refl b1(2)] "18.prems"(2,3) by auto
  have disj: "?V \<inter> ?W = {}" using "18.prems"(2) by auto
  have "describes variants peek \<sigma> p v \<and>
      list_all (\<lambda>(name, p). \<exists>x. map_of fs name = Some x \<and> describes variants peek \<sigma> p x) fps"
    if "agrees \<sigma> (?V \<union> ?W) b'" for \<sigma>
    using head(2) [OF agrees_later [OF tail(1) disj]] tail(2) that by blast
  then show ?case using binds_trans [OF head(1) tail(1)] v by simp
next
  case (20 variants peek p ps v b)
  obtain r b1 where b1: "match_bind variants peek p v [] = (r, b1)" by fastforce
  show ?case
  proof (cases r)
    case True
    then have b': "b' = fold (\<lambda>(k, x). ix_put k x) b1 b" using "20.prems"(1) b1 by simp
    have IH: "binds V [] b1" "\<And>\<sigma>. agrees \<sigma> V b1 \<Longrightarrow> describes variants peek \<sigma> p v"
      using "20.IH"(1) [of b1] b1 True "20.prems"(2) by auto
    have "agrees \<sigma> V b1" if "agrees \<sigma> V b'" for \<sigma>
    proof
      fix x assume x: "x \<in> V"
      then obtain w where "map_of b1 x = Some w" using IH(1) by (auto simp: binds_def)
      then show "\<sigma> x = map_of b1 x"
        using that x IH(1) by (auto simp: b' binds_def get_merge ix.ok_nil map_add_def)
    qed
    then show ?thesis using binds_merge [OF IH(1)] IH(2) by (auto simp: b')
  next
    case False
    then show ?thesis using "20.IH"(2) [of r b1] b1 "20.prems" by auto
  qed
qed auto

lemma match_complete:
  fixes p :: "('o, 'g) pat" and ps qs :: "('o, 'g) pat list" and fps :: "(string \<times> ('o, 'g) pat) list"
  shows "describes variants peek \<sigma> p v \<Longrightarrow> fst (match_bind variants peek p v b)"
    and "list_all2 (describes variants peek \<sigma>) ps us \<Longrightarrow> vs = us @ ws \<Longrightarrow> fst (match_all variants peek ps vs b)"
    and "list_all (\<lambda>(name, p). \<exists>x. map_of fs name = Some x \<and> describes variants peek \<sigma> p x) fps \<Longrightarrow>
      fst (match_fields variants peek fps fs b)"
    and "list_ex (\<lambda>p. describes variants peek \<sigma> p v) qs \<Longrightarrow> fst (match_alts variants peek qs v b)"
proof (induction variants peek p v b and variants peek ps vs b and variants peek fps fs b and variants peek qs v b
    arbitrary: and us ws and and rule: match_bind_match_all_match_fields_match_alts.induct)
  case (2 variants peek name v b)
  then show ?case by (auto split: option.splits)
next
  case (4 variants peek ps rest v b)
  then obtain vs where v: "v = VList vs" by auto
  show ?case
  proof (cases rest)
    case None
    then have "list_all2 (describes variants peek \<sigma>) ps vs" using "4.prems" v by simp
    then show ?thesis using "4.IH"(1) [of vs vs "[]"] v None by (auto dest: list_all2_lengthD)
  next
    case (Some name)
    then obtain us ws where vs: "vs = us @ ws" "list_all2 (describes variants peek \<sigma>) ps us"
      using "4.prems" v by auto
    then have "length ps \<le> length vs" by (auto dest: list_all2_lengthD)
    then have "fst (match_all variants peek ps vs b)" using "4.IH"(2) [OF v Some _ vs(2,1)] by simp
    then show ?thesis using v Some \<open>length ps \<le> length vs\<close> by (auto split: prod.split bool.split)
  qed
next
  case (5 variants peek ps v b)
  then obtain vs where vs: "as_items v = Some vs" "list_all2 (describes variants peek \<sigma>) ps vs" by auto
  then have "length ps = length vs" by (simp add: list_all2_lengthD)
  then show ?case using "5.IH" [OF vs(1) _ vs(2), of "[]"] vs(1) by simp
next
  case (6 variants peek p v b)
  then show ?case by (cases v) auto
next
  case (7 variants peek p v b)
  then show ?case by (cases v) auto
next
  case (8 variants peek name ps v b)
  then obtain vs where vs: "variant_items name v = Some vs" "list_all2 (describes variants peek \<sigma>) ps vs" by auto
  then have "length ps = length vs" by (simp add: list_all2_lengthD)
  then show ?case using "8.IH" [OF vs(1) _ vs(2), of "[]"] vs(1) by simp
next
  case (16 variants peek p ps vs b)
  then obtain v us' where us: "us = v # us'" "describes variants peek \<sigma> p v"
      "list_all2 (describes variants peek \<sigma>) ps us'"
    by (auto simp: list_all2_Cons1)
  then have vs: "vs = v # us' @ ws" using "16.prems" by simp
  obtain b1 where b1: "match_bind variants peek p v b = (True, b1)"
    using "16.IH"(1) [OF vs us(2)] by (cases "match_bind variants peek p v b") auto
  show ?case using "16.IH"(2) [OF vs b1 [symmetric] refl us(3) refl] vs b1 by simp
next
  case (18 variants peek name p fps fs b)
  then obtain v where v: "map_of fs name = Some v" "describes variants peek \<sigma> p v" by auto
  obtain b1 where b1: "match_bind variants peek p v b = (True, b1)"
    using "18.IH"(1) [OF v] by (cases "match_bind variants peek p v b") auto
  show ?case using "18.IH"(2) [OF v(1) b1 [symmetric] refl] "18.prems" v b1 by simp
next
  case (20 variants peek p ps v b)
  then show ?case by (auto split: prod.split bool.split)
qed (auto split: option.splits)

section \<open>The properties\<close>

lemma match_binds_exact:
  assumes "pat_ok variants peek p" and "match_bind variants peek p v [] = (True, b)"
  shows "describes variants peek (map_of b) p v \<and> fst ` set b = set (pat_vars variants peek p)"
  using match_sound(1) [OF assms(2,1)] by (auto simp: binds_def dom_map_of_conv_image_fst)

text \<open>C6: Matching decides whether a value has a pattern's shape: it succeeds exactly when some
  assignment of values to the pattern's names makes the pattern describe the value, and then binds such
  an assignment, of those names and no others. For patterns that bind no name twice and whose
  alternatives bind the same names.\<close>

theorem match_exact:
  assumes "pat_ok variants peek p"
  shows "case match_bind variants peek p v [] of
      (matched, b) \<Rightarrow>
        (matched \<longleftrightarrow> (\<exists>\<sigma>. describes variants peek \<sigma> p v)) \<and>
        (matched \<longrightarrow> describes variants peek (map_of b) p v \<and> fst ` set b = set (pat_vars variants peek p))"
proof -
  obtain m b where m: "match_bind variants peek p v [] = (m, b)" by fastforce
  have "m" if "describes variants peek \<sigma> p v" for \<sigma>
    using match_complete(1) [OF that, of "[]"] m by simp
  then show ?thesis using match_binds_exact [OF assms, of v b] m by auto
qed

lemma select_arm_later:
  assumes "select_arm variants peek guard v arms = Inr (body, b)"
  shows "\<exists>before a after. arms = before @ a # after \<and> a_body a = body \<and>
    match_bind variants peek (a_pattern a) v [] = (True, b) \<and>
    (\<forall>g. a_guard a = Some g \<longrightarrow> guard b g = Inr True) \<and>
    (\<forall>a' \<in> set before. case match_bind variants peek (a_pattern a') v [] of
        (False, _) \<Rightarrow> True
      | (True, b') \<Rightarrow> \<exists>g. a_guard a' = Some g \<and> guard b' g = Inr False)"
  using assms
proof (induction arms)
  case (Cons a arms)
  obtain m b' where m: "match_bind variants peek (a_pattern a) v [] = (m, b')" by fastforce
  show ?case
  proof (cases "m \<and> (a_guard a = None \<or> (\<exists>g. a_guard a = Some g \<and> guard b' g = Inr True))")
    case True
    then have "body = a_body a" "b = b'" using Cons.prems m by auto
    with True m show ?thesis by (intro exI [of _ "[]"] exI [of _ a] exI [of _ arms]) auto
  next
    case False
    then have skip: "\<not> m \<or> (\<exists>g. a_guard a = Some g \<and> guard b' g = Inr False)"
      and rest: "select_arm variants peek guard v arms = Inr (body, b)"
      using Cons.prems m by (auto split: option.splits sum.splits bool.splits)
    from Cons.IH [OF rest] obtain before x after where "arms = before @ x # after" "a_body x = body"
        "match_bind variants peek (a_pattern x) v [] = (True, b)" "\<forall>g. a_guard x = Some g \<longrightarrow> guard b g = Inr True"
        "\<forall>a' \<in> set before. case match_bind variants peek (a_pattern a') v [] of
            (False, _) \<Rightarrow> True
          | (True, b') \<Rightarrow> \<exists>g. a_guard a' = Some g \<and> guard b' g = Inr False"
      by blast
    with skip m show ?thesis
      by (intro exI [of _ "a # before"] exI [of _ x] exI [of _ after]) (auto split: bool.split)
  qed
qed simp

text \<open>C26: A \<open>match\<close> runs the first arm whose pattern describes the value and whose guard holds under
  the bindings: every arm before it either does not describe the value or has a guard that is false
  there, and its scope starts with an assignment under which its pattern describes the value.\<close>

theorem match_first_arm:
  assumes "\<forall>a \<in> set arms. pat_ok variants peek (a_pattern a)"
    and "select_arm variants peek guard v arms = Inr (body, b)"
  shows "\<exists>before a after. arms = before @ a # after \<and> a_body a = body \<and>
    describes variants peek (map_of b) (a_pattern a) v \<and> (\<forall>g. a_guard a = Some g \<longrightarrow> guard b g = Inr True) \<and>
    (\<forall>a' \<in> set before. (\<nexists>\<sigma>. describes variants peek \<sigma> (a_pattern a') v) \<or>
      (\<exists>g b'. a_guard a' = Some g \<and> guard b' g = Inr False \<and> describes variants peek (map_of b') (a_pattern a') v))"
proof -
  obtain before a after where a: "arms = before @ a # after" "a_body a = body"
      "match_bind variants peek (a_pattern a) v [] = (True, b)" "\<forall>g. a_guard a = Some g \<longrightarrow> guard b g = Inr True"
      and skipped: "\<forall>a' \<in> set before. case match_bind variants peek (a_pattern a') v [] of
        (False, _) \<Rightarrow> True
      | (True, b') \<Rightarrow> \<exists>g. a_guard a' = Some g \<and> guard b' g = Inr False"
    using select_arm_later [OF assms(2)] by blast
  have "describes variants peek (map_of b) (a_pattern a) v"
    using match_binds_exact [OF _ a(3)] assms(1) a(1) by simp
  moreover have "(\<nexists>\<sigma>. describes variants peek \<sigma> (a_pattern a') v) \<or>
      (\<exists>g b'. a_guard a' = Some g \<and> guard b' g = Inr False \<and> describes variants peek (map_of b') (a_pattern a') v)"
    if "a' \<in> set before" for a'
  proof -
    obtain m b' where m: "match_bind variants peek (a_pattern a') v [] = (m, b')" by fastforce
    show ?thesis
    proof (cases m)
      case True
      then show ?thesis using skipped that m match_binds_exact [of variants peek "a_pattern a'" v b'] assms(1) a(1) by fastforce
    next
      case False
      then show ?thesis using match_complete(1) [of variants peek _ "a_pattern a'" v "[]"] m by auto
    qed
  qed
  ultimately show ?thesis using a by blast
qed

text \<open>What a failed match leaves: the matcher's own words, that a failed match binds nothing, do not
  hold of it. It is the callers' fresh bindings, one set an arm, that keep the names from leaking.\<close>

theorem failed_match_binds:
  "match_bind {} (\<lambda>_. None) (PList [PIdent ''a'', PLiteral (VInt 0)] None :: (nat, nat) pat)
     (VList [VInt 1, VInt 2]) [] = (False, [(''a'', VInt 1)])"
  by code_simp

section \<open>Witnesses\<close>

definition sample_pattern :: "(nat, nat) pat" where
  "sample_pattern = PList [PIdent ''a'', POr [PLiteral (VInt 0), PTuple [PWildcard]]] (Some ''rest'')"

definition sample_value :: "nat val" where
  "sample_value = VList [VInt 1, VList [VUnit], VInt 3]"

theorem match_exact_witness:
  "case match_bind {} (\<lambda>_. None) sample_pattern sample_value [] of
      (matched, b) \<Rightarrow>
        (matched \<longleftrightarrow> (\<exists>\<sigma>. describes {} (\<lambda>_. None) \<sigma> sample_pattern sample_value)) \<and>
        (matched \<longrightarrow> describes {} (\<lambda>_. None) (map_of b) sample_pattern sample_value \<and>
           fst ` set b = set (pat_vars {} (\<lambda>_. None) sample_pattern))"
proof (rule match_exact)
  show "pat_ok {} (\<lambda>_. None) sample_pattern" by code_simp
qed

definition sample_arms :: "(nat, nat, nat) arm list" where
  "sample_arms =
     [\<lparr>a_pattern = PRange (PLiteral (VInt 0)) (PLiteral (VInt 5)) False, a_guard = None, a_body = 0\<rparr>,
      \<lparr>a_pattern = PIdent ''n'', a_guard = Some 7, a_body = 1\<rparr>, \<lparr>a_pattern = PWildcard, a_guard = None, a_body = 2\<rparr>]"

theorem match_first_arm_witness:
  "\<exists>before a after. sample_arms = before @ a # after \<and> a_body a = 2 \<and>
    describes {} (\<lambda>_. None) (map_of []) (a_pattern a) (VInt 9) \<and>
    (\<forall>g. a_guard a = Some g \<longrightarrow> (Inr False :: ierr + bool) = Inr True) \<and>
    (\<forall>a' \<in> set before. (\<nexists>\<sigma>. describes {} (\<lambda>_. None) \<sigma> (a_pattern a') (VInt 9)) \<or>
      (\<exists>g b'. a_guard a' = Some g \<and> (Inr False :: ierr + bool) = Inr False \<and>
         describes {} (\<lambda>_. None) (map_of b') (a_pattern a') (VInt 9)))"
proof (rule match_first_arm [where guard = "\<lambda>_ _. Inr False"])
  show "\<forall>a \<in> set sample_arms. pat_ok {} (\<lambda>_. None) (a_pattern a)" by code_simp
  show "select_arm {} (\<lambda>_. None) (\<lambda>_ _. Inr False) (VInt 9) sample_arms = Inr (2, [])" by code_simp
qed

end
