(* ===== verification/Environment.thy ===== *)
theory Environment
  imports Values
begin

text \<open>
  The interpreter's scopes (\<open>src/interpreter/environment.rs\<close>) and how a name is looked up through them
  (\<open>interpreter/mod.rs\<close>). An environment is the chain of its scopes, this one first and the root last: a
  Rust \<open>Environment\<close> is the list that starts at it, its parent the list's tail. A parameter is the run of
  sibling declarations a function carries (\<open>'r\<close>, and how a name is found in it). The writes in place,
  which turn on what else holds a list, are in \<open>Sharing\<close>.
\<close>

section \<open>Scopes\<close>

record ('o, 'r) scope =
  variables :: "string \<rightharpoonup> 'o val"
  locals :: "'o vmap"
  is_frame :: bool
  owner :: "string option"
  scope_id :: nat
  lexical_parent :: nat
  run :: 'r

type_synonym ('o, 'r) env = "('o, 'r) scope list"

definition env_new :: "'r \<Rightarrow> ('o, 'r) env" where
  "env_new r = [\<lparr>variables = Map.empty, locals = [], is_frame = False, owner = None, scope_id = 0,
     lexical_parent = 0, run = r\<rparr>]"

definition with_parent :: "('o, 'r) env \<Rightarrow> ('o, 'r) env" where
  "with_parent env =
     \<lparr>variables = Map.empty, locals = [], is_frame = True, owner = owner (hd env), scope_id = scope_id (hd env),
      lexical_parent = lexical_parent (hd env), run = run (hd env)\<rparr> # env"

text \<open>Call frames take a fresh id from a counter.\<close>

definition enter_function :: "nat \<Rightarrow> nat \<Rightarrow> ('o, 'r) env \<Rightarrow> ('o, 'r) env \<times> nat" where
  "enter_function declared_in next_scope env =
     ((hd env)\<lparr>scope_id := next_scope, lexical_parent := declared_in\<rparr> # tl env, next_scope + 1)"

text \<open>The scopes a name is resolved through: frames that only called into this one are skipped.\<close>

fun chain_walk :: "nat \<Rightarrow> nat \<Rightarrow> ('o, 'r) env \<Rightarrow> ('o, 'r) env list" where
  "chain_walk target next [] = []"
| "chain_walk target next (p # ps) =
     (if ps = [] \<or> scope_id p = target then (p # ps) # chain_walk target next ps
      else if scope_id p = next then (p # ps) # chain_walk next (lexical_parent p) ps
      else chain_walk target next ps)"

definition lexical_chain :: "('o, 'r) env \<Rightarrow> ('o, 'r) env list" where
  "lexical_chain env = env # chain_walk (scope_id (hd env)) (lexical_parent (hd env)) (tl env)"

definition root :: "('o, 'r) env \<Rightarrow> ('o, 'r) scope" where
  "root env = last env"

section \<open>Reading and writing\<close>

definition get_here :: "('o, 'r) scope \<Rightarrow> string \<Rightarrow> 'o val option" where
  "get_here s name =
     (case map_of (rev (locals s)) name of Some v \<Rightarrow> Some v | None \<Rightarrow> variables s name)"

text \<open>The last local of a name.\<close>

fun put_first :: "string \<Rightarrow> 'v \<Rightarrow> (string \<times> 'v) list \<Rightarrow> (string \<times> 'v) list" where
  "put_first k v [] = []"
| "put_first k v ((k', v') # m) = (if k' = k then (k, v) # m else (k', v') # put_first k v m)"

definition put_last :: "string \<Rightarrow> 'v \<Rightarrow> (string \<times> 'v) list \<Rightarrow> (string \<times> 'v) list" where
  "put_last k v m = rev (put_first k v (rev m))"

definition has_local :: "string \<Rightarrow> ('o, 'r) scope \<Rightarrow> bool" where
  "has_local name s \<longleftrightarrow> map_of (locals s) name \<noteq> None"

definition put_here :: "string \<Rightarrow> 'o val \<Rightarrow> ('o, 'r) scope \<Rightarrow> ('o, 'r) scope" where
  "put_here name v s =
     (if has_local name s then s\<lparr>locals := put_last name v (locals s)\<rparr>
      else s\<lparr>variables := (variables s)(name \<mapsto> v)\<rparr>)"

definition define_name :: "string \<Rightarrow> 'o val \<Rightarrow> ('o, 'r) env \<Rightarrow> ('o, 'r) env" where
  "define_name name v env =
     (let s = hd env
      in (if has_local name s then s\<lparr>locals := put_last name v (locals s)\<rparr>
          else if is_frame s then s\<lparr>locals := locals s @ [(name, v)]\<rparr>
          else s\<lparr>variables := (variables s)(name \<mapsto> v)\<rparr>) # tl env)"

definition define_local :: "string \<Rightarrow> 'o val \<Rightarrow> ('o, 'r) env \<Rightarrow> ('o, 'r) env" where
  "define_local name v env = (hd env)\<lparr>locals := locals (hd env) @ [(name, v)]\<rparr> # tl env"

fun first_here :: "string \<Rightarrow> ('o, 'r) env list \<Rightarrow> 'o val option" where
  "first_here name [] = None"
| "first_here name (e # es) =
     (case get_here (hd e) name of Some v \<Rightarrow> Some v | None \<Rightarrow> first_here name es)"

definition get_lexical :: "string \<Rightarrow> bool \<Rightarrow> ('o, 'r) env \<Rightarrow> 'o val option" where
  "get_lexical name include_root env =
     first_here name
       (hd (lexical_chain env) # filter (\<lambda>e. include_root \<or> tl e \<noteq> []) (tl (lexical_chain env)))"

definition get :: "string \<Rightarrow> ('o, 'r) env \<Rightarrow> 'o val option" where
  "get name env = get_lexical name True env"

fun set_name :: "string \<Rightarrow> 'o val \<Rightarrow> ('o, 'r) env \<Rightarrow> ierr + ('o, 'r) env" where
  "set_name name v [] = Inl (UndefinedVariable name)"
| "set_name name v (s # ps) =
     (if get_here s name \<noteq> None then Inr (put_here name v s # ps)
      else (case set_name name v ps of Inl e \<Rightarrow> Inl e | Inr ps' \<Rightarrow> Inr (s # ps')))"

text \<open>A resolved slot: a depth and a place, verified against the name.\<close>

definition slot_holds :: "string \<Rightarrow> nat \<Rightarrow> ('o, 'r) scope \<Rightarrow> bool" where
  "slot_holds name slot s \<longleftrightarrow> slot < length (locals s) \<and> fst (locals s ! slot) = name"

definition get_slot :: "string \<Rightarrow> nat \<Rightarrow> nat \<Rightarrow> ('o, 'r) env \<Rightarrow> 'o val option" where
  "get_slot name depth slot env =
     (if depth < length env \<and> slot_holds name slot (env ! depth) then Some (snd (locals (env ! depth) ! slot))
      else get_lexical name False env)"

fun set_slot :: "string \<Rightarrow> nat \<Rightarrow> nat \<Rightarrow> 'o val \<Rightarrow> ('o, 'r) env \<Rightarrow> ierr + ('o, 'r) env" where
  "set_slot name depth slot v [] = Inl (UndefinedVariable name)"
| "set_slot name 0 slot v (s # ps) =
     (if slot_holds name slot s then Inr (s\<lparr>locals := (locals s)[slot := (name, v)]\<rparr> # ps)
      else set_name name v (s # ps))"
| "set_slot name (Suc depth) slot v (s # ps) =
     (if ps = [] then set_name name v (s # ps)
      else (case set_slot name depth slot v ps of Inl e \<Rightarrow> Inl e | Inr ps' \<Rightarrow> Inr (s # ps')))"

text \<open>An assignment: a name nothing binds is defined here.\<close>

definition assign :: "string \<Rightarrow> 'o val \<Rightarrow> ('o, 'r) env \<Rightarrow> ('o, 'r) env" where
  "assign name v env = (case set_name name v env of Inr env' \<Rightarrow> env' | Inl _ \<Rightarrow> define_name name v env)"

definition assign_slot :: "string \<Rightarrow> nat \<Rightarrow> nat \<Rightarrow> 'o val \<Rightarrow> ('o, 'r) env \<Rightarrow> ('o, 'r) env" where
  "assign_slot name depth slot v env =
     (case set_slot name depth slot v env of Inr env' \<Rightarrow> env' | Inl _ \<Rightarrow> define_name name v env)"

definition remove_variable :: "string \<Rightarrow> ('o, 'r) env \<Rightarrow> ('o, 'r) env" where
  "remove_variable name env =
     (hd env)\<lparr>locals := del_key name (locals (hd env)), variables := (variables (hd env))(name := None)\<rparr> # tl env"

definition flat_snapshot :: "('o, 'r) scope \<Rightarrow> (string \<rightharpoonup> 'o val)" where
  "flat_snapshot s = fold (\<lambda>(name, v) m. m(name \<mapsto> v)) (locals s) (variables s)"

text \<open>A closure's captures: the names its body mentions, but the root's.\<close>

definition collect_captures :: "string list \<Rightarrow> ('o, 'r) env \<Rightarrow> (string \<rightharpoonup> 'o val)" where
  "collect_captures mentioned env =
     (\<lambda>name. if name \<in> set mentioned
             then first_here name (takeWhile (\<lambda>e. tl e \<noteq> []) (lexical_chain env)) else None)"

section \<open>Names as running code sees them\<close>

text \<open>The interpreter's tables; \<open>run_get\<close> finds a sibling in a function's run.\<close>

record ('o, 'r, 'd) tables =
  current_file :: "string option"
  entry_file :: "string option"
  module_scopes :: "string \<rightharpoonup> (string \<rightharpoonup> 'o val)"
  bridge_functions :: "string \<rightharpoonup> string option \<times> 'o"
  prelude :: "string \<rightharpoonup> 'o val"
  fallback_globals :: "(string \<rightharpoonup> 'o val) option"
  declared_early :: "string \<rightharpoonup> 'o val"
  pending_top_level :: "string \<rightharpoonup> 'd option"

text \<open>One home: the same file, the entry file and no file both being the program's.\<close>

definition is_program :: "string option \<Rightarrow> string option \<Rightarrow> bool" where
  "is_program entry f \<longleftrightarrow> f = None \<or> f = entry"

definition same_home :: "string option \<Rightarrow> string option \<Rightarrow> string option \<Rightarrow> bool" where
  "same_home entry a b =
     (if is_program entry a \<or> is_program entry b then is_program entry a \<and> is_program entry b else a = b)"

definition root_is_home :: "('o, 'r, 'd) tables \<Rightarrow> ('o, 'r) env \<Rightarrow> bool" where
  "root_is_home t env =
     (case owner (hd env) of
        Some f \<Rightarrow>
          if tl env \<noteq> [] then current_file t = Some f \<or> same_home (entry_file t) (Some f) (current_file t)
          else True
      | None \<Rightarrow> True)"

definition code_home :: "('o, 'r, 'd) tables \<Rightarrow> ('o, 'r) env \<Rightarrow> string option" where
  "code_home t env =
     (case owner (hd env) of Some f \<Rightarrow> if tl env \<noteq> [] then Some f else current_file t | None \<Rightarrow> current_file t)"

definition code_is_program :: "('o, 'r, 'd) tables \<Rightarrow> ('o, 'r) env \<Rightarrow> bool" where
  "code_is_program t env = same_home (entry_file t) (code_home t env) None"

definition own_module :: "('o, 'r, 'd) tables \<Rightarrow> ('o, 'r) env \<Rightarrow> string \<Rightarrow> 'o val option" where
  "own_module t env name =
     (case owner (hd env) of
        Some f \<Rightarrow> (case module_scopes t f of Some m \<Rightarrow> m name | None \<Rightarrow> None)
      | None \<Rightarrow> None)"

definition peek_name :: "('o, 'r, 'd) tables \<Rightarrow> ('o, 'r) env \<Rightarrow> string \<Rightarrow> 'o val option" where
  "peek_name t env name =
     (case get_lexical name False env of
        Some v \<Rightarrow> Some v
      | None \<Rightarrow>
          (case own_module t env name of
             Some v \<Rightarrow> Some v
           | None \<Rightarrow> if root_is_home t env then get_here (root env) name else None))"

text \<open>
  A name, declaring a pending top-level function on first use: the tables come back. \<open>run_get\<close> is the
  running function's run, \<open>build\<close> the function value of a declaration over the root's bindings.
\<close>

definition declare_pending ::
  "('d \<Rightarrow> (string \<rightharpoonup> 'o val) \<Rightarrow> 'o val option) \<Rightarrow> ('o, 'r, 'd) tables \<Rightarrow> ('o, 'r) env \<Rightarrow> string \<Rightarrow>
     'o val option \<times> ('o, 'r, 'd) tables" where
  "declare_pending build t env name =
     (case pending_top_level t name of
        None \<Rightarrow> (None, t)
      | Some statement \<Rightarrow>
          let t' = t\<lparr>pending_top_level := (pending_top_level t)(name := None)\<rparr>
          in (case statement of
                None \<Rightarrow> (None, t')
              | Some decl \<Rightarrow>
                  (case build decl (flat_snapshot (root env)) of
                     Some v \<Rightarrow> (Some v, t'\<lparr>declared_early := (declared_early t')(name \<mapsto> v)\<rparr>)
                   | None \<Rightarrow> (None, t'))))"

definition lookup_name ::
  "('r \<Rightarrow> string \<Rightarrow> 'o val option) \<Rightarrow> ('d \<Rightarrow> (string \<rightharpoonup> 'o val) \<Rightarrow> 'o val option) \<Rightarrow>
     ('o, 'r, 'd) tables \<Rightarrow> ('o, 'r) env \<Rightarrow> string \<Rightarrow> 'o val option \<times> ('o, 'r, 'd) tables" where
  "lookup_name run_get build t env name =
     (let bridge = (case bridge_functions t name of
              Some (file, f) \<Rightarrow> if same_home (entry_file t) file (owner (hd env)) then Some (VFun f) else None
            | None \<Rightarrow> None);
          home = root_is_home t env;
          here = (if home then get_here (root env) name else None);
          globals = (case fallback_globals t of
              Some g \<Rightarrow> if code_is_program t env then g name else None | None \<Rightarrow> None)
      in case get_lexical name False env of
           Some v \<Rightarrow> (Some v, t)
         | None \<Rightarrow> (case own_module t env name of
           Some v \<Rightarrow> (Some v, t)
         | None \<Rightarrow> (case bridge of
           Some v \<Rightarrow> (Some v, t)
         | None \<Rightarrow> (case here of
           Some v \<Rightarrow> (Some v, t)
         | None \<Rightarrow> (case run_get (run (hd env)) name of
           Some v \<Rightarrow> (Some v, t)
         | None \<Rightarrow>
             if \<not> home then (prelude t name, t)
             else (case globals of
               Some v \<Rightarrow> (Some v, t)
             | None \<Rightarrow> (case declared_early t name of
               Some v \<Rightarrow> (Some v, t)
             | None \<Rightarrow> declare_pending build t env name)))))))"

end
