(* ===== verification/EnvLaws.thy ===== *)
theory EnvLaws
  imports Environment
begin

text \<open>
  Name resolution: which scopes a name is read through, what an assignment does to what is read after
  it, when a resolved slot is the lookup it stands for, and that a module's code reads nothing of the
  program's. An assignment searches every scope of the chain and a lookup only the visible ones: the
  place where the two part is stated too.
\<close>

section \<open>One scope\<close>

lemma map_of_put_first:
  "map_of (put_first k v m) = (if k \<in> dom (map_of m) then (map_of m)(k \<mapsto> v) else map_of m)"
  by (induction m) (auto simp: fun_eq_iff)

lemma dom_rev: "dom (map_of (rev m)) = dom (map_of m)"
  by (simp add: dom_map_of_conv_image_fst)

lemma get_put_here [simp]:
  "get_here (put_here name v s) x = (if x = name then Some v else get_here s x)"
proof -
  have "name \<in> dom (map_of (rev (locals s))) \<longleftrightarrow> has_local name s"
    unfolding dom_rev by (auto simp: has_local_def)
  then show ?thesis
    by (auto simp: put_here_def get_here_def put_last_def map_of_put_first split: option.split)
qed

lemma put_here_fields [simp]:
  "scope_id (put_here name v s) = scope_id s" "lexical_parent (put_here name v s) = lexical_parent s"
  "owner (put_here name v s) = owner s" "run (put_here name v s) = run s"
  by (auto simp: put_here_def)

section \<open>The visible scopes\<close>

text \<open>By their depth.\<close>

fun seen_from :: "nat \<Rightarrow> nat \<Rightarrow> nat \<Rightarrow> ('o, 'r) env \<Rightarrow> nat list" where
  "seen_from d target next [] = []"
| "seen_from d target next (p # ps) =
     (if ps = [] \<or> scope_id p = target then d # seen_from (d + 1) target next ps
      else if scope_id p = next then d # seen_from (d + 1) next (lexical_parent p) ps
      else seen_from (d + 1) target next ps)"

definition visible :: "('o, 'r) env \<Rightarrow> nat list" where
  "visible env = 0 # seen_from 1 (scope_id (hd env)) (lexical_parent (hd env)) (tl env)"

lemma chain_walk_seen:
  "chain_walk target next (drop d env) = map (\<lambda>k. drop k env) (seen_from d target next (drop d env))"
proof (induction "length env - d" arbitrary: d target "next")
  case (Suc n)
  obtain p ps where e: "drop d env = p # ps" using Suc.hyps(2) by (cases "drop d env") auto
  then have ps: "ps = drop (d + 1) env" by (metis drop_drop drop_Suc_Cons drop_0 One_nat_def add.commute)
  have "n = length env - (d + 1)" using Suc.hyps(2) by simp
  note IH = Suc.hyps(1) [OF this]
  show ?case using IH by (simp add: e ps e [symmetric, unfolded ps])
qed simp

lemma lexical_chain_visible: "env \<noteq> [] \<Longrightarrow> lexical_chain env = map (\<lambda>k. drop k env) (visible env)"
  using chain_walk_seen [of "scope_id (hd env)" "lexical_parent (hd env)" 1 env]
  by (simp add: lexical_chain_def visible_def drop_Suc)

lemma seen_bounds: "k \<in> set (seen_from d target next ps) \<Longrightarrow> d \<le> k \<and> k < d + length ps"
  by (induction d target "next" ps rule: seen_from.induct) (fastforce split: if_splits)+

lemma visible_bounds: "env \<noteq> [] \<Longrightarrow> k \<in> set (visible env) \<Longrightarrow> k < length env"
  using seen_bounds by (fastforce simp: visible_def)

lemma seen_sorted: "sorted_wrt (<) (seen_from d target next ps)"
  by (induction d target "next" ps rule: seen_from.induct) (auto dest!: seen_bounds)

lemma visible_sorted: "sorted_wrt (<) (visible env)"
  using seen_sorted seen_bounds by (fastforce simp: visible_def)

text \<open>What the chain of scopes is made of, as visibility sees it.\<close>

definition same_shape :: "('o, 'r) env \<Rightarrow> ('o, 'r) env \<Rightarrow> bool" where
  "same_shape env env' \<longleftrightarrow>
     list_all2 (\<lambda>s s'. scope_id s = scope_id s' \<and> lexical_parent s = lexical_parent s') env env'"

lemma seen_shape: "same_shape ps ps' \<Longrightarrow> seen_from d target next ps = seen_from d target next ps'"
  by (induction d target "next" ps arbitrary: ps' rule: seen_from.induct)
    (auto simp: same_shape_def list_all2_Cons1)

lemma visible_shape: "same_shape env env' \<Longrightarrow> visible env = visible env'"
  by (cases env; cases env') (auto simp: visible_def same_shape_def dest: seen_shape [unfolded same_shape_def])

text \<open>The first of some scopes that binds a name.\<close>

definition read_at :: "('o, 'r) env \<Rightarrow> string \<Rightarrow> nat list \<Rightarrow> 'o val option" where
  "read_at env name ks =
     (case find (\<lambda>k. get_here (env ! k) name \<noteq> None) ks of Some k \<Rightarrow> get_here (env ! k) name | None \<Rightarrow> None)"

lemma first_here_read:
  "(\<forall>k \<in> set ks. k < length env) \<Longrightarrow> first_here name (map (\<lambda>k. drop k env) ks) = read_at env name ks"
  by (induction ks) (auto simp: read_at_def hd_drop_conv_nth split: option.split)

lemma get_read: "env \<noteq> [] \<Longrightarrow> get name env = read_at env name (visible env)"
  using visible_bounds [of env] first_here_read [of "visible env" env name]
  by (simp add: get_def get_lexical_def lexical_chain_visible visible_def)

lemma get_lexical_read:
  assumes "env \<noteq> []"
  shows "get_lexical name False env = read_at env name (filter (\<lambda>k. k = 0 \<or> k + 1 < length env) (visible env))"
proof -
  have "filter (\<lambda>e. tl e \<noteq> []) (map (\<lambda>k. drop k env) ks) = map (\<lambda>k. drop k env) (filter (\<lambda>k. k + 1 < length env) ks)" for ks
    by (induction ks) (auto simp: tl_drop drop_Suc [symmetric])
  moreover have "filter (\<lambda>k. k = 0 \<or> k + 1 < length env) ks = filter (\<lambda>k. k + 1 < length env) ks" if "0 \<notin> set ks" for ks
    using that by (intro filter_cong) auto
  moreover have "0 \<notin> set (tl (visible env))" using visible_sorted [of env] by (auto simp: visible_def)
  moreover have "\<forall>k \<in> set (visible env). k < length env" using visible_bounds [OF assms] by blast
  ultimately show ?thesis
    using first_here_read [of "0 # filter (\<lambda>k. k + 1 < length env) (tl (visible env))" env name] assms
    by (auto simp: get_lexical_def lexical_chain_visible visible_def)
qed

lemma read_at_cong:
  "(\<And>k. k \<in> set ks \<Longrightarrow> get_here (env ! k) name = get_here (env' ! k) name) \<Longrightarrow> read_at env name ks = read_at env' name ks"
  by (induction ks) (auto simp: read_at_def)

lemma read_at_first:
  assumes "sorted_wrt (<) ks" and "k \<in> set ks" and "get_here (env ! k) name = Some v"
    and "\<And>j. j \<in> set ks \<Longrightarrow> j < k \<Longrightarrow> get_here (env ! j) name = None"
  shows "read_at env name ks = Some v"
  using assms by (induction ks) (auto simp: read_at_def)

section \<open>Examples\<close>

text \<open>Scopes to try the theorems on.\<close>

definition root_scope :: "(nat, unit) scope" where
  "root_scope = \<lparr>variables = Map.empty, locals = [], is_frame = False, owner = None, scope_id = 0,
     lexical_parent = 0, run = ()\<rparr>"

definition frame :: "nat \<Rightarrow> (string \<times> nat val) list \<Rightarrow> (nat, unit) scope" where
  "frame n ls = root_scope\<lparr>locals := ls, is_frame := True, scope_id := n\<rparr>"

lemmas env_eval =
  frame_def root_scope_def get_def get_lexical_def lexical_chain_def get_here_def put_here_def has_local_def
  put_last_def define_name_def visible_def same_shape_def

section \<open>Writing\<close>

lemma set_name_first:
  "set_name name v env = Inr env' \<Longrightarrow>
    \<exists>k < length env. (\<forall>j < k. get_here (env ! j) name = None) \<and> get_here (env ! k) name \<noteq> None \<and>
      env' = env[k := put_here name v (env ! k)]"
proof (induction env arbitrary: env')
  case (Cons s ps)
  show ?case
  proof (cases "get_here s name = None")
    case True
    then obtain ps' where ps': "set_name name v ps = Inr ps'" "env' = s # ps'"
      using Cons.prems by (auto split: sum.splits)
    from Cons.IH [OF ps'(1)] obtain k where k: "k < length ps" "\<forall>j < k. get_here (ps ! j) name = None"
        "get_here (ps ! k) name \<noteq> None" "ps' = ps[k := put_here name v (ps ! k)]"
      by blast
    show ?thesis
      using k True ps'(2) by (intro exI [of _ "Suc k"]) (auto simp: nth_Cons split: nat.split)
  next
    case False
    then show ?thesis using Cons.prems by (intro exI [of _ 0]) auto
  qed
qed simp

lemma set_name_none: "set_name name v env = Inl e \<longleftrightarrow> e = UndefinedVariable name \<and> (\<forall>s \<in> set env. get_here s name = None)"
  by (induction env arbitrary: e) (auto split: sum.split)

lemma update_shape: "k < length env \<Longrightarrow> same_shape env (env[k := put_here name v (env ! k)])"
  by (simp add: same_shape_def list_all2_conv_all_nth nth_list_update)

text \<open>The depth of the scope an assignment writes.\<close>

definition written :: "string \<Rightarrow> ('o, 'r) env \<Rightarrow> nat" where
  "written name env = length (takeWhile (\<lambda>s. get_here s name = None) env)"

lemma written_eq:
  "k < length env \<Longrightarrow> (\<forall>j < k. get_here (env ! j) name = None) \<Longrightarrow> get_here (env ! k) name \<noteq> None \<Longrightarrow>
    written name env = k"
proof (induction env arbitrary: k)
  case (Cons s ps)
  show ?case
  proof (cases k)
    case 0
    then show ?thesis using Cons.prems by (simp add: written_def)
  next
    case (Suc j)
    then have "get_here s name = None" using Cons.prems(2) by (metis nth_Cons_0 zero_less_Suc)
    moreover have "written name ps = j" using Cons.prems Suc by (intro Cons.IH) auto
    ultimately show ?thesis using Suc by (simp add: written_def)
  qed
qed simp

lemma get_after_set:
  assumes "env \<noteq> []" and "set_name name v env = Inr env'"
  shows "get x env' = (if x = name \<and> written name env \<in> set (visible env) then Some v else get x env)"
proof -
  obtain k where k: "k < length env" "\<forall>j < k. get_here (env ! j) name = None" "get_here (env ! k) name \<noteq> None"
      "env' = env[k := put_here name v (env ! k)]"
    using set_name_first [OF assms(2)] by blast
  have bind: "written name env = k" by (rule written_eq [OF k(1-3)])
  have vis: "visible env' = visible env" using visible_shape [OF update_shape [OF k(1)]] k(4) by simp
  have env': "env' \<noteq> []" using assms(1) k(4) by simp
  have here: "get_here (env' ! j) x = (if j = k \<and> x = name then Some v else get_here (env ! j) x)" if "j < length env" for j
    using that k(1,4) by (simp add: nth_list_update)
  show ?thesis
  proof (cases "x = name \<and> k \<in> set (visible env)")
    case True
    have "read_at env' name (visible env) = Some v"
      using True k(1,2) here visible_bounds [OF assms(1)]
      by (intro read_at_first [of _ k]) (auto simp: visible_sorted)
    then show ?thesis using True bind env' by (simp add: get_read vis)
  next
    case False
    have "read_at env' x (visible env) = read_at env x (visible env)"
      using False here visible_bounds [OF assms(1)] by (intro read_at_cong) auto
    then show ?thesis using False bind env' assms(1) by (auto simp: get_read vis)
  qed
qed

text \<open>C7: What an assignment does to every later read: it writes the nearest scope of the whole chain
  that binds the name, and when that scope is visible the name reads as the value; when it is a
  caller's frame, which no read sees, nothing that can be read changes. No other name changes.\<close>

theorem set_get_exact:
  assumes "env \<noteq> []" and "set_name name v env = Inr env'"
  shows "get x env' = (if x = name \<and> written name env \<in> set (visible env) then Some v else get x env)"
  by (rule get_after_set [OF assms])

theorem set_get_exact_witness:
  "get ''x'' [frame 2 [], root_scope\<lparr>variables := [''x'' \<mapsto> VUnit]\<rparr>] = Some VUnit"
  using set_get_exact [of "[frame 2 [], root_scope\<lparr>variables := [''x'' \<mapsto> VBool True]\<rparr>]" "''x''" VUnit
      "[frame 2 [], root_scope\<lparr>variables := [''x'' \<mapsto> VUnit]\<rparr>]" "''x''"]
  by (simp add: env_eval written_def)

text \<open>A caller's bindings are not a function's to see: a read depends on the visible scopes only,
  whatever the frames between them, the callers', come to hold.\<close>

theorem callers_hidden:
  assumes "env \<noteq> []" and "same_shape env env'"
    and "\<forall>k \<in> set (visible env). get_here (env ! k) = get_here (env' ! k)"
  shows "get name env = get name env'"
proof -
  have "env' \<noteq> []" using assms(1,2) by (auto simp: same_shape_def)
  then show ?thesis
    using assms read_at_cong [of "visible env" env name env'] visible_shape [OF assms(2)] by (simp add: get_read)
qed

theorem callers_hidden_witness:
  "get ''x'' [frame 2 [], frame 1 [], root_scope] = get ''x'' [frame 2 [], frame 1 [(''x'', VUnit)], root_scope]"
  by (rule callers_hidden) (simp_all add: env_eval)

text \<open>A defined name reads as its value in the scope it was defined in and hides no other name.\<close>

theorem define_get:
  assumes "env \<noteq> []"
  shows "get x (define_name name v env) = (if x = name then Some v else get x env)"
proof -
  obtain s ps where env: "env = s # ps" using assms by (cases env) auto
  obtain s' where s': "define_name name v env = s' # ps" "scope_id s' = scope_id s" "lexical_parent s' = lexical_parent s"
    by (auto simp: define_name_def env Let_def)
  have "get_here s' y = (if y = name then Some v else get_here s y)" for y
  proof -
    have "s' = put_here name v s \<or> \<not> has_local name s \<and> s' = s\<lparr>locals := locals s @ [(name, v)]\<rparr>"
      using s'(1) by (auto simp: define_name_def env put_here_def Let_def)
    moreover have "get_here (s\<lparr>locals := locals s @ [(name, v)]\<rparr>) y = (if y = name then Some v else get_here s y)"
      by (simp add: get_here_def split: option.split)
    ultimately show ?thesis by (metis get_put_here)
  qed
  then show ?thesis
    using s'(1) by (simp add: s'(2,3) env get_def get_lexical_def lexical_chain_def)
qed

theorem define_get_witness: "get ''x'' (define_name ''x'' VUnit [frame 2 [], root_scope]) = Some VUnit"
  using define_get [of "[frame 2 [], root_scope]" "''x''" "''x''" VUnit] by simp

section \<open>Slots\<close>

text \<open>A resolved slot is the lookup it stands for: when the place verified is the name's own in a
  visible scope and no nearer visible scope binds the name, or when the place does not verify, reading
  the slot is reading the name.\<close>

theorem get_slot_exact:
  assumes "env \<noteq> []"
    and "depth < length env \<Longrightarrow> slot_holds name slot (env ! depth) \<Longrightarrow>
      depth \<in> set (visible env) \<and> (depth = 0 \<or> depth + 1 < length env) \<and>
      get_here (env ! depth) name = Some (snd (locals (env ! depth) ! slot)) \<and>
      (\<forall>k \<in> set (visible env). k < depth \<longrightarrow> get_here (env ! k) name = None)"
  shows "get_slot name depth slot env = get_lexical name False env"
proof (cases "depth < length env \<and> slot_holds name slot (env ! depth)")
  case True
  let ?ks = "filter (\<lambda>k. k = 0 \<or> k + 1 < length env) (visible env)"
  have "read_at env name ?ks = Some (snd (locals (env ! depth) ! slot))"
    using assms(2) True by (intro read_at_first [of _ depth]) (auto simp: visible_sorted sorted_wrt_filter)
  then show ?thesis using True assms(1) by (simp add: get_slot_def get_lexical_read)
qed (auto simp: get_slot_def)

theorem get_slot_exact_witness:
  "get_slot ''x'' 0 0 [frame 2 [(''x'', VUnit)], root_scope] =
     get_lexical ''x'' False [frame 2 [(''x'', VUnit)], root_scope]"
  by (rule get_slot_exact) (auto simp: env_eval slot_holds_def)

section \<open>Calls and blocks\<close>

text \<open>The chain of a scope, from it.\<close>

fun declared :: "nat \<Rightarrow> ('o, 'r) env \<Rightarrow> ('o, 'r) env" where
  "declared d [] = []"
| "declared d (p # ps) = (if ps = [] \<or> scope_id p = d then p # ps else declared d ps)"

lemma chain_walk_declared:
  "\<forall>s \<in> set ps. scope_id s \<noteq> target \<Longrightarrow> ps \<noteq> [] \<Longrightarrow> chain_walk target d ps = lexical_chain (declared d ps)"
proof (induction ps)
  case (Cons p ps)
  show ?case
  proof (cases "ps = [] \<or> scope_id p = d")
    case True
    then show ?thesis using Cons.prems by (auto simp: lexical_chain_def)
  next
    case False
    then show ?thesis using Cons by simp
  qed
qed simp

text \<open>C27: A function's frame sees its own bindings, then what the scope it was declared in sees, and
  nothing in between.\<close>

theorem call_sees_declaration:
  assumes "env \<noteq> []" and "\<forall>s \<in> set env. scope_id s \<noteq> next_scope"
  shows "get name (fst (enter_function d next_scope (s # env))) =
    (case get_here s name of Some v \<Rightarrow> Some v | None \<Rightarrow> get name (declared d env))"
proof -
  have here: "get_here (s\<lparr>scope_id := next_scope, lexical_parent := d\<rparr>) name = get_here s name"
    by (simp add: get_here_def split: option.split)
  have "lexical_chain (fst (enter_function d next_scope (s # env))) =
      fst (enter_function d next_scope (s # env)) # lexical_chain (declared d env)"
    using chain_walk_declared [OF assms(2,1)] by (simp add: lexical_chain_def [of "_ # _"] enter_function_def)
  then show ?thesis
    by (simp add: get_def get_lexical_def enter_function_def here lexical_chain_def [of "declared d env"] split: option.split)
qed

theorem call_sees_declaration_witness:
  "get ''x'' (fst (enter_function 1 3 (frame 2 [] # [frame 2 [(''x'', VUnit)], frame 1 [(''x'', VBool True)], root_scope]))) =
     Some (VBool True)"
proof -
  have "get_here (frame 2 [] :: (nat, unit) scope) ''x'' = None" by (simp add: env_eval)
  moreover have "get ''x'' [frame 1 [(''x'', VBool True)], root_scope] = Some (VBool True)" by (simp add: env_eval)
  ultimately show ?thesis
    using call_sees_declaration [of "[frame 2 [(''x'', VUnit)], frame 1 [(''x'', VBool True)], root_scope]" 3 "''x''" 1 "frame 2 []"]
    by (simp add: frame_def root_scope_def)
qed

text \<open>A block's scope sees what the scope around it sees.\<close>

theorem block_sees_parent:
  assumes "env \<noteq> []"
  shows "get name (with_parent env) = get name env"
  using assms by (cases env) (auto simp: get_def get_lexical_def lexical_chain_def with_parent_def get_here_def)

section \<open>Modules and the program\<close>

text \<open>What the program's root and its tables of declarations may hold, as a module's code sees them.\<close>

definition program_side :: "('o, 'r, 'd) tables \<Rightarrow> ('o, 'r, 'd) tables \<Rightarrow> bool" where
  "program_side t t' \<longleftrightarrow>
     current_file t' = current_file t \<and> entry_file t' = entry_file t \<and> module_scopes t' = module_scopes t \<and>
     bridge_functions t' = bridge_functions t \<and> prelude t' = prelude t"

lemma get_lexical_root:
  assumes "env \<noteq> []" and "same_shape (env @ [s]) (env @ [s'])"
  shows "get_lexical name False (env @ [s]) = get_lexical name False (env @ [s'])"
proof -
  have v: "visible (env @ [s']) = visible (env @ [s])" using visible_shape [OF assms(2)] by simp
  have "read_at (env @ [s]) name ks = read_at (env @ [s']) name ks" if "\<forall>k \<in> set ks. k < length env" for ks
    using that by (intro read_at_cong) (auto simp: nth_append)
  from this [of "filter (\<lambda>k. k = 0 \<or> k < length env) (visible (env @ [s]))"]
  show ?thesis using assms(1) by (auto simp: get_lexical_read v)
qed

lemma lookup_foreign:
  assumes "\<not> root_is_home t env"
  shows "lookup_name rg b t env name =
    (case get_lexical name False env of Some v \<Rightarrow> Some v | None \<Rightarrow>
     (case own_module t env name of Some v \<Rightarrow> Some v | None \<Rightarrow>
     (case (case bridge_functions t name of
              Some (file, f) \<Rightarrow> if same_home (entry_file t) file (owner (hd env)) then Some (VFun f) else None
            | None \<Rightarrow> None) of Some v \<Rightarrow> Some v | None \<Rightarrow>
     (case rg (run (hd env)) name of Some v \<Rightarrow> Some v | None \<Rightarrow> prelude t name))), t)"
  using assms unfolding lookup_name_def Let_def by (auto split: option.split)

text \<open>C8: A module's code is closed to the program that runs it: what a name means to it, and what
  looking it up leaves of the tables, is the same whatever the program's root scope, its globals, its
  early declarations and its pending ones hold.\<close>

theorem module_closed:
  assumes "env \<noteq> []" and "same_shape (env @ [s]) (env @ [s'])" and "program_side t t'"
    and "\<not> root_is_home t (env @ [s])"
  shows "lookup_name rg b t' (env @ [s']) name = (fst (lookup_name rg b t (env @ [s]) name), t')"
proof -
  have hd: "hd (env @ [s']) = hd (env @ [s])" "tl (env @ [s']) \<noteq> []" "tl (env @ [s]) \<noteq> []"
    using assms(1) by (cases env; simp)+
  have home: "root_is_home t' (env @ [s']) = root_is_home t (env @ [s])"
    using assms(3) hd by (simp add: root_is_home_def program_side_def split: option.split)
  show ?thesis
    using assms(3,4) home hd(1) get_lexical_root [OF assms(1,2), of name]
    by (simp add: lookup_foreign own_module_def program_side_def cong: option.case_cong prod.case_cong)
qed

definition module_tables :: "(nat, unit, unit) tables" where
  "module_tables = \<lparr>current_file = Some ''main.ol'', entry_file = Some ''main.ol'', module_scopes = Map.empty,
     bridge_functions = Map.empty, prelude = Map.empty, fallback_globals = None, declared_early = Map.empty,
     pending_top_level = Map.empty\<rparr>"

theorem module_closed_witness:
  "lookup_name (\<lambda>_ _. None) (\<lambda>_ _. None) (module_tables\<lparr>fallback_globals := Some [''x'' \<mapsto> VUnit]\<rparr>)
       ([frame 2 []\<lparr>owner := Some ''lib.ol''\<rparr>] @ [root_scope\<lparr>variables := [''x'' \<mapsto> VUnit]\<rparr>]) ''x'' =
     (None, module_tables\<lparr>fallback_globals := Some [''x'' \<mapsto> VUnit]\<rparr>)"
proof -
  have "fst (lookup_name (\<lambda>_ _. None) (\<lambda>_ _. None) module_tables
      ([frame 2 []\<lparr>owner := Some ''lib.ol''\<rparr>] @ [root_scope]) ''x'') = None"
    by (simp add: lookup_name_def module_tables_def own_module_def root_is_home_def same_home_def is_program_def env_eval)
  moreover have "lookup_name (\<lambda>_ _. None) (\<lambda>_ _. None) (module_tables\<lparr>fallback_globals := Some [''x'' \<mapsto> VUnit]\<rparr>)
       ([frame 2 []\<lparr>owner := Some ''lib.ol''\<rparr>] @ [root_scope\<lparr>variables := [''x'' \<mapsto> VUnit]\<rparr>]) ''x'' =
     (fst (lookup_name (\<lambda>_ _. None) (\<lambda>_ _. None) module_tables ([frame 2 []\<lparr>owner := Some ''lib.ol''\<rparr>] @ [root_scope]) ''x''),
      module_tables\<lparr>fallback_globals := Some [''x'' \<mapsto> VUnit]\<rparr>)"
    by (rule module_closed)
      (simp_all add: same_shape_def program_side_def module_tables_def root_is_home_def same_home_def is_program_def
        frame_def root_scope_def)
  ultimately show ?thesis by simp
qed

section \<open>Where writing and reading part\<close>

lemma read_at_none: "read_at env name ks = None \<longleftrightarrow> (\<forall>k \<in> set ks. get_here (env ! k) name = None)"
  by (induction ks) (auto simp: read_at_def)

text \<open>C29: Where an assignment and a read part: when a function cannot read a name, an assignment to it does
  one of two things. If some scope of the whole chain binds the name, it is one the function does not see, a
  caller's: the nearest of them is changed, and the function still cannot read the name. If none does, the
  function's own scope binds the name and the function reads the value.\<close>

theorem assignment_lost:
  assumes "env \<noteq> []" and "get name env = None"
  shows "if \<exists>s \<in> set env. get_here s name \<noteq> None
    then get name (assign name v env) = None \<and> (\<exists>k < length env. k \<notin> set (visible env) \<and>
      get_here (env ! k) name \<noteq> None \<and> (\<forall>j < k. get_here (env ! j) name = None) \<and>
      assign name v env = env[k := put_here name v (env ! k)])
    else get name (assign name v env) = Some v \<and> tl (assign name v env) = tl env"
proof (cases "\<exists>s \<in> set env. get_here s name \<noteq> None")
  case True
  then obtain env' where set: "set_name name v env = Inr env'"
    by (cases "set_name name v env") (auto simp: set_name_none)
  then have a: "assign name v env = env'" by (simp add: assign_def)
  from set_name_first [OF set] obtain k where k: "k < length env" "\<forall>j < k. get_here (env ! j) name = None"
      "get_here (env ! k) name \<noteq> None" "env' = env[k := put_here name v (env ! k)]"
    by blast
  have hidden: "k \<notin> set (visible env)"
    using k(3) assms(2) by (auto simp: get_read [OF assms(1)] read_at_none)
  have "get name env' = None"
    using get_after_set [OF assms(1) set, of name] hidden assms(2) by (simp add: written_eq [OF k(1-3)])
  with True a k hidden show ?thesis by auto
next
  case False
  then have "assign name v env = define_name name v env"
    by (cases "set_name name v env") (auto simp: assign_def dest: set_name_first)
  moreover have "tl (define_name name v env) = tl env" by (simp add: define_name_def Let_def)
  ultimately show ?thesis using False define_get [OF assms(1), of name name v] by auto
qed

lemma assignment_lost_witness:
  "get ''x'' (assign ''x'' VUnit [frame 2 [], frame 1 [(''x'', VBool True)], root_scope]) = None \<and>
   get ''x'' (assign ''x'' VUnit [frame 2 [], frame 1 [], root_scope]) = Some VUnit"
proof -
  let ?a = "[frame 2 [], frame 1 [(''x'', VBool True)], root_scope]" and ?b = "[frame 2 [], frame 1 [], root_scope]"
  have "get ''x'' ?a = None" "\<exists>s \<in> set ?a. get_here s ''x'' \<noteq> None"
    "get ''x'' ?b = None" "\<not> (\<exists>s \<in> set ?b. get_here s ''x'' \<noteq> None)"
    by (simp_all add: env_eval)
  then show ?thesis
    using assignment_lost [of ?a "''x''" VUnit] assignment_lost [of ?b "''x''" VUnit] by auto
qed

end
