(* ===== verification/Sharing.thy ===== *)
theory Sharing
  imports Environment
begin

text \<open>
  The writes in place of \<open>src/interpreter/environment.rs\<close>, where they may go wrong: over an explicit heap of
  lists that several holders share. A list value is the address of its cell (an \<open>Arc\<close> of a vector); any
  other value is its shape and the values it holds. The store has the running scope's chain, everything
  else that holds values (\<open>outside\<close>: other frames, captured closures and snapshots, the evaluator's
  temporaries), and the cells. An \<open>Arc\<close>'s count is the number of its holders, so \<open>Arc::get_mut\<close> is a
  test of the state and not a parameter: a list's cell is solely held when one value in the whole store
  is its address, a scope when nothing but its child holds it. A map of variables that a snapshot still
  shares counts as two holders of each value in it, as it becomes when \<open>get_mut\<close> copies the shared node.
\<close>

section \<open>Values on a heap\<close>

datatype 'k hval = HUnit | HList nat | HNode 'k "'k hval list"

fun refs :: "'k hval \<Rightarrow> nat list" where
  "refs HUnit = []"
| "refs (HList a) = [a]"
| "refs (HNode _ vs) = concat (map refs vs)"

record 'k hscope =
  h_locals :: "(string \<times> 'k hval) list"
  h_vars :: "(string \<times> 'k hval) list"
  other_holders :: nat

record 'k store =
  chain :: "'k hscope list"
  outside :: "'k hval list"
  cells :: "(nat \<times> 'k hval list) list"

definition scope_vals :: "'k hscope \<Rightarrow> 'k hval list" where
  "scope_vals s = map snd (h_locals s) @ map snd (h_vars s)"

definition chain_vals :: "'k hscope list \<Rightarrow> 'k hval list" where
  "chain_vals ss = concat (map scope_vals ss)"

text \<open>Every value that something holds, once a holder.\<close>

definition holders :: "'k store \<Rightarrow> 'k hval list" where
  "holders st = chain_vals (chain st) @ outside st @ concat (map snd (cells st))"

definition count_in :: "'k hval list \<Rightarrow> nat \<Rightarrow> nat" where
  "count_in vs a = count_list (concat (map refs vs)) a"

definition strong :: "'k store \<Rightarrow> nat \<Rightarrow> nat" where
  "strong st a = count_in (holders st) a"

section \<open>The operations\<close>

definition h_get :: "'k hscope \<Rightarrow> string \<Rightarrow> 'k hval option" where
  "h_get s name =
     (case map_of (rev (h_locals s)) name of Some v \<Rightarrow> Some v | None \<Rightarrow> map_of (h_vars s) name)"

definition h_put :: "string \<Rightarrow> 'k hval \<Rightarrow> 'k hscope \<Rightarrow> 'k hscope" where
  "h_put name v s =
     (if map_of (h_locals s) name \<noteq> None then s\<lparr>h_locals := put_last name v (h_locals s)\<rparr>
      else s\<lparr>h_vars := put_first name v (h_vars s)\<rparr>)"

text \<open>The depth of the scope that binds a name, through parents that nothing else holds.\<close>

fun sole_depth :: "string \<Rightarrow> 'k hscope list \<Rightarrow> nat option" where
  "sole_depth name [] = None"
| "sole_depth name (s # ps) =
     (if h_get s name \<noteq> None then Some 0
      else (case ps of
              [] \<Rightarrow> None
            | p # _ \<Rightarrow> if other_holders p = 0 then map_option Suc (sole_depth name ps) else None))"

text \<open>\<open>Arc::get_mut\<close> of a list's cell.\<close>

definition sole_list :: "'k store \<Rightarrow> 'k hval \<Rightarrow> (nat \<times> 'k hval list) option" where
  "sole_list st v =
     (case v of
        HList a \<Rightarrow> (if strong st a = 1 then map_option (\<lambda>xs. (a, xs)) (map_of (cells st) a) else None)
      | _ \<Rightarrow> None)"

definition set_cell :: "nat \<Rightarrow> 'k hval list \<Rightarrow> 'k store \<Rightarrow> 'k store" where
  "set_cell a xs st = st\<lparr>cells := ix_put a xs (cells st)\<rparr>"

definition extend_if_sole :: "'k hval \<Rightarrow> 'k hval list \<Rightarrow> 'k store \<Rightarrow> bool \<times> 'k store" where
  "extend_if_sole v items st =
     (case sole_list st v of Some (a, xs) \<Rightarrow> (True, set_cell a (xs @ items) st) | None \<Rightarrow> (False, st))"

definition try_extend_list :: "string \<Rightarrow> 'k hval list \<Rightarrow> 'k store \<Rightarrow> bool \<times> 'k store" where
  "try_extend_list name items st =
     (case sole_depth name (chain st) of
        Some k \<Rightarrow> extend_if_sole (the (h_get (chain st ! k) name)) items st
      | None \<Rightarrow> (False, st))"

definition try_list_update ::
  "string \<Rightarrow> ('k hval list \<Rightarrow> 'x \<times> 'k hval list) \<Rightarrow> 'k store \<Rightarrow> 'x option \<times> 'k store" where
  "try_list_update name f st =
     (case sole_depth name (chain st) of
        Some k \<Rightarrow>
          (case sole_list st (the (h_get (chain st ! k) name)) of
             Some (a, xs) \<Rightarrow> (Some (fst (f xs)), set_cell a (snd (f xs)) st)
           | None \<Rightarrow> (None, st))
      | None \<Rightarrow> (None, st))"

definition take_for_move :: "string \<Rightarrow> 'k store \<Rightarrow> 'k hval option \<times> 'k store" where
  "take_for_move name st =
     (case sole_depth name (chain st) of
        Some k \<Rightarrow>
          (h_get (chain st ! k) name, st\<lparr>chain := (chain st)[k := h_put name HUnit (chain st ! k)]\<rparr>)
      | None \<Rightarrow> (None, st))"

section \<open>What a value reads as\<close>

text \<open>The tree a value unfolds to, its lists read through the cells.\<close>

datatype 'k tree = TUnit | TList "'k tree list" | TNode 'k "'k tree list"

inductive reads :: "(nat \<times> 'k hval list) list \<Rightarrow> 'k hval \<Rightarrow> 'k tree \<Rightarrow> bool"
  and reads_all :: "(nat \<times> 'k hval list) list \<Rightarrow> 'k hval list \<Rightarrow> 'k tree list \<Rightarrow> bool"
  for H where
  "reads H HUnit TUnit"
| "map_of H a = Some xs \<Longrightarrow> reads_all H xs ts \<Longrightarrow> reads H (HList a) (TList ts)"
| "reads_all H vs ts \<Longrightarrow> reads H (HNode k vs) (TNode k ts)"
| "reads_all H [] []"
| "reads H v t \<Longrightarrow> reads_all H vs ts \<Longrightarrow> reads_all H (v # vs) (t # ts)"

inductive_simps reads_list: "reads H (HList a) t"
inductive_simps reads_all_nil [simp]: "reads_all H [] ts"
inductive_simps reads_all_cons [simp]: "reads_all H (v # vs) ts"

lemma reads_all_append:
  "reads_all H xs ts \<Longrightarrow> reads_all H ys us \<Longrightarrow> reads_all H (xs @ ys) (ts @ us)"
  by (induction xs arbitrary: ts) auto

text \<open>What does not lead to a cell reads the same whatever the cell holds.\<close>

lemma reads_away:
  assumes "\<And>b xs. map_of H b = Some xs \<Longrightarrow> a \<notin> set (concat (map refs xs))"
    and "\<And>b. b \<noteq> a \<Longrightarrow> map_of H' b = map_of H b"
  shows "reads H v t \<Longrightarrow> a \<notin> set (refs v) \<Longrightarrow> reads H' v t"
    and "reads_all H vs ts \<Longrightarrow> a \<notin> set (concat (map refs vs)) \<Longrightarrow> reads_all H' vs ts"
proof (induction rule: reads_reads_all.inducts)
  case (2 b xs ts)
  then have "map_of H' b = Some xs" and "reads_all H' xs ts" using assms by auto
  then show ?case by (rule reads_reads_all.intros(2))
qed (auto intro: reads_reads_all.intros)

section \<open>Holders\<close>

lemma count_in_simps [simp]:
  "count_in [] a = 0" "count_in (v # vs) a = count_list (refs v) a + count_in vs a"
  "count_in (vs @ ws) a = count_in vs a + count_in ws a"
  by (simp_all add: count_in_def)

lemma count_in_zero: "count_in vs a = 0 \<longleftrightarrow> a \<notin> set (concat (map refs vs))"
  by (simp add: count_in_def count_list_0_iff)

lemma count_in_remove1: "v \<in> set vs \<Longrightarrow> count_in vs a = count_list (refs v) a + count_in (remove1 v vs) a"
  by (induction vs) auto

text \<open>The holders of a solely held list, but the one: none leads to its cell.\<close>

lemma sole_others:
  assumes "strong st a = 1" and "HList a \<in> set (holders st)"
  shows "a \<notin> set (concat (map refs (remove1 (HList a) (holders st))))"
proof -
  have "count_in (remove1 (HList a) (holders st)) a = 0"
    using count_in_remove1 [OF assms(2), of a] assms(1) by (simp add: strong_def)
  then show ?thesis unfolding count_in_zero .
qed

lemma h_get_in: "h_get s name = Some v \<Longrightarrow> v \<in> set (scope_vals s)"
  by (auto simp: h_get_def scope_vals_def split: option.splits dest!: map_of_SomeD intro: rev_image_eqI)

lemma chain_vals_split: "k \<le> length ss \<Longrightarrow> chain_vals ss = chain_vals (take k ss) @ chain_vals (drop k ss)"
  by (metis append_take_drop_id chain_vals_def concat_append map_append)

lemma chain_vals_in: "j < k \<Longrightarrow> k \<le> length ss \<Longrightarrow> v \<in> set (scope_vals (ss ! j)) \<Longrightarrow> v \<in> set (chain_vals (take k ss))"
  by (force simp: chain_vals_def in_set_conv_nth)

lemma sole_depth_spec:
  "sole_depth name ss = Some k \<Longrightarrow> k < length ss \<and> h_get (ss ! k) name \<noteq> None \<and>
     (\<forall>j < k. h_get (ss ! j) name = None) \<and> (\<forall>j. 0 < j \<longrightarrow> j \<le> k \<longrightarrow> other_holders (ss ! j) = 0)"
proof (induction name ss arbitrary: k rule: sole_depth.induct)
  case (2 name s ps)
  show ?case
  proof (cases "h_get s name")
    case None
    with "2.prems" obtain p qs m where ps: "ps = p # qs" "other_holders p = 0" "sole_depth name ps = Some m" "k = Suc m"
      by (cases ps) (auto simp del: sole_depth.simps simp: sole_depth.simps(2) [of name s] split: if_splits)
    have IH: "m < length ps" "h_get (ps ! m) name \<noteq> None" "\<forall>j < m. h_get (ps ! j) name = None"
        "\<forall>j. 0 < j \<longrightarrow> j \<le> m \<longrightarrow> other_holders (ps ! j) = 0"
      using "2.IH" [OF _ ps(1,2,3)] None by auto
    have "other_holders ((s # ps) ! j) = 0" if j: "0 < j" "j \<le> k" for j
    proof (cases "j = 1")
      case True
      then show ?thesis using ps by simp
    next
      case False
      then obtain i where "j = Suc i" "0 < i" using j(1) by (cases j) auto
      then show ?thesis using IH(4) j(2) ps(4) by simp
    qed
    moreover have "h_get ((s # ps) ! j) name = None" if "j < k" for j
      using that IH(3) None ps(4) by (cases j) auto
    ultimately show ?thesis using IH(1,2) ps(4) by auto
  next
    case (Some v)
    with "2.prems" have "k = 0" by (simp add: sole_depth.simps(2) [of name s] del: sole_depth.simps)
    with Some show ?thesis by simp
  qed
qed simp

text \<open>What a write in place into the cell of \<open>v\<close> leaves alone: every holder but the one it went through, and
  everything in a scope that something besides its child holds, and above it.\<close>

definition undisturbed :: "'k hval \<Rightarrow> 'k store \<Rightarrow> 'k store \<Rightarrow> bool" where
  "undisturbed v st st' \<longleftrightarrow>
     (\<forall>w \<in> set (remove1 v (holders st)). \<forall>t. reads (cells st') w t \<longleftrightarrow> reads (cells st) w t) \<and>
     (\<forall>k. 0 < k \<longrightarrow> k < length (chain st) \<longrightarrow> 0 < other_holders (chain st ! k) \<longrightarrow>
        (\<forall>w \<in> set (chain_vals (drop k (chain st))). \<forall>t. reads (cells st') w t \<longleftrightarrow> reads (cells st) w t))"

lemma set_cell_undisturbed:
  assumes "sole_depth name (chain st) = Some k" and "h_get (chain st ! k) name = Some (HList a)"
    and "strong st a = 1" and ys: "\<And>w. w \<in> set ys \<Longrightarrow> w \<in> set (concat (map snd (cells st))) \<or> w \<in> set (outside st)"
  shows "undisturbed (HList a) st (set_cell a ys st)" and "a \<notin> set (concat (map refs ys))"
    and "\<And>b xs. map_of (cells st) b = Some xs \<Longrightarrow> a \<notin> set (concat (map refs xs))"
proof -
  note d = sole_depth_spec [OF assms(1)]
  let ?v = "HList a"
  let ?rest = "chain_vals (drop (Suc k) (chain st)) @ outside st @ concat (map snd (cells st))"
  have v: "?v \<in> set (chain_vals (take (Suc k) (chain st)))"
    using d h_get_in [OF assms(2)] by (intro chain_vals_in [of k]) auto
  have split: "holders st = chain_vals (take (Suc k) (chain st)) @ ?rest"
    using chain_vals_split [of "Suc k" "chain st"] d by (simp add: holders_def)
  then have others: "remove1 ?v (holders st) = remove1 ?v (chain_vals (take (Suc k) (chain st))) @ ?rest"
    using v by (simp add: remove1_append)
  have away: "a \<notin> set (refs w)" if "w \<in> set (remove1 ?v (holders st))" for w
    using sole_others [OF assms(3)] that v by (auto simp: split)
  have "a \<notin> set (refs w)" if "w \<in> set ys" for w using ys [OF that] away [of w] by (auto simp: others)
  then show "a \<notin> set (concat (map refs ys))" by auto
  show cell: "a \<notin> set (concat (map refs xs))" if "map_of (cells st) b = Some xs" for b xs
    using map_of_SomeD [OF that] away by (force simp: others)
  let ?st = "set_cell a ys st"
  have new: "map_of (cells ?st) = (map_of (cells st))(a \<mapsto> ys)" by (simp add: set_cell_def store_simps)
  have cell': "a \<notin> set (concat (map refs xs))" if "map_of (cells ?st) b = Some xs" for b xs
    using that cell \<open>a \<notin> set (concat (map refs ys))\<close> unfolding new by (auto split: if_splits)
  have same: "reads (cells ?st) w t \<longleftrightarrow> reads (cells st) w t" if "w \<in> set (remove1 ?v (holders st))" for w t
    using reads_away(1) [of "cells st" a "cells ?st" w t] reads_away(1) [of "cells ?st" a "cells st" w t]
      cell cell' away [OF that] new by auto
  moreover have "w \<in> set (remove1 ?v (holders st))"
    if "0 < j" "j < length (chain st)" "0 < other_holders (chain st ! j)" "w \<in> set (chain_vals (drop j (chain st)))" for j w
  proof -
    have "\<not> j \<le> k" using d that(1,3) by force
    then have "set (drop j (chain st)) \<subseteq> set (drop (Suc k) (chain st))" by (intro set_drop_subset_set_drop) simp
    then show ?thesis using that(4) by (auto simp: others chain_vals_def)
  qed
  ultimately show "undisturbed ?v st ?st" by (auto simp: undisturbed_def)
qed

section \<open>Properties\<close>

text \<open>C28: Extending a list in place is not seen by anyone else. When \<open>xs = xs + items\<close> is done in place, \<open>items\<close>
  being a list the caller holds, the nearest scope that binds the name held a list and reads afterwards as
  that list with the items at its end; every other holder in the store, in any scope, outside or inside
  another list, reads as it did; and nothing changes in a scope that something besides its child
  holds, or above it. When it is declined, nothing changes at all.\<close>

theorem extend_in_place:
  assumes "try_extend_list name items st = (done', st')" and "HList r \<in> set (outside st)"
    and "map_of (cells st) r = Some items"
  shows "if done' then \<exists>k a xs. k < length (chain st) \<and> (\<forall>j < k. h_get (chain st ! j) name = None) \<and>
      h_get (chain st ! k) name = Some (HList a) \<and> map_of (cells st) a = Some xs \<and>
      chain st' = chain st \<and> outside st' = outside st \<and> undisturbed (HList a) st st' \<and>
      (\<forall>ts us. reads (cells st) (HList a) (TList ts) \<and> reads (cells st) (HList r) (TList us) \<longrightarrow>
         reads (cells st') (HList a) (TList (ts @ us)))
    else st' = st"
proof (cases done')
  case True
  then obtain k where k: "sole_depth name (chain st) = Some k"
      "extend_if_sole (the (h_get (chain st ! k) name)) items st = (True, st')"
    using assms(1) by (auto simp: try_extend_list_def split: option.splits)
  note d = sole_depth_spec [OF k(1)]
  obtain a xs where a: "h_get (chain st ! k) name = Some (HList a)" "strong st a = 1" "map_of (cells st) a = Some xs"
      "st' = set_cell a (xs @ items) st"
    using k(2) d by (auto simp: extend_if_sole_def sole_list_def split: option.splits hval.splits if_splits)
  have held: "w \<in> set (concat (map snd (cells st))) \<or> w \<in> set (outside st)" if "w \<in> set (xs @ items)" for w
    using that map_of_SomeD [OF a(3)] map_of_SomeD [OF assms(3)] by force
  note u = set_cell_undisturbed [where ys = "xs @ items", OF k(1) a(1,2) held]
  have new: "map_of (cells st') = (map_of (cells st))(a \<mapsto> xs @ items)" by (simp add: a(4) set_cell_def store_simps)
  have "reads (cells st') (HList a) (TList (ts @ us))"
    if "reads (cells st) (HList a) (TList ts)" and "reads (cells st) (HList r) (TList us)" for ts us
  proof -
    have r: "reads_all (cells st) (xs @ items) (ts @ us)"
      using that a(3) assms(3) by (auto simp: reads_list intro: reads_all_append)
    have "reads_all (cells st') (xs @ items) (ts @ us)"
      by (rule reads_away(2) [OF u(3) _ r u(2)]) (simp_all add: new)
    then show ?thesis using new by (auto simp: reads_list)
  qed
  moreover have "chain st' = chain st" "outside st' = outside st" by (simp_all add: a(4) set_cell_def)
  ultimately show ?thesis using True d a u(1) by auto
next
  case False
  then show ?thesis using assms(1)
    by (auto simp: try_extend_list_def extend_if_sole_def split: option.splits)
qed

text \<open>C30: No other write into a list in place is seen by anyone else. A fused \<open>col.set\<close>, subscript store or swap, its
  new elements the list's own or values the caller holds, makes the nearest scope that binds the name read as the
  list it computes; every other holder in the store reads as it did, and nothing changes in a scope that
  something besides its child holds, or above it. When it is declined, nothing changes at all.\<close>

theorem update_in_place:
  assumes "try_list_update name f st = (res, st')"
    and "\<And>xs w. w \<in> set (snd (f xs)) \<Longrightarrow> w \<in> set xs \<or> w \<in> set (outside st)"
  shows "case res of
      None \<Rightarrow> st' = st
    | Some x \<Rightarrow> \<exists>k a xs. k < length (chain st) \<and> (\<forall>j < k. h_get (chain st ! j) name = None) \<and>
        h_get (chain st ! k) name = Some (HList a) \<and> map_of (cells st) a = Some xs \<and> x = fst (f xs) \<and>
        chain st' = chain st \<and> outside st' = outside st \<and> undisturbed (HList a) st st' \<and>
        (\<forall>ts. reads_all (cells st) (snd (f xs)) ts \<longrightarrow> reads (cells st') (HList a) (TList ts))"
proof (cases res)
  case None
  then show ?thesis using assms(1) by (auto simp: try_list_update_def split: option.splits prod.splits)
next
  case (Some x)
  then obtain k a xs where k: "sole_depth name (chain st) = Some k"
      "sole_list st (the (h_get (chain st ! k) name)) = Some (a, xs)" "x = fst (f xs)" "st' = set_cell a (snd (f xs)) st"
    using assms(1) by (auto simp: try_list_update_def split: option.splits)
  note d = sole_depth_spec [OF k(1)]
  have a: "h_get (chain st ! k) name = Some (HList a)" "strong st a = 1" "map_of (cells st) a = Some xs"
    using k(2) d by (auto simp: sole_list_def split: option.splits hval.splits if_splits)
  have held: "w \<in> set (concat (map snd (cells st))) \<or> w \<in> set (outside st)" if "w \<in> set (snd (f xs))" for w
    using assms(2) [OF that] map_of_SomeD [OF a(3)] by force
  note u = set_cell_undisturbed [where ys = "snd (f xs)", OF k(1) a(1,2) held]
  have new: "map_of (cells st') = (map_of (cells st))(a \<mapsto> snd (f xs))" by (simp add: k(4) set_cell_def store_simps)
  have "reads (cells st') (HList a) (TList ts)" if r: "reads_all (cells st) (snd (f xs)) ts" for ts
  proof -
    have "reads_all (cells st') (snd (f xs)) ts"
      by (rule reads_away(2) [OF u(3) _ r u(2)]) (simp_all add: new)
    then show ?thesis using new by (auto simp: reads_list)
  qed
  moreover have "chain st' = chain st" "outside st' = outside st" by (simp_all add: k(4) set_cell_def)
  ultimately show ?thesis using Some d a u(1) k(3,4) by auto
qed

section \<open>Moving a value out\<close>

lemma count_put_first:
  "map_of m k = Some w \<Longrightarrow> count_in (map snd (put_first k v m)) a + count_list (refs w) a =
    count_in (map snd m) a + count_list (refs v) a"
  by (induction m) (auto split: if_splits)

lemma count_in_rev: "count_in (rev vs) a = count_in vs a"
  by (induction vs) auto

lemma count_put_last:
  assumes "map_of (rev m) k = Some w"
  shows "count_in (map snd (put_last k v m)) a + count_list (refs w) a = count_in (map snd m) a + count_list (refs v) a"
  using count_put_first [OF assms, of v a] by (simp add: put_last_def rev_map [symmetric] count_in_rev)

lemma local_rev: "map_of (rev m) k = None \<longleftrightarrow> map_of m k = None"
  by (simp add: map_of_eq_None_iff)

lemma count_h_put:
  assumes "h_get s name = Some w"
  shows "count_in (scope_vals (h_put name v s)) a + count_list (refs w) a = count_in (scope_vals s) a + count_list (refs v) a"
proof (cases "map_of (rev (h_locals s)) name")
  case None
  moreover from this have "map_of (h_locals s) name = None" by (simp add: local_rev)
  ultimately show ?thesis using assms count_put_first [of "h_vars s" name w v a]
    by (auto simp: h_get_def h_put_def scope_vals_def)
next
  case (Some u)
  then have "map_of (h_locals s) name \<noteq> None" by (simp flip: local_rev)
  then show ?thesis using Some assms count_put_last [OF Some, of v a] by (auto simp: h_get_def h_put_def scope_vals_def)
qed

lemma count_chain_update:
  "k < length ss \<Longrightarrow> count_in (chain_vals (ss[k := s])) a + count_in (scope_vals (ss ! k)) a =
    count_in (chain_vals ss) a + count_in (scope_vals s) a"
  by (induction ss arbitrary: k) (auto simp: chain_vals_def nth_Cons split: nat.split)

lemma put_first_get: "map_of m k \<noteq> None \<Longrightarrow> map_of (put_first k v m) = (map_of m)(k \<mapsto> v)"
  by (induction m) (auto simp: fun_eq_iff split: if_splits)

lemma h_get_put:
  assumes "h_get s name \<noteq> None"
  shows "h_get (h_put name v s) x = (if x = name then Some v else h_get s x)"
proof (cases "map_of (h_locals s) name")
  case None
  then show ?thesis using assms put_first_get [of "h_vars s" name v] local_rev [of "h_locals s" name]
    by (auto simp: h_get_def h_put_def split: option.split)
next
  case (Some u)
  then have "map_of (rev (h_locals s)) name \<noteq> None" by (simp add: local_rev)
  then show ?thesis using Some put_first_get [of "rev (h_locals s)" name v]
    by (auto simp: h_get_def h_put_def put_last_def split: option.split)
qed

text \<open>C32: A value moved out for a call is moved, not copied: the nearest scope that binds the name held it
  and holds Unit after it; every other name, every other scope, every scope that something besides its child
  holds and all above it, the cells and everything outside are as they were; and once the callee holds
  the value, every list in the store has exactly as many holders as before, so a list held by the name
  alone is held by the callee alone.\<close>

theorem take_moves:
  assumes "take_for_move name st = (Some v, st')"
  shows "\<exists>k < length (chain st). (\<forall>j < k. h_get (chain st ! j) name = None) \<and> h_get (chain st ! k) name = Some v \<and>
    (\<forall>x. h_get (chain st' ! k) x = (if x = name then Some HUnit else h_get (chain st ! k) x)) \<and>
    length (chain st') = length (chain st) \<and> (\<forall>j. j \<noteq> k \<longrightarrow> chain st' ! j = chain st ! j) \<and>
    (\<forall>j. 0 < j \<longrightarrow> 0 < other_holders (chain st ! j) \<longrightarrow> j < length (chain st) \<longrightarrow> drop j (chain st') = drop j (chain st)) \<and>
    cells st' = cells st \<and> outside st' = outside st \<and>
    (\<forall>a. strong (st'\<lparr>outside := v # outside st'\<rparr>) a = strong st a)"
proof -
  obtain k where k: "sole_depth name (chain st) = Some k" "h_get (chain st ! k) name = Some v"
      "st' = st\<lparr>chain := (chain st)[k := h_put name HUnit (chain st ! k)]\<rparr>"
    using assms by (auto simp: take_for_move_def split: option.splits)
  note d = sole_depth_spec [OF k(1)]
  have "drop j (chain st') = drop j (chain st)" if "0 < j" "0 < other_holders (chain st ! j)" for j
  proof -
    have "j \<le> k \<Longrightarrow> other_holders (chain st ! j) = 0" using d that(1) by blast
    then have "k < j" using that(2) by linarith
    then show ?thesis by (simp add: k(3))
  qed
  moreover have "strong (st'\<lparr>outside := v # outside st'\<rparr>) a = strong st a" for a
    using count_h_put [OF k(2), of HUnit a] count_chain_update [of k "chain st" "h_put name HUnit (chain st ! k)" a] d
    by (simp add: k(3) strong_def holders_def)
  ultimately show ?thesis using d k(2) h_get_put [of "chain st ! k" name HUnit] by (intro exI [of _ k]) (simp add: k(3))
qed

section \<open>Runs\<close>

text \<open>A list \<open>xs\<close> at the root, another the caller holds, and a frame that runs.\<close>

definition demo_store :: "nat store" where
  "demo_store =
     \<lparr>chain = [\<lparr>h_locals = [], h_vars = [], other_holders = 0\<rparr>,
               \<lparr>h_locals = [], h_vars = [(''xs'', HList 0)], other_holders = 0\<rparr>],
      outside = [HList 1], cells = [(0, [HNode 7 []]), (1, [HNode 8 []])]\<rparr>"

lemma demo_reads: "reads (cells demo_store) (HList 0) (TList [TNode 7 []])" "reads (cells demo_store) (HList 1) (TList [TNode 8 []])"
  by (auto simp: demo_store_def reads_list intro: reads_reads_all.intros)

lemma extend_in_place_witness:
  "reads (cells (snd (try_extend_list ''xs'' [HNode 8 []] demo_store))) (HList 0) (TList [TNode 7 [], TNode 8 []])"
proof -
  have "fst (try_extend_list ''xs'' [HNode 8 []] demo_store)" by code_simp
  then obtain st' where r: "try_extend_list ''xs'' [HNode 8 []] demo_store = (True, st')"
    by (cases "try_extend_list ''xs'' [HNode 8 []] demo_store") auto
  have "HList 1 \<in> set (outside demo_store)" "map_of (cells demo_store) 1 = Some [HNode 8 []]"
    "h_get (chain demo_store ! 0) ''xs'' = None" "h_get (chain demo_store ! 1) ''xs'' = Some (HList 0)"
    "length (chain demo_store) = 2"
    by (simp_all add: demo_store_def h_get_def)
  with extend_in_place [OF r this(1,2)]
  have "\<forall>ts us. reads (cells demo_store) (HList 0) (TList ts) \<and> reads (cells demo_store) (HList 1) (TList us) \<longrightarrow>
      reads (cells st') (HList 0) (TList (ts @ us))"
    by (auto simp: less_2_cases_iff)
  from this [rule_format, of "[TNode 7 []]" "[TNode 8 []]"] demo_reads show ?thesis by (simp add: r)
qed

lemma update_in_place_witness:
  "outside (snd (try_list_update ''xs'' (\<lambda>xs. ((), rev xs)) demo_store)) = [HList 1]"
proof -
  have "fst (try_list_update ''xs'' (\<lambda>xs. ((), rev xs)) demo_store) = Some ()" by code_simp
  then obtain st' where r: "try_list_update ''xs'' (\<lambda>xs. ((), rev xs)) demo_store = (Some (), st')"
    by (cases "try_list_update ''xs'' (\<lambda>xs. ((), rev xs)) demo_store") auto
  from update_in_place [OF r] show ?thesis by (auto simp: r) (auto simp: demo_store_def)
qed

lemma take_moves_witness:
  "h_get (chain (snd (take_for_move ''xs'' demo_store)) ! 1) ''xs'' = Some HUnit"
proof -
  have "fst (take_for_move ''xs'' demo_store) = Some (HList 0)" by code_simp
  then obtain st' where r: "take_for_move ''xs'' demo_store = (Some (HList 0), st')"
    by (cases "take_for_move ''xs'' demo_store") auto
  have "h_get (chain demo_store ! 0) ''xs'' = None" "length (chain demo_store) = 2"
    by (simp_all add: demo_store_def h_get_def)
  with take_moves [OF r] show ?thesis by (auto simp: r less_2_cases_iff)
qed

text \<open>A second holder, and the write in place is declined; a parent that something else holds, and it is
  not reached.\<close>

lemma declined_when_shared:
  "\<not> fst (try_extend_list ''xs'' [HNode 8 []] (demo_store\<lparr>outside := [HList 1, HNode 3 [HList 0]]\<rparr>))"
  "\<not> fst (try_extend_list ''xs'' [HNode 8 []]
       (demo_store\<lparr>chain := [hd (chain demo_store), (chain demo_store ! 1)\<lparr>other_holders := 1\<rparr>]\<rparr>))"
  by code_simp+

end
