(* ===== verification/PegGrammar.thy ===== *)
theory PegGrammar
  imports Values "HOL-Library.While_Combinator"
begin

unbundle bit_operations_syntax

text \<open>
  A grammar as the native matcher runs it (\<open>src/stdlib/peg/grammar.rs\<close>): sets of characters, the
  expressions read from the olang side, the analyses that decide what can match nothing and what an
  expression can start with, and the building of the flat grammar. Ids are positions in the arrays
  \<open>exprs\<close>, \<open>rules\<close>, \<open>precs\<close>; \<open>NONE\<close> (\<open>u32::MAX\<close>) is \<open>None\<close>.
\<close>

section \<open>Sets of characters\<close>

type_synonym range = "int \<times> int"

record charset =
  ascii :: "u64 list"
  wide :: "range list"
  wide_neg :: bool

definition in_ranges :: "range list \<Rightarrow> int \<Rightarrow> bool" where
  "in_ranges rs c \<longleftrightarrow> (\<exists>(lo, hi) \<in> set rs. lo \<le> c \<and> c \<le> hi)"

definition has :: "charset \<Rightarrow> int \<Rightarrow> bool" where
  "has s c =
     (if c < 0 then False
      else if c < 128 then drop_bit (nat c mod 64) (ascii s ! (nat c div 64)) AND 1 = 1
      else in_ranges (wide s) c \<noteq> wide_neg s)"

text \<open>The bitmap of the characters below 128 that have a property.\<close>

definition bitmap :: "(int \<Rightarrow> bool) \<Rightarrow> u64 list" where
  "bitmap P =
     fold (\<lambda>c a. if P (int c) then a[c div 64 := a ! (c div 64) OR push_bit (c mod 64) 1] else a) [0..<128] [0, 0]"

definition of_class :: "range list \<Rightarrow> bool \<Rightarrow> charset" where
  "of_class ranges neg =
     \<lparr>ascii = bitmap (\<lambda>c. in_ranges ranges c \<noteq> neg), wide = filter (\<lambda>(_, hi). hi \<ge> 128) ranges, wide_neg = neg\<rparr>"

text \<open>The characters an expression can start with.\<close>

record first_set =
  fa :: "bool list"
  fw :: bool

definition first_empty :: first_set where
  "first_empty = \<lparr>fa = replicate 128 False, fw = False\<rparr>"

definition first_all :: first_set where
  "first_all = \<lparr>fa = replicate 128 True, fw = True\<rparr>"

definition first_union :: "first_set \<Rightarrow> first_set \<Rightarrow> first_set" where
  "first_union f g = \<lparr>fa = map2 (\<or>) (fa f) (fa g), fw = (fw f \<or> fw g)\<rparr>"

definition first_range :: "bool \<Rightarrow> range \<Rightarrow> first_set \<Rightarrow> first_set" where
  "first_range neg r f =
     (case r of (lo, hi) \<Rightarrow>
        let f' = f\<lparr>fa := fold (\<lambda>c a. if c \<ge> 0 then a[nat c := \<not> neg] else a) [lo .. min hi 127] (fa f)\<rparr>
        in if hi \<ge> 128 \<and> \<not> neg then f'\<lparr>fw := True\<rparr> else f')"

definition first_ranges :: "range list \<Rightarrow> bool \<Rightarrow> first_set" where
  "first_ranges ranges neg = fold (first_range neg) ranges \<lparr>fa = replicate 128 neg, fw = neg\<rparr>"

text \<open>The guard an ordered choice tests; none where it lets every character through.\<close>

definition guard :: "first_set \<Rightarrow> charset option" where
  "guard f =
     (if fw f \<and> list_all (\<lambda>b. b) (fa f) then None
      else Some \<lparr>ascii = bitmap (\<lambda>c. fa f ! nat c), wide = (if fw f then [(128, 1114111)] else []), wide_neg = False\<rparr>)"

section \<open>Expressions\<close>

datatype pexp =
  ELit "int list" string bool
| EClass "range list" bool string
| EAny
| ERef string
| ESeq "pexp list"
| EAlt "pexp list"
| EStar pexp
| EPlus pexp
| EOpt pexp
| EAnd pexp
| ENot pexp
| ELabel string pexp
| EPrec pexp "(string \<times> pexp list) list"

fun parts :: "pexp \<Rightarrow> pexp list" where
  "parts (ESeq xs) = xs"
| "parts (EAlt xs) = xs"
| "parts (EStar e) = [e]"
| "parts (EPlus e) = [e]"
| "parts (EOpt e) = [e]"
| "parts (EAnd e) = [e]"
| "parts (ENot e) = [e]"
| "parts (ELabel _ e) = [e]"
| "parts (EPrec a levels) = a # concat (map snd levels)"
| "parts _ = []"

record rule_in =
  ri_name :: string
  ri_desc :: "string option"
  ri_e :: pexp
  ri_token :: bool
  ri_silent :: bool

section \<open>Reading the olang side's data\<close>

definition peg_field :: "'o val \<Rightarrow> string \<Rightarrow> 'o val option" where
  "peg_field v key =
     (case (case v of VMap m \<Rightarrow> map_of m key | VStruct _ m \<Rightarrow> map_of m key | _ \<Rightarrow> None) of
        Some VUnit \<Rightarrow> None
      | x \<Rightarrow> x)"

definition bad :: "string \<Rightarrow> string" where
  "bad what = ''peg: malformed grammar data ('' @ what @ '')''"

definition peg_string :: "'o val \<Rightarrow> string \<Rightarrow> string + string" where
  "peg_string v key = (case peg_field v key of Some (VStr s) \<Rightarrow> Inr s | _ \<Rightarrow> Inl (bad key))"

definition peg_boolean :: "'o val \<Rightarrow> string \<Rightarrow> bool" where
  "peg_boolean v key = (case peg_field v key of Some (VBool b) \<Rightarrow> b | _ \<Rightarrow> False)"

definition peg_list :: "'o val \<Rightarrow> string \<Rightarrow> string + 'o val list" where
  "peg_list v key =
     (case peg_field v key of Some (VList xs) \<Rightarrow> Inr xs | None \<Rightarrow> Inr [] | _ \<Rightarrow> Inl (bad key))"

text \<open>\<open>as i32\<close> wraps.\<close>

definition to_i32 :: "int \<Rightarrow> int" where
  "to_i32 n = (n + 2 ^ 31) mod 2 ^ 32 - 2 ^ 31"

definition peg_int :: "'o val \<Rightarrow> string + int" where
  "peg_int v = (case v of VInt n \<Rightarrow> Inr (to_i32 n) | _ \<Rightarrow> Inl (bad ''a code''))"

fun traverse :: "('a \<Rightarrow> 'e + 'b) \<Rightarrow> 'a list \<Rightarrow> 'e + 'b list" where
  "traverse f [] = Inr []"
| "traverse f (x # xs) =
     (case f x of Inl e \<Rightarrow> Inl e
      | Inr y \<Rightarrow> (case traverse f xs of Inl e \<Rightarrow> Inl e | Inr ys \<Rightarrow> Inr (y # ys)))"

lemma traverse_cong [fundef_cong]:
  "xs = ys \<Longrightarrow> (\<And>x. x \<in> set ys \<Longrightarrow> f x = g x) \<Longrightarrow> traverse f xs = traverse g ys"
  by (induction xs arbitrary: ys) (auto split: sum.split)

definition peg_range :: "'o val \<Rightarrow> string + range" where
  "peg_range r =
     (case (case r of VTuple xs \<Rightarrow> xs | VList xs \<Rightarrow> xs | _ \<Rightarrow> []) of
        [x, y] \<Rightarrow>
          (case peg_int x of Inl e \<Rightarrow> Inl e
           | Inr lo \<Rightarrow> (case peg_int y of Inl e \<Rightarrow> Inl e | Inr hi \<Rightarrow> Inr (lo, hi)))
      | _ \<Rightarrow> Inl (bad ''a range''))"

lemma size_map_of: "map_of m k = Some v \<Longrightarrow> size v < Suc (size_list (size_prod (\<lambda>_. 0) size) m)"
  by (induction m) (auto split: if_splits)

lemma size_peg_field: "peg_field v key = Some x \<Longrightarrow> size x < size v"
  by (cases v) (auto simp: peg_field_def split: option.splits val.splits dest!: size_map_of)

lemma size_peg_list: "peg_list v key = Inr xs \<Longrightarrow> x \<in> set xs \<Longrightarrow> size x < size v"
  by (auto simp: peg_list_def split: option.splits val.splits dest!: size_peg_field)
    (meson less_SucI less_trans size_list_estimation less_Suc_eq_le order_refl not_less)

function read_expr :: "'o val \<Rightarrow> string + pexp"
and read_sub :: "'o val \<Rightarrow> string \<Rightarrow> string + pexp"
and read_items :: "'o val \<Rightarrow> string \<Rightarrow> string + pexp list"
and read_level :: "'o val \<Rightarrow> string + string \<times> pexp list" where
  "read_expr v =
     (case peg_string v ''t'' of Inl e \<Rightarrow> Inl e | Inr t \<Rightarrow>
      if t = ''lit'' then
        (case peg_list v ''codes'' of Inl e \<Rightarrow> Inl e | Inr cs \<Rightarrow>
         case traverse peg_int cs of Inl e \<Rightarrow> Inl e | Inr codes \<Rightarrow>
         case peg_string v ''s'' of Inl e \<Rightarrow> Inl e | Inr s \<Rightarrow> Inr (ELit codes s (peg_boolean v ''ci'')))
      else if t = ''class'' then
        (case peg_list v ''ranges'' of Inl e \<Rightarrow> Inl e | Inr rs \<Rightarrow>
         case traverse peg_range rs of Inl e \<Rightarrow> Inl e | Inr ranges \<Rightarrow>
         case peg_string v ''src'' of Inl e \<Rightarrow> Inl e | Inr src \<Rightarrow> Inr (EClass ranges (peg_boolean v ''neg'') src))
      else if t = ''any'' then Inr EAny
      else if t = ''ref'' then (case peg_string v ''name'' of Inl e \<Rightarrow> Inl e | Inr n \<Rightarrow> Inr (ERef n))
      else if t = ''seq'' then (case read_items v ''items'' of Inl e \<Rightarrow> Inl e | Inr xs \<Rightarrow> Inr (ESeq xs))
      else if t = ''alt'' then (case read_items v ''items'' of Inl e \<Rightarrow> Inl e | Inr xs \<Rightarrow> Inr (EAlt xs))
      else if t = ''star'' then (case read_sub v ''e'' of Inl e \<Rightarrow> Inl e | Inr x \<Rightarrow> Inr (EStar x))
      else if t = ''plus'' then (case read_sub v ''e'' of Inl e \<Rightarrow> Inl e | Inr x \<Rightarrow> Inr (EPlus x))
      else if t = ''opt'' then (case read_sub v ''e'' of Inl e \<Rightarrow> Inl e | Inr x \<Rightarrow> Inr (EOpt x))
      else if t = ''and'' then (case read_sub v ''e'' of Inl e \<Rightarrow> Inl e | Inr x \<Rightarrow> Inr (EAnd x))
      else if t = ''not'' then (case read_sub v ''e'' of Inl e \<Rightarrow> Inl e | Inr x \<Rightarrow> Inr (ENot x))
      else if t = ''label'' then
        (case peg_string v ''name'' of Inl e \<Rightarrow> Inl e | Inr n \<Rightarrow>
         case read_sub v ''e'' of Inl e \<Rightarrow> Inl e | Inr x \<Rightarrow> Inr (ELabel n x))
      else if t = ''prec'' then
        (case peg_list v ''levels'' of Inl e \<Rightarrow> Inl e | Inr ls \<Rightarrow>
         case traverse read_level ls of Inl e \<Rightarrow> Inl e | Inr levels \<Rightarrow>
         case read_sub v ''atom'' of Inl e \<Rightarrow> Inl e | Inr a \<Rightarrow> Inr (EPrec a levels))
      else Inl (bad (''expression `'' @ t @ ''`'')))"
| "read_sub v key = (case peg_field v key of Some x \<Rightarrow> read_expr x | None \<Rightarrow> Inl (bad key))"
| "read_items v key = (case peg_list v key of Inl e \<Rightarrow> Inl e | Inr xs \<Rightarrow> traverse read_expr xs)"
| "read_level l =
     (case read_items l ''ops'' of Inl e \<Rightarrow> Inl e | Inr ops \<Rightarrow>
      case peg_string l ''assoc'' of Inl e \<Rightarrow> Inl e | Inr a \<Rightarrow> Inr (a, ops))"
  by pat_completeness auto
termination
  by (relation "measure (\<lambda>x. case x of
      Inl (Inl v) \<Rightarrow> 3 * size v + 1
    | Inl (Inr (v, _)) \<Rightarrow> 3 * size v
    | Inr (Inl (v, _)) \<Rightarrow> 3 * size v
    | Inr (Inr v) \<Rightarrow> 3 * size v + 2)") (auto dest!: size_peg_field size_peg_list)

definition read_rule :: "'o val \<Rightarrow> string + rule_in" where
  "read_rule v =
     (case peg_string v ''name'' of Inl e \<Rightarrow> Inl e | Inr name \<Rightarrow>
      case peg_field v ''e'' of None \<Rightarrow> Inl (bad ''e'') | Some x \<Rightarrow>
      case read_expr x of Inl e \<Rightarrow> Inl e | Inr e \<Rightarrow>
      Inr \<lparr>ri_name = name, ri_desc = (case peg_field v ''desc'' of Some (VStr s) \<Rightarrow> Some s | _ \<Rightarrow> None), ri_e = e,
        ri_token = peg_boolean v ''token'', ri_silent = peg_boolean v ''silent''\<rparr>)"

section \<open>The analyses\<close>

definition is_letter :: "int \<Rightarrow> bool" where
  "is_letter c \<longleftrightarrow> 65 \<le> c \<and> c \<le> 90 \<or> 97 \<le> c \<and> c \<le> 122"

definition lower :: "int \<Rightarrow> int" where
  "lower c = (if 65 \<le> c \<and> c \<le> 90 then c + 32 else c)"

definition upper :: "int \<Rightarrow> int" where
  "upper c = (if 97 \<le> c \<and> c \<le> 122 then c - 32 else c)"

record analysis =
  an_rules :: "rule_in list"
  an_nul :: "bool list"
  an_fst :: "first_set list"

text \<open>A name's rule; the last of a name, as collecting into a map leaves it.\<close>

definition rule_index :: "rule_in list \<Rightarrow> string \<Rightarrow> nat option" where
  "rule_index rules n = map_of (rev (zip (map ri_name rules) [0..<length rules])) n"

fun nullable :: "rule_in list \<Rightarrow> bool list \<Rightarrow> pexp \<Rightarrow> bool" where
  "nullable rules nul (ELit codes _ _) \<longleftrightarrow> codes = []"
| "nullable rules nul (EClass _ _ _) \<longleftrightarrow> False"
| "nullable rules nul EAny \<longleftrightarrow> False"
| "nullable rules nul (ERef n) \<longleftrightarrow> (case rule_index rules n of Some i \<Rightarrow> nul ! i | None \<Rightarrow> False)"
| "nullable rules nul (ESeq xs) \<longleftrightarrow> list_all (nullable rules nul) xs"
| "nullable rules nul (EAlt xs) \<longleftrightarrow> list_ex (nullable rules nul) xs"
| "nullable rules nul (EStar _) \<longleftrightarrow> True"
| "nullable rules nul (EOpt _) \<longleftrightarrow> True"
| "nullable rules nul (EAnd _) \<longleftrightarrow> True"
| "nullable rules nul (ENot _) \<longleftrightarrow> True"
| "nullable rules nul (EPlus x) \<longleftrightarrow> nullable rules nul x"
| "nullable rules nul (ELabel _ x) \<longleftrightarrow> nullable rules nul x"
| "nullable rules nul (EPrec atom _) \<longleftrightarrow> nullable rules nul atom"

fun first_of :: "rule_in list \<Rightarrow> bool list \<Rightarrow> first_set list \<Rightarrow> pexp \<Rightarrow> first_set"
and first_seq :: "rule_in list \<Rightarrow> bool list \<Rightarrow> first_set list \<Rightarrow> pexp list \<Rightarrow> first_set \<Rightarrow> first_set" where
  "first_of rules nul fs (ELit codes _ ci) =
     (case codes of
        [] \<Rightarrow> first_empty
      | c # _ \<Rightarrow>
          if ci \<and> is_letter c then first_ranges [(lower c, lower c), (upper c, upper c)] False
          else first_ranges [(c, c)] False)"
| "first_of rules nul fs (EClass ranges neg _) = first_ranges ranges neg"
| "first_of rules nul fs EAny = first_all"
| "first_of rules nul fs (ERef n) = (case rule_index rules n of Some i \<Rightarrow> fs ! i | None \<Rightarrow> first_empty)"
| "first_of rules nul fs (ESeq xs) = first_seq rules nul fs xs first_empty"
| "first_of rules nul fs (EAlt xs) = fold (\<lambda>x acc. first_union acc (first_of rules nul fs x)) xs first_empty"
| "first_of rules nul fs (EStar x) = first_of rules nul fs x"
| "first_of rules nul fs (EPlus x) = first_of rules nul fs x"
| "first_of rules nul fs (EOpt x) = first_of rules nul fs x"
| "first_of rules nul fs (ELabel _ x) = first_of rules nul fs x"
| "first_of rules nul fs (EPrec atom levels) =
     fold (\<lambda>(assoc, ops) acc.
         if assoc = ''prefix'' then fold (\<lambda>x acc. first_union acc (first_of rules nul fs x)) ops acc else acc)
       levels (first_of rules nul fs atom)"
| "first_of rules nul fs (EAnd _) = first_empty"
| "first_of rules nul fs (ENot _) = first_empty"
| "first_seq rules nul fs [] acc = acc"
| "first_seq rules nul fs (x # xs) acc =
     (let acc = first_union acc (first_of rules nul fs x)
      in if nullable rules nul x then first_seq rules nul fs xs acc else acc)"

text \<open>One pass of each loop, in place, and whether it changed anything; the loops run while one does.\<close>

definition nul_pass :: "rule_in list \<Rightarrow> bool list \<times> bool \<Rightarrow> bool list \<times> bool" where
  "nul_pass rules s =
     fold (\<lambda>i (nul, changed).
         if \<not> nul ! i \<and> nullable rules nul (ri_e (rules ! i)) then (nul[i := True], True) else (nul, changed))
       [0..<length rules] (fst s, False)"

definition fst_pass :: "rule_in list \<Rightarrow> bool list \<Rightarrow> first_set list \<times> bool \<Rightarrow> first_set list \<times> bool" where
  "fst_pass rules nul s =
     fold (\<lambda>i (fs, changed).
         let f = first_of rules nul fs (ri_e (rules ! i))
         in if f \<noteq> fs ! i then (fs[i := f], True) else (fs, changed))
       [0..<length rules] (fst s, False)"

definition analyse :: "rule_in list \<Rightarrow> analysis option" where
  "analyse rules =
     (case while_option snd (nul_pass rules) (replicate (length rules) False, True) of
        None \<Rightarrow> None
      | Some (nul, _) \<Rightarrow>
          (case while_option snd (fst_pass rules nul) (replicate (length rules) first_empty, True) of
             None \<Rightarrow> None
           | Some (fs, _) \<Rightarrow> Some \<lparr>an_rules = rules, an_nul = nul, an_fst = fs\<rparr>))"

definition an_nullable :: "analysis \<Rightarrow> pexp \<Rightarrow> bool" where
  "an_nullable an e = nullable (an_rules an) (an_nul an) e"

definition an_first :: "analysis \<Rightarrow> pexp \<Rightarrow> first_set" where
  "an_first an e = first_of (an_rules an) (an_nul an) (an_fst an) e"

section \<open>Labels\<close>

definition rule_named :: "rule_in list \<Rightarrow> string \<Rightarrow> rule_in option" where
  "rule_named rules n = map_option (\<lambda>i. rules ! i) (rule_index rules n)"

definition label_wraps :: "rule_in list \<Rightarrow> pexp \<Rightarrow> bool" where
  "label_wraps rules e =
     (case (case e of EOpt x \<Rightarrow> x | EStar x \<Rightarrow> x | EPlus x \<Rightarrow> x | other \<Rightarrow> other) of
        ERef n \<Rightarrow> rule_named rules n \<noteq> None
      | _ \<Rightarrow> False)"

definition repeats :: "pexp \<Rightarrow> bool" where
  "repeats e = (case e of EStar _ \<Rightarrow> True | EPlus _ \<Rightarrow> True | _ \<Rightarrow> False)"

text \<open>
  The labels of a scope in the order they are written, and whether each is repeated. A silent rule's are
  its user's; \<open>seen\<close> are the silent rules under way.
\<close>

definition unseen :: "rule_in list \<Rightarrow> string list \<Rightarrow> nat" where
  "unseen rules seen = length (filter (\<lambda>r. ri_name r \<notin> set seen) rules)"

lemma rule_index_name: "rule_index rules n = Some i \<Longrightarrow> i < length rules \<and> ri_name (rules ! i) = n"
  unfolding rule_index_def by (drule map_of_SomeD) (auto simp: in_set_zip)

lemma unseen_less:
  assumes "rule_named rules n = Some r" and "n \<notin> set seen"
  shows "unseen rules (seen @ [n]) < unseen rules seen"
proof -
  obtain i where i: "i < length rules" "r = rules ! i" "ri_name r = n"
    using assms(1) by (auto simp: rule_named_def dest: rule_index_name)
  then have "r \<in> set rules" by simp
  have "filter (\<lambda>r. ri_name r \<notin> set (seen @ [n])) rules =
      filter (\<lambda>r. ri_name r \<noteq> n) (filter (\<lambda>r. ri_name r \<notin> set seen) rules)"
    by (auto intro: filter_cong)
  moreover have "r \<in> set (filter (\<lambda>r. ri_name r \<notin> set seen) rules)" using \<open>r \<in> set rules\<close> i(3) assms(2) by simp
  ultimately show ?thesis
    unfolding unseen_def using i(3) length_filter_less [of r "filter (\<lambda>r. ri_name r \<notin> set seen) rules"] by simp
qed

function label_scan ::
  "rule_in list \<Rightarrow> pexp \<Rightarrow> bool \<Rightarrow> string list \<Rightarrow> (string \<times> bool) list \<Rightarrow> (string \<times> bool) list"
and label_scans ::
  "rule_in list \<Rightarrow> pexp list \<Rightarrow> bool \<Rightarrow> string list \<Rightarrow> (string \<times> bool) list \<Rightarrow> (string \<times> bool) list" where
  "label_scan rules (ELabel name inner) rep seen out =
     out @ [(name, rep \<or> repeats inner \<and> label_wraps rules inner)]"
| "label_scan rules (EStar x) rep seen out = label_scan rules x True seen out"
| "label_scan rules (EPlus x) rep seen out = label_scan rules x True seen out"
| "label_scan rules (ERef n) rep seen out =
     (case rule_named rules n of
        Some r \<Rightarrow>
          if ri_silent r \<and> \<not> ri_token r \<and> n \<notin> set seen then label_scan rules (ri_e r) rep (seen @ [n]) out else out
      | None \<Rightarrow> out)"
| "label_scan rules (EPrec a l) rep seen out = out"
| "label_scan rules (EAnd x) rep seen out = out"
| "label_scan rules (ENot x) rep seen out = out"
| "label_scan rules (ESeq xs) rep seen out = label_scans rules xs rep seen out"
| "label_scan rules (EAlt xs) rep seen out = label_scans rules xs rep seen out"
| "label_scan rules (EOpt x) rep seen out = label_scan rules x rep seen out"
| "label_scan rules (ELit c s i) rep seen out = out"
| "label_scan rules (EClass r n s) rep seen out = out"
| "label_scan rules EAny rep seen out = out"
| "label_scans rules [] rep seen out = out"
| "label_scans rules (x # xs) rep seen out = label_scans rules xs rep seen (label_scan rules x rep seen out)"
  by pat_completeness auto
termination
  by (relation "measures [\<lambda>x. (case x of Inl (rules, _, _, seen, _) \<Rightarrow> unseen rules seen
                                    | Inr (rules, _, _, seen, _) \<Rightarrow> unseen rules seen),
                          \<lambda>x. (case x of Inl (_, e, _) \<Rightarrow> size e | Inr (_, xs, _) \<Rightarrow> size_list size xs)]")
    (auto dest: unseen_less)

definition found_labels :: "rule_in list \<Rightarrow> pexp \<Rightarrow> (string \<times> bool) list" where
  "found_labels rules e = label_scan rules e False [] []"

text \<open>The labels that hold lists: repeated, or written twice.\<close>

definition list_labels :: "rule_in list \<Rightarrow> pexp \<Rightarrow> string list" where
  "list_labels rules e =
     (let found = found_labels rules e;
          names = fold (\<lambda>(n, _) ns. if n \<in> set ns then ns else ns @ [n]) found []
      in filter (\<lambda>n. let hits = filter (\<lambda>x. fst x = n) found in length hits > 1 \<or> list_ex snd hits) names)"

section \<open>The flat grammar\<close>

text \<open>A string as a grammar literal writes it.\<close>

definition hex_digit :: "nat \<Rightarrow> char" where
  "hex_digit d = (if d < 10 then char_of (48 + d) else char_of (87 + d))"

definition quote_char :: "char \<Rightarrow> string" where
  "quote_char ch =
     (let c = of_char ch :: nat
      in if c = 34 then [char_of (92 :: nat), ch]
         else if c = 92 then [ch, ch]
         else if c = 10 then [char_of (92 :: nat), CHR ''n'']
         else if c = 9 then [char_of (92 :: nat), CHR ''t'']
         else if c = 13 then [char_of (92 :: nat), CHR ''r'']
         else if c < 32 then
           char_of (92 :: nat) # ''u{'' @ (if c < 16 then [hex_digit c] else [hex_digit (c div 16), hex_digit (c mod 16)]) @ ''}''
         else [ch])"

definition quote :: "string \<Rightarrow> string" where
  "quote t = char_of (34 :: nat) # concat (map quote_char t) @ [char_of (34 :: nat)]"

datatype fixity = Prefix | Postfix | InfixL | InfixR

definition fix_word :: "fixity \<Rightarrow> string" where
  "fix_word f = (case f of Prefix \<Rightarrow> ''prefix'' | Postfix \<Rightarrow> ''postfix'' | _ \<Rightarrow> ''infix'')"

record prec_op =
  po_fix :: fixity
  po_lev :: nat
  po_e :: nat

record prec_table =
  pr_atom :: nat
  pr_ops :: "prec_op list"
  pr_kind :: "nat option"

datatype xexpr =
  XEmpty
| XLit "int list" bool nat
| XClass charset nat
| XAny
| XRef nat
| XSeq "nat list"
| XAlt "nat list" "charset option list option"
| XStar nat
| XStarClass charset nat
| XStarLead charset nat nat
| XPlus nat
| XOpt nat
| XAnd nat
| XNot nat bool
| XLabel nat nat bool "nat list"
| XPrec nat

record xrule =
  xr_name :: string
  xr_kind :: nat
  xr_token :: bool
  xr_silent :: bool
  xr_is_skip :: bool
  xr_desc :: nat
  xr_has_desc :: bool
  xr_body :: nat
  xr_slot :: "nat option"
  xr_lr_head :: bool
  xr_prec :: "nat option"
  xr_labels :: "nat list option"

record 'f grammar =
  exprs :: "xexpr list"
  rules :: "xrule list"
  precs :: "prec_table list"
  kinds :: "string list"
  descs :: "string list"
  end_desc :: nat
  any_desc :: nat
  skip_rule :: "nat option"
  skip_class :: "charset option"
  actions :: "'f option list"
  nslots :: nat

section \<open>Building\<close>

text \<open>The builder: the arrays as they grow, the two tables of names, and where it is.\<close>

record builder =
  b_exprs :: "xexpr list"
  b_rules :: "xrule list"
  b_precs :: "prec_table list"
  b_kinds :: "string list"
  b_descs :: "string list"
  kind_ix :: "string \<rightharpoonup> nat"
  desc_ix :: "string \<rightharpoonup> nat"
  rule_kind :: "nat option"
  in_token :: bool

definition b_kind :: "string \<Rightarrow> builder \<Rightarrow> nat \<times> builder" where
  "b_kind name b =
     (case kind_ix b name of
        Some k \<Rightarrow> (k, b)
      | None \<Rightarrow>
          let k = length (b_kinds b)
          in (k, b\<lparr>b_kinds := b_kinds b @ [name], kind_ix := (kind_ix b)(name \<mapsto> k)\<rparr>))"

definition b_desc :: "string \<Rightarrow> builder \<Rightarrow> nat \<times> builder" where
  "b_desc d b =
     (case desc_ix b d of
        Some k \<Rightarrow> (k, b)
      | None \<Rightarrow>
          let k = length (b_descs b)
          in (k, b\<lparr>b_descs := b_descs b @ [d], desc_ix := (desc_ix b)(d \<mapsto> k)\<rparr>))"

fun b_kinds_of :: "string list \<Rightarrow> builder \<Rightarrow> nat list \<times> builder" where
  "b_kinds_of [] b = ([], b)"
| "b_kinds_of (n # ns) b =
     (let (k, b) = b_kind n b; (ks, b) = b_kinds_of ns b in (k # ks, b))"

definition b_push :: "xexpr \<Rightarrow> builder \<Rightarrow> nat \<times> builder" where
  "b_push e b = (length (b_exprs b), b\<lparr>b_exprs := b_exprs b @ [e]\<rparr>)"

definition alt_guards :: "analysis \<Rightarrow> pexp list \<Rightarrow> charset option list option" where
  "alt_guards an xs =
     (if list_ex (an_nullable an) xs then None
      else Some (map (\<lambda>x. case x of EClass _ _ _ \<Rightarrow> None | ELit _ _ _ \<Rightarrow> None | other \<Rightarrow> guard (an_first an other)) xs))"

definition fix_of :: "string \<Rightarrow> string + fixity" where
  "fix_of assoc =
     (if assoc = ''left'' then Inr InfixL
      else if assoc = ''right'' then Inr InfixR
      else if assoc = ''prefix'' then Inr Prefix
      else if assoc = ''postfix'' then Inr Postfix
      else Inl (bad (''level `'' @ assoc @ ''`'')))"

definition op_key :: "pexp \<Rightarrow> int" where
  "op_key x = (case x of ELit codes _ _ \<Rightarrow> - int (length codes) | _ \<Rightarrow> 0)"

definition fold_code :: "bool \<Rightarrow> int \<Rightarrow> int" where
  "fold_code ci c = (if ci \<and> is_letter c then lower c else c)"

function (sequential) flatten :: "analysis \<Rightarrow> pexp \<Rightarrow> builder \<Rightarrow> string + nat \<times> builder"
and flatten_all :: "analysis \<Rightarrow> pexp list \<Rightarrow> builder \<Rightarrow> string + nat list \<times> builder"
and flatten_levels ::
  "analysis \<Rightarrow> nat \<Rightarrow> (string \<times> pexp list) list \<Rightarrow> builder \<Rightarrow> string + (prec_op \<times> int) list \<times> builder"
and flatten_ops ::
  "analysis \<Rightarrow> fixity \<Rightarrow> nat \<Rightarrow> pexp list \<Rightarrow> builder \<Rightarrow> string + (prec_op \<times> int) list \<times> builder" where
  "flatten an (ELit codes s ci) b =
     (if codes = [] then Inr (b_push XEmpty b)
      else (let (d, b) = b_desc (quote s) b in Inr (b_push (XLit (map (fold_code ci) codes) ci d) b)))"
| "flatten an (EClass ranges neg src) b =
     (let (d, b) = b_desc src b in Inr (b_push (XClass (of_class ranges neg) d) b))"
| "flatten an EAny b = Inr (b_push XAny b)"
| "flatten an (ERef n) b =
     (case rule_index (an_rules an) n of
        Some i \<Rightarrow> Inr (b_push (XRef i) b)
      | None \<Rightarrow> Inl (''peg: no rule is named `'' @ n @ ''`''))"
| "flatten an (ESeq xs) b =
     (case flatten_all an xs b of Inl e \<Rightarrow> Inl e | Inr (ids, b) \<Rightarrow> Inr (b_push (XSeq ids) b))"
| "flatten an (EAlt xs) b =
     (case flatten_all an xs b of Inl e \<Rightarrow> Inl e | Inr (ids, b) \<Rightarrow> Inr (b_push (XAlt ids (alt_guards an xs)) b))"
| "flatten an (EStar x) b =
     (case (in_token b, x) of
        (True, EClass ranges neg src) \<Rightarrow>
          (let (d, b) = b_desc src b in Inr (b_push (XStarClass (of_class ranges neg) d) b))
      | (True, EAlt (EClass ranges neg src # y # ys)) \<Rightarrow>
          (case flatten an (if ys = [] then y else EAlt (y # ys)) b of Inl e \<Rightarrow> Inl e | Inr (rest, b) \<Rightarrow>
           (case flatten an x b of Inl e \<Rightarrow> Inl e | Inr (general, b) \<Rightarrow>
            Inr (b_push (XStarLead (of_class ranges neg) rest general) b)))
      | _ \<Rightarrow> (case flatten an x b of Inl e \<Rightarrow> Inl e | Inr (i, b) \<Rightarrow> Inr (b_push (XStar i) b)))"
| "flatten an (EPlus x) b = (case flatten an x b of Inl e \<Rightarrow> Inl e | Inr (i, b) \<Rightarrow> Inr (b_push (XPlus i) b))"
| "flatten an (EOpt x) b = (case flatten an x b of Inl e \<Rightarrow> Inl e | Inr (i, b) \<Rightarrow> Inr (b_push (XOpt i) b))"
| "flatten an (EAnd x) b = (case flatten an x b of Inl e \<Rightarrow> Inl e | Inr (i, b) \<Rightarrow> Inr (b_push (XAnd i) b))"
| "flatten an (ENot x) b =
     (case flatten an x b of Inl e \<Rightarrow> Inl e | Inr (i, b) \<Rightarrow> Inr (b_push (XNot i (x = EAny)) b))"
| "flatten an (ELabel name x) b =
     (let (lists, b) = b_kinds_of (list_labels (an_rules an) x) b;
          (k, b) = b_kind name b
      in case flatten an x b of Inl e \<Rightarrow> Inl e
         | Inr (i, b) \<Rightarrow> Inr (b_push (XLabel k i (label_wraps (an_rules an) x) lists) b))"
| "flatten an (EPrec atom levels) b =
     (case flatten an atom b of Inl e \<Rightarrow> Inl e
      | Inr (a, b) \<Rightarrow>
          (case flatten_levels an 0 levels b of Inl e \<Rightarrow> Inl e
           | Inr (ops, b) \<Rightarrow>
               let t = \<lparr>pr_atom = a, pr_ops = map fst (sort_key snd ops), pr_kind = rule_kind b\<rparr>
               in Inr (b_push (XPrec (length (b_precs b))) (b\<lparr>b_precs := b_precs b @ [t]\<rparr>))))"
| "flatten_all an [] b = Inr ([], b)"
| "flatten_all an (x # xs) b =
     (case flatten an x b of Inl e \<Rightarrow> Inl e
      | Inr (i, b) \<Rightarrow> (case flatten_all an xs b of Inl e \<Rightarrow> Inl e | Inr (ids, b) \<Rightarrow> Inr (i # ids, b)))"
| "flatten_levels an lev [] b = Inr ([], b)"
| "flatten_levels an lev ((assoc, xs) # levels) b =
     (case fix_of assoc of Inl e \<Rightarrow> Inl e
      | Inr f \<Rightarrow>
          (case flatten_ops an f lev xs b of Inl e \<Rightarrow> Inl e
           | Inr (ops, b) \<Rightarrow>
               (case flatten_levels an (lev + 1) levels b of Inl e \<Rightarrow> Inl e | Inr (ops', b) \<Rightarrow> Inr (ops @ ops', b))))"
| "flatten_ops an f lev [] b = Inr ([], b)"
| "flatten_ops an f lev (x # xs) b =
     (case flatten an x b of Inl e \<Rightarrow> Inl e
      | Inr (i, b) \<Rightarrow>
          (case flatten_ops an f lev xs b of Inl e \<Rightarrow> Inl e
           | Inr (ops, b) \<Rightarrow> Inr ((\<lparr>po_fix = f, po_lev = lev, po_e = i\<rparr>, op_key x) # ops, b)))"
  by pat_completeness auto
termination
  by (relation "measure (\<lambda>x. case x of
      Inl (Inl (_, e, _)) \<Rightarrow> size e
    | Inl (Inr (_, xs, _)) \<Rightarrow> size_list size xs
    | Inr (Inl (_, _, ls, _)) \<Rightarrow> size_list (size_prod (\<lambda>_. 0) (size_list size)) ls
    | Inr (Inr (_, _, _, xs, _)) \<Rightarrow> size_list size xs)") auto

definition build_rule ::
  "rule_in list \<Rightarrow> analysis \<Rightarrow> string list \<Rightarrow> string list \<Rightarrow> nat \<Rightarrow> builder \<Rightarrow> string + builder" where
  "build_rule rs an memo heads i b =
     (let r = rs ! i;
          b = b\<lparr>rule_kind := Some i, in_token := ri_token r \<or> ri_name r = ''skip''\<rparr>
      in case flatten an (ri_e r) b of
           Inl e \<Rightarrow> Inl e
         | Inr (body, b) \<Rightarrow>
             let (d, b) = b_desc (case ri_desc r of Some x \<Rightarrow> x | None \<Rightarrow> ri_name r) b;
                 prec = (case b_exprs b ! body of XPrec p \<Rightarrow> if ri_silent r then None else Some p | _ \<Rightarrow> None);
                 (labels, b) =
                   (if \<not> ri_silent r \<and> found_labels rs (ri_e r) \<noteq> [] then
                      (let (ls, b) = b_kinds_of (list_labels rs (ri_e r)) b in (Some ls, b))
                    else (None, b));
                 x = \<lparr>xr_name = ri_name r, xr_kind = i, xr_token = ri_token r, xr_silent = ri_silent r,
                      xr_is_skip = (ri_name r = ''skip''), xr_desc = d, xr_has_desc = (ri_desc r \<noteq> None),
                      xr_body = body,
                      xr_slot = (case find (\<lambda>k. memo ! k = ri_name r) [0..<length memo] of Some s \<Rightarrow> Some s | None \<Rightarrow> None),
                      xr_lr_head = (ri_name r \<in> set heads), xr_prec = prec, xr_labels = labels\<rparr>
             in Inr (b\<lparr>b_rules := b_rules b @ [x]\<rparr>))"

fun build_rules ::
  "rule_in list \<Rightarrow> analysis \<Rightarrow> string list \<Rightarrow> string list \<Rightarrow> nat list \<Rightarrow> builder \<Rightarrow> string + builder" where
  "build_rules rs an memo heads [] b = Inr b"
| "build_rules rs an memo heads (i # is) b =
     (case build_rule rs an memo heads i b of Inl e \<Rightarrow> Inl e | Inr b \<Rightarrow> build_rules rs an memo heads is b)"

definition builder_new :: builder where
  "builder_new =
     \<lparr>b_exprs = [], b_rules = [], b_precs = [], b_kinds = [], b_descs = [], kind_ix = Map.empty, desc_ix = Map.empty,
      rule_kind = None, in_token = False\<rparr>"

text \<open>\<open>skip = class+\<close> (or \<open>*\<close>) is run as one loop.\<close>

definition skip_class_of :: "pexp \<Rightarrow> charset option" where
  "skip_class_of e =
     (case e of
        EPlus (EClass ranges neg _) \<Rightarrow> Some (of_class ranges neg)
      | EStar (EClass ranges neg _) \<Rightarrow> Some (of_class ranges neg)
      | _ \<Rightarrow> None)"

definition build ::
  "rule_in list \<Rightarrow> string list \<Rightarrow> string list \<Rightarrow> (string \<times> 'f) list \<Rightarrow> (string + 'f grammar) option" where
  "build rs memo heads acts =
     map_option (\<lambda>an.
       let (e, b) = b_desc ''end of input'' builder_new;
           (a, b) = b_desc ''any character'' b;
           b = snd (b_kinds_of (map ri_name rs) b)
       in case build_rules rs an memo heads [0..<length rs] b of
            Inl err \<Rightarrow> Inl err
          | Inr b \<Rightarrow>
              let sk = find (\<lambda>i. ri_name (rs ! i) = ''skip'') [0..<length rs]
              in Inr \<lparr>exprs = b_exprs b, rules = b_rules b, precs = b_precs b, kinds = b_kinds b, descs = b_descs b,
                   end_desc = e, any_desc = a, skip_rule = sk,
                   skip_class = (case sk of Some i \<Rightarrow> skip_class_of (ri_e (rs ! i)) | None \<Rightarrow> None),
                   actions = fold (\<lambda>(name, f) as. case kind_ix b name of Some k \<Rightarrow> as[k := Some f] | None \<Rightarrow> as)
                     acts (replicate (length (b_kinds b)) None),
                   nslots = length memo * 2\<rparr>)
     (analyse rs)"

section \<open>The listing\<close>

definition is_compound :: "xexpr \<Rightarrow> bool" where
  "is_compound e = (case e of XSeq _ \<Rightarrow> True | XAlt _ _ \<Rightarrow> True | XLabel _ _ _ _ \<Rightarrow> True | _ \<Rightarrow> False)"

definition fix_tag :: "fixity \<Rightarrow> string" where
  "fix_tag f = (case f of Prefix \<Rightarrow> ''prefix'' | Postfix \<Rightarrow> ''postfix'' | InfixL \<Rightarrow> ''left'' | InfixR \<Rightarrow> ''right'')"

definition paren :: "bool \<Rightarrow> string \<Rightarrow> string" where
  "paren c s = (if c then ''('' @ s @ '')'' else s)"

definition join :: "string \<Rightarrow> string list \<Rightarrow> string" where
  "join sep xs = (case xs of [] \<Rightarrow> [] | y # ys \<Rightarrow> y @ concat (map (\<lambda>z. sep @ z) ys))"

text \<open>
  An expression as the matcher holds it. A part's id is smaller than its whole's (it was pushed first),
  which is what the recursion goes down on; \<open>None\<close> is a grammar where it is not.
\<close>

fun show_expr :: "'f grammar \<Rightarrow> nat \<Rightarrow> string option"
and show_list :: "'f grammar \<Rightarrow> nat \<Rightarrow> nat list \<Rightarrow> string list option"
and show_ops :: "'f grammar \<Rightarrow> nat \<Rightarrow> prec_op list \<Rightarrow> string option" where
  "show_expr g e =
     (let wrap = (\<lambda>x. if x < e then map_option (paren (is_compound (exprs g ! x))) (show_expr g x) else None)
      in case exprs g ! e of
           XEmpty \<Rightarrow> Some [char_of (34 :: nat), char_of (34 :: nat)]
         | XLit _ ci d \<Rightarrow> Some (descs g ! d @ (if ci then ''i'' else []))
         | XClass _ d \<Rightarrow> Some (descs g ! d)
         | XStarClass _ d \<Rightarrow> Some (descs g ! d @ ''*  {run}'')
         | XStarLead _ _ x \<Rightarrow>
             if x < e then map_option (\<lambda>s. paren True s @ ''*  {lead run}'') (show_expr g x) else None
         | XAny \<Rightarrow> Some ''.''
         | XRef r \<Rightarrow> Some (xr_name (rules g ! r))
         | XSeq xs \<Rightarrow> map_option (\<lambda>ss. join '' '' (map2 (\<lambda>x s. case exprs g ! x of XAlt _ _ \<Rightarrow> paren True s | _ \<Rightarrow> s) xs ss)) (show_list g e xs)
         | XAlt xs guards \<Rightarrow>
             map_option (\<lambda>ss. join '' / '' ss @ (if guards \<noteq> None then ''  {dispatch}'' else [])) (show_list g e xs)
         | XStar x \<Rightarrow> map_option (\<lambda>s. s @ ''*'') (wrap x)
         | XPlus x \<Rightarrow> map_option (\<lambda>s. s @ ''+'') (wrap x)
         | XOpt x \<Rightarrow> map_option (\<lambda>s. s @ ''?'') (wrap x)
         | XAnd x \<Rightarrow> map_option (\<lambda>s. ''&'' @ s) (wrap x)
         | XNot x _ \<Rightarrow> map_option (\<lambda>s. ''!'' @ s) (wrap x)
         | XLabel k x _ _ \<Rightarrow> map_option (\<lambda>s. kinds g ! k @ '':'' @ s) (wrap x)
         | XPrec p \<Rightarrow>
             let t = precs g ! p
             in if pr_atom t < e then
                  (case (show_expr g (pr_atom t), show_ops g e (pr_ops t)) of
                     (Some a, Some o') \<Rightarrow> Some (''precedence('' @ a @ '') {'' @ o' @ '' }'')
                   | _ \<Rightarrow> None)
                else None)"
| "show_list g e [] = Some []"
| "show_list g e (x # xs) =
     (if x < e then
        (case (show_expr g x, show_list g e xs) of (Some s, Some ss) \<Rightarrow> Some (s # ss) | _ \<Rightarrow> None)
      else None)"
| "show_ops g e [] = Some []"
| "show_ops g e (p # ps) =
     (if po_e p < e then
        (case (show_expr g (po_e p), show_ops g e ps) of
           (Some s, Some ss) \<Rightarrow> Some ('' '' @ fix_tag (po_fix p) @ ''@'' @ show_nat (po_lev p) @ '' '' @ s @ '';'' @ ss)
         | _ \<Rightarrow> None)
      else None)"

definition rule_notes :: "'f grammar \<Rightarrow> xrule \<Rightarrow> string list" where
  "rule_notes g r =
     (if xr_token r then [''token''] else []) @ (if xr_silent r then [''silent''] else []) @
     (case xr_slot r of
        Some s \<Rightarrow> [(if xr_lr_head r then ''left-recursive head, seed slot '' else ''memo slot '') @ show_nat s]
      | None \<Rightarrow> []) @
     (if xr_has_desc r then [''said as '' @ quote (descs g ! xr_desc r)] else [])"

definition listing_line :: "'f grammar \<Rightarrow> xrule \<Rightarrow> string option" where
  "listing_line g r =
     map_option (\<lambda>s. xr_name r @ '' = '' @ s @
         (if rule_notes g r \<noteq> [] then ''    // '' @ join '', '' (rule_notes g r) else []) @ [char_of (10 :: nat)])
       (show_expr g (xr_body r))"

fun listing_lines :: "'f grammar \<Rightarrow> xrule list \<Rightarrow> string option" where
  "listing_lines g [] = Some []"
| "listing_lines g (r # rs) =
     (case (listing_line g r, listing_lines g rs) of (Some s, Some ss) \<Rightarrow> Some (s @ ss) | _ \<Rightarrow> None)"

definition listing :: "'f grammar \<Rightarrow> string option" where
  "listing g =
     map_option (\<lambda>s. ''// peg: the grammar as the native matcher runs it'' @ [char_of (10 :: nat)] @ s)
       (listing_lines g (rules g))"

end
