(* ===== verification/PegMachine.thy ===== *)
theory PegMachine
  imports PegGrammar "HOL-Library.Monad_Syntax"
begin

text \<open>
  The matcher (\<open>src/stdlib/peg/machine.rs\<close>): recursive descent over the flat grammar in its three
  families, building (\<open>B\<close>), recognising and recognising while noting failures (\<open>T\<close>), which are two
  flags here as they are two const parameters there. Every function takes \<open>call\<close>, which runs a task: a call of
  one of the matcher's mutually recursive functions, or the next turn of one of its loops. \<open>exec\<close> ties
  the knot with fuel, one unit a call or turn; \<open>None\<close> is not having returned.

  A position is an integer, \<open>-1\<close> a failure, as in the code. \<open>max_depth\<close> is the build's \<open>MAX_DEPTH\<close>.
\<close>

section \<open>The state\<close>

record child =
  c_node :: nat
  c_label :: "nat option"

datatype extra = ExNone | ExFields nat | ExPrec int int fixity

record node =
  n_kind :: "nat option"
  n_start :: int
  n_end :: int
  n_kids :: nat
  n_nkids :: nat
  n_extra :: extra

datatype field = One nat | Many "nat list"

record cx =
  ws :: bool
  inner :: bool
  tok :: int

definition cx_rule :: cx where
  "cx_rule = \<lparr>ws = True, inner = False, tok = -1\<rparr>"

definition cx_token :: cx where
  "cx_token = \<lparr>ws = False, inner = True, tok = -1\<rparr>"

record machine =
  stack :: "child list"
  nodes :: "node list"
  store :: "child list"
  node_fields :: "(nat \<times> field) list list"
  cache :: "(int \<times> int) list"
  seeds :: "(nat \<times> int \<times> int) list"
  far :: int
  expected :: "nat list"
  oks :: "int list"
  depth :: nat
  too_deep :: bool

text \<open>The grammar, the input's code points with \<open>-1\<close> after the last, and the limit on nesting.\<close>

record 'f parser =
  gr :: "'f grammar"
  codes :: "int list"
  max_depth :: nat

definition in_len :: "'f parser \<Rightarrow> int" where
  "in_len P = int (length (codes P)) - 1"

definition machine_new :: "'f parser \<Rightarrow> machine" where
  "machine_new P =
     \<lparr>stack = [], nodes = [], store = [], node_fields = [], cache = replicate (nslots (gr P)) (-1, -1), seeds = [],
      far = -1, expected = [], oks = [], depth = 0, too_deep = False\<rparr>"

definition reset :: "'f parser \<Rightarrow> bool \<Rightarrow> machine \<Rightarrow> machine" where
  "reset P track m =
     m\<lparr>cache := replicate (length (cache m)) (-1, -1), seeds := [], stack := [], far := -1, expected := [],
       oks := (if track then replicate (length (codes P)) (-1) else [])\<rparr>"

text \<open>The code at a position. Outside the input the machine would index out of bounds; there the model answers -1,
  the code that ends the input and that no character has. It is not reached: positions stay inside (\<open>pos\<close>, kept by
  every task in \<open>PegSafe\<close>), and past the end marker no literal goes on, its codes being characters (\<open>grammar_ok\<close>).\<close>

definition code_at :: "'f parser \<Rightarrow> int \<Rightarrow> int" where
  "code_at P p = (if 0 \<le> p \<and> nat p < length (codes P) then codes P ! nat p else -1)"

section \<open>Tasks\<close>

datatype task =
  Skip int
| SkipRule nat int
| RuleK bool nat int
| GrowK bool nat nat int int
| RuleB nat int
| GrowB nat nat int int int
| Ev bool bool nat int bool cx
| Star bool bool nat int cx
| Lead bool bool charset nat int cx
| PrecB nat int nat cx
| TailB nat int nat cx nat int
| PrecK bool nat int nat cx
| TailK bool nat nat cx int

type_synonym run = "task \<Rightarrow> machine \<Rightarrow> (int \<times> machine) option"

section \<open>Skip\<close>

text \<open>A run of a class's characters, in place.\<close>

function run_class :: "'f parser \<Rightarrow> charset \<Rightarrow> int \<Rightarrow> int" where
  "run_class P cls q = (if has cls (code_at P q) then run_class P cls (q + 1) else q)"
  by auto
termination
  by (relation "measure (\<lambda>(P, _, q). nat (int (length (codes P)) - q))")
    (auto simp: code_at_def has_def split: if_splits)

declare run_class.simps [simp del]

definition skip_body :: "'f parser \<Rightarrow> run \<Rightarrow> int \<Rightarrow> machine \<Rightarrow> (int \<times> machine) option" where
  "skip_body P call p m =
     (case skip_class (gr P) of
        Some cls \<Rightarrow> Some (run_class P cls p, m)
      | None \<Rightarrow> (case skip_rule (gr P) of Some r \<Rightarrow> call (SkipRule r p) m | None \<Rightarrow> Some (p, m)))"

definition skip_rule_body :: "run \<Rightarrow> nat \<Rightarrow> int \<Rightarrow> machine \<Rightarrow> (int \<times> machine) option" where
  "skip_rule_body call r q m =
     do {
       (r', m) \<leftarrow> call (RuleK False r q) m;
       if r' \<le> q then Some (q, m) else call (SkipRule r r') m
     }"

definition at_pos :: "'f parser \<Rightarrow> run \<Rightarrow> cx \<Rightarrow> int \<Rightarrow> bool \<Rightarrow> machine \<Rightarrow> (int \<times> machine) option" where
  "at_pos P call c p skd m =
     (if ws c \<and> \<not> skd \<and> skip_rule (gr P) \<noteq> None then call (Skip p) m else Some (p, m))"

definition sk :: "'f parser \<Rightarrow> run \<Rightarrow> cx \<Rightarrow> int \<Rightarrow> machine \<Rightarrow> (int \<times> machine) option" where
  "sk P call c v m = (if ws c \<and> skip_rule (gr P) \<noteq> None then call (Skip v) m else Some (v, m))"

section \<open>Noting failures\<close>

definition fail_at :: "int \<Rightarrow> nat \<Rightarrow> machine \<Rightarrow> machine" where
  "fail_at x i m =
     (if x > far m then m\<lparr>far := x, expected := [i]\<rparr>
      else if x = far m \<and> i \<notin> set (expected m) then m\<lparr>expected := expected m @ [i]\<rparr>
      else m)"

definition fail_cx :: "cx \<Rightarrow> int \<Rightarrow> nat \<Rightarrow> machine \<Rightarrow> machine" where
  "fail_cx c x i m = (if tok c \<ge> 0 then (if x > tok c then fail_at x i m else m) else fail_at x i m)"

definition okk :: "int \<Rightarrow> int \<Rightarrow> machine \<Rightarrow> machine" where
  "okk a b m = (if oks m ! nat b < 0 then m\<lparr>oks := (oks m)[nat b := a]\<rparr> else m)"

definition mute_end :: "int \<times> nat list \<Rightarrow> int \<Rightarrow> int \<Rightarrow> nat \<Rightarrow> bool \<Rightarrow> machine \<Rightarrow> machine" where
  "mute_end saved p r i token m =
     (if r < 0 then
        (if far m = p then
           let earlier = (if fst saved = p then snd saved else [])
           in m\<lparr>far := p, expected := (if i \<in> set earlier then earlier else earlier @ [i])\<rparr>
         else if far m < p then fail_at p i m
         else m)
      else if token \<or> far m = p then m\<lparr>far := fst saved, expected := snd saved\<rparr>
      else m)"

section \<open>Nodes\<close>

definition push_child :: "nat \<Rightarrow> nat option \<Rightarrow> machine \<Rightarrow> machine" where
  "push_child n l m = m\<lparr>stack := stack m @ [\<lparr>c_node = n, c_label = l\<rparr>]\<rparr>"

definition cut :: "nat \<Rightarrow> machine \<Rightarrow> machine" where
  "cut base m = m\<lparr>stack := take base (stack m)\<rparr>"

definition make_node :: "nat option \<Rightarrow> int \<Rightarrow> int \<Rightarrow> nat \<Rightarrow> extra \<Rightarrow> machine \<Rightarrow> nat \<times> machine" where
  "make_node kind a b base ex m =
     (length (nodes m),
      m\<lparr>store := store m @ drop base (stack m),
        nodes := nodes m @ [\<lparr>n_kind = kind, n_start = a, n_end = b, n_kids = length (store m),
          n_nkids = length (stack m) - base, n_extra = ex\<rparr>]\<rparr>)"

definition leaf :: "nat option \<Rightarrow> int \<Rightarrow> int \<Rightarrow> machine \<Rightarrow> nat \<times> machine" where
  "leaf kind a b m =
     (length (nodes m),
      m\<lparr>nodes := nodes m @ [\<lparr>n_kind = kind, n_start = a, n_end = b, n_kids = length (store m), n_nkids = 0,
          n_extra = ExNone\<rparr>]\<rparr>)"

fun note_field :: "nat \<Rightarrow> nat \<Rightarrow> (nat \<times> field) list \<Rightarrow> (nat \<times> field) list" where
  "note_field l i [] = [(l, One i)]"
| "note_field l i ((k, f) # fs) =
     (if k = l then (k, case f of Many v \<Rightarrow> Many (v @ [i]) | One _ \<Rightarrow> One i) # fs else (k, f) # note_field l i fs)"

definition fields_of :: "nat list \<Rightarrow> child list \<Rightarrow> (nat \<times> field) list" where
  "fields_of lls kids =
     fold (\<lambda>i fs. case c_label (kids ! i) of None \<Rightarrow> fs | Some l \<Rightarrow> note_field l i fs)
       [0..<length kids] (map (\<lambda>l. (l, Many [])) lls)"

definition lnode :: "nat option \<Rightarrow> int \<Rightarrow> int \<Rightarrow> nat \<Rightarrow> nat list \<Rightarrow> machine \<Rightarrow> nat \<times> machine" where
  "lnode kind a b base lls m =
     (let kids = drop base (stack m)
      in (length (nodes m),
          m\<lparr>store := store m @ map (\<lambda>c. c\<lparr>c_label := None\<rparr>) kids,
            node_fields := node_fields m @ [fields_of lls kids],
            nodes := nodes m @ [\<lparr>n_kind = kind, n_start = a, n_end = b, n_kids = length (store m),
              n_nkids = length kids, n_extra = ExFields (length (node_fields m))\<rparr>]\<rparr>))"

definition end_of :: "machine \<Rightarrow> int \<Rightarrow> int" where
  "end_of m n = n_end (nodes m ! nat n)"

text \<open>The children from \<open>base\<close> as one: the only one itself, or a node that holds them.\<close>

definition grp :: "nat \<Rightarrow> nat option \<Rightarrow> int \<Rightarrow> machine \<Rightarrow> child \<times> machine" where
  "grp base kind p m =
     (if length (stack m) - base = 1 then (stack m ! base, m)
      else
        let e = (if length (stack m) = base then p else end_of m (int (c_node (last (stack m)))));
            (n, m) = make_node kind p e base ExNone m
        in (\<lparr>c_node = n, c_label = None\<rparr>, m))"

section \<open>Rules\<close>

definition enter :: "'f parser \<Rightarrow> machine \<Rightarrow> bool \<times> machine" where
  "enter P m =
     (let m = m\<lparr>depth := depth m + 1\<rparr>;
          m = (if depth m > max_depth P then m\<lparr>too_deep := True\<rparr> else m)
      in (\<not> too_deep m, m))"

definition leave :: "machine \<Rightarrow> machine" where
  "leave m = m\<lparr>depth := depth m - 1\<rparr>"

text \<open>A rule recognised (\<open>T\<close> false) or noting: the end of its match, or \<open>-1\<close>.\<close>

definition rule_k_body :: "'f parser \<Rightarrow> run \<Rightarrow> bool \<Rightarrow> nat \<Rightarrow> int \<Rightarrow> machine \<Rightarrow> (int \<times> machine) option" where
  "rule_k_body P call t r p m =
     (let rule = rules (gr P) ! r
      in if xr_token rule then
           (if \<not> t then call (Ev False False (xr_body rule) p True cx_token) m
            else
              do {
                let saved = (far m, expected m);
                (res, m) \<leftarrow> call (Ev False True (xr_body rule) p True \<lparr>ws = False, inner = True, tok = p\<rparr>) m;
                let m = mute_end saved p res (xr_desc rule) True m;
                if res < 0 then Some (-1, m) else Some (res, okk p res m)
              })
         else if t \<and> xr_has_desc rule then
           do {
             let saved = (far m, expected m);
             (res, m) \<leftarrow> call (Ev False True (xr_body rule) p True cx_rule) m;
             Some (res, mute_end saved p res (xr_desc rule) False m)
           }
         else call (Ev False t (xr_body rule) p True cx_rule) m)"

definition seed_find :: "nat \<Rightarrow> int \<Rightarrow> machine \<Rightarrow> int option" where
  "seed_find slot p m = map_option (\<lambda>(_, _, v). v) (find (\<lambda>(s, q, _). s = slot \<and> q = p) (rev (seeds m)))"

definition seed_drop :: "nat \<Rightarrow> int \<Rightarrow> machine \<Rightarrow> machine" where
  "seed_drop slot p m = m\<lparr>seeds := filter (\<lambda>(s, q, _). \<not> (s = slot \<and> q = p)) (seeds m)\<rparr>"

definition seed_set :: "nat \<Rightarrow> int \<Rightarrow> int \<Rightarrow> machine \<Rightarrow> machine" where
  "seed_set slot p v m = (let m = seed_drop slot p m in m\<lparr>seeds := seeds m @ [(slot, p, v)]\<rparr>)"

text \<open>A turn of the growth of a left recursion.\<close>

definition grow_k_body ::
  "'f parser \<Rightarrow> run \<Rightarrow> bool \<Rightarrow> nat \<Rightarrow> nat \<Rightarrow> int \<Rightarrow> int \<Rightarrow> machine \<Rightarrow> (int \<times> machine) option" where
  "grow_k_body P call t slot r p best m =
     do {
       (v, m) \<leftarrow> rule_k_body P call t r p m;
       if v \<le> best \<or> too_deep m then Some (best, seed_drop slot p m)
       else call (GrowK t slot r p v) (seed_set slot p v m)
     }"

definition rule_k_wrapped :: "'f parser \<Rightarrow> run \<Rightarrow> bool \<Rightarrow> nat \<Rightarrow> int \<Rightarrow> machine \<Rightarrow> (int \<times> machine) option" where
  "rule_k_wrapped P call t r p m =
     (let rule = rules (gr P) ! r
      in if xr_is_skip rule then call (Ev False False (xr_body rule) p True cx_token) m
         else case xr_slot rule of
           None \<Rightarrow> rule_k_body P call t r p m
         | Some s \<Rightarrow>
             let slot = s * 2 + 1
             in if xr_lr_head rule then
                  (case seed_find slot p m of
                     Some v \<Rightarrow> Some (v, m)
                   | None \<Rightarrow> call (GrowK t slot r p (-1)) (seed_set slot p (-1) m))
                else if fst (cache m ! slot) = p then Some (snd (cache m ! slot), m)
                else
                  do {
                    (v, m) \<leftarrow> rule_k_body P call t r p m;
                    Some (v, m\<lparr>cache := (cache m)[slot := (p, v)]\<rparr>)
                  })"

definition rule_k :: "'f parser \<Rightarrow> run \<Rightarrow> bool \<Rightarrow> nat \<Rightarrow> int \<Rightarrow> machine \<Rightarrow> (int \<times> machine) option" where
  "rule_k P call t r p m =
     (let (ok, m) = enter P m
      in if \<not> ok then Some (-1, leave m)
         else do { (out, m) \<leftarrow> rule_k_wrapped P call t r p m; Some (out, leave m) })"

text \<open>A rule building: its node, or \<open>-1\<close>.\<close>

definition rule_b_body :: "'f parser \<Rightarrow> run \<Rightarrow> nat \<Rightarrow> int \<Rightarrow> machine \<Rightarrow> (int \<times> machine) option" where
  "rule_b_body P call r p m =
     (let rule = rules (gr P) ! r
      in case xr_prec rule of
           Some pi \<Rightarrow> call (PrecB pi p 0 cx_rule) m
         | None \<Rightarrow>
             let base = length (stack m)
             in do {
                  (res, m) \<leftarrow> call (Ev True False (xr_body rule) p True cx_rule) m;
                  let (out, m) =
                    (if res < 0 then (-1, m)
                     else case xr_labels rule of
                       Some lls \<Rightarrow> (let (n, m) = lnode (Some (xr_kind rule)) p res base lls m in (int n, m))
                     | None \<Rightarrow>
                         (let (n, m) = make_node (if xr_silent rule then None else Some (xr_kind rule)) p res base ExNone m
                          in (int n, m)));
                  Some (out, cut base m)
                })"

definition grow_b_body ::
  "'f parser \<Rightarrow> run \<Rightarrow> nat \<Rightarrow> nat \<Rightarrow> int \<Rightarrow> int \<Rightarrow> int \<Rightarrow> machine \<Rightarrow> (int \<times> machine) option" where
  "grow_b_body P call slot r p best bend m =
     do {
       (nd, m) \<leftarrow> rule_b_body P call r p m;
       if nd < 0 \<or> too_deep m \<or> end_of m nd \<le> bend then Some (best, seed_drop slot p m)
       else call (GrowB slot r p nd (end_of m nd)) (seed_set slot p nd m)
     }"

definition rule_b_wrapped :: "'f parser \<Rightarrow> run \<Rightarrow> nat \<Rightarrow> int \<Rightarrow> machine \<Rightarrow> (int \<times> machine) option" where
  "rule_b_wrapped P call r p m =
     (let rule = rules (gr P) ! r
      in if xr_is_skip rule \<or> xr_token rule then
           do {
             (v, m) \<leftarrow> call (RuleK False r p) m;
             if v < 0 then Some (-1, m)
             else
               (let (n, m) = leaf (if xr_is_skip rule \<or> xr_silent rule then None else Some (xr_kind rule)) p v m
                in Some (int n, m))
           }
         else case xr_slot rule of
           None \<Rightarrow> rule_b_body P call r p m
         | Some s \<Rightarrow>
             let slot = s * 2
             in if xr_lr_head rule then
                  (case seed_find slot p m of
                     Some v \<Rightarrow> Some (v, m)
                   | None \<Rightarrow> call (GrowB slot r p (-1) (-1)) (seed_set slot p (-1) m))
                else if fst (cache m ! slot) = p then Some (snd (cache m ! slot), m)
                else
                  do {
                    (v, m) \<leftarrow> rule_b_body P call r p m;
                    Some (v, m\<lparr>cache := (cache m)[slot := (p, v)]\<rparr>)
                  })"

definition rule_b :: "'f parser \<Rightarrow> run \<Rightarrow> nat \<Rightarrow> int \<Rightarrow> machine \<Rightarrow> (int \<times> machine) option" where
  "rule_b P call r p m =
     (let (ok, m) = enter P m
      in if \<not> ok then Some (-1, leave m)
         else do { (out, m) \<leftarrow> rule_b_wrapped P call r p m; Some (out, leave m) })"

section \<open>Expressions\<close>

fun lit_at :: "'f parser \<Rightarrow> int \<Rightarrow> bool \<Rightarrow> int list \<Rightarrow> bool" where
  "lit_at P q ci [] = True"
| "lit_at P q ci (c # cs) =
     ((if ci then lower (code_at P q) else code_at P q) = c \<and> lit_at P (q + 1) ci cs)"

text \<open>A test of characters ends: matched up to \<open>b\<close>, or what was expected is noted.\<close>

definition test_end :: "bool \<Rightarrow> cx \<Rightarrow> int \<Rightarrow> int \<Rightarrow> bool \<Rightarrow> nat \<Rightarrow> machine \<Rightarrow> (int \<times> machine) option" where
  "test_end t c x b ok d m =
     (if ok then Some (b, if t \<and> \<not> inner c then okk x b m else m)
      else Some (-1, if t then fail_cx c x d m else m))"

definition ev_ref ::
  "'f parser \<Rightarrow> run \<Rightarrow> bool \<Rightarrow> bool \<Rightarrow> nat \<Rightarrow> int \<Rightarrow> cx \<Rightarrow> machine \<Rightarrow> (int \<times> machine) option" where
  "ev_ref P call b t r x c m =
     (if \<not> b then call (RuleK (t \<and> \<not> inner c) r x) m
      else
        let rule = rules (gr P) ! r
        in if xr_token rule then
             do {
               (v, m) \<leftarrow> call (RuleK False r x) m;
               if xr_silent rule \<or> v < 0 then Some (v, m)
               else (let (n, m) = leaf (Some (xr_kind rule)) x v m in Some (v, push_child n None m))
             }
           else
             do {
               (n, m) \<leftarrow> call (RuleB r x) m;
               if n < 0 then Some (-1, m)
               else
                 let nd = nodes m ! nat n
                 in Some (n_end nd,
                      if xr_silent rule \<and> \<not> xr_is_skip rule
                      then m\<lparr>stack := stack m @ take (n_nkids nd) (drop (n_kids nd) (store m))\<rparr>
                      else push_child (nat n) None m)
             })"

text \<open>The elements of a sequence in turn; the first one only may be past the skip already.\<close>

fun seq_items :: "run \<Rightarrow> bool \<Rightarrow> bool \<Rightarrow> nat list \<Rightarrow> int \<Rightarrow> bool \<Rightarrow> cx \<Rightarrow> machine \<Rightarrow> (int \<times> machine) option" where
  "seq_items call b t [] q skd c m = Some (q, m)"
| "seq_items call b t (i # is) q skd c m =
     do {
       (q', m) \<leftarrow> call (Ev b t i q skd c) m;
       if q' < 0 then Some (-1, m) else seq_items call b t is q' False c m
     }"

fun alt_items :: "run \<Rightarrow> bool \<Rightarrow> bool \<Rightarrow> nat list \<Rightarrow> int \<Rightarrow> bool \<Rightarrow> cx \<Rightarrow> machine \<Rightarrow> (int \<times> machine) option" where
  "alt_items call b t [] p skd c m = Some (-1, m)"
| "alt_items call b t (i # is) p skd c m =
     do {
       (r, m) \<leftarrow> call (Ev b t i p skd c) m;
       if r \<ge> 0 then Some (r, m) else alt_items call b t is p skd c m
     }"

text \<open>With guards, on the character at hand.\<close>

definition guard_ok :: "charset option \<Rightarrow> int \<Rightarrow> bool" where
  "guard_ok gd ch = (case gd of None \<Rightarrow> True | Some cls \<Rightarrow> has cls ch)"

definition guarded :: "int \<Rightarrow> nat list \<Rightarrow> charset option list \<Rightarrow> nat list" where
  "guarded ch items guards = map fst (filter (\<lambda>(_, gd). guard_ok gd ch) (zip items guards))"

definition star_body ::
  "run \<Rightarrow> bool \<Rightarrow> bool \<Rightarrow> nat \<Rightarrow> int \<Rightarrow> cx \<Rightarrow> machine \<Rightarrow> (int \<times> machine) option" where
  "star_body call b t x v c m =
     do {
       (r, m) \<leftarrow> call (Ev b t x v False c) m;
       if r \<le> v then Some (v, m) else call (Star b t x r c) m
     }"

definition lead_body ::
  "'f parser \<Rightarrow> run \<Rightarrow> bool \<Rightarrow> bool \<Rightarrow> charset \<Rightarrow> nat \<Rightarrow> int \<Rightarrow> cx \<Rightarrow> machine \<Rightarrow> (int \<times> machine) option" where
  "lead_body P call b t lead rest v c m =
     (if has lead (code_at P v) then call (Lead b t lead rest (v + 1) c) m
      else
        do {
          (r, m) \<leftarrow> call (Ev b t rest v False c) m;
          if r \<le> v then Some (v, m) else call (Lead b t lead rest r c) m
        })"

definition relabel :: "nat \<Rightarrow> nat \<Rightarrow> machine \<Rightarrow> machine" where
  "relabel base k m =
     m\<lparr>stack := take base (stack m) @
         map (\<lambda>c. if c_label c = None then c\<lparr>c_label := Some k\<rparr> else c) (drop base (stack m))\<rparr>"

definition ev_label ::
  "'f parser \<Rightarrow> run \<Rightarrow> bool \<Rightarrow> nat \<Rightarrow> nat \<Rightarrow> bool \<Rightarrow> nat list \<Rightarrow> int \<Rightarrow> bool \<Rightarrow> cx \<Rightarrow> machine \<Rightarrow>
     (int \<times> machine) option" where
  "ev_label P call t kind e wraps lls p skd c m =
     do {
       (x, m) \<leftarrow> at_pos P call c p skd m;
       let base = length (stack m);
       (r, m) \<leftarrow> call (Ev True t e x True c) m;
       if r < 0 then Some (-1, m)
       else if wraps then Some (r, relabel base kind m)
       else if r > x \<or> length (stack m) > base then
         (let (n, m) = lnode (Some kind) x r base lls m in Some (r, push_child n (Some kind) (cut base m)))
       else Some (r, m)
     }"

definition ev :: "'f parser \<Rightarrow> run \<Rightarrow> bool \<Rightarrow> bool \<Rightarrow> nat \<Rightarrow> int \<Rightarrow> bool \<Rightarrow> cx \<Rightarrow> machine \<Rightarrow> (int \<times> machine) option" where
  "ev P call b t e p skd c m =
     (case exprs (gr P) ! e of
        XEmpty \<Rightarrow> Some (p, m)
      | XLit cs ci d \<Rightarrow>
          do { (x, m) \<leftarrow> at_pos P call c p skd m; test_end t c x (x + int (length cs)) (lit_at P x ci cs) d m }
      | XClass cls d \<Rightarrow>
          do { (x, m) \<leftarrow> at_pos P call c p skd m; test_end t c x (x + 1) (has cls (code_at P x)) d m }
      | XAny \<Rightarrow>
          do { (x, m) \<leftarrow> at_pos P call c p skd m; test_end t c x (x + 1) (code_at P x \<ge> 0) (any_desc (gr P)) m }
      | XRef r \<Rightarrow> do { (x, m) \<leftarrow> at_pos P call c p skd m; ev_ref P call b t r x c m }
      | XSeq items \<Rightarrow>
          do {
            let mark = length (stack m);
            (q, m) \<leftarrow> seq_items call b t items p skd c m;
            Some (q, if q < 0 \<and> b then cut mark m else m)
          }
      | XAlt items guards \<Rightarrow>
          (case (t, guards) of
             (False, Some gs) \<Rightarrow>
               do {
                 (x, m) \<leftarrow> at_pos P call c p skd m;
                 alt_items call b t (guarded (code_at P x) items gs) x True c m
               }
           | _ \<Rightarrow> alt_items call b t items p skd c m)
      | XStar x \<Rightarrow> call (Star b t x p c) m
      | XStarClass cls d \<Rightarrow>
          (let v = run_class P cls p in Some (v, if t then fail_cx c v d m else m))
      | XStarLead lead rest general \<Rightarrow>
          if t then call (Star b t general p c) m else call (Lead b t lead rest p c) m
      | XPlus x \<Rightarrow>
          do {
            (f, m) \<leftarrow> call (Ev b t x p skd c) m;
            if f < 0 then Some (-1, m) else call (Star b t x f c) m
          }
      | XOpt x \<Rightarrow> do { (r, m) \<leftarrow> call (Ev b t x p skd c) m; Some (if r \<ge> 0 then r else p, m) }
      | XAnd x \<Rightarrow> do { (r, m) \<leftarrow> call (Ev False False x p skd c) m; Some (if r \<ge> 0 then p else -1, m) }
      | XNot x any \<Rightarrow>
          do {
            (r, m) \<leftarrow> call (Ev False False x p skd c) m;
            if r \<ge> 0 then
              (if t \<and> any then
                 do { (x, m) \<leftarrow> at_pos P call c p skd m; Some (-1, fail_at x (end_desc (gr P)) m) }
               else Some (-1, m))
            else Some (p, m)
          }
      | XLabel kind x wraps lls \<Rightarrow>
          if \<not> b then call (Ev b t x p skd c) m else ev_label P call t kind x wraps lls p skd c m
      | XPrec pi \<Rightarrow>
          do {
            (x, m) \<leftarrow> at_pos P call c p skd m;
            if b then
              do {
                (n, m) \<leftarrow> call (PrecB pi x 0 c) m;
                if n < 0 then Some (-1, m) else Some (end_of m n, push_child (nat n) None m)
              }
            else call (PrecK t pi x 0 c) m
          })"

section \<open>Precedence tables\<close>

definition ops_with :: "(fixity \<Rightarrow> bool) \<Rightarrow> prec_table \<Rightarrow> prec_op list" where
  "ops_with f pr = filter (\<lambda>o'. f (po_fix o')) (pr_ops pr)"

definition is_infix :: "fixity \<Rightarrow> bool" where
  "is_infix f \<longleftrightarrow> f = InfixL \<or> f = InfixR"

text \<open>The first prefix operator that matches: its level and its end, or \<open>-1\<close>s.\<close>

fun prefix_scan :: "run \<Rightarrow> bool \<Rightarrow> int \<Rightarrow> cx \<Rightarrow> prec_op list \<Rightarrow> machine \<Rightarrow> ((int \<times> int) \<times> machine) option" where
  "prefix_scan call t p c [] m = Some ((-1, -1), m)"
| "prefix_scan call t p c (o' # os) m =
     do {
       (r, m) \<leftarrow> call (Ev False t (po_e o') p True c) m;
       if r \<ge> 0 then Some ((int (po_lev o'), r), m) else prefix_scan call t p c os m
     }"

text \<open>The first postfix operator at \<open>ml\<close> or tighter that matches at \<open>x\<close>: its end.\<close>

fun postfix_scan ::
  "run \<Rightarrow> bool \<Rightarrow> nat \<Rightarrow> int \<Rightarrow> cx \<Rightarrow> prec_op list \<Rightarrow> machine \<Rightarrow> (int option \<times> machine) option" where
  "postfix_scan call t ml x c [] m = Some (None, m)"
| "postfix_scan call t ml x c (o' # os) m =
     (if ml \<le> po_lev o' then
        do {
          (r, m) \<leftarrow> call (Ev False t (po_e o') x True c) m;
          if r \<ge> 0 then Some (Some r, m) else postfix_scan call t ml x c os m
        }
      else postfix_scan call t ml x c os m)"

definition next_level :: "prec_op \<Rightarrow> nat" where
  "next_level o' = (if po_fix o' = InfixL then po_lev o' + 1 else po_lev o')"

text \<open>
  The first infix operator at \<open>ml\<close> or tighter that matches at \<open>x\<close> with an operand after it: the
  operator's end and what the operand answered.
\<close>

fun infix_scan ::
  "'f parser \<Rightarrow> run \<Rightarrow> bool \<Rightarrow> (int \<Rightarrow> nat \<Rightarrow> task) \<Rightarrow> nat \<Rightarrow> int \<Rightarrow> cx \<Rightarrow> prec_op list \<Rightarrow> machine \<Rightarrow>
     ((int \<times> int) option \<times> machine) option" where
  "infix_scan P call t operand ml x c [] m = Some (None, m)"
| "infix_scan P call t operand ml x c (o' # os) m =
     (if ml \<le> po_lev o' then
        do {
          (r, m) \<leftarrow> call (Ev False t (po_e o') x True c) m;
          if r \<ge> 0 then
            do {
              (from1, m) \<leftarrow> sk P call c r m;
              (v, m) \<leftarrow> call (operand from1 (next_level o')) m;
              if v \<ge> 0 then Some (Some (r, v), m) else infix_scan P call t operand ml x c os m
            }
          else infix_scan P call t operand ml x c os m
        }
      else infix_scan P call t operand ml x c os m)"

text \<open>A table building: an operand or a prefix operator with its own, then operators while one matches.\<close>

definition prec_head_b :: "'f parser \<Rightarrow> run \<Rightarrow> nat \<Rightarrow> int \<Rightarrow> cx \<Rightarrow> machine \<Rightarrow> (int \<times> machine) option" where
  "prec_head_b P call pi p c m =
     (let pr = precs (gr P) ! pi
      in do {
           ((pl, pe), m) \<leftarrow> prefix_scan call False p c (ops_with (\<lambda>f. f = Prefix) pr) m;
           if pl \<ge> 0 then
             do {
               (from1, m) \<leftarrow> sk P call c pe m;
               (v, m) \<leftarrow> call (PrecB pi from1 (nat pl) c) m;
               if v \<ge> 0 then
                 (let oe = end_of m v;
                      m = push_child (nat v) None m;
                      (n, m) = make_node (pr_kind pr) p oe (length (stack m) - 1) (ExPrec p pe Prefix) m;
                      m = m\<lparr>stack := butlast (stack m)\<rparr>
                  in Some (oe, push_child n None m))
               else Some (-1, m)
             }
           else call (Ev True False (pr_atom pr) p True c) m
         })"

definition tail_b_body ::
  "'f parser \<Rightarrow> run \<Rightarrow> nat \<Rightarrow> int \<Rightarrow> nat \<Rightarrow> cx \<Rightarrow> nat \<Rightarrow> int \<Rightarrow> machine \<Rightarrow> (int \<times> machine) option" where
  "tail_b_body P call pi p ml c base q m =
     (let pr = precs (gr P) ! pi
      in do {
           (x, m) \<leftarrow> sk P call c q m;
           (post, m) \<leftarrow> postfix_scan call False ml x c (ops_with (\<lambda>f. f = Postfix) pr) m;
           case post of
             Some r \<Rightarrow>
               (let (a, m) = grp base (pr_kind pr) p m;
                    m = (cut base m)\<lparr>stack := take base (stack m) @ [a]\<rparr>;
                    (n, m) = make_node (pr_kind pr) p r base (ExPrec x r Postfix) m
                in call (TailB pi p ml c base r) (push_child n None (cut base m)))
           | None \<Rightarrow>
               do {
                 (inf, m) \<leftarrow> infix_scan P call False (\<lambda>from1 lev. PrecB pi from1 lev c) ml x c (ops_with is_infix pr) m;
                 case inf of
                   Some (r, v) \<Rightarrow>
                     (let oe = end_of m v;
                          (a, m) = grp base (pr_kind pr) p m;
                          m = (cut base m)\<lparr>stack := take base (stack m) @ [a, \<lparr>c_node = nat v, c_label = None\<rparr>]\<rparr>;
                          (n, m) = make_node (pr_kind pr) p oe base (ExPrec x r InfixL) m
                      in call (TailB pi p ml c base oe) (push_child n None (cut base m)))
                 | None \<Rightarrow> Some (q, m)
               }
         })"

definition prec_b :: "'f parser \<Rightarrow> run \<Rightarrow> nat \<Rightarrow> int \<Rightarrow> nat \<Rightarrow> cx \<Rightarrow> machine \<Rightarrow> (int \<times> machine) option" where
  "prec_b P call pi p ml c m =
     (let (ok, m) = enter P m
      in if \<not> ok then Some (-1, leave m)
         else
           let base = length (stack m)
           in do {
                (q, m) \<leftarrow> prec_head_b P call pi p c m;
                (q, m) \<leftarrow> (if q \<ge> 0 then call (TailB pi p ml c base q) m else Some (q, m));
                let (out, m) =
                  (if q < 0 then (-1, m)
                   else (let (a, m) = grp base (pr_kind (precs (gr P) ! pi)) p m in (int (c_node a), m)));
                Some (out, leave (cut base m))
              })"

text \<open>A table recognising or noting: the end, or \<open>-1\<close>.\<close>

definition tail_k_body ::
  "'f parser \<Rightarrow> run \<Rightarrow> bool \<Rightarrow> nat \<Rightarrow> nat \<Rightarrow> cx \<Rightarrow> int \<Rightarrow> machine \<Rightarrow> (int \<times> machine) option" where
  "tail_k_body P call t pi ml c q m =
     (let pr = precs (gr P) ! pi
      in do {
           (x, m) \<leftarrow> sk P call c q m;
           (post, m) \<leftarrow> postfix_scan call t ml x c (ops_with (\<lambda>f. f = Postfix) pr) m;
           case post of
             Some r \<Rightarrow> call (TailK t pi ml c r) m
           | None \<Rightarrow>
               do {
                 (inf, m) \<leftarrow> infix_scan P call t (\<lambda>from1 lev. PrecK t pi from1 lev c) ml x c (ops_with is_infix pr) m;
                 case inf of Some (r, v) \<Rightarrow> call (TailK t pi ml c v) m | None \<Rightarrow> Some (q, m)
               }
         })"

definition prec_k :: "'f parser \<Rightarrow> run \<Rightarrow> bool \<Rightarrow> nat \<Rightarrow> int \<Rightarrow> nat \<Rightarrow> cx \<Rightarrow> machine \<Rightarrow> (int \<times> machine) option" where
  "prec_k P call t pi p ml c m =
     (let (ok, m) = enter P m;
          pr = precs (gr P) ! pi
      in if \<not> ok then Some (-1, leave m)
         else
           do {
             ((pl, pe), m) \<leftarrow> prefix_scan call t p c (ops_with (\<lambda>f. f = Prefix) pr) m;
             (q, m) \<leftarrow>
               (if pl \<ge> 0 then
                  do { (from1, m) \<leftarrow> sk P call c pe m; call (PrecK t pi from1 (nat pl) c) m }
                else call (Ev False t (pr_atom pr) p True c) m);
             (q, m) \<leftarrow> (if q \<ge> 0 then call (TailK t pi ml c q) m else Some (q, m));
             Some (q, leave m)
           })"

section \<open>Running\<close>

definition step :: "'f parser \<Rightarrow> run \<Rightarrow> task \<Rightarrow> machine \<Rightarrow> (int \<times> machine) option" where
  "step P call k m =
     (case k of
        Skip p \<Rightarrow> skip_body P call p m
      | SkipRule r q \<Rightarrow> skip_rule_body call r q m
      | RuleK t r p \<Rightarrow> rule_k P call t r p m
      | GrowK t slot r p best \<Rightarrow> grow_k_body P call t slot r p best m
      | RuleB r p \<Rightarrow> rule_b P call r p m
      | GrowB slot r p best bend \<Rightarrow> grow_b_body P call slot r p best bend m
      | Ev b t e p skd c \<Rightarrow> ev P call b t e p skd c m
      | Star b t x v c \<Rightarrow> star_body call b t x v c m
      | Lead b t lead rest v c \<Rightarrow> lead_body P call b t lead rest v c m
      | PrecB pi p ml c \<Rightarrow> prec_b P call pi p ml c m
      | TailB pi p ml c base q \<Rightarrow> tail_b_body P call pi p ml c base q m
      | PrecK t pi p ml c \<Rightarrow> prec_k P call t pi p ml c m
      | TailK t pi ml c q \<Rightarrow> tail_k_body P call t pi ml c q m)"

fun exec :: "'f parser \<Rightarrow> nat \<Rightarrow> task \<Rightarrow> machine \<Rightarrow> (int \<times> machine) option" where
  "exec P 0 k m = None"
| "exec P (Suc f) k m = step P (exec P f) k m"

section \<open>A whole parse\<close>

definition skip_at :: "'f parser \<Rightarrow> nat \<Rightarrow> int \<Rightarrow> machine \<Rightarrow> (int \<times> machine) option" where
  "skip_at P f p m = (if skip_rule (gr P) \<noteq> None then exec P f (Skip p) m else Some (p, m))"

text \<open>The start rule's node over the whole input.\<close>

definition build_tree :: "'f parser \<Rightarrow> nat \<Rightarrow> nat \<Rightarrow> int \<Rightarrow> machine \<Rightarrow> (nat option \<times> machine) option" where
  "build_tree P f start p m =
     do {
       let m = reset P False m;
       (from1, m) \<leftarrow> skip_at P f p m;
       (nd, m) \<leftarrow> exec P f (RuleB start from1) m;
       if nd \<ge> 0 then
         do { (e, m) \<leftarrow> skip_at P f (end_of m nd) m; Some (if e = in_len P then Some (nat nd) else None, m) }
       else Some (None, m)
     }"

definition accepts :: "'f parser \<Rightarrow> nat \<Rightarrow> nat \<Rightarrow> machine \<Rightarrow> (bool \<times> machine) option" where
  "accepts P f start m =
     do {
       let m = reset P False m;
       (from1, m) \<leftarrow> skip_at P f 0 m;
       (r, m) \<leftarrow> exec P f (RuleK False start from1) m;
       if r \<ge> 0 then do { (e, m) \<leftarrow> skip_at P f r m; Some (e = in_len P, m) } else Some (False, m)
     }"

text \<open>Again from \<open>p\<close>, noting: the furthest failure and what was expected there.\<close>

definition failure :: "'f parser \<Rightarrow> nat \<Rightarrow> nat \<Rightarrow> int \<Rightarrow> machine \<Rightarrow> ((int \<times> nat list) \<times> machine) option" where
  "failure P f start p m =
     do {
       let m = reset P True m;
       (from1, m) \<leftarrow> skip_at P f p m;
       (r, m) \<leftarrow> exec P f (RuleK True start from1) m;
       (r, m) \<leftarrow> (if r \<ge> 0 then skip_at P f r m else Some (r, m));
       let m = (if r \<ge> 0 \<and> r < in_len P then fail_at r (end_desc (gr P)) m else m);
       Some ((if far m \<ge> 0 then far m else if r \<ge> 0 then r else p, expected m), m)
     }"

text \<open>A tree's root; a silent start rule's gets the rule's kind.\<close>

definition root_of :: "'f parser \<Rightarrow> nat \<Rightarrow> nat \<Rightarrow> machine \<Rightarrow> nat \<times> machine" where
  "root_of P nd start m =
     (let n = nodes m ! nd
      in if n_kind n \<noteq> None then (nd, m)
         else
           (length (nodes m),
            m\<lparr>store := store m @ map (\<lambda>c. c\<lparr>c_label := None\<rparr>) (take (n_nkids n) (drop (n_kids n) (store m))),
              nodes := nodes m @ [\<lparr>n_kind = Some (xr_kind (rules (gr P) ! start)), n_start = n_start n, n_end = n_end n,
                n_kids = length (store m), n_nkids = n_nkids n, n_extra = ExNone\<rparr>]\<rparr>))"

definition make_over :: "nat \<Rightarrow> int \<Rightarrow> int \<Rightarrow> nat list \<Rightarrow> machine \<Rightarrow> nat \<times> machine" where
  "make_over kind a b kids m =
     (length (nodes m),
      m\<lparr>store := store m @ map (\<lambda>k. \<lparr>c_node = k, c_label = None\<rparr>) kids,
        nodes := nodes m @ [\<lparr>n_kind = Some kind, n_start = a, n_end = b, n_kids = length (store m),
          n_nkids = length kids, n_extra = ExNone\<rparr>]\<rparr>)"

end
