(* ===== verification/PegSafe.thy ===== *)
theory PegSafe
  imports PegMachine
begin

text \<open>
  What every run of the matcher keeps, whatever the grammar matches: positions stay in the input, a
  match ends at or after where it began, ids are of nodes that exist, and the trees are nested: a node's
  children lie in its span, in order, none over another. One predicate a task says what it may assume
  (\<open>pre\<close>) and what it answers (\<open>post\<close>); each of the matcher's functions keeps them if the calls it makes
  do, and fuel does the rest.
\<close>

section \<open>Well-formed grammars and inputs\<close>

fun x_parts :: "xexpr \<Rightarrow> nat list" where
  "x_parts (XSeq xs) = xs"
| "x_parts (XAlt xs _) = xs"
| "x_parts (XStar x) = [x]"
| "x_parts (XStarLead _ r g) = [r, g]"
| "x_parts (XPlus x) = [x]"
| "x_parts (XOpt x) = [x]"
| "x_parts (XAnd x) = [x]"
| "x_parts (XNot x _) = [x]"
| "x_parts (XLabel _ x _ _) = [x]"
| "x_parts _ = []"

definition x_ok :: "'f grammar \<Rightarrow> nat \<Rightarrow> xexpr \<Rightarrow> bool" where
  "x_ok g i e \<longleftrightarrow>
     (\<forall>j \<in> set (x_parts e). j < i) \<and>
     (case e of
        XLit cs _ _ \<Rightarrow> cs \<noteq> [] \<and> (\<forall>c \<in> set cs. 0 \<le> c)
      | XRef r \<Rightarrow> r < length (rules g)
      | XPrec t \<Rightarrow> t < length (precs g) \<and> pr_atom (precs g ! t) < i \<and> (\<forall>o' \<in> set (pr_ops (precs g ! t)). po_e o' < i)
      | _ \<Rightarrow> True)"

definition grammar_ok :: "'f grammar \<Rightarrow> bool" where
  "grammar_ok g \<longleftrightarrow>
     (\<forall>i < length (exprs g). x_ok g i (exprs g ! i)) \<and>
     (\<forall>r \<in> set (rules g). xr_body r < length (exprs g) \<and>
        (\<forall>s. xr_slot r = Some s \<longrightarrow> s * 2 + 1 < nslots g) \<and>
        (\<forall>t. xr_prec r = Some t \<longrightarrow> t < length (precs g))) \<and>
     (\<forall>t \<in> set (precs g). pr_atom t < length (exprs g) \<and> (\<forall>o' \<in> set (pr_ops t). po_e o' < length (exprs g))) \<and>
     (\<forall>r. skip_rule g = Some r \<longrightarrow> r < length (rules g))"

definition input_ok :: "'f parser \<Rightarrow> bool" where
  "input_ok P \<longleftrightarrow> grammar_ok (gr P) \<and> codes P \<noteq> [] \<and> last (codes P) = -1"

definition pos :: "'f parser \<Rightarrow> int \<Rightarrow> bool" where
  "pos P p \<longleftrightarrow> 0 \<le> p \<and> p \<le> in_len P"

definition ends :: "'f parser \<Rightarrow> int \<Rightarrow> int \<Rightarrow> bool" where
  "ends P p v \<longleftrightarrow> v = -1 \<or> p \<le> v \<and> v \<le> in_len P"

section \<open>Trees\<close>

text \<open>Children between two positions, in order.\<close>

fun spans :: "node list \<Rightarrow> int \<Rightarrow> child list \<Rightarrow> int \<Rightarrow> bool" where
  "spans nds a [] b \<longleftrightarrow> a \<le> b"
| "spans nds a (c # cs) b \<longleftrightarrow>
     c_node c < length nds \<and> a \<le> n_start (nds ! c_node c) \<and> n_start (nds ! c_node c) \<le> n_end (nds ! c_node c) \<and>
     spans nds (n_end (nds ! c_node c)) cs b"

lemma spans_le: "spans nds a cs b \<Longrightarrow> a \<le> b"
proof (induction cs arbitrary: a)
  case (Cons c cs)
  then have "n_end (nds ! c_node c) \<le> b" by simp
  then show ?case using Cons.prems by simp
qed simp

lemma spans_mono: "spans nds a cs b \<Longrightarrow> a' \<le> a \<Longrightarrow> b \<le> b' \<Longrightarrow> spans nds a' cs b'"
  by (induction cs arbitrary: a a') auto

lemma spans_more: "spans nds a cs b \<Longrightarrow> spans (nds @ x) a cs b"
  by (induction cs arbitrary: a) (auto simp: nth_append)

lemma spans_append: "spans nds a cs m \<Longrightarrow> spans nds m cs' b \<Longrightarrow> spans nds a (cs @ cs') b"
  by (induction cs arbitrary: a) (auto intro: spans_mono)

lemma spans_valid: "spans nds a cs b \<Longrightarrow> c \<in> set cs \<Longrightarrow> c_node c < length nds"
  by (induction cs arbitrary: a) auto

lemma spans_map: "(\<And>c. c_node (f c) = c_node c) \<Longrightarrow> spans nds a (map f cs) b = spans nds a cs b"
  by (induction cs arbitrary: a) auto

lemma spans_last: "spans nds a cs b \<Longrightarrow> cs \<noteq> [] \<Longrightarrow> spans nds a cs (n_end (nds ! c_node (last cs)))"
  by (induction cs arbitrary: a) auto

lemma spans_last_le: "spans nds a cs b \<Longrightarrow> cs \<noteq> [] \<Longrightarrow> n_end (nds ! c_node (last cs)) \<le> b"
  by (induction cs arbitrary: a) (auto dest: spans_le)

definition extra_ok :: "(nat \<times> field) list list \<Rightarrow> node \<Rightarrow> bool" where
  "extra_ok fs nd \<longleftrightarrow>
     (case n_extra nd of
        ExNone \<Rightarrow> True
      | ExFields k \<Rightarrow>
          k < length fs \<and>
          (\<forall>(l, f) \<in> set (fs ! k). case f of One i \<Rightarrow> i < n_nkids nd | Many is \<Rightarrow> \<forall>i \<in> set is. i < n_nkids nd)
      | ExPrec a b f \<Rightarrow>
          n_start nd \<le> a \<and> a \<le> b \<and> b \<le> n_end nd \<and> n_nkids nd = (if f = Prefix \<or> f = Postfix then 1 else 2))"

definition node_ok ::
  "'f parser \<Rightarrow> node list \<Rightarrow> child list \<Rightarrow> (nat \<times> field) list list \<Rightarrow> node \<Rightarrow> bool" where
  "node_ok P nds st fs nd \<longleftrightarrow>
     0 \<le> n_start nd \<and> n_end nd \<le> in_len P \<and> n_kids nd + n_nkids nd \<le> length st \<and>
     spans nds (n_start nd) (take (n_nkids nd) (drop (n_kids nd) st)) (n_end nd) \<and> extra_ok fs nd"

text \<open>An answer that is a node, beginning at or after a position.\<close>

definition node_ans :: "node list \<Rightarrow> int \<Rightarrow> int \<Rightarrow> bool" where
  "node_ans nds p v \<longleftrightarrow> v = -1 \<or> 0 \<le> v \<and> nat v < length nds \<and> p \<le> n_start (nds ! nat v) \<and> n_start (nds ! nat v) \<le> n_end (nds ! nat v)"

definition m_ok :: "'f parser \<Rightarrow> machine \<Rightarrow> bool" where
  "m_ok P m \<longleftrightarrow>
     (\<forall>i < length (nodes m). node_ok P (take i (nodes m)) (store m) (node_fields m) (nodes m ! i)) \<and>
     length (cache m) = nslots (gr P) \<and>
     (\<forall>i < length (cache m). if odd i then ends P (fst (cache m ! i)) (snd (cache m ! i))
        else node_ans (nodes m) (fst (cache m ! i)) (snd (cache m ! i))) \<and>
     (\<forall>(s, p, v) \<in> set (seeds m). if odd s then ends P p v else node_ans (nodes m) p v)"

text \<open>The arena only grows, and too deep is for good.\<close>

definition grows :: "machine \<Rightarrow> machine \<Rightarrow> bool" where
  "grows m m' \<longleftrightarrow>
     (\<exists>x. nodes m' = nodes m @ x) \<and> (\<exists>x. store m' = store m @ x) \<and> (\<exists>x. node_fields m' = node_fields m @ x) \<and>
     (too_deep m \<longrightarrow> too_deep m')"

lemma grows_refl [simp]: "grows m m"
  by (simp add: grows_def)

lemma grows_trans [trans]: "grows m m' \<Longrightarrow> grows m' m'' \<Longrightarrow> grows m m''"
  by (auto simp: grows_def)

lemma grows_spans: "grows m m' \<Longrightarrow> spans (nodes m) a cs b \<Longrightarrow> spans (nodes m') a cs b"
  by (auto simp: grows_def spans_more)

lemma grows_node: "grows m m' \<Longrightarrow> i < length (nodes m) \<Longrightarrow> nodes m' ! i = nodes m ! i \<and> i < length (nodes m')"
  by (auto simp: grows_def nth_append)

lemma grows_ans: "grows m m' \<Longrightarrow> node_ans (nodes m) p v \<Longrightarrow> node_ans (nodes m') p v"
  by (auto simp: node_ans_def dest: grows_node)

text \<open>What the noting and the depth touch is not the arena.\<close>

definition same_arena :: "machine \<Rightarrow> machine \<Rightarrow> bool" where
  "same_arena m m' \<longleftrightarrow>
     stack m' = stack m \<and> nodes m' = nodes m \<and> store m' = store m \<and> node_fields m' = node_fields m \<and>
     cache m' = cache m \<and> seeds m' = seeds m \<and> (too_deep m \<longrightarrow> too_deep m')"

lemma same_ok: "same_arena m m' \<Longrightarrow> m_ok P m' = m_ok P m"
  by (simp add: same_arena_def m_ok_def)

lemma same_grows: "same_arena m m' \<Longrightarrow> grows m m'"
  by (simp add: same_arena_def grows_def)

lemma same_refl [simp]: "same_arena m m"
  by (simp add: same_arena_def)

lemma same_notes [simp]:
  "same_arena m (fail_at x i m') = same_arena m m'" "same_arena m (fail_cx c x i m') = same_arena m m'"
  "same_arena m (okk a b m') = same_arena m m'" "same_arena m (mute_end s p r i t m') = same_arena m m'"
  "same_arena m (leave m') = same_arena m m'" "same_arena m (snd (enter P m))"
  by (auto simp: same_arena_def fail_at_def fail_cx_def okk_def mute_end_def leave_def enter_def Let_def)

section \<open>Making nodes\<close>

lemma m_ok_stack [simp]: "m_ok P (m\<lparr>stack := s\<rparr>) = m_ok P m"
  by (simp add: m_ok_def)

lemma grows_stack [simp]: "grows m (m'\<lparr>stack := s\<rparr>) = grows m m'" "grows (m\<lparr>stack := s\<rparr>) m' = grows m m'"
  by (simp_all add: grows_def)

lemma extra_more: "extra_ok fs nd \<Longrightarrow> extra_ok (fs @ y) nd"
  by (auto simp: extra_ok_def nth_append split: extra.splits)

lemma node_ok_more:
  assumes "node_ok P nds st fs nd"
  shows "node_ok P nds (st @ x) (fs @ y) nd"
  using assms by (auto simp: node_ok_def extra_more)

lemma ans_more: "node_ans nds p v \<Longrightarrow> node_ans (nds @ x) p v"
  by (auto simp: node_ans_def nth_append)

definition add_node :: "child list \<Rightarrow> (nat \<times> field) list list \<Rightarrow> node \<Rightarrow> machine \<Rightarrow> machine" where
  "add_node x y nd m = m\<lparr>store := store m @ x, node_fields := node_fields m @ y, nodes := nodes m @ [nd]\<rparr>"

lemma add_node_fields [simp]:
  "stack (add_node x y nd m) = stack m" "nodes (add_node x y nd m) = nodes m @ [nd]"
  "cache (add_node x y nd m) = cache m" "seeds (add_node x y nd m) = seeds m"
  by (simp_all add: add_node_def)

lemma add_node_ok:
  assumes "m_ok P m" and "node_ok P (nodes m) (store m @ x) (node_fields m @ y) nd"
  shows "m_ok P (add_node x y nd m)" and "grows m (add_node x y nd m)"
proof -
  have "node_ok P (take i (nodes m @ [nd])) (store m @ x) (node_fields m @ y) ((nodes m @ [nd]) ! i)"
    if "i < Suc (length (nodes m))" for i
    using that assms by (cases "i < length (nodes m)") (auto simp: m_ok_def nth_append node_ok_more less_Suc_eq)
  then show "m_ok P (add_node x y nd m)"
    using assms(1) by (auto simp: m_ok_def add_node_def ans_more split: if_splits)
  show "grows m (add_node x y nd m)" by (simp add: grows_def add_node_def)
qed

lemma make_node_add:
  "make_node kind a b base ex m =
     (length (nodes m),
      add_node (drop base (stack m)) [] \<lparr>n_kind = kind, n_start = a, n_end = b, n_kids = length (store m),
        n_nkids = length (stack m) - base, n_extra = ex\<rparr> m)"
  by (simp add: make_node_def add_node_def)

lemma leaf_add:
  "leaf kind a b m =
     (length (nodes m),
      add_node [] [] \<lparr>n_kind = kind, n_start = a, n_end = b, n_kids = length (store m), n_nkids = 0, n_extra = ExNone\<rparr> m)"
  by (simp add: leaf_def add_node_def)

lemma lnode_add:
  "lnode kind a b base lls m =
     (length (nodes m),
      add_node (map (\<lambda>c. c\<lparr>c_label := None\<rparr>) (drop base (stack m))) [fields_of lls (drop base (stack m))]
        \<lparr>n_kind = kind, n_start = a, n_end = b, n_kids = length (store m), n_nkids = length (stack m) - base,
          n_extra = ExFields (length (node_fields m))\<rparr> m)"
  by (simp add: lnode_def add_node_def Let_def)

definition made :: "'f parser \<Rightarrow> machine \<Rightarrow> int \<Rightarrow> int \<Rightarrow> nat \<times> machine \<Rightarrow> bool" where
  "made P m a b r \<longleftrightarrow>
     m_ok P (snd r) \<and> grows m (snd r) \<and> stack (snd r) = stack m \<and> fst r < length (nodes (snd r)) \<and>
     n_start (nodes (snd r) ! fst r) = a \<and> n_end (nodes (snd r) ! fst r) = b"

lemma make_node_ok:
  assumes "m_ok P m" and "0 \<le> a" and "b \<le> in_len P" and "spans (nodes m) a (drop base (stack m)) b"
    and "case ex of ExNone \<Rightarrow> True | ExFields _ \<Rightarrow> False
      | ExPrec x y f \<Rightarrow> a \<le> x \<and> x \<le> y \<and> y \<le> b \<and> length (stack m) - base = (if f = Prefix \<or> f = Postfix then 1 else 2)"
  shows "made P m a b (make_node kind a b base ex m)"
  using assms by (auto simp: made_def make_node_add node_ok_def extra_ok_def intro!: add_node_ok split: extra.splits)

lemma leaf_ok:
  assumes "m_ok P m" and "0 \<le> a" and "a \<le> b" and "b \<le> in_len P"
  shows "made P m a b (leaf kind a b m)"
  using assms by (auto simp: made_def leaf_add node_ok_def extra_ok_def intro!: add_node_ok)

definition field_ok :: "nat \<Rightarrow> field \<Rightarrow> bool" where
  "field_ok n f = (case f of One i \<Rightarrow> i < n | Many is \<Rightarrow> \<forall>i \<in> set is. i < n)"

lemma note_field_ok:
  "\<forall>(l, f) \<in> set fs. field_ok n f \<Longrightarrow> i < n \<Longrightarrow> \<forall>(l, f) \<in> set (note_field k i fs). field_ok n f"
  by (induction k i fs rule: note_field.induct) (auto simp: field_ok_def split: field.splits if_splits)

lemma fields_of_ok: "\<forall>(l, f) \<in> set (fields_of lls kids). field_ok (length kids) f"
proof -
  have "\<forall>(l, f) \<in> set (fold (\<lambda>i fs. case c_label (kids ! i) of None \<Rightarrow> fs | Some l \<Rightarrow> note_field l i fs) is fs).
      field_ok (length kids) f"
    if "\<forall>i \<in> set is. i < length kids" "\<forall>(l, f) \<in> set fs. field_ok (length kids) f" for "is" fs
    using that
  proof (induction "is" arbitrary: fs)
    case (Cons i "is")
    have "\<forall>(l, f) \<in> set (case c_label (kids ! i) of None \<Rightarrow> fs | Some l \<Rightarrow> note_field l i fs). field_ok (length kids) f"
      using Cons.prems note_field_ok [of fs "length kids" i] by (cases "c_label (kids ! i)") simp_all
    then show ?case using Cons.IH Cons.prems(1) by simp
  qed simp
  from this [of "[0..<length kids]" "map (\<lambda>l. (l, Many [])) lls"] show ?thesis
    by (simp add: fields_of_def field_ok_def)
qed

lemma lnode_ok:
  assumes "m_ok P m" and "0 \<le> a" and "b \<le> in_len P" and "spans (nodes m) a (drop base (stack m)) b"
  shows "made P m a b (lnode kind a b base lls m)"
  using assms fields_of_ok [of lls "drop base (stack m)"]
  by (auto simp: made_def lnode_add node_ok_def extra_ok_def field_ok_def spans_map intro!: add_node_ok)

section \<open>What a task assumes and answers\<close>

fun pre :: "'f parser \<Rightarrow> task \<Rightarrow> machine \<Rightarrow> bool" where
  "pre P (Skip p) m \<longleftrightarrow> pos P p"
| "pre P (SkipRule r q) m \<longleftrightarrow> r < length (rules (gr P)) \<and> pos P q"
| "pre P (RuleK t r p) m \<longleftrightarrow> r < length (rules (gr P)) \<and> pos P p"
| "pre P (GrowK t slot r p best) m \<longleftrightarrow> r < length (rules (gr P)) \<and> pos P p \<and> odd slot \<and> ends P p best"
| "pre P (RuleB r p) m \<longleftrightarrow> r < length (rules (gr P)) \<and> pos P p"
| "pre P (GrowB slot r p best bend) m \<longleftrightarrow>
     r < length (rules (gr P)) \<and> pos P p \<and> even slot \<and> node_ans (nodes m) p best"
| "pre P (Ev b t e p skd c) m \<longleftrightarrow> e < length (exprs (gr P)) \<and> pos P p"
| "pre P (Star b t x v c) m \<longleftrightarrow> x < length (exprs (gr P)) \<and> pos P v"
| "pre P (Lead b t lead rest v c) m \<longleftrightarrow> rest < length (exprs (gr P)) \<and> pos P v"
| "pre P (PrecB t p ml c) m \<longleftrightarrow> t < length (precs (gr P)) \<and> pos P p"
| "pre P (TailB t p ml c base q) m \<longleftrightarrow>
     t < length (precs (gr P)) \<and> pos P p \<and> pos P q \<and> base \<le> length (stack m) \<and>
     spans (nodes m) p (drop base (stack m)) q"
| "pre P (PrecK tr t p ml c) m \<longleftrightarrow> t < length (precs (gr P)) \<and> pos P p"
| "pre P (TailK tr t ml c q) m \<longleftrightarrow> t < length (precs (gr P)) \<and> pos P q"

text \<open>An expression's: it failed and left the stack, or matched and added the nodes of its span.\<close>

definition ev_post :: "'f parser \<Rightarrow> bool \<Rightarrow> machine \<Rightarrow> int \<Rightarrow> int \<Rightarrow> machine \<Rightarrow> bool" where
  "ev_post P b m p v m' \<longleftrightarrow>
     (if v < 0 then v = -1 \<and> stack m' = stack m
      else p \<le> v \<and> v \<le> in_len P \<and>
        (\<exists>new. stack m' = stack m @ new \<and> (\<not> b \<longrightarrow> new = []) \<and> spans (nodes m') p new v))"

fun post :: "'f parser \<Rightarrow> task \<Rightarrow> machine \<Rightarrow> int \<Rightarrow> machine \<Rightarrow> bool" where
  "post P (Skip p) m v m' \<longleftrightarrow> p \<le> v \<and> v \<le> in_len P \<and> stack m' = stack m"
| "post P (SkipRule r q) m v m' \<longleftrightarrow> q \<le> v \<and> v \<le> in_len P \<and> stack m' = stack m"
| "post P (RuleK t r p) m v m' \<longleftrightarrow> ends P p v \<and> stack m' = stack m"
| "post P (GrowK t slot r p best) m v m' \<longleftrightarrow> ends P p v \<and> stack m' = stack m"
| "post P (RuleB r p) m v m' \<longleftrightarrow> node_ans (nodes m') p v \<and> stack m' = stack m"
| "post P (GrowB slot r p best bend) m v m' \<longleftrightarrow> node_ans (nodes m') p v \<and> stack m' = stack m"
| "post P (Ev b t e p skd c) m v m' \<longleftrightarrow> ev_post P b m p v m'"
| "post P (Star b t x v0 c) m v m' \<longleftrightarrow> 0 \<le> v \<and> ev_post P b m v0 v m'"
| "post P (Lead b t lead rest v0 c) m v m' \<longleftrightarrow> 0 \<le> v \<and> ev_post P b m v0 v m'"
| "post P (PrecB t p ml c) m v m' \<longleftrightarrow> node_ans (nodes m') p v \<and> stack m' = stack m"
| "post P (TailB t p ml c base q) m v m' \<longleftrightarrow>
     q \<le> v \<and> v \<le> in_len P \<and> base \<le> length (stack m') \<and> take base (stack m') = take base (stack m) \<and>
     spans (nodes m') p (drop base (stack m')) v"
| "post P (PrecK tr t p ml c) m v m' \<longleftrightarrow> ends P p v \<and> stack m' = stack m"
| "post P (TailK tr t ml c q) m v m' \<longleftrightarrow> q \<le> v \<and> v \<le> in_len P \<and> stack m' = stack m"

definition kept :: "'f parser \<Rightarrow> machine \<Rightarrow> machine \<Rightarrow> bool" where
  "kept P m m' \<longleftrightarrow> m_ok P m' \<and> grows m m'"

lemma kept_trans: "kept P m m' \<Longrightarrow> kept P m' m'' \<Longrightarrow> kept P m m''"
  by (auto simp: kept_def intro: grows_trans)

lemma kept_same: "same_arena m m' \<Longrightarrow> m_ok P m \<Longrightarrow> kept P m m'"
  by (simp add: kept_def same_ok same_grows)

lemma kept_grow [simp]: "kept P (m\<lparr>stack := s\<rparr>) m' = kept P m m'" "kept P m (m'\<lparr>stack := s\<rparr>) = kept P m m'"
  by (simp_all add: kept_def)

definition calls_ok :: "'f parser \<Rightarrow> run \<Rightarrow> bool" where
  "calls_ok P call \<longleftrightarrow>
     (\<forall>k m v m'. pre P k m \<longrightarrow> m_ok P m \<longrightarrow> call k m = Some (v, m') \<longrightarrow> kept P m m' \<and> post P k m v m')"

lemma call_ok: "calls_ok P call \<Longrightarrow> call k m = Some (v, m') \<Longrightarrow> pre P k m \<Longrightarrow> m_ok P m \<Longrightarrow> kept P m m' \<and> post P k m v m'"
  by (auto simp: calls_ok_def)

text \<open>Reading.\<close>

lemma at_end: "input_ok P \<Longrightarrow> code_at P (in_len P) = -1"
  by (auto simp: input_ok_def in_len_def code_at_def last_conv_nth nat_diff_distrib)

lemma pos_next: "input_ok P \<Longrightarrow> pos P p \<Longrightarrow> 0 \<le> code_at P p \<Longrightarrow> pos P (p + 1)"
  using at_end [of P] by (cases "p = in_len P") (auto simp: pos_def)

lemma has_code: "has cls c \<Longrightarrow> 0 \<le> c"
  by (auto simp: has_def split: if_splits)

lemma run_class_bounds: "input_ok P \<Longrightarrow> pos P p \<Longrightarrow> p \<le> run_class P cls p \<and> pos P (run_class P cls p)"
proof (induction P cls p rule: run_class.induct)
  case (1 P cls q)
  show ?case
  proof (cases "has cls (code_at P q)")
    case True
    then have "pos P (q + 1)" using pos_next [OF 1(2,3)] has_code by blast
    then show ?thesis using 1(1) [OF True 1(2)] True by (subst (1 2) run_class.simps) auto
  qed (use 1 in \<open>simp add: run_class.simps\<close>)
qed

lemma lit_at_bounds:
  "input_ok P \<Longrightarrow> pos P p \<Longrightarrow> \<forall>c \<in> set cs. 0 \<le> c \<Longrightarrow> lit_at P p ci cs \<Longrightarrow> pos P (p + int (length cs))"
proof (induction cs arbitrary: p)
  case (Cons c cs)
  then have "0 \<le> code_at P p" by (auto simp: lower_def split: if_splits)
  then have "pos P (p + 1)" using pos_next Cons.prems by blast
  then have "pos P (p + 1 + int (length cs))" using Cons by auto
  then show ?case by (simp add: algebra_simps)
qed simp

section \<open>Each function keeps it\<close>

lemma skip_ok:
  assumes "calls_ok P call" and "input_ok P" and "pos P p" and "m_ok P m" and "skip_body P call p m = Some (v, m')"
  shows "kept P m m' \<and> post P (Skip p) m v m'"
proof (cases "skip_class (gr P)")
  case (Some cls)
  then show ?thesis
    using assms run_class_bounds [OF assms(2,3), of cls] by (auto simp: skip_body_def kept_def pos_def)
next
  case None
  show ?thesis
  proof (cases "skip_rule (gr P)")
    case (Some r)
    then have "r < length (rules (gr P))" using assms(2) by (simp add: input_ok_def grammar_ok_def)
    then show ?thesis
      using assms None Some call_ok [OF assms(1), of "SkipRule r p" m v m'] by (simp add: skip_body_def)
  qed (use assms None in \<open>auto simp: skip_body_def kept_def pos_def\<close>)
qed

lemma skip_rule_ok:
  assumes "calls_ok P call" and "pre P (SkipRule r q) m" and "m_ok P m" and "skip_rule_body call r q m = Some (v, m')"
  shows "kept P m m' \<and> post P (SkipRule r q) m v m'"
proof -
  obtain v1 m1 where c: "call (RuleK False r q) m = Some (v1, m1)"
      "(if v1 \<le> q then Some (q, m1) else call (SkipRule r v1) m1) = Some (v, m')"
    using assms(4) by (auto simp: skip_rule_body_def bind_eq_Some_conv)
  have k: "kept P m m1" "ends P q v1" "stack m1 = stack m" using call_ok [OF assms(1) c(1)] assms(2,3) by auto
  show ?thesis
  proof (cases "v1 \<le> q")
    case True
    then show ?thesis using c(2) k assms(2) by (auto simp: pos_def)
  next
    case False
    then have "pos P v1" using k(2) assms(2) by (auto simp: ends_def pos_def)
    then show ?thesis
      using call_ok [OF assms(1), of "SkipRule r v1" m1 v m'] c(2) k assms(2) False kept_trans
      by (auto simp: kept_def)
  qed
qed

lemma at_pos_ok:
  assumes "calls_ok P call" and "pos P p" and "m_ok P m" and "at_pos P call c p skd m = Some (x, m')"
  shows "p \<le> x \<and> pos P x \<and> stack m' = stack m \<and> kept P m m'"
  using assms call_ok [OF assms(1), of "Skip p" m x m']
  by (auto simp: at_pos_def kept_def pos_def split: if_splits)

lemma sk_ok:
  assumes "calls_ok P call" and "pos P p" and "m_ok P m" and "sk P call c p m = Some (x, m')"
  shows "p \<le> x \<and> pos P x \<and> stack m' = stack m \<and> kept P m m'"
  using assms call_ok [OF assms(1), of "Skip p" m x m']
  by (auto simp: sk_def kept_def pos_def split: if_splits)

lemma rule_in: "input_ok P \<Longrightarrow> r < length (rules (gr P)) \<Longrightarrow>
    xr_body (rules (gr P) ! r) < length (exprs (gr P)) \<and>
    (\<forall>s. xr_slot (rules (gr P) ! r) = Some s \<longrightarrow> s * 2 + 1 < nslots (gr P)) \<and>
    (\<forall>t. xr_prec (rules (gr P) ! r) = Some t \<longrightarrow> t < length (precs (gr P)))"
  by (auto simp: input_ok_def grammar_ok_def)

lemma ev_false: "ev_post P False m p v m' \<Longrightarrow> ends P p v \<and> stack m' = stack m"
  by (auto simp: ev_post_def ends_def split: if_splits)

lemma same_stack: "same_arena m m' \<Longrightarrow> stack m' = stack m"
  by (simp add: same_arena_def)

lemma rule_k_body_ok:
  assumes "calls_ok P call" and "input_ok P" and "r < length (rules (gr P))" and "pos P p" and "m_ok P m"
    and "rule_k_body P call t r p m = Some (v, m')"
  shows "kept P m m' \<and> ends P p v \<and> stack m' = stack m"
proof -
  let ?e = "xr_body (rules (gr P) ! r)"
  obtain t' c v1 m1 where c: "call (Ev False t' ?e p True c) m = Some (v1, m1)" "same_arena m1 m'" "v = v1 \<or> v1 < 0 \<and> v = -1"
    using assms(6) by (auto simp: rule_k_body_def Let_def bind_eq_Some_conv intro!: that split: if_splits)
  have k: "kept P m m1" "ends P p v1" "stack m1 = stack m"
    using call_ok [OF assms(1) c(1)] assms(4,5) rule_in [OF assms(2,3)] by (auto dest: ev_false)
  have "kept P m m'" using kept_trans [OF k(1) kept_same [OF c(2)]] k(1) by (simp add: kept_def)
  then show ?thesis using k c same_stack by (auto simp: ends_def)
qed

lemma seeds_set_ok:
  assumes "m_ok P m" and "if odd slot then ends P p v else node_ans (nodes m) p v"
  shows "kept P m (seed_set slot p v m)"
  using assms by (auto simp: kept_def grows_def m_ok_def seed_set_def seed_drop_def Let_def split: if_splits)

lemma seeds_drop_ok: "m_ok P m \<Longrightarrow> kept P m (seed_drop slot p m)"
  by (auto simp: kept_def grows_def m_ok_def seed_drop_def)

lemma seed_stack [simp]: "stack (seed_set slot p v m) = stack m" "stack (seed_drop slot p m) = stack m"
  "nodes (seed_set slot p v m) = nodes m" "nodes (seed_drop slot p m) = nodes m"
  by (simp_all add: seed_set_def seed_drop_def Let_def)

lemma seed_find_ok:
  assumes "m_ok P m" and "seed_find slot p m = Some v"
  shows "if odd slot then ends P p v else node_ans (nodes m) p v"
proof -
  obtain x where x: "find (\<lambda>(s, q, _). s = slot \<and> q = p) (rev (seeds m)) = Some x" "v = (\<lambda>(_, _, v). v) x"
    using assms(2) unfolding seed_find_def map_option_eq_Some by blast
  have "x \<in> set (seeds m) \<and> (\<lambda>(s, q, _). s = slot \<and> q = p) x"
    using x(1) unfolding find_Some_iff by (metis nth_mem set_rev)
  then have "(slot, p, v) \<in> set (seeds m)" using x(2) by auto
  then show ?thesis using assms(1) by (auto simp: m_ok_def)
qed

lemma cache_ok:
  assumes "m_ok P m" and "slot < nslots (gr P)" and "fst (cache m ! slot) = p"
  shows "if odd slot then ends P p (snd (cache m ! slot)) else node_ans (nodes m) p (snd (cache m ! slot))"
  using assms by (auto simp: m_ok_def)

lemma cache_set_ok:
  assumes "m_ok P m" and "if odd slot then ends P p v else node_ans (nodes m) p v"
  shows "kept P m (m\<lparr>cache := (cache m)[slot := (p, v)]\<rparr>)"
proof -
  have "i < length (cache m) \<Longrightarrow> (cache m)[slot := (p, v)] ! i = (if i = slot then (p, v) else cache m ! i)" for i
    by (cases "slot < length (cache m)") (auto simp: nth_list_update)
  then show ?thesis using assms by (auto simp: kept_def grows_def m_ok_def split: if_splits)
qed

lemma enter_leave:
  assumes "m_ok P m"
  shows "kept P m (snd (enter P m))" "kept P m (leave m)" "stack (snd (enter P m)) = stack m" "stack (leave m) = stack m"
    "nodes (leave m) = nodes m"
  using assms by (auto intro: kept_same simp: enter_def leave_def Let_def same_arena_def)

lemma grow_k_ok:
  assumes "calls_ok P call" and "input_ok P" and "pre P (GrowK t slot r p best) m" and "m_ok P m"
    and "grow_k_body P call t slot r p best m = Some (v, m')"
  shows "kept P m m' \<and> post P (GrowK t slot r p best) m v m'"
proof -
  obtain v1 m1 where c: "rule_k_body P call t r p m = Some (v1, m1)"
      "(if v1 \<le> best \<or> too_deep m1 then Some (best, seed_drop slot p m1)
        else call (GrowK t slot r p v1) (seed_set slot p v1 m1)) = Some (v, m')"
    using assms(5) by (auto simp: grow_k_body_def bind_eq_Some_conv)
  have k: "kept P m m1" "ends P p v1" "stack m1 = stack m"
    using rule_k_body_ok [OF assms(1,2) _ _ assms(4) c(1)] assms(3) by auto
  show ?thesis
  proof (cases "v1 \<le> best \<or> too_deep m1")
    case True
    then show ?thesis
      using c(2) k assms(3) kept_trans [OF k(1) seeds_drop_ok] by (auto simp: kept_def)
  next
    case False
    then have c2: "call (GrowK t slot r p v1) (seed_set slot p v1 m1) = Some (v, m')" using c(2) by simp
    have s: "kept P m1 (seed_set slot p v1 m1)" using k assms(3) by (intro seeds_set_ok) (auto simp: kept_def)
    show ?thesis
      using call_ok [OF assms(1) c2] k assms(3) s kept_trans [OF kept_trans [OF k(1) s]] by (auto simp: kept_def)
  qed
qed

lemma rule_k_wrapped_ok:
  assumes "calls_ok P call" and "input_ok P" and "r < length (rules (gr P))" and "pos P p" and "m_ok P m"
    and "rule_k_wrapped P call t r p m = Some (v, m')"
  shows "kept P m m' \<and> ends P p v \<and> stack m' = stack m"
proof (cases "xr_is_skip (rules (gr P) ! r)")
  case True
  then have "call (Ev False False (xr_body (rules (gr P) ! r)) p True cx_token) m = Some (v, m')"
    using assms(6) by (simp add: rule_k_wrapped_def Let_def)
  from call_ok [OF assms(1) this] show ?thesis using assms(4,5) rule_in [OF assms(2,3)] by (auto dest: ev_false)
next
  case skip: False
  note body = rule_k_body_ok [OF assms(1-5)]
  show ?thesis
  proof (cases "xr_slot (rules (gr P) ! r)")
    case None
    then show ?thesis using assms(6) skip body by (simp add: rule_k_wrapped_def Let_def)
  next
    case (Some s)
    then have n: "s * 2 + 1 < nslots (gr P)" using rule_in [OF assms(2,3)] by blast
    show ?thesis
    proof (cases "xr_lr_head (rules (gr P) ! r)")
      case True
      show ?thesis
      proof (cases "seed_find (s * 2 + 1) p m")
        case None
        have c: "call (GrowK t (s * 2 + 1) r p (-1)) (seed_set (s * 2 + 1) p (-1) m) = Some (v, m')"
          using assms(6) skip Some True None by (simp add: rule_k_wrapped_def Let_def)
        have k: "kept P m (seed_set (s * 2 + 1) p (-1) m)"
          using assms(5) by (intro seeds_set_ok) (auto simp: ends_def)
        show ?thesis
          using call_ok [OF assms(1) c] k assms(3,4) kept_trans [OF k] by (auto simp: kept_def ends_def)
      next
        case (Some w)
        then show ?thesis
          using assms(5,6) skip \<open>xr_slot (rules (gr P) ! r) = Some s\<close> True seed_find_ok [OF assms(5) Some]
          by (auto simp: rule_k_wrapped_def Let_def kept_def)
      qed
    next
      case False
      show ?thesis
      proof (cases "fst (cache m ! (s * 2 + 1)) = p")
        case True
        then show ?thesis
          using assms(5,6) skip Some False cache_ok [OF assms(5) n True] by (auto simp: rule_k_wrapped_def Let_def kept_def)
      next
        case miss: False
        obtain m1 where c: "rule_k_body P call t r p m = Some (v, m1)" "m' = m1\<lparr>cache := (cache m1)[s * 2 + 1 := (p, v)]\<rparr>"
          using assms(6) skip Some False miss by (auto simp: rule_k_wrapped_def Let_def bind_eq_Some_conv)
        have k: "kept P m m1" "ends P p v" "stack m1 = stack m" using body [OF c(1)] by auto
        have "kept P m1 m'" unfolding c(2) using k by (intro cache_set_ok) (auto simp: kept_def)
        then show ?thesis using k kept_trans c(2) by auto
      qed
    qed
  qed
qed

lemma enter_cases:
  assumes "(let (ok, m) = enter P m in if \<not> ok then Some (-1, leave m) else f m) = Some (v, m')" and "m_ok P m"
  obtains m1 where "kept P m m1" "stack m1 = stack m"
    "v = -1 \<and> m' = leave m1 \<or> f m1 = Some (v, m')"
  using assms(1) enter_leave [OF assms(2)] that [of "snd (enter P m)"] by (auto split: prod.splits if_splits)

lemma rule_k_ok:
  assumes "calls_ok P call" and "input_ok P" and "pre P (RuleK t r p) m" and "m_ok P m"
    and "rule_k P call t r p m = Some (v, m')"
  shows "kept P m m' \<and> post P (RuleK t r p) m v m'"
proof -
  obtain m1 where m1: "kept P m m1" "stack m1 = stack m"
      "v = -1 \<and> m' = leave m1 \<or> do { (out, m) \<leftarrow> rule_k_wrapped P call t r p m1; Some (out, leave m) } = Some (v, m')"
    using enter_cases [OF assms(5) [unfolded rule_k_def] assms(4)] by metis
  from m1(3) show ?thesis
  proof
    assume "v = -1 \<and> m' = leave m1"
    then show ?thesis using m1 enter_leave [of P m1] kept_trans by (auto simp: kept_def ends_def)
  next
    assume "do { (out, m) \<leftarrow> rule_k_wrapped P call t r p m1; Some (out, leave m) } = Some (v, m')"
    then obtain m2 where m2: "rule_k_wrapped P call t r p m1 = Some (v, m2)" "m' = leave m2"
      by (auto simp: bind_eq_Some_conv)
    have k: "kept P m1 m2" "ends P p v" "stack m2 = stack m1"
      using rule_k_wrapped_ok [OF assms(1,2) _ _ _ m2(1)] assms(3) m1(1) by (auto simp: kept_def)
    have "kept P m2 m'" using enter_leave [of P m2] m2(2) k(1) by (simp add: kept_def)
    then show ?thesis
      using kept_trans [OF kept_trans [OF m1(1) k(1)]] m1(2) k m2(2) enter_leave(4) [of P m2] by (auto simp: kept_def)
  qed
qed

lemma made_kept: "made P m a b (n, m') \<Longrightarrow> kept P m m' \<and> stack m' = stack m"
  by (simp add: made_def kept_def)

lemma made_ans: "made P m a b (n, m') \<Longrightarrow> a \<le> b \<Longrightarrow> node_ans (nodes m') a (int n)"
  by (simp add: made_def node_ans_def)

lemma made_span: "made P m a b (n, m') \<Longrightarrow> p \<le> a \<Longrightarrow> a \<le> b \<Longrightarrow> b \<le> q \<Longrightarrow> spans (nodes m') p [\<lparr>c_node = n, c_label = l\<rparr>] q"
  by (simp add: made_def)

lemma kept_cut [simp]: "kept P m (cut base m') = kept P m m'" "nodes (cut base m) = nodes m"
  "stack (cut base m) = take base (stack m)"
  by (simp_all add: cut_def)

lemma kept_push [simp]: "kept P m (push_child n l m') = kept P m m'" "nodes (push_child n l m) = nodes m"
  "stack (push_child n l m) = stack m @ [\<lparr>c_node = n, c_label = l\<rparr>]"
  by (simp_all add: push_child_def)

lemma kept_left [simp]: "kept P (cut base m) m' = kept P m m'" "kept P (push_child n l m) m' = kept P m m'"
  by (simp_all add: cut_def push_child_def)

lemma kept_ok: "kept P m m' \<Longrightarrow> m_ok P m'"
  by (simp add: kept_def)

lemma kept_grows: "kept P m m' \<Longrightarrow> grows m m'"
  by (simp add: kept_def)

lemma rule_b_body_ok:
  assumes "calls_ok P call" and "input_ok P" and "r < length (rules (gr P))" and "pos P p" and "m_ok P m"
    and "rule_b_body P call r p m = Some (v, m')"
  shows "kept P m m' \<and> node_ans (nodes m') p v \<and> stack m' = stack m"
proof (cases "xr_prec (rules (gr P) ! r)")
  case (Some t)
  then have c: "call (PrecB t p 0 cx_rule) m = Some (v, m')" using assms(6) by (simp add: rule_b_body_def Let_def)
  from call_ok [OF assms(1) c] show ?thesis using assms(4,5) Some rule_in [OF assms(2,3)] by auto
next
  case None
  define base where "base = length (stack m)"
  define rule where "rule = rules (gr P) ! r"
  obtain res m1 where c: "call (Ev True False (xr_body rule) p True cx_rule) m = Some (res, m1)"
    using assms(6) None by (auto simp: rule_b_body_def Let_def bind_eq_Some_conv rule_def)
  have k: "kept P m m1" "ev_post P True m p res m1"
    using call_ok [OF assms(1) c] assms(4,5) rule_in [OF assms(2,3)] by (auto simp: rule_def)
  show ?thesis
  proof (cases "res < 0")
    case True
    then have "v = -1" "m' = cut base m1"
      using assms(6) None c by (auto simp: rule_b_body_def Let_def rule_def base_def)
    then show ?thesis using k True by (auto simp: ev_post_def node_ans_def base_def)
  next
    case False
    define made' where "made' =
        (case xr_labels rule of
           Some lls \<Rightarrow> lnode (Some (xr_kind rule)) p res base lls m1
         | None \<Rightarrow> make_node (if xr_silent rule then None else Some (xr_kind rule)) p res base ExNone m1)"
    have v: "v = int (fst made')" "m' = cut base (snd made')"
      using assms(6) None c False
      by (auto simp: rule_b_body_def Let_def rule_def base_def made'_def split: option.splits prod.splits)
    obtain new where new: "stack m1 = stack m @ new" "spans (nodes m1) p new res" "p \<le> res" "res \<le> in_len P"
      using k(2) False by (auto simp: ev_post_def)
    have "made P m1 p res made'"
      unfolding made'_def using new assms(4) kept_ok [OF k(1)]
      by (cases "xr_labels rule") (auto intro!: lnode_ok make_node_ok simp: base_def pos_def)
    then have mk: "made P m1 p res (fst made', snd made')" by simp
    show ?thesis
      using kept_trans [OF k(1)] made_kept [OF mk] made_ans [OF mk new(3)] new(1) v by (simp add: base_def)
  qed
qed

lemma grow_b_ok:
  assumes "calls_ok P call" and "input_ok P" and "pre P (GrowB slot r p best bend) m" and "m_ok P m"
    and "grow_b_body P call slot r p best bend m = Some (v, m')"
  shows "kept P m m' \<and> post P (GrowB slot r p best bend) m v m'"
proof -
  obtain nd m1 where c: "rule_b_body P call r p m = Some (nd, m1)"
      "(if nd < 0 \<or> too_deep m1 \<or> end_of m1 nd \<le> bend then Some (best, seed_drop slot p m1)
        else call (GrowB slot r p nd (end_of m1 nd)) (seed_set slot p nd m1)) = Some (v, m')"
    using assms(5) by (auto simp: grow_b_body_def bind_eq_Some_conv)
  have k: "kept P m m1" "node_ans (nodes m1) p nd" "stack m1 = stack m"
    using rule_b_body_ok [OF assms(1,2) _ _ assms(4) c(1)] assms(3) by auto
  have best: "node_ans (nodes m1) p best" using assms(3) grows_ans [OF kept_grows [OF k(1)]] by auto
  show ?thesis
  proof (cases "nd < 0 \<or> too_deep m1 \<or> end_of m1 nd \<le> bend")
    case True
    then show ?thesis
      using c(2) k best kept_trans [OF k(1) seeds_drop_ok [OF kept_ok [OF k(1)]]] by auto
  next
    case False
    then have c2: "call (GrowB slot r p nd (end_of m1 nd)) (seed_set slot p nd m1) = Some (v, m')" using c(2) by simp
    have s: "kept P m1 (seed_set slot p nd m1)" using k assms(3) kept_ok by (intro seeds_set_ok) auto
    show ?thesis
      using call_ok [OF assms(1) c2] k assms(3) kept_ok [OF s] kept_trans [OF kept_trans [OF k(1) s]] by auto
  qed
qed

lemma leaf_made:
  assumes "m_ok P m" and "pos P p" and "ends P p v" and "\<not> v < 0" and "leaf kind p v m = (n, m')"
  shows "made P m p v (n, m')" and "p \<le> v"
  using assms leaf_ok [of P m p v kind] by (auto simp: pos_def ends_def)

lemma rule_b_wrapped_ok:
  assumes "calls_ok P call" and "input_ok P" and "r < length (rules (gr P))" and "pos P p" and "m_ok P m"
    and "rule_b_wrapped P call r p m = Some (v, m')"
  shows "kept P m m' \<and> node_ans (nodes m') p v \<and> stack m' = stack m"
proof (cases "xr_is_skip (rules (gr P) ! r) \<or> xr_token (rules (gr P) ! r)")
  case True
  define kind where
    "kind = (if xr_is_skip (rules (gr P) ! r) \<or> xr_silent (rules (gr P) ! r) then None else Some (xr_kind (rules (gr P) ! r)))"
  obtain v1 m1 where c: "call (RuleK False r p) m = Some (v1, m1)"
      "(if v1 < 0 then (-1, m1) else (int (fst (leaf kind p v1 m1)), snd (leaf kind p v1 m1))) = (v, m')"
    using assms(6) True
    by (auto simp: rule_b_wrapped_def Let_def bind_eq_Some_conv kind_def split: prod.splits if_splits)
  have k: "kept P m m1" "ends P p v1" "stack m1 = stack m"
    using call_ok [OF assms(1) c(1)] assms(3-5) by auto
  show ?thesis
  proof (cases "v1 < 0")
    case True
    then show ?thesis using c(2) k by (auto simp: node_ans_def)
  next
    case False
    then have v: "v = int (fst (leaf kind p v1 m1))" "m' = snd (leaf kind p v1 m1)" using c(2) by auto
    note mk = leaf_made [OF kept_ok [OF k(1)] assms(4) k(2) False, of kind "fst (leaf kind p v1 m1)" m']
    have mk: "made P m1 p v1 (fst (leaf kind p v1 m1), m')" "p \<le> v1" using mk v(2) by auto
    show ?thesis using made_kept [OF mk(1)] made_ans [OF mk] kept_trans [OF k(1)] k(3) v(1) by auto
  qed
next
  case tok: False
  note body = rule_b_body_ok [OF assms(1-5)]
  show ?thesis
  proof (cases "xr_slot (rules (gr P) ! r)")
    case None
    then show ?thesis using assms(6) tok body by (simp add: rule_b_wrapped_def Let_def)
  next
    case (Some s)
    then have n: "s * 2 < nslots (gr P)" using rule_in [OF assms(2,3)] by fastforce
    show ?thesis
    proof (cases "xr_lr_head (rules (gr P) ! r)")
      case True
      show ?thesis
      proof (cases "seed_find (s * 2) p m")
        case None
        have c: "call (GrowB (s * 2) r p (-1) (-1)) (seed_set (s * 2) p (-1) m) = Some (v, m')"
          using assms(6) tok Some True None by (simp add: rule_b_wrapped_def Let_def)
        have k: "kept P m (seed_set (s * 2) p (-1) m)"
          using assms(5) by (intro seeds_set_ok) (auto simp: node_ans_def)
        show ?thesis
          using call_ok [OF assms(1) c] kept_ok [OF k] assms(3,4) kept_trans [OF k] by (auto simp: node_ans_def)
      next
        case (Some w)
        then show ?thesis
          using assms(5,6) tok \<open>xr_slot (rules (gr P) ! r) = Some s\<close> True seed_find_ok [OF assms(5) Some]
          by (auto simp: rule_b_wrapped_def Let_def kept_def)
      qed
    next
      case False
      show ?thesis
      proof (cases "fst (cache m ! (s * 2)) = p")
        case True
        then show ?thesis
          using assms(5,6) tok Some False cache_ok [OF assms(5) n True] by (auto simp: rule_b_wrapped_def Let_def kept_def)
      next
        case miss: False
        obtain m1 where c: "rule_b_body P call r p m = Some (v, m1)" "m' = m1\<lparr>cache := (cache m1)[s * 2 := (p, v)]\<rparr>"
          using assms(6) tok Some False miss by (auto simp: rule_b_wrapped_def Let_def bind_eq_Some_conv)
        have k: "kept P m m1" "node_ans (nodes m1) p v" "stack m1 = stack m" using body [OF c(1)] by auto
        have "kept P m1 m'" unfolding c(2) using k kept_ok by (intro cache_set_ok) auto
        then show ?thesis using k kept_trans c(2) by auto
      qed
    qed
  qed
qed

lemma rule_b_ok:
  assumes "calls_ok P call" and "input_ok P" and "pre P (RuleB r p) m" and "m_ok P m"
    and "rule_b P call r p m = Some (v, m')"
  shows "kept P m m' \<and> post P (RuleB r p) m v m'"
proof -
  obtain m1 where m1: "kept P m m1" "stack m1 = stack m"
      "v = -1 \<and> m' = leave m1 \<or> do { (out, m) \<leftarrow> rule_b_wrapped P call r p m1; Some (out, leave m) } = Some (v, m')"
    using enter_cases [OF assms(5) [unfolded rule_b_def] assms(4)] by metis
  from m1(3) show ?thesis
  proof
    assume "v = -1 \<and> m' = leave m1"
    then show ?thesis using m1 enter_leave [of P m1] kept_trans by (auto simp: kept_def node_ans_def)
  next
    assume "do { (out, m) \<leftarrow> rule_b_wrapped P call r p m1; Some (out, leave m) } = Some (v, m')"
    then obtain m2 where m2: "rule_b_wrapped P call r p m1 = Some (v, m2)" "m' = leave m2"
      by (auto simp: bind_eq_Some_conv)
    have k: "kept P m1 m2" "node_ans (nodes m2) p v" "stack m2 = stack m1"
      using rule_b_wrapped_ok [OF assms(1,2) _ _ _ m2(1)] assms(3) m1(1) by (auto simp: kept_def)
    have "kept P m2 m'" using enter_leave [of P m2] m2(2) k(1) by (simp add: kept_def)
    then show ?thesis
      using kept_trans [OF kept_trans [OF m1(1) k(1)]] m1(2) k m2(2) enter_leave(4,5) [of P m2] by (auto simp: kept_def)
  qed
qed

section \<open>Expressions keep it\<close>

lemma ev_post_from: "ev_post P b m1 x v m2 \<Longrightarrow> stack m1 = stack m \<Longrightarrow> p \<le> x \<Longrightarrow> ev_post P b m p v m2"
  by (auto simp: ev_post_def intro: spans_mono split: if_splits)

lemma ev_post_seq:
  assumes "ev_post P b m p q m1" and "0 \<le> q" and "ev_post P b m1 q v m2" and "0 \<le> v" and "kept P m1 m2"
  shows "ev_post P b m p v m2"
proof -
  obtain n1 where n1: "stack m1 = stack m @ n1" "\<not> b \<longrightarrow> n1 = []" "spans (nodes m2) p n1 q" "p \<le> q"
    using assms(1,2) grows_spans [OF kept_grows [OF assms(5)]] by (auto simp: ev_post_def split: if_splits)
  obtain n2 where n2: "stack m2 = stack m1 @ n2" "\<not> b \<longrightarrow> n2 = []" "spans (nodes m2) q n2 v" "q \<le> v" "v \<le> in_len P"
    using assms(3,4) by (auto simp: ev_post_def split: if_splits)
  show ?thesis using n1 n2 assms(4) spans_append [OF n1(3) n2(3)] by (auto simp: ev_post_def)
qed

lemma ev_post_none: "p \<le> v \<Longrightarrow> pos P v \<Longrightarrow> stack m' = stack m \<Longrightarrow> ev_post P b m p v m'"
  by (auto simp: ev_post_def pos_def)

lemma ev_post_fail: "stack m' = stack m \<Longrightarrow> ev_post P b m p (-1) m'"
  by (auto simp: ev_post_def)

lemma ev_pos: "ev_post P b m p v m' \<Longrightarrow> 0 \<le> v \<Longrightarrow> pos P p \<Longrightarrow> pos P v \<and> p \<le> v"
  by (auto simp: ev_post_def pos_def)

lemma alt_items_ok:
  assumes "calls_ok P call" and "\<forall>i \<in> set items. i < length (exprs (gr P))" and "pos P p" and "m_ok P m"
    and "alt_items call b t items p skd c m = Some (v, m')"
  shows "kept P m m' \<and> ev_post P b m p v m'"
  using assms(2,4,5)
proof (induction items arbitrary: m)
  case Nil
  then show ?case by (auto simp: kept_def ev_post_fail)
next
  case (Cons i "is")
  obtain r m1 where r: "call (Ev b t i p skd c) m = Some (r, m1)"
      "(if r \<ge> 0 then Some (r, m1) else alt_items call b t is p skd c m1) = Some (v, m')"
    using Cons.prems(3) by (auto simp: bind_eq_Some_conv)
  have k: "kept P m m1" "ev_post P b m p r m1"
    using call_ok [OF assms(1) r(1)] assms(3) Cons.prems by auto
  show ?case
  proof (cases "r \<ge> 0")
    case False
    then have "kept P m1 m' \<and> ev_post P b m1 p v m'"
      using Cons.IH [of m1] Cons.prems(1) r(2) kept_ok [OF k(1)] by auto
    then show ?thesis using k False kept_trans [OF k(1)] by (auto simp: ev_post_def split: if_splits)
  qed (use k r in auto)
qed

lemma seq_items_ok:
  assumes "calls_ok P call" and "\<forall>i \<in> set items. i < length (exprs (gr P))" and "pos P q" and "m_ok P m"
    and "seq_items call b t items q skd c m = Some (v, m')"
  shows "kept P m m' \<and> (\<exists>new. stack m' = stack m @ new \<and> (\<not> b \<longrightarrow> new = [])) \<and>
    (if v < 0 then v = -1 else ev_post P b m q v m')"
  using assms(2-5)
proof (induction items arbitrary: q skd m)
  case Nil
  then show ?case by (auto simp: kept_def ev_post_none pos_def)
next
  case (Cons i "is")
  obtain r m1 where r: "call (Ev b t i q skd c) m = Some (r, m1)"
      "(if r < 0 then Some (-1, m1) else seq_items call b t is r False c m1) = Some (v, m')"
    using Cons.prems(4) by (auto simp: bind_eq_Some_conv)
  have k: "kept P m m1" "ev_post P b m q r m1"
    using call_ok [OF assms(1) r(1)] Cons.prems by auto
  obtain n1 where n1: "stack m1 = stack m @ n1" "\<not> b \<longrightarrow> n1 = []" using k(2) by (auto simp: ev_post_def split: if_splits)
  show ?case
  proof (cases "r < 0")
    case True
    then show ?thesis using r(2) k n1 by auto
  next
    case False
    have rest: "kept P m1 m' \<and> (\<exists>new. stack m' = stack m1 @ new \<and> (\<not> b \<longrightarrow> new = [])) \<and>
        (if v < 0 then v = -1 else ev_post P b m1 r v m')"
      using Cons.IH [of r m1 False] Cons.prems ev_pos [OF k(2)] r(2) False kept_ok [OF k(1)] by auto
    then have "v \<ge> 0 \<Longrightarrow> ev_post P b m q v m'"
      using ev_post_seq [OF k(2) _ _ _] False by auto
    then show ?thesis using rest k n1 kept_trans [OF k(1)] by auto
  qed
qed

lemma star_ok:
  assumes "calls_ok P call" and "pre P (Star b t x p c) m" and "m_ok P m"
    and "star_body call b t x p c m = Some (v, m')"
  shows "kept P m m' \<and> post P (Star b t x p c) m v m'"
proof -
  obtain r m1 where r: "call (Ev b t x p False c) m = Some (r, m1)"
      "(if r \<le> p then Some (p, m1) else call (Star b t x r c) m1) = Some (v, m')"
    using assms(4) by (auto simp: star_body_def bind_eq_Some_conv)
  have p: "pos P p" "0 \<le> p" using assms(2) by (auto simp: pos_def)
  have k: "kept P m m1" "ev_post P b m p r m1" using call_ok [OF assms(1) r(1)] assms(2,3) by auto
  show ?thesis
  proof (cases "r \<le> p")
    case True
    then have "ev_post P b m p p m1"
      using k(2) p by (cases "r < 0") (auto simp: ev_post_def pos_def)
    then show ?thesis using True r(2) k p by auto
  next
    case False
    then have c2: "call (Star b t x r c) m1 = Some (v, m')" "0 \<le> r" "pos P r"
      using r(2) p ev_pos [OF k(2)] by auto
    have "kept P m1 m'" "0 \<le> v" "ev_post P b m1 r v m'"
      using call_ok [OF assms(1) c2(1)] kept_ok [OF k(1)] c2 assms(2) by auto
    then show ?thesis using ev_post_seq [OF k(2) c2(2)] kept_trans [OF k(1)] by auto
  qed
qed

lemma lead_ok:
  assumes "calls_ok P call" and "input_ok P" and "pre P (Lead b t lead rest p c) m" and "m_ok P m"
    and "lead_body P call b t lead rest p c m = Some (v, m')"
  shows "kept P m m' \<and> post P (Lead b t lead rest p c) m v m'"
proof (cases "has lead (code_at P p)")
  case True
  then have c: "call (Lead b t lead rest (p + 1) c) m = Some (v, m')" using assms(5) by (simp add: lead_body_def)
  have "pos P (p + 1)" using pos_next [OF assms(2)] has_code [OF True] assms(3) by auto
  from call_ok [OF assms(1) c] this show ?thesis
    using assms(3,4) ev_post_from [of P b m "p + 1" v m' m p] by auto
next
  case stop: False
  obtain r m1 where r: "call (Ev b t rest p False c) m = Some (r, m1)"
      "(if r \<le> p then Some (p, m1) else call (Lead b t lead rest r c) m1) = Some (v, m')"
    using assms(5) stop by (auto simp: lead_body_def bind_eq_Some_conv)
  have p: "pos P p" "0 \<le> p" using assms(3) by (auto simp: pos_def)
  have k: "kept P m m1" "ev_post P b m p r m1" using call_ok [OF assms(1) r(1)] assms(3,4) by auto
  show ?thesis
  proof (cases "r \<le> p")
    case True
    then have "ev_post P b m p p m1"
      using k(2) p by (cases "r < 0") (auto simp: ev_post_def pos_def)
    then show ?thesis using True r(2) k p by auto
  next
    case False
    then have c2: "call (Lead b t lead rest r c) m1 = Some (v, m')" "0 \<le> r" "pos P r"
      using r(2) p ev_pos [OF k(2)] by auto
    have "kept P m1 m'" "0 \<le> v" "ev_post P b m1 r v m'"
      using call_ok [OF assms(1) c2(1)] kept_ok [OF k(1)] c2 assms(3) by auto
    then show ?thesis using ev_post_seq [OF k(2) c2(2)] kept_trans [OF k(1)] by auto
  qed
qed

lemma node_kids:
  assumes "m_ok P m" and "i < length (nodes m)"
  shows "spans (nodes m) (n_start (nodes m ! i)) (take (n_nkids (nodes m ! i)) (drop (n_kids (nodes m ! i)) (store m)))
      (n_end (nodes m ! i))"
    and "0 \<le> n_start (nodes m ! i)" and "n_end (nodes m ! i) \<le> in_len P"
proof -
  have ok: "node_ok P (take i (nodes m)) (store m) (node_fields m) (nodes m ! i)" using assms by (simp add: m_ok_def)
  then show "spans (nodes m) (n_start (nodes m ! i)) (take (n_nkids (nodes m ! i)) (drop (n_kids (nodes m ! i)) (store m)))
      (n_end (nodes m ! i))"
    using spans_more [of "take i (nodes m)" _ _ _ "drop i (nodes m)"] by (simp add: node_ok_def)
  show "0 \<le> n_start (nodes m ! i)" "n_end (nodes m ! i) \<le> in_len P" using ok by (auto simp: node_ok_def)
qed

lemma ev_ref_ok:
  assumes "calls_ok P call" and "r < length (rules (gr P))" and "pos P x" and "m_ok P m"
    and "ev_ref P call b t r x c m = Some (v, m')"
  shows "kept P m m' \<and> ev_post P b m x v m'"
proof (cases b)
  case False
  then have "call (RuleK (t \<and> \<not> inner c) r x) m = Some (v, m')" using assms(5) by (simp add: ev_ref_def)
  from call_ok [OF assms(1) this] show ?thesis using assms(2-4) False by (auto simp: ev_post_def ends_def pos_def)
next
  case b: True
  define rule where "rule = rules (gr P) ! r"
  show ?thesis
  proof (cases "xr_token rule")
    case True
    obtain v1 m1 where c: "call (RuleK False r x) m = Some (v1, m1)"
        "(if xr_silent rule \<or> v1 < 0 then (v1, m1)
          else (v1, push_child (fst (leaf (Some (xr_kind rule)) x v1 m1)) None (snd (leaf (Some (xr_kind rule)) x v1 m1)))) = (v, m')"
      using assms(5) b True
      by (auto simp: ev_ref_def Let_def bind_eq_Some_conv rule_def split: prod.splits if_splits)
    have k: "kept P m m1" "ends P x v1" "stack m1 = stack m" using call_ok [OF assms(1) c(1)] assms(2-4) by auto
    show ?thesis
    proof (cases "xr_silent rule \<or> v1 < 0")
      case True
      then show ?thesis using c(2) k assms(3) by (auto simp: ev_post_def ends_def pos_def)
    next
      case False
      obtain n m2 where l: "leaf (Some (xr_kind rule)) x v1 m1 = (n, m2)" by fastforce
      have mk: "made P m1 x v1 (n, m2)" "x \<le> v1" using leaf_made [OF kept_ok [OF k(1)] assms(3) k(2) _ l] False by auto
      have "v = v1" "m' = push_child n None m2" using c(2) False l by auto
      then show ?thesis
        using made_kept [OF mk(1)] made_span [OF mk(1) order_refl mk(2) order_refl] mk(2) k b kept_trans [OF k(1)] False
        by (auto simp: ev_post_def ends_def)
    qed
  next
    case tok: False
    obtain n m1 where c: "call (RuleB r x) m = Some (n, m1)" using assms(5) b tok
      by (auto simp: ev_ref_def Let_def bind_eq_Some_conv rule_def)
    have k: "kept P m m1" "node_ans (nodes m1) x n" "stack m1 = stack m" using call_ok [OF assms(1) c] assms(2-4) by auto
    show ?thesis
    proof (cases "n < 0")
      case True
      then show ?thesis using assms(5) b tok c k by (auto simp: ev_ref_def Let_def rule_def ev_post_fail)
    next
      case False
      define nd where "nd = nodes m1 ! nat n"
      have n: "nat n < length (nodes m1)" "x \<le> n_start nd" "n_start nd \<le> n_end nd"
        using k(2) False by (auto simp: node_ans_def nd_def)
      note kids = node_kids [OF kept_ok [OF k(1)] n(1), folded nd_def]
      define new where "new = (if xr_silent rule \<and> \<not> xr_is_skip rule then take (n_nkids nd) (drop (n_kids nd) (store m1))
          else [\<lparr>c_node = nat n, c_label = None\<rparr>])"
      have "spans (nodes m1) x new (n_end nd)"
        using kids n spans_mono [OF kids(1) n(2) order_refl] by (auto simp: new_def nd_def)
      moreover have "v = n_end nd" "nodes m' = nodes m1" "stack m' = stack m @ new" "kept P m m'"
        using assms(5) b tok c k False
        by (auto simp: ev_ref_def Let_def rule_def nd_def new_def split: if_splits)
      ultimately show ?thesis using kids(2,3) n b by (auto simp: ev_post_def)
    qed
  qed
qed

lemma ev_label_ok:
  assumes "calls_ok P call" and "e < length (exprs (gr P))" and "pos P p" and "m_ok P m"
    and "ev_label P call t kind e wraps lls p skd c m = Some (v, m')"
  shows "kept P m m' \<and> ev_post P True m p v m'"
proof -
  obtain x m1 r m2 where a: "at_pos P call c p skd m = Some (x, m1)" "call (Ev True t e x True c) m1 = Some (r, m2)"
      "(if r < 0 then (-1, m2)
        else if wraps then (r, relabel (length (stack m1)) kind m2)
        else if r > x \<or> length (stack m2) > length (stack m1)
          then (r, push_child (fst (lnode (Some kind) x r (length (stack m1)) lls m2)) (Some kind)
              (cut (length (stack m1)) (snd (lnode (Some kind) x r (length (stack m1)) lls m2))))
        else (r, m2)) = (v, m')"
    using assms(5) by (auto simp: ev_label_def bind_eq_Some_conv Let_def split: prod.splits if_splits)
  have x: "p \<le> x" "pos P x" "stack m1 = stack m" "kept P m m1" using at_pos_ok [OF assms(1,3,4) a(1)] by auto
  have k: "kept P m1 m2" "ev_post P True m1 x r m2" using call_ok [OF assms(1) a(2)] assms(2) x kept_ok [OF x(4)] by auto
  note km = kept_trans [OF x(4) k(1)]
  show ?thesis
  proof (cases "r < 0")
    case True
    then show ?thesis using a(3) k km x(3) by (auto simp: ev_post_def)
  next
    case False
    obtain new where new: "stack m2 = stack m @ new" "spans (nodes m2) x new r" "x \<le> r" "r \<le> in_len P"
      using k(2) False x(3) by (auto simp: ev_post_def)
    consider "wraps" | "\<not> wraps" "r > x \<or> length (stack m2) > length (stack m1)"
      | "\<not> wraps" "\<not> (r > x \<or> length (stack m2) > length (stack m1))" by blast
    then show ?thesis
    proof cases
      case 1
      define f where "f = (\<lambda>c :: child. if c_label c = None then c\<lparr>c_label := Some kind\<rparr> else c)"
      have "v = r" "stack m' = stack m @ map f new" "nodes m' = nodes m2" "kept P m m'"
        using a(3) False 1 new(1) x(3) km by (auto simp: relabel_def f_def)
      moreover have "spans (nodes m2) p (map f new) r"
        using spans_mono [OF new(2) x(1) order_refl] by (simp add: spans_map f_def)
      ultimately show ?thesis using new False x(1) by (auto simp: ev_post_def)
    next
      case 2
      obtain n m3 where l: "lnode (Some kind) x r (length (stack m1)) lls m2 = (n, m3)" by fastforce
      have mk: "made P m2 x r (n, m3)"
        unfolding l [symmetric] using new x kept_ok [OF k(1)] by (intro lnode_ok) (auto simp: pos_def)
      have "v = r" "m' = push_child n (Some kind) (cut (length (stack m1)) m3)" using a(3) False 2 l by auto
      then show ?thesis
        using made_kept [OF mk] made_span [OF mk x(1) new(3) order_refl] new x kept_trans [OF km] False
        by (auto simp: ev_post_def)
    next
      case 3
      then show ?thesis
        using a(3) False km ev_post_from [OF k(2) x(3,1)] by auto
    qed
  qed
qed

lemma x_in: "input_ok P \<Longrightarrow> e < length (exprs (gr P)) \<Longrightarrow> x_ok (gr P) e (exprs (gr P) ! e)"
  by (simp add: input_ok_def grammar_ok_def)

lemma test_end_ok:
  assumes "m_ok P m1" and "test_end t c x y ok d m1 = Some (v, m')" and "stack m1 = stack m" and "p \<le> x"
    and "ok \<Longrightarrow> x \<le> y \<and> pos P y"
  shows "kept P m1 m' \<and> ev_post P b m p v m'"
proof -
  have s: "same_arena m1 m'" "v = (if ok then y else -1)" using assms(2) by (auto simp: test_end_def split: if_splits)
  then show ?thesis
    using assms kept_same [OF s(1) assms(1)] same_stack [OF s(1)] by (cases ok) (auto intro: ev_post_none ev_post_fail)
qed

lemma has_next: "input_ok P \<Longrightarrow> pos P x \<Longrightarrow> has cls (code_at P x) \<Longrightarrow> x \<le> x + 1 \<and> pos P (x + 1)"
  using pos_next has_code by force

lemma guarded_sub: "set (guarded ch items gs) \<subseteq> set items"
  by (auto simp: guarded_def dest: set_zip_leftD)

lemma ev_sub:
  assumes "calls_ok P call" and "call (Ev b t i p skd c) m = Some (v, m')" and "i < length (exprs (gr P))"
    and "pos P p" and "m_ok P m"
  shows "kept P m m' \<and> ev_post P b m p v m'"
  using call_ok [OF assms(1,2)] assms(3-) by auto

lemma ev_ok:
  assumes "calls_ok P call" and "input_ok P" and "pre P (Ev b t e p skd c) m" and "m_ok P m"
    and "ev P call b t e p skd c m = Some (v, m')"
  shows "kept P m m' \<and> post P (Ev b t e p skd c) m v m'"
proof -
  have e: "e < length (exprs (gr P))" "pos P p" using assms(3) by auto
  have p0: "0 \<le> p" using e(2) by (simp add: pos_def)
  note x = x_in [OF assms(2) e(1)]
  note body = assms(5) [unfolded ev_def]
  note kp = kept_trans
  show ?thesis
  proof (cases "exprs (gr P) ! e")
    case XEmpty
    then show ?thesis using body assms(4) e(2) by (auto simp: kept_def ev_post_none)
  next
    case (XLit cs ci d)
    obtain q m1 where a: "at_pos P call c p skd m = Some (q, m1)"
        "test_end t c q (q + int (length cs)) (lit_at P q ci cs) d m1 = Some (v, m')"
      using body XLit by (auto simp: bind_eq_Some_conv)
    note k = at_pos_ok [OF assms(1) e(2) assms(4) a(1)]
    have "lit_at P q ci cs \<Longrightarrow> q \<le> q + int (length cs) \<and> pos P (q + int (length cs))"
      using lit_at_bounds [OF assms(2), of q cs ci] x XLit k by (auto simp: x_ok_def)
    from test_end_ok [OF _ a(2) _ _ this, of m p b] k show ?thesis using kp [of P m m1 m'] kept_ok by auto
  next
    case (XClass cls d)
    obtain q m1 where a: "at_pos P call c p skd m = Some (q, m1)"
        "test_end t c q (q + 1) (has cls (code_at P q)) d m1 = Some (v, m')"
      using body XClass by (auto simp: bind_eq_Some_conv)
    note k = at_pos_ok [OF assms(1) e(2) assms(4) a(1)]
    have "has cls (code_at P q) \<Longrightarrow> q \<le> q + 1 \<and> pos P (q + 1)" using has_next [OF assms(2)] k by blast
    from test_end_ok [OF _ a(2) _ _ this, of m p b] k show ?thesis using kp [of P m m1 m'] kept_ok by auto
  next
    case XAny
    obtain q m1 where a: "at_pos P call c p skd m = Some (q, m1)"
        "test_end t c q (q + 1) (code_at P q \<ge> 0) (any_desc (gr P)) m1 = Some (v, m')"
      using body XAny by (auto simp: bind_eq_Some_conv)
    note k = at_pos_ok [OF assms(1) e(2) assms(4) a(1)]
    have "code_at P q \<ge> 0 \<Longrightarrow> q \<le> q + 1 \<and> pos P (q + 1)" using pos_next [OF assms(2)] k by auto
    from test_end_ok [OF _ a(2) _ _ this, of m p b] k show ?thesis using kp [of P m m1 m'] kept_ok by auto
  next
    case (XRef r)
    obtain q m1 where a: "at_pos P call c p skd m = Some (q, m1)" "ev_ref P call b t r q c m1 = Some (v, m')"
      using body XRef by (auto simp: bind_eq_Some_conv)
    note k = at_pos_ok [OF assms(1) e(2) assms(4) a(1)]
    have "kept P m1 m' \<and> ev_post P b m1 q v m'"
      using ev_ref_ok [OF assms(1) _ _ _ a(2)] k x XRef kept_ok by (auto simp: x_ok_def)
    then show ?thesis using k kp [of P m m1 m'] ev_post_from by auto
  next
    case (XSeq items)
    obtain q m1 where a: "seq_items call b t items p skd c m = Some (q, m1)" "v = q"
        "m' = (if q < 0 \<and> b then cut (length (stack m)) m1 else m1)"
      using body XSeq by (auto simp: bind_eq_Some_conv Let_def)
    have "\<forall>i \<in> set items. i < length (exprs (gr P))" using x e(1) XSeq by (auto simp: x_ok_def)
    from seq_items_ok [OF assms(1) this e(2) assms(4) a(1)] show ?thesis
      using a by (auto simp: ev_post_def split: if_splits)
  next
    case (XAlt items guards)
    have i: "\<forall>i \<in> set items. i < length (exprs (gr P))" using x e(1) XAlt by (auto simp: x_ok_def)
    show ?thesis
    proof (cases "\<not> t \<and> guards \<noteq> None")
      case True
      obtain gs q m1 where a: "at_pos P call c p skd m = Some (q, m1)"
          "alt_items call b t (guarded (code_at P q) items gs) q True c m1 = Some (v, m')"
        using body XAlt True by (auto simp: bind_eq_Some_conv)
      note k = at_pos_ok [OF assms(1) e(2) assms(4) a(1)]
      have "kept P m1 m' \<and> ev_post P b m1 q v m'"
        using alt_items_ok [OF assms(1) _ _ _ a(2)] i guarded_sub [of _ items gs] k kept_ok by blast
      then show ?thesis using k kp [of P m m1 m'] ev_post_from by auto
    next
      case False
      then have "alt_items call b t items p skd c m = Some (v, m')"
        using body XAlt by (auto split: bool.splits option.splits)
      from alt_items_ok [OF assms(1) i e(2) assms(4) this] show ?thesis by simp
    qed
  next
    case (XStar i)
    then have "call (Star b t i p c) m = Some (v, m')" using body by simp
    from call_ok [OF assms(1) this] show ?thesis using x e assms(4) XStar by (auto simp: x_ok_def)
  next
    case (XStarClass cls d)
    have "v = run_class P cls p" "same_arena m m'"
      using body XStarClass by (auto simp: Let_def)
    then show ?thesis
      using run_class_bounds [OF assms(2) e(2), of cls] kept_same [OF _ assms(4)] same_stack by (auto intro: ev_post_none)
  next
    case (XStarLead lead rest general)
    show ?thesis
    proof (cases t)
      case True
      then have "call (Star b t general p c) m = Some (v, m')" using body XStarLead by simp
      from call_ok [OF assms(1) this] show ?thesis using x e assms(4) XStarLead by (auto simp: x_ok_def)
    next
      case False
      then have "call (Lead b t lead rest p c) m = Some (v, m')" using body XStarLead by simp
      from call_ok [OF assms(1) this] show ?thesis using x e assms(4) XStarLead by (auto simp: x_ok_def)
    qed
  next
    case (XPlus i)
    obtain f m1 where a: "call (Ev b t i p skd c) m = Some (f, m1)"
        "(if f < 0 then Some (-1, m1) else call (Star b t i f c) m1) = Some (v, m')"
      using body XPlus by (auto simp: bind_eq_Some_conv)
    have i: "i < length (exprs (gr P))" using x e(1) XPlus by (auto simp: x_ok_def)
    have k: "kept P m m1" "ev_post P b m p f m1" using ev_sub [OF assms(1) a(1) i e(2) assms(4)] by auto
    show ?thesis
    proof (cases "f < 0")
      case False
      then have c2: "call (Star b t i f c) m1 = Some (v, m')" "pos P f" "0 \<le> f" using a(2) ev_pos [OF k(2) _ e(2)] by auto
      have "kept P m1 m'" "0 \<le> v" "ev_post P b m1 f v m'"
        using call_ok [OF assms(1) c2(1)] i c2(2) kept_ok [OF k(1)] by auto
      then show ?thesis using ev_post_seq [OF k(2) c2(3)] kp [OF k(1)] by auto
    qed (use k a in \<open>auto simp: ev_post_def\<close>)
  next
    case (XOpt i)
    obtain f m1 where a: "call (Ev b t i p skd c) m = Some (f, m1)" "v = (if f \<ge> 0 then f else p)" "m' = m1"
      using body XOpt by (auto simp: bind_eq_Some_conv)
    have i: "i < length (exprs (gr P))" using x e(1) XOpt by (auto simp: x_ok_def)
    have k: "kept P m m1" "ev_post P b m p f m1" using ev_sub [OF assms(1) a(1) i e(2) assms(4)] by auto
    then show ?thesis using a e(2) by (auto simp: ev_post_def pos_def split: if_splits)
  next
    case (XAnd i)
    obtain f m1 where a: "call (Ev False False i p skd c) m = Some (f, m1)" "v = (if f \<ge> 0 then p else -1)" "m' = m1"
      using body XAnd by (auto simp: bind_eq_Some_conv)
    have i: "i < length (exprs (gr P))" using x e(1) XAnd by (auto simp: x_ok_def)
    have k: "kept P m m1" "stack m1 = stack m" using ev_sub [OF assms(1) a(1) i e(2) assms(4)] ev_false [of P m p f m1] by auto
    then show ?thesis using a e(2) by (auto intro: ev_post_none ev_post_fail)
  next
    case (XNot i any)
    obtain f m1 where a: "call (Ev False False i p skd c) m = Some (f, m1)"
        "(if f \<ge> 0 then
            (if t \<and> any then
               do { (x, m) \<leftarrow> at_pos P call c p skd m1; Some (-1, fail_at x (end_desc (gr P)) m) }
             else Some (-1, m1))
          else Some (p, m1)) = Some (v, m')"
      using body XNot by (auto simp: bind_eq_Some_conv)
    have i: "i < length (exprs (gr P))" using x e(1) XNot by (auto simp: x_ok_def)
    have k: "kept P m m1" "stack m1 = stack m" using ev_sub [OF assms(1) a(1) i e(2) assms(4)] ev_false [of P m p f m1] by auto
    show ?thesis
    proof (cases "f \<ge> 0 \<and> t \<and> any")
      case True
      then obtain q m2 where n: "at_pos P call c p skd m1 = Some (q, m2)" "v = -1" "m' = fail_at q (end_desc (gr P)) m2"
        using a(2) by (auto simp: bind_eq_Some_conv)
      note k2 = at_pos_ok [OF assms(1) e(2) kept_ok [OF k(1)] n(1)]
      have s: "same_arena m2 m'" using n(3) by simp
      have "kept P m m'" using kp [OF kp [OF k(1)] kept_same [OF s]] k2 kept_ok by blast
      then show ?thesis using n(2) same_stack [OF s] k2 k(2) by (auto intro: ev_post_fail)
    next
      case False
      then show ?thesis using a(2) k e(2) by (auto intro: ev_post_none ev_post_fail split: if_splits)
    qed
  next
    case (XLabel kind i wraps lls)
    have i: "i < length (exprs (gr P))" using x e(1) XLabel by (auto simp: x_ok_def)
    show ?thesis
    proof (cases b)
      case True
      then have "ev_label P call t kind i wraps lls p skd c m = Some (v, m')" using body XLabel by simp
      from ev_label_ok [OF assms(1) i e(2) assms(4) this] show ?thesis using True by simp
    next
      case False
      then have "call (Ev b t i p skd c) m = Some (v, m')" using body XLabel by simp
      from ev_sub [OF assms(1) this i e(2) assms(4)] show ?thesis by simp
    qed
  next
    case (XPrec pi)
    have i: "pi < length (precs (gr P))" using x XPrec by (auto simp: x_ok_def)
    obtain q m1 where a: "at_pos P call c p skd m = Some (q, m1)"
        "(if b then do { (n, m) \<leftarrow> call (PrecB pi q 0 c) m1;
             if n < 0 then Some (-1, m) else Some (end_of m n, push_child (nat n) None m) }
          else call (PrecK t pi q 0 c) m1) = Some (v, m')"
      using body XPrec by (auto simp: bind_eq_Some_conv)
    note k = at_pos_ok [OF assms(1) e(2) assms(4) a(1)]
    show ?thesis
    proof (cases b)
      case False
      then have c2: "call (PrecK t pi q 0 c) m1 = Some (v, m')" using a(2) by simp
      from call_ok [OF assms(1) c2] have "kept P m1 m' \<and> ends P q v \<and> stack m' = stack m1" using i k kept_ok by auto
      then show ?thesis using k kp [of P m m1 m'] False by (auto simp: ev_post_def ends_def pos_def)
    next
      case True
      obtain n m2 where c2: "call (PrecB pi q 0 c) m1 = Some (n, m2)"
          "(if n < 0 then (-1, m2) else (end_of m2 n, push_child (nat n) None m2)) = (v, m')"
        using a(2) True by (auto simp: bind_eq_Some_conv split: if_splits)
      have k2: "kept P m1 m2" "node_ans (nodes m2) q n" "stack m2 = stack m1"
        using call_ok [OF assms(1) c2(1)] i k kept_ok by auto
      show ?thesis
      proof (cases "n < 0")
        case False
        then have n: "nat n < length (nodes m2)" "q \<le> n_start (nodes m2 ! nat n)"
            "n_start (nodes m2 ! nat n) \<le> n_end (nodes m2 ! nat n)"
          using k2(2) by (auto simp: node_ans_def)
        note nk = node_kids [OF kept_ok [OF k2(1)] n(1)]
        have "spans (nodes m2) p [\<lparr>c_node = nat n, c_label = None\<rparr>] (n_end (nodes m2 ! nat n))"
          using n k by auto
        then show ?thesis
          using c2(2) False n nk k k2 True kp [of P m m1 m2] by (auto simp: ev_post_def end_of_def)
      qed (use c2(2) k k2 kp [of P m m1 m2] in \<open>auto simp: ev_post_def\<close>)
    qed
  qed
qed

section \<open>Tables keep it\<close>

lemma ops_in: "o' \<in> set (ops_with f pr) \<Longrightarrow> o' \<in> set (pr_ops pr)"
  by (simp add: ops_with_def)

lemma prec_in: "input_ok P \<Longrightarrow> t < length (precs (gr P)) \<Longrightarrow>
    pr_atom (precs (gr P) ! t) < length (exprs (gr P)) \<and>
    (\<forall>o' \<in> set (pr_ops (precs (gr P) ! t)). po_e o' < length (exprs (gr P)))"
  by (auto simp: input_ok_def grammar_ok_def)

lemma op_ok:
  assumes "calls_ok P call" and "call (Ev False t e x True c) m = Some (v, m')" and "e < length (exprs (gr P))"
    and "pos P x" and "m_ok P m"
  shows "kept P m m' \<and> stack m' = stack m \<and> (0 \<le> v \<longrightarrow> pos P v \<and> x \<le> v)"
  using ev_sub [OF assms] ev_false [of P m x v m'] ev_pos [of P False m x v m'] assms(4) by auto

lemma prefix_scan_ok:
  assumes "calls_ok P call" and "\<forall>o' \<in> set os. po_e o' < length (exprs (gr P))" and "pos P p" and "m_ok P m"
    and "prefix_scan call t p c os m = Some ((pl, pe), m')"
  shows "kept P m m' \<and> stack m' = stack m \<and> (0 \<le> pl \<longrightarrow> pos P pe \<and> p \<le> pe)"
  using assms(2,4,5)
proof (induction os arbitrary: m)
  case Nil
  then show ?case by (auto simp: kept_def)
next
  case (Cons o' os)
  obtain r m1 where r: "call (Ev False t (po_e o') p True c) m = Some (r, m1)"
      "(if r \<ge> 0 then Some ((int (po_lev o'), r), m1) else prefix_scan call t p c os m1) = Some ((pl, pe), m')"
    using Cons.prems(3) by (auto simp: bind_eq_Some_conv)
  have k: "kept P m m1" "stack m1 = stack m" "0 \<le> r \<longrightarrow> pos P r \<and> p \<le> r"
    using op_ok [OF assms(1) r(1)] assms(3) Cons.prems by auto
  show ?case
  proof (cases "r \<ge> 0")
    case False
    then show ?thesis using Cons.IH [of m1] Cons.prems r(2) k kept_ok [OF k(1)] kept_trans [OF k(1)] by auto
  qed (use k r in auto)
qed

lemma postfix_scan_ok:
  assumes "calls_ok P call" and "\<forall>o' \<in> set os. po_e o' < length (exprs (gr P))" and "pos P x" and "m_ok P m"
    and "postfix_scan call t ml x c os m = Some (found, m')"
  shows "kept P m m' \<and> stack m' = stack m \<and> (\<forall>r. found = Some r \<longrightarrow> pos P r \<and> x \<le> r)"
  using assms(2,4,5)
proof (induction os arbitrary: m)
  case Nil
  then show ?case by (auto simp: kept_def)
next
  case (Cons o' os)
  show ?case
  proof (cases "ml \<le> po_lev o'")
    case False
    then show ?thesis using Cons by auto
  next
    case True
    obtain r m1 where r: "call (Ev False t (po_e o') x True c) m = Some (r, m1)"
        "(if r \<ge> 0 then Some (Some r, m1) else postfix_scan call t ml x c os m1) = Some (found, m')"
      using Cons.prems(3) True by (auto simp: bind_eq_Some_conv)
    have k: "kept P m m1" "stack m1 = stack m" "0 \<le> r \<longrightarrow> pos P r \<and> x \<le> r"
      using op_ok [OF assms(1) r(1)] assms(3) Cons.prems by auto
    show ?thesis
    proof (cases "r \<ge> 0")
      case False
      then show ?thesis using Cons.IH [of m1] Cons.prems r(2) k kept_ok [OF k(1)] kept_trans [OF k(1)] by auto
    qed (use k r in auto)
  qed
qed

text \<open>What an operand answers, in either family: \<open>good\<close> is its task's promise.\<close>

lemma infix_scan_ok:
  assumes "calls_ok P call" and "\<forall>o' \<in> set os. po_e o' < length (exprs (gr P))" and "pos P x" and "m_ok P m"
    and "infix_scan P call t operand ml x c os m = Some (found, m')"
    and "\<And>from1 lev m v m'. pos P from1 \<Longrightarrow> m_ok P m \<Longrightarrow> call (operand from1 lev) m = Some (v, m') \<Longrightarrow>
        kept P m m' \<and> stack m' = stack m \<and> good from1 v m'"
  shows "kept P m m' \<and> stack m' = stack m \<and>
    (\<forall>r v. found = Some (r, v) \<longrightarrow> pos P r \<and> x \<le> r \<and> 0 \<le> v \<and> (\<exists>from1. r \<le> from1 \<and> pos P from1 \<and> good from1 v m'))"
  using assms(2,4,5)
proof (induction os arbitrary: m)
  case Nil
  then show ?case by (auto simp: kept_def)
next
  case (Cons o' os)
  show ?case
  proof (cases "ml \<le> po_lev o'")
    case False
    then show ?thesis using Cons by auto
  next
    case True
    obtain r m1 where r: "call (Ev False t (po_e o') x True c) m = Some (r, m1)"
        "(if r \<ge> 0 then
            do {
              (from1, m) \<leftarrow> sk P call c r m1;
              (v, m) \<leftarrow> call (operand from1 (next_level o')) m;
              if v \<ge> 0 then Some (Some (r, v), m) else infix_scan P call t operand ml x c os m
            }
          else infix_scan P call t operand ml x c os m1) = Some (found, m')"
      using Cons.prems(3) True by (auto simp: bind_eq_Some_conv)
    have k: "kept P m m1" "stack m1 = stack m" "0 \<le> r \<longrightarrow> pos P r \<and> x \<le> r"
      using op_ok [OF assms(1) r(1)] assms(3) Cons.prems by auto
    show ?thesis
    proof (cases "r \<ge> 0")
      case False
      then show ?thesis using Cons.IH [of m1] Cons.prems r(2) k kept_ok [OF k(1)] kept_trans [OF k(1)] by auto
    next
      case True
      then obtain f m2 v m3 where s: "sk P call c r m1 = Some (f, m2)" "call (operand f (next_level o')) m2 = Some (v, m3)"
          "(if v \<ge> 0 then Some (Some (r, v), m3) else infix_scan P call t operand ml x c os m3) = Some (found, m')"
        using r(2) by (auto simp: bind_eq_Some_conv)
      have k2: "r \<le> f" "pos P f" "stack m2 = stack m1" "kept P m1 m2"
        using sk_ok [OF assms(1) _ _ s(1)] k True kept_ok by auto
      have k3: "kept P m2 m3" "stack m3 = stack m2" "good f v m3"
        using assms(6) [OF k2(2) kept_ok [OF k2(4)] s(2)] by auto
      note km = kept_trans [OF kept_trans [OF k(1) k2(4)] k3(1)]
      show ?thesis
      proof (cases "v \<ge> 0")
        case True
        then show ?thesis using s(3) km k k2 k3 \<open>r \<ge> 0\<close> by auto
      next
        case False
        then show ?thesis using Cons.IH [of m3] Cons.prems s(3) km k k2 k3 kept_ok [OF km] kept_trans [OF km] by auto
      qed
    qed
  qed
qed

lemma grp_ok:
  assumes "m_ok P m" and "base \<le> length (stack m)" and "0 \<le> p" and "spans (nodes m) p (drop base (stack m)) q"
    and "q \<le> in_len P" and "grp base kind p m = (a, m')"
  shows "kept P m m' \<and> stack m' = stack m \<and> spans (nodes m') p [a] q"
proof (cases "length (stack m) - base = 1")
  case True
  then have "drop base (stack m) = [stack m ! base]"
    using assms(2) by (metis Cons_nth_drop_Suc One_nat_def drop_all le_refl length_drop length_greater_0_conv
        length_tl list.sel(3) zero_less_diff zero_less_one diff_self_eq_0 length_0_conv)
  then show ?thesis using True assms by (auto simp: grp_def kept_def)
next
  case False
  define e where "e = (if length (stack m) = base then p else end_of m (int (c_node (last (stack m)))))"
  have g: "make_node kind p e base ExNone m = (c_node a, m')" "a = \<lparr>c_node = c_node a, c_label = None\<rparr>"
    using assms(6) False by (auto simp: grp_def e_def Let_def split: prod.splits)
  have pq: "p \<le> q" using spans_le [OF assms(4)] .
  have e: "spans (nodes m) p (drop base (stack m)) e" "e \<le> q"
  proof (atomize (full), cases "length (stack m) = base")
    case True
    then show "spans (nodes m) p (drop base (stack m)) e \<and> e \<le> q" using pq by (simp add: e_def)
  next
    case False
    then have ne: "drop base (stack m) \<noteq> []" "last (drop base (stack m)) = last (stack m)" using assms(2) by auto
    then show "spans (nodes m) p (drop base (stack m)) e \<and> e \<le> q"
      using spans_last [OF assms(4) ne(1)] spans_last_le [OF assms(4) ne(1)] False by (simp add: e_def end_of_def)
  qed
  have mk: "made P m p e (c_node a, m')"
    unfolding g(1) [symmetric] using assms e by (intro make_node_ok) auto
  show ?thesis
    using made_kept [OF mk] made_span [OF mk order_refl spans_le [OF e(1)] e(2)] g(2) by metis
qed

lemma node_span:
  assumes "node_ans nds p v" and "0 \<le> v"
  shows "spans nds p [\<lparr>c_node = nat v, c_label = l\<rparr>] (n_end (nds ! nat v))" and "p \<le> n_end (nds ! nat v)"
  using assms by (auto simp: node_ans_def)

lemma prec_head_b_ok:
  assumes "calls_ok P call" and "input_ok P" and "t < length (precs (gr P))" and "pos P p" and "m_ok P m"
    and "prec_head_b P call t p c m = Some (q, m')"
  shows "kept P m m' \<and> ev_post P True m p q m'"
proof -
  define pr where "pr = precs (gr P) ! t"
  note pin = prec_in [OF assms(2,3), folded pr_def]
  obtain pl pe m1 where s: "prefix_scan call False p c (ops_with (\<lambda>f. f = Prefix) pr) m = Some ((pl, pe), m1)"
    using assms(6) by (auto simp: prec_head_b_def Let_def bind_eq_Some_conv pr_def)
  have k: "kept P m m1" "stack m1 = stack m" "0 \<le> pl \<longrightarrow> pos P pe \<and> p \<le> pe"
    using prefix_scan_ok [OF assms(1) _ assms(4,5) s] pin ops_in by blast+
  show ?thesis
  proof (cases "pl \<ge> 0")
    case False
    then have c: "call (Ev True False (pr_atom pr) p True c) m1 = Some (q, m')"
      using assms(6) s by (simp add: prec_head_b_def Let_def pr_def)
    show ?thesis
      using ev_sub [OF assms(1) c _ assms(4) kept_ok [OF k(1)]] pin k kept_trans [OF k(1)] ev_post_from by blast
  next
    case True
    then obtain f m2 v m3 where c: "sk P call c pe m1 = Some (f, m2)" "call (PrecB t f (nat pl) c) m2 = Some (v, m3)"
      using assms(6) s by (auto simp: prec_head_b_def Let_def pr_def bind_eq_Some_conv)
    have k2: "pe \<le> f" "pos P f" "stack m2 = stack m1" "kept P m1 m2"
      using sk_ok [OF assms(1) _ kept_ok [OF k(1)] c(1)] k True by auto
    have k3: "kept P m2 m3" "node_ans (nodes m3) f v" "stack m3 = stack m2"
      using call_ok [OF assms(1) c(2)] assms(3) k2 kept_ok by auto
    note km = kept_trans [OF kept_trans [OF k(1) k2(4)] k3(1)]
    show ?thesis
    proof (cases "v \<ge> 0")
      case False
      then have "q = -1" "m' = m3" using assms(6) s c True by (auto simp: prec_head_b_def Let_def pr_def)
      then show ?thesis using km k k2 k3 by (auto intro: ev_post_fail)
    next
      case v: True
      define oe where "oe = end_of m3 v"
      define m4 where "m4 = push_child (nat v) None m3"
      obtain n m5 where mk: "make_node (pr_kind pr) p oe (length (stack m4) - 1) (ExPrec p pe Prefix) m4 = (n, m5)" by fastforce
      have r: "q = oe" "m' = push_child n None (m5\<lparr>stack := butlast (stack m5)\<rparr>)"
        using assms(6) s c True v mk
        by (auto simp: prec_head_b_def Let_def pr_def oe_def m4_def split: prod.splits)
      note sp = node_span [OF k3(2) v, folded end_of_def, folded oe_def]
      have st4: "stack m4 = stack m @ [\<lparr>c_node = nat v, c_label = None\<rparr>]" "nodes m4 = nodes m3" "kept P m m4"
        using k k2 k3 km by (simp_all add: m4_def)
      have le: "p \<le> pe" "pe \<le> oe" using k True k2 sp by auto
      have "nat v < length (nodes m3)" using k3(2) v by (auto simp: node_ans_def)
      then have oen: "oe \<le> in_len P" using node_kids(3) [OF kept_ok [OF km]] by (simp add: oe_def end_of_def)
      have "made P m4 p oe (n, m5)"
        unfolding mk [symmetric] using kept_ok [OF st4(3)] assms(4) oen sp k k2 True st4 le spans_mono [OF sp(1), of p oe]
        by (intro make_node_ok) (auto simp: pos_def)
      from made_kept [OF this] made_span [OF this order_refl _ order_refl] show ?thesis
        using r st4 kept_trans [OF st4(3)] le oen assms(4) by (auto simp: ev_post_def pos_def)
    qed
  qed
qed

lemma tail_b_ok:
  assumes "calls_ok P call" and "input_ok P" and "pre P (TailB t p ml c base q) m" and "m_ok P m"
    and "tail_b_body P call t p ml c base q m = Some (v, m')"
  shows "kept P m m' \<and> post P (TailB t p ml c base q) m v m'"
proof -
  define pr where "pr = precs (gr P) ! t"
  have a: "t < length (precs (gr P))" "pos P p" "pos P q" "base \<le> length (stack m)" "spans (nodes m) p (drop base (stack m)) q"
    using assms(3) by auto
  note pin = prec_in [OF assms(2) a(1), folded pr_def]
  note body = assms(5) [unfolded tail_b_body_def Let_def, folded pr_def]
  obtain x m1 where s: "sk P call c q m = Some (x, m1)" using body by (auto simp: bind_eq_Some_conv)
  have k1: "q \<le> x" "pos P x" "stack m1 = stack m" "kept P m m1" using sk_ok [OF assms(1) a(3) assms(4) s] by auto
  obtain post' m2 where s2: "postfix_scan call False ml x c (ops_with (\<lambda>f. f = Postfix) pr) m1 = Some (post', m2)"
    using body s by (auto simp: bind_eq_Some_conv)
  have k2: "kept P m1 m2" "stack m2 = stack m1" "\<forall>r. post' = Some r \<longrightarrow> pos P r \<and> x \<le> r"
    using postfix_scan_ok [OF assms(1) _ k1(2) kept_ok [OF k1(4)] s2] pin ops_in by blast+
  note km2 = kept_trans [OF k1(4) k2(1)]
  have sp2: "spans (nodes m2) p (drop base (stack m2)) q"
    using grows_spans [OF kept_grows [OF km2] a(5)] k1 k2 by simp
  show ?thesis
  proof (cases post')
    case (Some r)
    obtain d m3 where g: "grp base (pr_kind pr) p m2 = (d, m3)" by fastforce
    define m4 where "m4 = (cut base m3)\<lparr>stack := take base (stack m3) @ [d]\<rparr>"
    obtain n m5 where mk: "make_node (pr_kind pr) p r base (ExPrec x r Postfix) m4 = (n, m5)" by fastforce
    have c: "call (TailB t p ml c base r) (push_child n None (cut base m5)) = Some (v, m')"
      using body s s2 Some g mk by (simp add: m4_def)
    have k3: "kept P m2 m3" "stack m3 = stack m2" "spans (nodes m3) p [d] q"
      using grp_ok [OF kept_ok [OF km2] _ _ sp2 _ g] a k1 k2 by (auto simp: pos_def)
    have st4: "stack m4 = take base (stack m) @ [d]" "nodes m4 = nodes m3" "kept P m m4"
      using k3 k2 k1 kept_trans [OF km2 k3(1)] by (simp_all add: m4_def)
    have "made P m4 p r (n, m5)"
      unfolding mk [symmetric] using kept_ok [OF st4(3)] a k1 k2(3) Some st4 spans_mono [OF k3(3) order_refl, of r] spans_le [OF k3(3)]
      by (intro make_node_ok) (auto simp: pos_def min_def)
    note mk5 = made_kept [OF this] made_span [OF this order_refl _ order_refl, of None]
    have r: "pos P r" "q \<le> r" "p \<le> r" using k2(3) Some k1 spans_le [OF k3(3)] by auto
    have "kept P m (push_child n None (cut base m5))" using kept_trans [OF st4(3)] mk5 by simp
    moreover have "pre P (TailB t p ml c base r) (push_child n None (cut base m5))"
      using a mk5 st4 r by (auto simp: min_def)
    ultimately have res: "kept P m m'" "post P (TailB t p ml c base r) (push_child n None (cut base m5)) v m'"
      using call_ok [OF assms(1) c] kept_ok kept_trans by blast+
    have "take base (stack (push_child n None (cut base m5))) = take base (stack m)"
      using mk5 st4 a(4) by simp
    then show ?thesis using res r by simp
  next
    case None
    obtain inf m3 where s3: "infix_scan P call False (\<lambda>from1 lev. PrecB t from1 lev c) ml x c (ops_with is_infix pr) m2 = Some (inf, m3)"
      using body s s2 None by (auto simp: bind_eq_Some_conv)
    have k3: "kept P m2 m3" "stack m3 = stack m2"
        "\<forall>r v. inf = Some (r, v) \<longrightarrow> pos P r \<and> x \<le> r \<and> 0 \<le> v \<and> (\<exists>f. r \<le> f \<and> pos P f \<and> node_ans (nodes m3) f v)"
      using infix_scan_ok [OF assms(1) _ k1(2) kept_ok [OF km2] s3, of "\<lambda>f v m'. node_ans (nodes m') f v"] pin ops_in
        call_ok [OF assms(1)] a(1) by fastforce+
    note km3 = kept_trans [OF km2 k3(1)]
    have sp3: "spans (nodes m3) p (drop base (stack m3)) q" using grows_spans [OF kept_grows [OF k3(1)] sp2] k3(2) by simp
    show ?thesis
    proof (cases inf)
      case None
      then have "v = q" "m' = m3" using body s s2 s3 \<open>post' = None\<close> by auto
      then show ?thesis using km3 sp3 a k1 k2 k3 by (auto simp: pos_def)
    next
      case (Some rv)
      obtain r w where rv: "inf = Some (r, w)" using Some by (cases rv) auto
      define oe where "oe = end_of m3 w"
      obtain f where f: "pos P r" "x \<le> r" "0 \<le> w" "r \<le> f" "node_ans (nodes m3) f w" using k3(3) rv by blast
      obtain d m4 where g: "grp base (pr_kind pr) p m3 = (d, m4)" by fastforce
      define m5 where "m5 = (cut base m4)\<lparr>stack := take base (stack m4) @ [d, \<lparr>c_node = nat w, c_label = None\<rparr>]\<rparr>"
      obtain n m6 where mk: "make_node (pr_kind pr) p oe base (ExPrec x r InfixL) m5 = (n, m6)" by fastforce
      have c: "call (TailB t p ml c base oe) (push_child n None (cut base m6)) = Some (v, m')"
        using body s s2 s3 \<open>post' = None\<close> rv g mk by (simp add: m5_def oe_def)
      have k4: "kept P m3 m4" "stack m4 = stack m3" "spans (nodes m4) p [d] q"
        using grp_ok [OF kept_ok [OF km3] _ _ sp3 _ g] a k1 k2 k3 by (auto simp: pos_def)
      have st5: "stack m5 = take base (stack m) @ [d, \<lparr>c_node = nat w, c_label = None\<rparr>]" "nodes m5 = nodes m4" "kept P m m5"
        using k4 k3 k2 k1 kept_trans [OF km3 k4(1)] by (simp_all add: m5_def)
      have w: "nat w < length (nodes m3)" using f by (auto simp: node_ans_def)
      have wn: "nodes m4 ! nat w = nodes m3 ! nat w" using grows_node [OF kept_grows [OF k4(1)] w] by simp
      have oe: "f \<le> oe" "oe \<le> in_len P" "spans (nodes m4) f [\<lparr>c_node = nat w, c_label = None\<rparr>] oe"
        using node_span(2) [OF f(5,3)] node_kids(3) [OF kept_ok [OF km3] w] f(3)
          node_span(1) [OF grows_ans [OF kept_grows [OF k4(1)] f(5)] f(3)] wn
        by (auto simp: oe_def end_of_def)
      have le: "q \<le> f" "p \<le> q" "r \<le> oe" "p \<le> x" using k1 f oe spans_le [OF k4(3)] by auto
      have "spans (nodes m4) p ([d] @ [\<lparr>c_node = nat w, c_label = None\<rparr>]) oe"
        using spans_append [OF spans_mono [OF k4(3) order_refl le(1)] oe(3)] .
      then have "made P m5 p oe (n, m6)"
        unfolding mk [symmetric] using kept_ok [OF st5(3)] a st5 oe le f
        by (intro make_node_ok) (auto simp: pos_def min_def)
      note mk6 = made_kept [OF this] made_span [OF this order_refl _ order_refl, of None]
      have r: "pos P oe" "q \<le> oe" "p \<le> oe" using oe le a by (auto simp: pos_def)
      have "kept P m (push_child n None (cut base m6))" using kept_trans [OF st5(3)] mk6 by simp
      moreover have "pre P (TailB t p ml c base oe) (push_child n None (cut base m6))"
        using a mk6 st5 r by (auto simp: min_def)
      ultimately have res: "kept P m m'" "post P (TailB t p ml c base oe) (push_child n None (cut base m6)) v m'"
        using call_ok [OF assms(1) c] kept_ok kept_trans by blast+
      have "take base (stack (push_child n None (cut base m6))) = take base (stack m)"
        using mk6 st5 a(4) by simp
      then show ?thesis using res r by simp
    qed
  qed
qed

lemma prec_b_ok:
  assumes "calls_ok P call" and "input_ok P" and "pre P (PrecB t p ml c) m" and "m_ok P m"
    and "prec_b P call t p ml c m = Some (v, m')"
  shows "kept P m m' \<and> post P (PrecB t p ml c) m v m'"
proof -
  define kind where "kind = pr_kind (precs (gr P) ! t)"
  define rest where "rest = (\<lambda>m. let base = length (stack m)
      in do {
           (q, m) \<leftarrow> prec_head_b P call t p c m;
           (q, m) \<leftarrow> (if q \<ge> 0 then call (TailB t p ml c base q) m else Some (q, m));
           let (out, m) = (if q < 0 then (-1, m) else (let (a, m) = grp base kind p m in (int (c_node a), m)));
           Some (out, leave (cut base m))
         })"
  have a: "t < length (precs (gr P))" "pos P p" "0 \<le> p" using assms(3) by (auto simp: pos_def)
  obtain m1 where m1: "kept P m m1" "stack m1 = stack m" "v = -1 \<and> m' = leave m1 \<or> rest m1 = Some (v, m')"
    using enter_cases [OF assms(5) [unfolded prec_b_def, folded kind_def] assms(4)] by (metis rest_def)
  from m1(3) show ?thesis
  proof
    assume "v = -1 \<and> m' = leave m1"
    then show ?thesis using m1 enter_leave [of P m1] kept_trans by (auto simp: kept_def node_ans_def)
  next
    define base where "base = length (stack m1)"
    assume "rest m1 = Some (v, m')"
    then obtain q m2 q' m3 where s: "prec_head_b P call t p c m1 = Some (q, m2)"
        "(if q \<ge> 0 then call (TailB t p ml c base q) m2 else Some (q, m2)) = Some (q', m3)"
        "(if q' < 0 then (-1, leave (cut base m3))
          else (int (c_node (fst (grp base kind p m3))), leave (cut base (snd (grp base kind p m3))))) = (v, m')"
      by (auto simp: rest_def Let_def bind_eq_Some_conv base_def split: prod.splits if_splits)
    have k: "kept P m1 m2" "ev_post P True m1 p q m2" using prec_head_b_ok [OF assms(1,2) a(1,2) kept_ok [OF m1(1)] s(1)] by auto
    note km = kept_trans [OF m1(1) k(1)]
    show ?thesis
    proof (cases "q \<ge> 0")
      case False
      then have "v = -1" "m' = leave (cut base m2)" "stack (cut base m2) = stack m"
        using s(2,3) k(2) m1(2) by (auto simp: ev_post_def base_def split: if_splits)
      moreover have "kept P m2 (leave (cut base m2))" using enter_leave(2) [OF kept_ok [of P m "cut base m2"]] km by simp
      ultimately show ?thesis
        using enter_leave(4) [OF kept_ok [of P m "cut base m2"]] km kept_trans [OF km] by (auto simp: node_ans_def)
    next
      case True
      then obtain new where new: "stack m2 = stack m1 @ new" "spans (nodes m2) p new q" "pos P q" "p \<le> q"
        using k(2) a by (auto simp: ev_post_def pos_def)
      have pr: "pre P (TailB t p ml c base q) m2" using a new by (simp add: base_def)
      have c2: "call (TailB t p ml c base q) m2 = Some (q', m3)" using s(2) True by simp
      have k3: "kept P m2 m3" "q \<le> q'" "q' \<le> in_len P" "base \<le> length (stack m3)" "take base (stack m3) = stack m1"
          "spans (nodes m3) p (drop base (stack m3)) q'"
        using call_ok [OF assms(1) c2 pr kept_ok [OF k(1)]] new by (auto simp: base_def)
      obtain d m4 where g: "grp base kind p m3 = (d, m4)" by fastforce
      have k4: "kept P m3 m4" "stack m4 = stack m3" "spans (nodes m4) p [d] q'"
        using grp_ok [OF kept_ok [OF k3(1)] k3(4) a(3) k3(6,3) g] by auto
      have v: "v = int (c_node d)" "m' = leave (cut base m4)" using s(3) k3(2) new a g by auto
      have km4: "kept P m m4" using kept_trans [OF kept_trans [OF km k3(1)] k4(1)] .
      then have l: "kept P m4 (leave (cut base m4))" using enter_leave(2) [OF kept_ok [of P m "cut base m4"]] by simp
      have "node_ans (nodes m4) p v" using k4(3) v by (auto simp: node_ans_def)
      then show ?thesis
        using v enter_leave(4,5) [OF kept_ok [of P m "cut base m4"]] km4 kept_trans [OF km4 l] k4 k3(5) m1(2) by auto
    qed
  qed
qed

lemma tail_k_ok:
  assumes "calls_ok P call" and "input_ok P" and "pre P (TailK tr t ml c q) m" and "m_ok P m"
    and "tail_k_body P call tr t ml c q m = Some (v, m')"
  shows "kept P m m' \<and> post P (TailK tr t ml c q) m v m'"
proof -
  define pr where "pr = precs (gr P) ! t"
  have a: "t < length (precs (gr P))" "pos P q" using assms(3) by auto
  note pin = prec_in [OF assms(2) a(1), folded pr_def]
  note body = assms(5) [unfolded tail_k_body_def Let_def, folded pr_def]
  obtain x m1 where s: "sk P call c q m = Some (x, m1)" using body by (auto simp: bind_eq_Some_conv)
  have k1: "q \<le> x" "pos P x" "stack m1 = stack m" "kept P m m1" using sk_ok [OF assms(1) a(2) assms(4) s] by auto
  obtain post' m2 where s2: "postfix_scan call tr ml x c (ops_with (\<lambda>f. f = Postfix) pr) m1 = Some (post', m2)"
    using body s by (auto simp: bind_eq_Some_conv)
  have k2: "kept P m1 m2" "stack m2 = stack m1" "\<forall>r. post' = Some r \<longrightarrow> pos P r \<and> x \<le> r"
    using postfix_scan_ok [OF assms(1) _ k1(2) kept_ok [OF k1(4)] s2] pin ops_in by blast+
  note km2 = kept_trans [OF k1(4) k2(1)]
  show ?thesis
  proof (cases post')
    case (Some r)
    then have c: "call (TailK tr t ml c r) m2 = Some (v, m')" using body s s2 by simp
    then show ?thesis using call_ok [OF assms(1) c] a k1 k2 Some kept_ok [OF km2] kept_trans [OF km2] by auto
  next
    case None
    obtain inf m3 where s3: "infix_scan P call tr (\<lambda>from1 lev. PrecK tr t from1 lev c) ml x c (ops_with is_infix pr) m2 = Some (inf, m3)"
      using body s s2 None by (auto simp: bind_eq_Some_conv)
    have k3: "kept P m2 m3" "stack m3 = stack m2"
        "\<forall>r v. inf = Some (r, v) \<longrightarrow> pos P r \<and> x \<le> r \<and> 0 \<le> v \<and> (\<exists>f. r \<le> f \<and> pos P f \<and> ends P f v)"
      using infix_scan_ok [OF assms(1) _ k1(2) kept_ok [OF km2] s3, of "\<lambda>f v m'. ends P f v"] pin ops_in
        call_ok [OF assms(1)] a(1) by fastforce+
    note km3 = kept_trans [OF km2 k3(1)]
    show ?thesis
    proof (cases inf)
      case None
      then show ?thesis using body s s2 s3 \<open>post' = None\<close> km3 k1 k2 k3 a by (auto simp: pos_def)
    next
      case (Some rv)
      obtain r w where rv: "inf = Some (r, w)" using Some by (cases rv) auto
      have c: "call (TailK tr t ml c w) m3 = Some (v, m')" using body s s2 s3 \<open>post' = None\<close> rv by simp
      have w: "pos P w" "q \<le> w" using k3(3) rv k1 by (force simp: ends_def pos_def)+
      show ?thesis using call_ok [OF assms(1) c] a w kept_ok [OF km3] kept_trans [OF km3] k1 k2 k3 by auto
    qed
  qed
qed

lemma prec_k_ok:
  assumes "calls_ok P call" and "input_ok P" and "pre P (PrecK tr t p ml c) m" and "m_ok P m"
    and "prec_k P call tr t p ml c m = Some (v, m')"
  shows "kept P m m' \<and> post P (PrecK tr t p ml c) m v m'"
proof -
  define pr where "pr = precs (gr P) ! t"
  define rest where "rest = (\<lambda>m. do {
      ((pl, pe), m) \<leftarrow> prefix_scan call tr p c (ops_with (\<lambda>f. f = Prefix) pr) m;
      (q, m) \<leftarrow>
        (if pl \<ge> 0 then do { (from1, m) \<leftarrow> sk P call c pe m; call (PrecK tr t from1 (nat pl) c) m }
         else call (Ev False tr (pr_atom pr) p True c) m);
      (q, m) \<leftarrow> (if q \<ge> 0 then call (TailK tr t ml c q) m else Some (q, m));
      Some (q, leave m)
    })"
  have a: "t < length (precs (gr P))" "pos P p" "0 \<le> p" using assms(3) by (auto simp: pos_def)
  note pin = prec_in [OF assms(2) a(1), folded pr_def]
  obtain m1 where m1: "kept P m m1" "stack m1 = stack m" "v = -1 \<and> m' = leave m1 \<or> rest m1 = Some (v, m')"
  proof -
    have "(let (ok, m) = enter P m in if \<not> ok then Some (-1, leave m) else rest m) = Some (v, m')"
      using assms(5) unfolding prec_k_def rest_def pr_def Let_def .
    from enter_cases [OF this assms(4)] show ?thesis using that by metis
  qed
  from m1(3) show ?thesis
  proof
    assume "v = -1 \<and> m' = leave m1"
    then show ?thesis using m1 enter_leave [of P m1] kept_trans by (auto simp: kept_def ends_def)
  next
    assume r: "rest m1 = Some (v, m')"
    then obtain pl pe m2 where s: "prefix_scan call tr p c (ops_with (\<lambda>f. f = Prefix) pr) m1 = Some ((pl, pe), m2)"
      by (auto simp: rest_def bind_eq_Some_conv)
    have k: "kept P m1 m2" "stack m2 = stack m1" "0 \<le> pl \<longrightarrow> pos P pe \<and> p \<le> pe"
      using prefix_scan_ok [OF assms(1) _ a(2) kept_ok [OF m1(1)] s] pin ops_in by blast+
    obtain q m3 m4 where h: "(if pl \<ge> 0 then do { (from1, m) \<leftarrow> sk P call c pe m2; call (PrecK tr t from1 (nat pl) c) m }
         else call (Ev False tr (pr_atom pr) p True c) m2) = Some (q, m3)"
        "(if q \<ge> 0 then call (TailK tr t ml c q) m3 else Some (q, m3)) = Some (v, m4)" "m' = leave m4"
      using r s by (auto simp: rest_def bind_eq_Some_conv)
    have k3: "kept P m2 m3" "stack m3 = stack m2" "ends P p q"
    proof -
      have "kept P m2 m3 \<and> stack m3 = stack m2 \<and> ends P p q"
      proof (cases "pl \<ge> 0")
        case False
        then have "call (Ev False tr (pr_atom pr) p True c) m2 = Some (q, m3)" using h(1) by simp
        from ev_sub [OF assms(1) this _ a(2) kept_ok [OF k(1)]] pin ev_false [of P m2 p q m3] show ?thesis by auto
      next
        case True
        then obtain f m5 where c: "sk P call c pe m2 = Some (f, m5)" "call (PrecK tr t f (nat pl) c) m5 = Some (q, m3)"
          using h(1) by (auto simp: bind_eq_Some_conv)
        have k5: "pe \<le> f" "pos P f" "stack m5 = stack m2" "kept P m2 m5"
          using sk_ok [OF assms(1) _ kept_ok [OF k(1)] c(1)] k(3) True by auto
        have "kept P m5 m3" "ends P f q" "stack m3 = stack m5" using call_ok [OF assms(1) c(2)] a k5 kept_ok by auto
        then show ?thesis using k5 kept_trans k True by (auto simp: ends_def)
      qed
      then show "kept P m2 m3" "stack m3 = stack m2" "ends P p q" by auto
    qed
    note km = kept_trans [OF kept_trans [OF m1(1) k(1)] k3(1)]
    have k4: "kept P m3 m4 \<and> stack m4 = stack m3 \<and> ends P p v"
    proof (cases "q \<ge> 0")
      case False
      then show ?thesis using h(2) k3 kept_ok [OF km] by (auto simp: kept_def)
    next
      case True
      then have c: "call (TailK tr t ml c q) m3 = Some (v, m4)" "pos P q" using h(2) k3(3) by (auto simp: ends_def pos_def)
      from call_ok [OF assms(1) c(1)] show ?thesis using a c(2) kept_ok [OF km] k3(3) True by (auto simp: ends_def)
    qed
    have k5: "kept P m4 m'" using enter_leave(2) [of P m4] k4 kept_ok h(3) by blast
    have "kept P m m'" using kept_trans [OF kept_trans [OF km] k5] k4 by blast
    then show ?thesis using k4 k3 k m1 h(3) enter_leave(4) [OF kept_ok [of P m3 m4]] by simp
  qed
qed

section \<open>Every run keeps it\<close>

lemma step_ok: "calls_ok P call \<Longrightarrow> input_ok P \<Longrightarrow> calls_ok P (step P call)"
  unfolding calls_ok_def [of P "step P call"]
proof (intro allI impI)
  fix k m v m'
  assume a: "calls_ok P call" "input_ok P" "pre P k m" "m_ok P m" "step P call k m = Some (v, m')"
  show "kept P m m' \<and> post P k m v m'"
  proof (cases k)
    case (Skip p)
    then show ?thesis using a skip_ok [of P call p m v m'] by (simp add: step_def)
  next
    case (SkipRule r q)
    then show ?thesis using a skip_rule_ok [of P call r q m v m'] by (simp add: step_def)
  next
    case (RuleK t r p)
    then show ?thesis using a rule_k_ok [of P call t r p m v m'] by (simp add: step_def)
  next
    case (GrowK t slot r p best)
    then show ?thesis using a grow_k_ok [of P call t slot r p best m v m'] by (simp add: step_def)
  next
    case (RuleB r p)
    then show ?thesis using a rule_b_ok [of P call r p m v m'] by (simp add: step_def)
  next
    case (GrowB slot r p best bend)
    then show ?thesis using a grow_b_ok [of P call slot r p best bend m v m'] by (simp add: step_def)
  next
    case (Ev b t e p skd c)
    then show ?thesis using a ev_ok [of P call b t e p skd c m v m'] by (simp add: step_def)
  next
    case (Star b t x p c)
    then show ?thesis using a star_ok [of P call b t x p c m v m'] by (simp add: step_def)
  next
    case (Lead b t lead rest p c)
    then show ?thesis using a lead_ok [of P call b t lead rest p c m v m'] by (simp add: step_def)
  next
    case (PrecB t p ml c)
    then show ?thesis using a prec_b_ok [of P call t p ml c m v m'] by (simp add: step_def)
  next
    case (TailB t p ml c base q)
    then show ?thesis using a tail_b_ok [of P call t p ml c base q m v m'] by (simp add: step_def)
  next
    case (PrecK tr t p ml c)
    then show ?thesis using a prec_k_ok [of P call tr t p ml c m v m'] by (simp add: step_def)
  next
    case (TailK tr t ml c q)
    then show ?thesis using a tail_k_ok [of P call tr t ml c q m v m'] by (simp add: step_def)
  qed
qed

lemma exec_ok: "input_ok P \<Longrightarrow> calls_ok P (exec P f)"
proof (induction f)
  case 0
  then show ?case by (simp add: calls_ok_def)
next
  case (Suc f)
  have "exec P (Suc f) = step P (exec P f)" by (intro ext) simp
  then show ?case using step_ok Suc by metis
qed

lemma new_ok: "m_ok P (machine_new P)"
  by (auto simp: m_ok_def machine_new_def ends_def node_ans_def)

lemma reset_ok: "m_ok P m \<Longrightarrow> m_ok P (reset P track m)"
  by (auto simp: m_ok_def reset_def ends_def node_ans_def)

lemma skip_at_ok:
  assumes "input_ok P" and "m_ok P m" and "pos P p" and "skip_at P f p m = Some (v, m')"
  shows "kept P m m' \<and> p \<le> v \<and> pos P v"
proof (cases "skip_rule (gr P) = None")
  case True
  then show ?thesis using assms by (auto simp: skip_at_def kept_def)
next
  case False
  then have "exec P f (Skip p) m = Some (v, m')" using assms(4) by (simp add: skip_at_def)
  from call_ok [OF exec_ok [OF assms(1)] this] show ?thesis using assms(2,3) by (auto simp: pos_def)
qed

end
