(* ===== verification/PegMeaning.thy ===== *)
theory PegMeaning
  imports PegGrammar "HOL-Library.Monad_Syntax"
begin

text \<open>
  What a grammar means: a parsing expression grammar's own reading, by the expressions as they were
  written, with ordered choice, greedy repetition, predicates, the skip rule between the elements of a
  lower-case rule and precedence climbing for tables. No memo, no first-character guards, no fast loops, no
  limit on depth, no trees: \<open>peg\<close> is the reference the matcher is held against. A goal is an expression (or
  a rule, a loop, a table) at a position; \<open>peg\<close> runs it with fuel, \<open>None\<close> being no answer yet. \<open>-1\<close> is a
  failure.
\<close>

section \<open>The reference\<close>

type_synonym op = "fixity \<times> nat \<times> pexp"

datatype goal =
  GSkip int
| GRule nat int
| GExp bool pexp int bool
| GStar bool pexp int
| GPrec bool pexp "op list" int nat
| GTail bool pexp "op list" int nat

type_synonym ref = "goal \<Rightarrow> int option"

definition char_at :: "int list \<Rightarrow> int \<Rightarrow> int" where
  "char_at cs p = (if 0 \<le> p \<and> nat p < length cs then cs ! nat p else -1)"

definition in_class :: "range list \<Rightarrow> bool \<Rightarrow> int \<Rightarrow> bool" where
  "in_class ranges neg c \<longleftrightarrow> 0 \<le> c \<and> in_ranges ranges c \<noteq> neg"

fun lit_here :: "int list \<Rightarrow> int \<Rightarrow> bool \<Rightarrow> int list \<Rightarrow> bool" where
  "lit_here cs q ci [] = True"
| "lit_here cs q ci (c # l) \<longleftrightarrow>
     (if ci then lower (char_at cs q) else char_at cs q) = fold_code ci c \<and> lit_here cs (q + 1) ci l"

text \<open>A lower-case rule skips between its elements; tokens and \<open>skip\<close> do not.\<close>

definition rule_ws :: "rule_in \<Rightarrow> bool" where
  "rule_ws r \<longleftrightarrow> \<not> ri_token r \<and> ri_name r \<noteq> ''skip''"

definition skip_index :: "rule_in list \<Rightarrow> nat option" where
  "skip_index rs = find (\<lambda>i. ri_name (rs ! i) = ''skip'') [0..<length rs]"

text \<open>A table's operators: longest literal first, otherwise as written.\<close>

definition fix_or :: "string \<Rightarrow> fixity" where
  "fix_or assoc = (case fix_of assoc of Inr f \<Rightarrow> f | Inl _ \<Rightarrow> InfixL)"

fun level_ops :: "nat \<Rightarrow> (string \<times> pexp list) list \<Rightarrow> (op \<times> int) list" where
  "level_ops lev [] = []"
| "level_ops lev ((assoc, xs) # levels) =
     map (\<lambda>x. ((fix_or assoc, lev, x), op_key x)) xs @ level_ops (lev + 1) levels"

definition table_ops :: "(string \<times> pexp list) list \<Rightarrow> op list" where
  "table_ops levels = map fst (sort_key snd (level_ops 0 levels))"

definition with_fix :: "(fixity \<Rightarrow> bool) \<Rightarrow> op list \<Rightarrow> op list" where
  "with_fix f os = filter (\<lambda>(fx, _, _). f fx) os"

definition infix_fix :: "fixity \<Rightarrow> bool" where
  "infix_fix f \<longleftrightarrow> f = InfixL \<or> f = InfixR"

definition above :: "fixity \<Rightarrow> nat \<Rightarrow> nat" where
  "above f lev = (if f = InfixL then lev + 1 else lev)"

definition ref_start :: "ref \<Rightarrow> bool \<Rightarrow> int \<Rightarrow> bool \<Rightarrow> int option" where
  "ref_start call ws p skd = (if ws \<and> \<not> skd then call (GSkip p) else Some p)"

definition ref_sk :: "ref \<Rightarrow> bool \<Rightarrow> int \<Rightarrow> int option" where
  "ref_sk call ws p = (if ws then call (GSkip p) else Some p)"

fun ref_seq :: "ref \<Rightarrow> bool \<Rightarrow> pexp list \<Rightarrow> int \<Rightarrow> bool \<Rightarrow> int option" where
  "ref_seq call ws [] q skd = Some q"
| "ref_seq call ws (e # es) q skd =
     do { r \<leftarrow> call (GExp ws e q skd); if r < 0 then Some (-1) else ref_seq call ws es r False }"

fun ref_alt :: "ref \<Rightarrow> bool \<Rightarrow> pexp list \<Rightarrow> int \<Rightarrow> bool \<Rightarrow> int option" where
  "ref_alt call ws [] p skd = Some (-1)"
| "ref_alt call ws (e # es) p skd =
     do { r \<leftarrow> call (GExp ws e p skd); if r \<ge> 0 then Some r else ref_alt call ws es p skd }"

fun ref_prefix :: "ref \<Rightarrow> bool \<Rightarrow> int \<Rightarrow> op list \<Rightarrow> (int \<times> int) option" where
  "ref_prefix call ws p [] = Some (-1, -1)"
| "ref_prefix call ws p ((f, lev, e) # os) =
     do { r \<leftarrow> call (GExp ws e p True); if r \<ge> 0 then Some (int lev, r) else ref_prefix call ws p os }"

fun ref_postfix :: "ref \<Rightarrow> bool \<Rightarrow> nat \<Rightarrow> int \<Rightarrow> op list \<Rightarrow> int option option" where
  "ref_postfix call ws ml x [] = Some None"
| "ref_postfix call ws ml x ((f, lev, e) # os) =
     (if ml \<le> lev then
        do { r \<leftarrow> call (GExp ws e x True); if r \<ge> 0 then Some (Some r) else ref_postfix call ws ml x os }
      else ref_postfix call ws ml x os)"

fun ref_infix :: "ref \<Rightarrow> bool \<Rightarrow> (int \<Rightarrow> nat \<Rightarrow> goal) \<Rightarrow> nat \<Rightarrow> int \<Rightarrow> op list \<Rightarrow> int option option" where
  "ref_infix call ws operand ml x [] = Some None"
| "ref_infix call ws operand ml x ((f, lev, e) # os) =
     (if ml \<le> lev then
        do {
          r \<leftarrow> call (GExp ws e x True);
          if r \<ge> 0 then
            do {
              q \<leftarrow> ref_sk call ws r;
              v \<leftarrow> call (operand q (above f lev));
              if v \<ge> 0 then Some (Some v) else ref_infix call ws operand ml x os
            }
          else ref_infix call ws operand ml x os
        }
      else ref_infix call ws operand ml x os)"

definition ref_exp :: "rule_in list \<Rightarrow> int list \<Rightarrow> ref \<Rightarrow> bool \<Rightarrow> pexp \<Rightarrow> int \<Rightarrow> bool \<Rightarrow> int option" where
  "ref_exp rs cs call ws e p skd =
     (case e of
        ELit l s ci \<Rightarrow>
          if l = [] then Some p
          else do { x \<leftarrow> ref_start call ws p skd; Some (if lit_here cs x ci l then x + int (length l) else -1) }
      | EClass ranges neg _ \<Rightarrow>
          do { x \<leftarrow> ref_start call ws p skd; Some (if in_class ranges neg (char_at cs x) then x + 1 else -1) }
      | EAny \<Rightarrow> do { x \<leftarrow> ref_start call ws p skd; Some (if 0 \<le> char_at cs x then x + 1 else -1) }
      | ERef n \<Rightarrow>
          (case rule_index rs n of
             Some i \<Rightarrow> do { x \<leftarrow> ref_start call ws p skd; call (GRule i x) }
           | None \<Rightarrow> None)
      | ESeq xs \<Rightarrow> ref_seq call ws xs p skd
      | EAlt xs \<Rightarrow> ref_alt call ws xs p skd
      | EStar x \<Rightarrow> call (GStar ws x p)
      | EPlus x \<Rightarrow> do { r \<leftarrow> call (GExp ws x p skd); if r < 0 then Some (-1) else call (GStar ws x r) }
      | EOpt x \<Rightarrow> do { r \<leftarrow> call (GExp ws x p skd); Some (if r \<ge> 0 then r else p) }
      | EAnd x \<Rightarrow> do { r \<leftarrow> call (GExp ws x p skd); Some (if r \<ge> 0 then p else -1) }
      | ENot x \<Rightarrow> do { r \<leftarrow> call (GExp ws x p skd); Some (if r \<ge> 0 then -1 else p) }
      | ELabel _ x \<Rightarrow> call (GExp ws x p skd)
      | EPrec atom levels \<Rightarrow> do { x \<leftarrow> ref_start call ws p skd; call (GPrec ws atom (table_ops levels) x 0) })"

definition ref_step :: "rule_in list \<Rightarrow> int list \<Rightarrow> ref \<Rightarrow> goal \<Rightarrow> int option" where
  "ref_step rs cs call g =
     (case g of
        GSkip p \<Rightarrow>
          (case skip_index rs of
             None \<Rightarrow> Some p
           | Some i \<Rightarrow> do { r \<leftarrow> call (GRule i p); if r \<le> p then Some p else call (GSkip r) })
      | GRule i p \<Rightarrow> call (GExp (rule_ws (rs ! i)) (ri_e (rs ! i)) p True)
      | GExp ws e p skd \<Rightarrow> ref_exp rs cs call ws e p skd
      | GStar ws x v \<Rightarrow> do { r \<leftarrow> call (GExp ws x v False); if r < 0 \<or> r \<le> v then Some v else call (GStar ws x r) }
      | GPrec ws atom os p ml \<Rightarrow>
          do {
            (pl, pe) \<leftarrow> ref_prefix call ws p (with_fix (\<lambda>f. f = Prefix) os);
            q \<leftarrow> (if pl \<ge> 0 then do { x \<leftarrow> ref_sk call ws pe; call (GPrec ws atom os x (nat pl)) }
                 else call (GExp ws atom p True));
            if q \<ge> 0 then call (GTail ws atom os q ml) else Some q
          }
      | GTail ws atom os q ml \<Rightarrow>
          do {
            x \<leftarrow> ref_sk call ws q;
            post \<leftarrow> ref_postfix call ws ml x (with_fix (\<lambda>f. f = Postfix) os);
            case post of
              Some r \<Rightarrow> call (GTail ws atom os r ml)
            | None \<Rightarrow>
                do {
                  inf \<leftarrow> ref_infix call ws (GPrec ws atom os) ml x (with_fix infix_fix os);
                  case inf of Some v \<Rightarrow> call (GTail ws atom os v ml) | None \<Rightarrow> Some q
                }
          })"

fun peg :: "rule_in list \<Rightarrow> int list \<Rightarrow> nat \<Rightarrow> goal \<Rightarrow> int option" where
  "peg rs cs 0 g = None"
| "peg rs cs (Suc f) g = ref_step rs cs (peg rs cs f) g"

text \<open>A goal's answer, and that an answer is the only one the reference gives.\<close>

definition means :: "rule_in list \<Rightarrow> int list \<Rightarrow> goal \<Rightarrow> int \<Rightarrow> bool" where
  "means rs cs g v \<longleftrightarrow> (\<exists>f. peg rs cs f g = Some v)"

text \<open>The whole input, with skip around it.\<close>

definition peg_accepts :: "rule_in list \<Rightarrow> int list \<Rightarrow> nat \<Rightarrow> nat \<Rightarrow> bool option" where
  "peg_accepts rs cs f start =
     do {
       p \<leftarrow> peg rs cs f (GSkip 0);
       r \<leftarrow> peg rs cs f (GRule start p);
       if r \<ge> 0 then do { e \<leftarrow> peg rs cs f (GSkip r); Some (e = int (length cs) - 1) } else Some False
     }"

section \<open>More fuel, same answer\<close>

definition extends :: "ref \<Rightarrow> ref \<Rightarrow> bool" where
  "extends c c' \<longleftrightarrow> (\<forall>g v. c g = Some v \<longrightarrow> c' g = Some v)"

lemma extendsD: "extends c c' \<Longrightarrow> c g = Some v \<Longrightarrow> c' g = Some v"
  by (simp add: extends_def)

lemma start_ext: "extends c c' \<Longrightarrow> ref_start c ws p skd = Some x \<Longrightarrow> ref_start c' ws p skd = Some x"
  by (auto simp: ref_start_def extends_def split: if_splits)

lemma sk_ext: "extends c c' \<Longrightarrow> ref_sk c ws p = Some x \<Longrightarrow> ref_sk c' ws p = Some x"
  by (auto simp: ref_sk_def extends_def split: if_splits)

lemma seq_ext: "extends c c' \<Longrightarrow> ref_seq c ws es q skd = Some v \<Longrightarrow> ref_seq c' ws es q skd = Some v"
  by (induction es arbitrary: q skd) (auto simp: bind_eq_Some_conv dest: extendsD split: if_splits)

lemma alt_ext: "extends c c' \<Longrightarrow> ref_alt c ws es p skd = Some v \<Longrightarrow> ref_alt c' ws es p skd = Some v"
  by (induction es) (auto simp: bind_eq_Some_conv dest: extendsD split: if_splits)

lemma prefix_ext: "extends c c' \<Longrightarrow> ref_prefix c ws p os = Some v \<Longrightarrow> ref_prefix c' ws p os = Some v"
  by (induction c ws p os rule: ref_prefix.induct) (auto simp: bind_eq_Some_conv dest: extendsD split: if_splits)

lemma postfix_ext: "extends c c' \<Longrightarrow> ref_postfix c ws ml x os = Some v \<Longrightarrow> ref_postfix c' ws ml x os = Some v"
  by (induction c ws ml x os rule: ref_postfix.induct) (auto simp: bind_eq_Some_conv dest: extendsD split: if_splits)

lemma infix_ext: "extends c c' \<Longrightarrow> ref_infix c ws o' ml x os = Some v \<Longrightarrow> ref_infix c' ws o' ml x os = Some v"
  by (induction c ws o' ml x os rule: ref_infix.induct)
    (auto 4 4 simp: bind_eq_Some_conv dest: extendsD sk_ext split: if_splits)

lemmas ref_ext = extendsD start_ext sk_ext seq_ext alt_ext prefix_ext postfix_ext infix_ext

lemma exp_ext: "extends c c' \<Longrightarrow> ref_exp rs cs c ws e p skd = Some v \<Longrightarrow> ref_exp rs cs c' ws e p skd = Some v"
  by (cases e) (auto simp: ref_exp_def bind_eq_Some_conv dest: ref_ext split: if_splits option.splits)

lemma bind_ext:
  assumes "Option.bind a k = Some v" and "\<And>x. a = Some x \<Longrightarrow> a' = Some x" and "\<And>x. k x = Some v \<Longrightarrow> k' x = Some v"
  shows "Option.bind a' k' = Some v"
  using assms by (cases a) auto

lemma step_ext:
  assumes "extends c c'" and "ref_step rs cs c g = Some v"
  shows "ref_step rs cs c' g = Some v"
proof (cases g)
  case (GSkip p)
  then show ?thesis
    using assms by (auto simp: ref_step_def bind_eq_Some_conv dest: extendsD split: if_splits option.splits)
next
  case (GRule i p)
  then show ?thesis using assms by (simp add: ref_step_def extendsD)
next
  case (GExp ws e p skd)
  then show ?thesis using assms by (simp add: ref_step_def exp_ext)
next
  case (GStar ws x p)
  then show ?thesis using assms by (auto simp: ref_step_def bind_eq_Some_conv dest: extendsD split: if_splits)
next
  case (GPrec ws atom os p ml)
  note e = ref_ext [OF assms(1)]
  obtain pl pe q where 1: "ref_prefix c ws p (with_fix (\<lambda>f. f = Prefix) os) = Some (pl, pe)"
      "(if pl \<ge> 0 then do { x \<leftarrow> ref_sk c ws pe; c (GPrec ws atom os x (nat pl)) } else c (GExp ws atom p True)) = Some q"
      "(if q \<ge> 0 then c (GTail ws atom os q ml) else Some q) = Some v"
    using assms(2) GPrec by (auto simp: ref_step_def bind_eq_Some_conv)
  have "(if pl \<ge> 0 then do { x \<leftarrow> ref_sk c' ws pe; c' (GPrec ws atom os x (nat pl)) } else c' (GExp ws atom p True)) = Some q"
    using 1(2) by (auto simp: bind_eq_Some_conv intro: e split: if_splits)
  moreover have "(if q \<ge> 0 then c' (GTail ws atom os q ml) else Some q) = Some v"
    using 1(3) by (auto intro: e split: if_splits)
  ultimately show ?thesis using e(6) [OF 1(1)] by (simp add: ref_step_def GPrec)
next
  case (GTail ws atom os q ml)
  show ?thesis
    using assms(2) unfolding ref_step_def GTail goal.case
    by (elim bind_ext) (auto intro: ref_ext [OF assms(1)] elim!: bind_ext split: option.splits)
qed

lemma peg_more: "extends (peg rs cs f) (peg rs cs (f + k))"
proof (induction f)
  case 0
  then show ?case by (simp add: extends_def)
next
  case (Suc f)
  then show ?case using step_ext by (auto simp: extends_def)
qed

lemma means_fun: "means rs cs g v \<Longrightarrow> means rs cs g w \<Longrightarrow> v = w"
  unfolding means_def by (metis add.commute extendsD option.inject peg_more)

lemma peg_means: "peg rs cs f g = Some v \<Longrightarrow> means rs cs g v"
  by (auto simp: means_def)

lemma means_unfold: "means rs cs g v \<longleftrightarrow> (\<exists>f. ref_step rs cs (peg rs cs f) g = Some v)"
proof
  assume "means rs cs g v"
  then obtain f where "peg rs cs f g = Some v" by (auto simp: means_def)
  then show "\<exists>f. ref_step rs cs (peg rs cs f) g = Some v" by (cases f) auto
next
  assume "\<exists>f. ref_step rs cs (peg rs cs f) g = Some v"
  then obtain f where "peg rs cs (Suc f) g = Some v" by auto
  then show "means rs cs g v" unfolding means_def by blast
qed

end
