(* ===== verification/PegFirst.thy ===== *)
theory PegFirst
  imports PegMeaning
begin

text \<open>
  The analyses are sound: a character set holds what its class says, the loops that compute what can
  match nothing and what can come first end in a fixed point, and by the reference an expression that
  matches either starts with a character of its first set or matches nothing and is known to be able to. The guards
  of an ordered choice rest on that.
\<close>

section \<open>Character sets\<close>

lemma bitmap_length: "length (bitmap P) = 2"
proof -
  have "length (fold (\<lambda>c a. if P (int c) then a[c div 64 := a ! (c div 64) OR push_bit (c mod 64) 1] else a) cs a) = length a"
    for cs and a :: "u64 list"
    by (induction cs arbitrary: a) auto
  then show ?thesis by (simp add: bitmap_def)
qed

lemma bit_one_at: "bit (2 ^ n :: u64) i \<longleftrightarrow> i = n \<and> n < 64"
  by (auto simp: bit_exp_iff possible_bit_word)

lemma bitmap_bit:
  assumes "c < 128"
  shows "bit (bitmap P ! (c div 64)) (c mod 64) \<longleftrightarrow> P (int c)"
proof -
  define upd where "upd = (\<lambda>c (a :: u64 list). if P (int c) then a[c div 64 := a ! (c div 64) OR push_bit (c mod 64) 1] else a)"
  have "length (fold upd [0..<n] [0, 0]) = 2 \<and>
      (\<forall>c < 128. bit (fold upd [0..<n] [0, 0] ! (c div 64)) (c mod 64) \<longleftrightarrow> c < n \<and> P (int c))" if "n \<le> 128" for n
    using that
  proof (induction n)
    case 0
    have "c < 128 \<Longrightarrow> [0, 0 :: u64] ! (c div 64) = 0" for c :: nat
      by (cases "c div 64") (auto simp: nth_Cons split: nat.split)
    then show ?case by simp
  next
    case (Suc n)
    define a where "a = fold upd [0..<n] [0, 0]"
    have a: "length a = 2" "\<forall>c < 128. bit (a ! (c div 64)) (c mod 64) \<longleftrightarrow> c < n \<and> P (int c)"
      using Suc by (auto simp: a_def)
    have f: "fold upd [0..<Suc n] [0, 0] = upd n a" by (simp add: a_def)
    have "bit (upd n a ! (c div 64)) (c mod 64) \<longleftrightarrow> c < Suc n \<and> P (int c)" if c: "c < 128" for c
    proof (cases "c div 64 = n div 64")
      case True
      have "c mod 64 = n mod 64 \<longleftrightarrow> c = n" using True by (metis mod_div_decomp)
      moreover have "n div 64 < length a" using a(1) Suc.prems by auto
      ultimately show ?thesis
        using a(2) c True by (auto simp: upd_def bit_or_iff bit_one_at less_Suc_eq)
    next
      case False
      then have "upd n a ! (c div 64) = a ! (c div 64)" by (simp add: upd_def)
      then show ?thesis using a(2) c False by (auto simp: less_Suc_eq)
    qed
    then show ?case using a(1) unfolding f by (simp add: upd_def)
  qed
  from this [of 128] assms show ?thesis by (simp add: bitmap_def upd_def)
qed

lemma test_bit: "drop_bit n (w :: u64) AND 1 = 1 \<longleftrightarrow> bit w n"
  by (simp add: bit_iff_and_drop_bit_eq_1)

lemma has_bitmap: "0 \<le> c \<Longrightarrow> c < 128 \<Longrightarrow> has \<lparr>ascii = bitmap P, wide = w, wide_neg = b\<rparr> c \<longleftrightarrow> P c"
  using bitmap_bit [of "nat c" P] by (simp add: has_def test_bit nat_less_iff)

text \<open>A class as the matcher holds it, a bitmap and the ranges past it, holds exactly the characters of
  the class as it was written, negated or not, and never the end of the input.\<close>

lemma has_class: "has (of_class ranges neg) c = in_class ranges neg c"
proof (cases "c < 128")
  case True
  then show ?thesis
    by (cases "c < 0") (simp add: in_class_def has_def, simp add: of_class_def has_bitmap in_class_def)
next
  case False
  then have "in_ranges (filter (\<lambda>(_, hi). hi \<ge> 128) ranges) c = in_ranges ranges c"
    by (induction ranges) (auto simp: in_ranges_def)
  then show ?thesis using False by (simp add: of_class_def has_def in_class_def)
qed

section \<open>First sets\<close>

definition first_ok :: "first_set \<Rightarrow> bool" where
  "first_ok f \<longleftrightarrow> length (fa f) = 128"

definition first_has :: "first_set \<Rightarrow> int \<Rightarrow> bool" where
  "first_has f c \<longleftrightarrow> 0 \<le> c \<and> (if c < 128 then fa f ! nat c else fw f)"

lemma first_empty_simps [simp]: "first_ok first_empty" "first_has first_empty c \<longleftrightarrow> False"
  by (auto simp: first_ok_def first_has_def first_empty_def nat_less_iff)

lemma first_all_simps [simp]: "first_ok first_all" "first_has first_all c \<longleftrightarrow> 0 \<le> c"
  by (auto simp: first_ok_def first_has_def first_all_def nat_less_iff)

lemma first_union_ok [simp]: "first_ok f \<Longrightarrow> first_ok g \<Longrightarrow> first_ok (first_union f g)"
  by (simp add: first_ok_def first_union_def)

lemma first_union_has [simp]:
  "first_ok f \<Longrightarrow> first_ok g \<Longrightarrow> first_has (first_union f g) c \<longleftrightarrow> first_has f c \<or> first_has g c"
  by (auto simp: first_ok_def first_has_def first_union_def nat_less_iff)

lemma set_chars:
  "length a = 128 \<Longrightarrow> length (fold (\<lambda>c a. if c \<ge> 0 then a[nat c := b] else a) cs a) = 128"
  "length a = 128 \<Longrightarrow> \<forall>c \<in> set cs. c < 128 \<Longrightarrow> 0 \<le> x \<Longrightarrow> x < 128 \<Longrightarrow>
     fold (\<lambda>c a. if c \<ge> 0 then a[nat c := b] else a) cs a ! nat x = (if x \<in> set cs then b else a ! nat x)"
  by (induction cs arbitrary: a) (auto simp: nth_list_update nat_less_iff)

lemma first_range_ok: "first_ok f \<Longrightarrow> first_ok (first_range neg r f)"
  by (auto simp: first_ok_def first_range_def Let_def set_chars split: prod.split)

lemma first_range_has:
  assumes "first_ok f"
  shows "first_has (first_range neg (lo, hi) f) c \<longleftrightarrow>
    0 \<le> c \<and> (if c < 128 then (if lo \<le> c \<and> c \<le> hi then \<not> neg else first_has f c) else first_has f c \<or> hi \<ge> 128 \<and> \<not> neg)"
  using assms set_chars(2) [of "fa f" "[lo .. min hi 127]" c "\<not> neg"]
  by (auto simp: first_ok_def first_has_def first_range_def Let_def)

lemma first_ranges_fold:
  "first_ok f \<Longrightarrow> first_ok (fold (first_range neg) rs f) \<and>
     (first_has (fold (first_range neg) rs f) c \<longleftrightarrow>
        0 \<le> c \<and> (if c < 128 then (if in_ranges rs c then \<not> neg else first_has f c)
          else first_has f c \<or> (\<exists>(lo, hi) \<in> set rs. hi \<ge> 128) \<and> \<not> neg))"
proof (induction rs arbitrary: f)
  case Nil
  then show ?case by (auto simp: in_ranges_def first_has_def)
next
  case (Cons r rs)
  obtain lo hi where r: "r = (lo, hi)" by fastforce
  have ok: "first_ok (first_range neg r f)" using Cons.prems by (rule first_range_ok)
  show ?case
    using Cons.IH [OF ok] first_range_has [OF Cons.prems, of neg lo hi c] by (auto simp: r in_ranges_def)
qed

lemma first_ranges_ok [simp]: "first_ok (first_ranges rs neg)"
  using first_ranges_fold [of "\<lparr>fa = replicate 128 neg, fw = neg\<rparr>"] by (simp add: first_ranges_def first_ok_def)

text \<open>It holds the class's characters, and below 128 no others.\<close>

lemma first_ranges_has:
  "first_has (first_ranges rs neg) c \<longleftrightarrow>
     0 \<le> c \<and> (if c < 128 then in_ranges rs c \<noteq> neg else neg \<or> (\<exists>(lo, hi) \<in> set rs. hi \<ge> 128))"
proof -
  have ok: "first_ok \<lparr>fa = replicate 128 neg, fw = neg\<rparr>" by (simp add: first_ok_def)
  have "first_has \<lparr>fa = replicate 128 neg, fw = neg\<rparr> c \<longleftrightarrow> 0 \<le> c \<and> neg" by (auto simp: first_has_def nat_less_iff)
  then show ?thesis using first_ranges_fold [OF ok, of neg rs c] by (auto simp: first_ranges_def)
qed

lemma first_ranges_class: "in_class rs neg c \<Longrightarrow> first_has (first_ranges rs neg) c"
  by (fastforce simp: first_ranges_has in_class_def in_ranges_def)

text \<open>The guard made of a first set lets exactly its characters through, from the first to the last code point; a
  set that has no guard is the set of all.\<close>

lemma guard_exact:
  assumes "first_ok f" and "0 \<le> c" and "c \<le> 1114111"
  shows "first_has f c \<longleftrightarrow> (case guard f of None \<Rightarrow> True | Some s \<Rightarrow> has s c)"
proof (cases "fw f \<and> list_all (\<lambda>b. b) (fa f)")
  case True
  then show ?thesis using assms by (auto simp: guard_def first_has_def first_ok_def list_all_length nat_less_iff)
next
  case False
  show ?thesis
  proof (cases "c < 128")
    case True
    have "guard f = Some \<lparr>ascii = bitmap (\<lambda>c. fa f ! nat c), wide = (if fw f then [(128, 1114111)] else []), wide_neg = False\<rparr>"
      using False by (simp add: guard_def)
    then show ?thesis using True assms by (simp add: has_bitmap first_has_def)
  next
    case c: False
    then show ?thesis using False assms by (auto simp: guard_def has_def first_has_def in_ranges_def)
  qed
qed

lemma char_le: "\<forall>c \<in> set cs. c \<le> 1114111 \<Longrightarrow> char_at cs p \<le> 1114111"
  by (auto simp: char_at_def)

section \<open>The loops of the analysis end, in a fixed point\<close>

text \<open>A pass over the rules in place: what holds when nothing changed, and while something did.\<close>

definition pass :: "(nat \<Rightarrow> 'a \<Rightarrow> bool) \<Rightarrow> (nat \<Rightarrow> 'a \<Rightarrow> 'a) \<Rightarrow> nat list \<Rightarrow> 'a \<times> bool \<Rightarrow> 'a \<times> bool" where
  "pass C U is s = fold (\<lambda>i (a, ch). if C i a then (U i a, True) else (a, ch)) is s"

lemma pass_flag: "snd s \<Longrightarrow> snd (pass C U is s)"
  unfolding pass_def by (induction "is" arbitrary: s) (auto split: prod.splits if_splits)

lemma pass_still: "\<not> snd (pass C U is (a, b)) \<Longrightarrow> \<not> b \<and> fst (pass C U is (a, b)) = a \<and> (\<forall>i \<in> set is. \<not> C i a)"
proof (induction "is" arbitrary: a b)
  case (Cons i "is")
  have "pass C U (i # is) (a, b) = pass C U is (if C i a then (U i a, True) else (a, b))" by (simp add: pass_def)
  then show ?case
    using Cons pass_flag [of "(U i a, True)" C U "is"] by (auto split: if_splits)
qed (simp add: pass_def)

text \<open>With a measure every change lowers and an invariant every change keeps.\<close>

lemma pass_down:
  assumes "\<And>i a. I a \<Longrightarrow> i \<in> set is \<Longrightarrow> C i a \<Longrightarrow> I (U i a) \<and> (\<mu> (U i a) :: nat) < \<mu> a" and "I a"
  shows "I (fst (pass C U is (a, b))) \<and> \<mu> (fst (pass C U is (a, b))) \<le> \<mu> a \<and>
    (\<not> b \<longrightarrow> snd (pass C U is (a, b)) \<longrightarrow> \<mu> (fst (pass C U is (a, b))) < \<mu> a)"
  using assms
proof (induction "is" arbitrary: a b)
  case (Cons i "is")
  have e: "pass C U (i # is) (a, b) = pass C U is (if C i a then (U i a, True) else (a, b))" by (simp add: pass_def)
  show ?case
  proof (cases "C i a")
    case True
    then have u: "I (U i a)" "\<mu> (U i a) < \<mu> a" using Cons.prems by auto
    then have "I (fst (pass C U is (U i a, True))) \<and> \<mu> (fst (pass C U is (U i a, True))) \<le> \<mu> (U i a)"
      using Cons.IH [of "U i a" True] Cons.prems(1) by auto
    then show ?thesis using e True u by auto
  next
    case False
    then show ?thesis using e Cons.IH [of a b] Cons.prems by auto
  qed
qed (simp add: pass_def)

lemma passes_end:
  assumes "\<And>i a. I a \<Longrightarrow> i \<in> set is \<Longrightarrow> C i a \<Longrightarrow> I (U i a) \<and> (\<mu> (U i a) :: nat) < \<mu> a" and "I a"
  shows "\<exists>a'. while_option snd (\<lambda>s. pass C U is (fst s, False)) (a, True) = Some (a', False) \<and> I a' \<and> (\<forall>i \<in> set is. \<not> C i a')"
proof -
  define m where "m = (\<lambda>s :: 'a \<times> bool. 2 * \<mu> (fst s) + (if snd s then 1 else 0))"
  note down = pass_down [of I "is" C U \<mu>, OF assms(1)]
  have "\<exists>s. while_option snd (\<lambda>s. pass C U is (fst s, False)) (a, True) = Some s"
  proof (rule measure_while_option_Some [where P = "\<lambda>s. I (fst s)" and f = m])
    fix s :: "'a \<times> bool"
    assume s: "I (fst s)" "snd s"
    have d: "I (fst (pass C U is (fst s, False)))" "\<mu> (fst (pass C U is (fst s, False))) \<le> \<mu> (fst s)"
        "snd (pass C U is (fst s, False)) \<longrightarrow> \<mu> (fst (pass C U is (fst s, False))) < \<mu> (fst s)"
      using down [of "fst s" False] s(1) by auto
    then show "I (fst (pass C U is (fst s, False))) \<and> m (pass C U is (fst s, False)) < m s"
      using s by (auto simp: m_def)
  qed (use assms(2) in simp)
  then obtain s where s: "while_option snd (\<lambda>s. pass C U is (fst s, False)) (a, True) = Some s" by blast
  have st: "\<not> snd s" using while_option_stop [OF s] .
  have "I (fst s) \<and> (snd s \<or> (\<forall>i \<in> set is. \<not> C i (fst s)))"
  proof (rule while_option_rule [where P = "\<lambda>s. I (fst s) \<and> (snd s \<or> (\<forall>i \<in> set is. \<not> C i (fst s)))", OF _ s])
    fix s :: "'a \<times> bool"
    assume p: "I (fst s) \<and> (snd s \<or> (\<forall>i \<in> set is. \<not> C i (fst s)))" "snd s"
    then show "I (fst (pass C U is (fst s, False))) \<and>
        (snd (pass C U is (fst s, False)) \<or> (\<forall>i \<in> set is. \<not> C i (fst (pass C U is (fst s, False)))))"
      using down [of "fst s" False] pass_still [of C U "is" "fst s" False] by auto
  qed (use assms(2) in simp)
  then show ?thesis using s st by (cases s) auto
qed

text \<open>What can match nothing.\<close>

lemma nul_pass_pass:
  "nul_pass rs s = pass (\<lambda>i nul. \<not> nul ! i \<and> nullable rs nul (ri_e (rs ! i))) (\<lambda>i nul. nul[i := True])
     [0..<length rs] (fst s, False)"
  by (simp add: nul_pass_def pass_def)

lemma count_true: "i < length nul \<Longrightarrow> \<not> nul ! i \<Longrightarrow> length (filter (\<lambda>b. \<not> b) (nul[i := True])) < length (filter (\<lambda>b. \<not> b) nul)"
proof (induction nul arbitrary: i)
  case (Cons b nul)
  then show ?case by (cases i) auto
qed simp

lemma nul_loop:
  "\<exists>nul. while_option snd (nul_pass rs) (replicate (length rs) False, True) = Some (nul, False) \<and>
     length nul = length rs \<and> (\<forall>i < length rs. nullable rs nul (ri_e (rs ! i)) \<longrightarrow> nul ! i)"
proof -
  have "\<exists>nul. while_option snd (\<lambda>s. pass (\<lambda>i nul. \<not> nul ! i \<and> nullable rs nul (ri_e (rs ! i)))
        (\<lambda>i nul. nul[i := True]) [0..<length rs] (fst s, False)) (replicate (length rs) False, True) = Some (nul, False) \<and>
      length nul = length rs \<and> (\<forall>i \<in> set [0..<length rs]. \<not> (\<not> nul ! i \<and> nullable rs nul (ri_e (rs ! i))))"
    by (rule passes_end [where \<mu> = "\<lambda>nul. length (filter (\<lambda>b. \<not> b) nul)"]) (auto intro: count_true)
  then obtain nul where "while_option snd (nul_pass rs) (replicate (length rs) False, True) = Some (nul, False)"
      "length nul = length rs" "\<forall>i \<in> set [0..<length rs]. \<not> (\<not> nul ! i \<and> nullable rs nul (ri_e (rs ! i)))"
    unfolding nul_pass_pass [abs_def] by blast
  then show ?thesis by (intro exI [of _ nul]) auto
qed

text \<open>What can come first: a set that holds more.\<close>

definition first_le :: "first_set \<Rightarrow> first_set \<Rightarrow> bool" where
  "first_le f g \<longleftrightarrow> first_ok f \<and> first_ok g \<and> (\<forall>c. first_has f c \<longrightarrow> first_has g c)"

lemma first_le_refl [simp]: "first_le f f \<longleftrightarrow> first_ok f"
  by (auto simp: first_le_def)

lemma first_le_trans: "first_le f g \<Longrightarrow> first_le g h \<Longrightarrow> first_le f h"
  by (auto simp: first_le_def)

lemma first_le_union: "first_le f f' \<Longrightarrow> first_le g g' \<Longrightarrow> first_le (first_union f g) (first_union f' g')"
  by (auto simp: first_le_def)

lemma first_le_fold:
  assumes "\<And>x. x \<in> set xs \<Longrightarrow> first_le (F x) (G x)" and "first_le a b"
  shows "first_le (fold (\<lambda>x acc. first_union acc (F x)) xs a) (fold (\<lambda>x acc. first_union acc (G x)) xs b)"
  using assms by (induction xs arbitrary: a b) (auto simp: first_le_union)

definition firsts_le :: "first_set list \<Rightarrow> first_set list \<Rightarrow> bool" where
  "firsts_le fs gs \<longleftrightarrow> list_all2 first_le fs gs"

lemma first_seq_le:
  "(\<And>x. x \<in> set xs \<Longrightarrow> first_le (first_of rs nul fs x) (first_of rs nul gs x)) \<Longrightarrow> first_le a b \<Longrightarrow>
    first_le (first_seq rs nul fs xs a) (first_seq rs nul gs xs b)"
  by (induction xs arbitrary: a b) (auto simp: Let_def first_le_union)

lemma first_prec_le:
  assumes "\<And>assoc os x. (assoc, os) \<in> set levels \<Longrightarrow> x \<in> set os \<Longrightarrow> first_le (F x) (G x)" and "first_le a b"
  shows "first_le
    (fold (\<lambda>(assoc, os) acc. if assoc = ''prefix'' then fold (\<lambda>x acc. first_union acc (F x)) os acc else acc) levels a)
    (fold (\<lambda>(assoc, os) acc. if assoc = ''prefix'' then fold (\<lambda>x acc. first_union acc (G x)) os acc else acc) levels b)"
  using assms
proof (induction levels arbitrary: a b)
  case (Cons l levels)
  obtain assoc os where l: "l = (assoc, os)" by fastforce
  have "first_le (fold (\<lambda>x acc. first_union acc (F x)) os a) (fold (\<lambda>x acc. first_union acc (G x)) os b)"
    using Cons.prems l by (intro first_le_fold) auto
  then have "first_le (if assoc = ''prefix'' then fold (\<lambda>x acc. first_union acc (F x)) os a else a)
      (if assoc = ''prefix'' then fold (\<lambda>x acc. first_union acc (G x)) os b else b)"
    using Cons.prems(2) by simp
  then show ?case unfolding l fold_simps prod.case using Cons.prems(1) by (intro Cons.IH) auto
qed simp

lemma first_of_mono:
  assumes "firsts_le fs gs" and "length fs = length rs"
  shows "first_le (first_of rs nul fs e) (first_of rs nul gs e)"
proof (induction e)
  case (ELit codes s ci)
  then show ?case by (auto split: list.split)
next
  case (ERef n)
  then show ?case
    using assms by (auto simp: firsts_le_def list_all2_conv_all_nth dest: rule_index_name split: option.split)
next
  case (ESeq xs)
  then show ?case by (auto intro: first_seq_le)
next
  case (EAlt xs)
  then show ?case by (auto intro: first_le_fold)
next
  case (EPrec atom levels)
  then show ?case by (auto intro!: first_prec_le simp: snds.simps)
qed auto

lemma first_of_ok: "\<forall>f \<in> set fs. first_ok f \<Longrightarrow> length fs = length rs \<Longrightarrow> first_ok (first_of rs nul fs e)"
  using first_of_mono [of fs fs rs nul e] by (simp add: firsts_le_def list_all2_same)

lemma first_eq:
  assumes "first_le f g" and "first_le g f"
  shows "f = g"
proof -
  have l: "length (fa f) = 128" "length (fa g) = 128" using assms by (auto simp: first_le_def first_ok_def)
  have "fa f ! k = fa g ! k" if "k < 128" for k
    using assms that unfolding first_le_def first_has_def
    by (metis nat_int of_nat_0_le_iff of_nat_less_numeral_iff)
  then have "fa f = fa g" using l by (intro nth_equalityI) auto
  moreover have "fw f = fw g" using assms unfolding first_le_def first_has_def by (metis less_irrefl zero_le_numeral)
  ultimately show ?thesis by (cases f; cases g) simp
qed

definition room :: "first_set \<Rightarrow> nat" where
  "room f = length (filter (\<lambda>b. \<not> b) (fa f)) + (if fw f then 0 else 1)"

lemma fewer_false: "list_all2 (\<longrightarrow>) a b \<Longrightarrow> length (filter (\<lambda>x. \<not> x) b) \<le> length (filter (\<lambda>x. \<not> x) a) \<and>
    (a \<noteq> b \<longrightarrow> length (filter (\<lambda>x. \<not> x) b) < length (filter (\<lambda>x. \<not> x) a))"
  by (induction rule: list_all2_induct) auto

lemma room_less:
  assumes "first_le f g" and "f \<noteq> g"
  shows "room g < room f"
proof -
  have l: "length (fa f) = 128" "length (fa g) = 128" using assms by (auto simp: first_le_def first_ok_def)
  have "fa f ! k \<longrightarrow> fa g ! k" if "k < 128" for k
    using assms that unfolding first_le_def first_has_def
    by (metis nat_int of_nat_0_le_iff of_nat_less_numeral_iff)
  then have a: "list_all2 (\<longrightarrow>) (fa f) (fa g)" using l by (auto simp: list_all2_conv_all_nth)
  have w: "fw f \<longrightarrow> fw g" using assms unfolding first_le_def first_has_def by (metis less_irrefl zero_le_numeral)
  have "fa f \<noteq> fa g \<or> fw f \<noteq> fw g" using assms(2) by (cases f; cases g) auto
  then show ?thesis using fewer_false [OF a] w by (auto simp: room_def)
qed

lemma sum_update: "i < length xs \<Longrightarrow> (m y :: nat) < m (xs ! i) \<Longrightarrow> sum_list (map m (xs[i := y])) < sum_list (map m xs)"
proof (induction xs arbitrary: i)
  case (Cons x xs)
  then show ?case by (cases i) auto
qed simp

lemma fst_pass_pass:
  "fst_pass rs nul s = pass (\<lambda>i fs. first_of rs nul fs (ri_e (rs ! i)) \<noteq> fs ! i)
     (\<lambda>i fs. fs[i := first_of rs nul fs (ri_e (rs ! i))]) [0..<length rs] (fst s, False)"
  by (simp add: fst_pass_def pass_def Let_def)

definition rising :: "rule_in list \<Rightarrow> bool list \<Rightarrow> first_set list \<Rightarrow> bool" where
  "rising rs nul fs \<longleftrightarrow>
     length fs = length rs \<and> (\<forall>i < length rs. first_le (fs ! i) (first_of rs nul fs (ri_e (rs ! i))))"

lemma rising_ok: "rising rs nul fs \<Longrightarrow> \<forall>f \<in> set fs. first_ok f"
  by (auto simp: rising_def first_le_def in_set_conv_nth)

lemma rising_step:
  assumes "rising rs nul fs" and "i < length rs"
  shows "rising rs nul (fs[i := first_of rs nul fs (ri_e (rs ! i))])"
proof -
  define gs where "gs = fs[i := first_of rs nul fs (ri_e (rs ! i))]"
  have l: "length fs = length rs" using assms by (simp add: rising_def)
  have up: "firsts_le fs gs"
    using assms rising_ok [OF assms(1)] by (auto simp: firsts_le_def gs_def rising_def list_all2_conv_all_nth nth_list_update)
  have "first_le (gs ! j) (first_of rs nul gs (ri_e (rs ! j)))" if j: "j < length rs" for j
  proof -
    have "first_le (gs ! j) (first_of rs nul fs (ri_e (rs ! j)))"
      using assms j l first_of_ok [OF rising_ok [OF assms(1)] l] by (cases "j = i") (auto simp: gs_def rising_def)
    then show ?thesis using first_of_mono [OF up l] first_le_trans by blast
  qed
  then show ?thesis using l by (simp add: rising_def gs_def)
qed

lemma fst_loop:
  "\<exists>fs. while_option snd (fst_pass rs nul) (replicate (length rs) first_empty, True) = Some (fs, False) \<and>
     length fs = length rs \<and> (\<forall>f \<in> set fs. first_ok f) \<and> (\<forall>i < length rs. first_of rs nul fs (ri_e (rs ! i)) = fs ! i)"
proof -
  let ?C = "\<lambda>i fs. first_of rs nul fs (ri_e (rs ! i)) \<noteq> fs ! i"
  let ?U = "\<lambda>i fs. fs[i := first_of rs nul fs (ri_e (rs ! i))]"
  have start: "rising rs nul (replicate (length rs) first_empty)"
    by (auto simp: rising_def first_le_def intro!: first_of_ok)
  have "\<exists>fs. while_option snd (\<lambda>s. pass ?C ?U [0..<length rs] (fst s, False)) (replicate (length rs) first_empty, True) =
      Some (fs, False) \<and> rising rs nul fs \<and> (\<forall>i \<in> set [0..<length rs]. \<not> ?C i fs)"
  proof (rule passes_end [where \<mu> = "\<lambda>fs. sum_list (map room fs)"])
    fix i fs
    assume a: "rising rs nul fs" "i \<in> set [0..<length rs]" "?C i fs"
    then have "first_le (fs ! i) (first_of rs nul fs (ri_e (rs ! i)))" "i < length fs" by (auto simp: rising_def)
    then show "rising rs nul (?U i fs) \<and> sum_list (map room (?U i fs)) < sum_list (map room fs)"
      using a rising_step [OF a(1)] sum_update [of i fs room] room_less by auto
  qed (rule start)
  then obtain fs where fs: "while_option snd (fst_pass rs nul) (replicate (length rs) first_empty, True) = Some (fs, False)"
      "rising rs nul fs" "\<forall>i \<in> set [0..<length rs]. \<not> ?C i fs"
    unfolding fst_pass_pass [abs_def] by blast
  then show ?thesis using rising_ok [OF fs(2)] by (intro exI [of _ fs]) (auto simp: rising_def)
qed

text \<open>An analysis that is a fixed point.\<close>

definition an_ok :: "analysis \<Rightarrow> bool" where
  "an_ok an \<longleftrightarrow>
     length (an_nul an) = length (an_rules an) \<and> length (an_fst an) = length (an_rules an) \<and>
     (\<forall>f \<in> set (an_fst an). first_ok f) \<and>
     (\<forall>i < length (an_rules an).
        (an_nullable an (ri_e (an_rules an ! i)) \<longrightarrow> an_nul an ! i) \<and>
        an_first an (ri_e (an_rules an ! i)) = an_fst an ! i)"

text \<open>Both loops of the analysis end, whatever the rules refer to, and what they leave is a fixed point:
  no rule's nullability or first set would change if it were computed again.\<close>

lemma analyse_ends: "\<exists>an. analyse rs = Some an \<and> an_rules an = rs \<and> an_ok an"
proof -
  obtain nul where n: "while_option snd (nul_pass rs) (replicate (length rs) False, True) = Some (nul, False)"
      "length nul = length rs" "\<forall>i < length rs. nullable rs nul (ri_e (rs ! i)) \<longrightarrow> nul ! i"
    using nul_loop by blast
  obtain fs where f: "while_option snd (fst_pass rs nul) (replicate (length rs) first_empty, True) = Some (fs, False)"
      "length fs = length rs" "\<forall>f \<in> set fs. first_ok f" "\<forall>i < length rs. first_of rs nul fs (ri_e (rs ! i)) = fs ! i"
    using fst_loop by blast
  show ?thesis
    using n f by (intro exI [of _ "\<lparr>an_rules = rs, an_nul = nul, an_fst = fs\<rparr>"])
      (simp add: analyse_def an_ok_def an_nullable_def an_first_def)
qed

section \<open>What the analyses say of a match\<close>

text \<open>Where skip leaves what it is given; and the place an expression's first character is looked at.\<close>

definition fixed :: "rule_in list \<Rightarrow> int list \<Rightarrow> int \<Rightarrow> bool" where
  "fixed rs cs p \<longleftrightarrow> (\<forall>v. means rs cs (GSkip p) v \<longrightarrow> v = p)"

definition start_at :: "rule_in list \<Rightarrow> int list \<Rightarrow> bool \<Rightarrow> int \<Rightarrow> bool \<Rightarrow> int \<Rightarrow> bool" where
  "start_at rs cs ws p skd s \<longleftrightarrow>
     (if ws \<and> \<not> skd then fixed rs cs s \<and> (\<forall>v. means rs cs (GSkip p) v \<longrightarrow> v = s)
      else s = p \<and> (ws \<longrightarrow> fixed rs cs p))"

lemma start_is: "ref_start (peg rs cs f) ws p skd = Some x \<Longrightarrow> start_at rs cs ws p skd s \<Longrightarrow> x = s"
  by (auto simp: ref_start_def start_at_def dest: peg_means split: if_splits)

lemma start_next: "start_at rs cs ws p skd s \<Longrightarrow> r = p \<or> r = s \<Longrightarrow> start_at rs cs ws r False s"
  by (auto simp: start_at_def fixed_def split: if_splits)

lemma start_skd: "start_at rs cs ws p True s \<longleftrightarrow> s = p \<and> (ws \<longrightarrow> fixed rs cs p)"
  by (auto simp: start_at_def)

lemma start_fixed: "start_at rs cs ws p skd s \<Longrightarrow> ws \<Longrightarrow> fixed rs cs s"
  by (auto simp: start_at_def split: if_splits)

text \<open>
  The grammars the analyses are sound for: every name is a rule's; tokens and \<open>skip\<close> refer to such rules only
  (no skipping starts inside a token); a table's operand cannot match nothing.
\<close>

fun fine :: "analysis \<Rightarrow> bool \<Rightarrow> pexp \<Rightarrow> bool" where
  "fine an ws (ELit l _ _) \<longleftrightarrow> (\<forall>c \<in> set l. 0 \<le> c)"
| "fine an ws (EClass _ _ _) \<longleftrightarrow> True"
| "fine an ws EAny \<longleftrightarrow> True"
| "fine an ws (ERef n) \<longleftrightarrow>
     (case rule_index (an_rules an) n of Some i \<Rightarrow> ws \<or> \<not> rule_ws (an_rules an ! i) | None \<Rightarrow> False)"
| "fine an ws (ESeq xs) \<longleftrightarrow> list_all (fine an ws) xs"
| "fine an ws (EAlt xs) \<longleftrightarrow> list_all (fine an ws) xs"
| "fine an ws (EStar x) \<longleftrightarrow> fine an ws x"
| "fine an ws (EPlus x) \<longleftrightarrow> fine an ws x"
| "fine an ws (EOpt x) \<longleftrightarrow> fine an ws x"
| "fine an ws (EAnd x) \<longleftrightarrow> fine an ws x"
| "fine an ws (ENot x) \<longleftrightarrow> fine an ws x"
| "fine an ws (ELabel _ x) \<longleftrightarrow> fine an ws x"
| "fine an ws (EPrec atom levels) \<longleftrightarrow>
     fine an ws atom \<and> \<not> an_nullable an atom \<and> list_all (\<lambda>(assoc, os). list_all (fine an ws) os) levels"

definition fine_rules :: "analysis \<Rightarrow> bool" where
  "fine_rules an \<longleftrightarrow> (\<forall>r \<in> set (an_rules an). fine an (rule_ws r) (ri_e r))"

lemma first_fold_has:
  assumes "\<And>x. x \<in> set xs \<Longrightarrow> first_ok (F x)" and "first_ok a"
  shows "first_ok (fold (\<lambda>x acc. first_union acc (F x)) xs a) \<and>
    (first_has (fold (\<lambda>x acc. first_union acc (F x)) xs a) c \<longleftrightarrow> first_has a c \<or> (\<exists>x \<in> set xs. first_has (F x) c))"
  using assms by (induction xs arbitrary: a) auto

lemma first_prec_has:
  assumes "\<And>x. first_ok (F x)" and "first_ok a"
  shows "first_has
     (fold (\<lambda>(assoc, os) acc. if assoc = ''prefix'' then fold (\<lambda>x acc. first_union acc (F x)) os acc else acc) levels a) c \<longleftrightarrow>
    first_has a c \<or> (\<exists>os x. (''prefix'', os) \<in> set levels \<and> x \<in> set os \<and> first_has (F x) c)"
  using assms(2)
proof (induction levels arbitrary: a)
  case (Cons l levels)
  obtain assoc os where l: "l = (assoc, os)" by fastforce
  show ?case
  proof (cases "assoc = ''prefix''")
    case True
    have "first_ok (fold (\<lambda>x acc. first_union acc (F x)) os a)" "first_has (fold (\<lambda>x acc. first_union acc (F x)) os a) c \<longleftrightarrow>
        first_has a c \<or> (\<exists>x \<in> set os. first_has (F x) c)"
      using first_fold_has [of os F a c] assms(1) Cons.prems by auto
    then show ?thesis using Cons.IH [of "fold (\<lambda>x acc. first_union acc (F x)) os a"] True l by auto
  qed (use Cons l in auto)
qed simp

fun seq_has :: "rule_in list \<Rightarrow> bool list \<Rightarrow> first_set list \<Rightarrow> pexp list \<Rightarrow> int \<Rightarrow> bool" where
  "seq_has rs nul fs [] c \<longleftrightarrow> False"
| "seq_has rs nul fs (x # xs) c \<longleftrightarrow> first_has (first_of rs nul fs x) c \<or> nullable rs nul x \<and> seq_has rs nul fs xs c"

lemma first_seq_has:
  assumes "\<And>x. first_ok (first_of rs nul fs x)" and "first_ok a"
  shows "first_has (first_seq rs nul fs xs a) c \<longleftrightarrow> first_has a c \<or> seq_has rs nul fs xs c"
  using assms(2)
proof (induction xs arbitrary: a)
  case (Cons x xs)
  have u: "first_ok (first_union a (first_of rs nul fs x))" using Cons.prems assms(1) by simp
  show ?case
    using Cons.IH [OF u] first_union_has [OF Cons.prems assms(1)] by (simp add: Let_def)
qed simp

lemma table_prefix:
  assumes "(Prefix, lev, e) \<in> set (table_ops levels)"
  shows "\<exists>os. (''prefix'', os) \<in> set levels \<and> e \<in> set os"
proof -
  have "((fx, lev, e), k) \<in> set (level_ops n levels) \<Longrightarrow> fx = Prefix \<Longrightarrow> \<exists>os. (''prefix'', os) \<in> set levels \<and> e \<in> set os" for fx n k
    by (induction n levels rule: level_ops.induct) (auto simp: fix_or_def fix_of_def split: if_splits)
  then show ?thesis using assms by (auto simp: table_ops_def)
qed

lemma table_fine:
  assumes "list_all (\<lambda>(assoc, os). list_all (fine an ws) os) levels" and "(f, lev, e) \<in> set (table_ops levels)"
  shows "fine an ws e"
proof -
  have "((f, lev, e), k) \<in> set (level_ops n levels) \<Longrightarrow> fine an ws e" for n k
    using assms(1) by (induction n levels rule: level_ops.induct) (auto simp: list_all_iff)
  then show ?thesis using assms(2) by (auto simp: table_ops_def)
qed

lemma lit_first:
  assumes "lit_here cs s ci (c # l)" and "0 \<le> c"
  shows "first_has (if ci \<and> is_letter c then first_ranges [(lower c, lower c), (upper c, upper c)] False
      else first_ranges [(c, c)] False) (char_at cs s)"
  using assms
  by (auto simp: fold_code_def lower_def upper_def is_letter_def in_class_def in_ranges_def intro!: first_ranges_class
      split: if_splits)

text \<open>A goal's claim.\<close>

definition starts_or_empty :: "analysis \<Rightarrow> int list \<Rightarrow> pexp \<Rightarrow> int \<Rightarrow> int \<Rightarrow> int \<Rightarrow> bool" where
  "starts_or_empty an cs e p s r \<longleftrightarrow> first_has (an_first an e) (char_at cs s) \<or> an_nullable an e \<and> (r = p \<or> r = s)"

fun first_claim :: "analysis \<Rightarrow> int list \<Rightarrow> goal \<Rightarrow> int \<Rightarrow> bool" where
  "first_claim an cs (GExp ws e p skd) r \<longleftrightarrow>
     (fine an ws e \<longrightarrow> (\<forall>s. start_at (an_rules an) cs ws p skd s \<longrightarrow> starts_or_empty an cs e p s r))"
| "first_claim an cs (GRule i p) r \<longleftrightarrow>
     (i < length (an_rules an) \<longrightarrow> (rule_ws (an_rules an ! i) \<longrightarrow> fixed (an_rules an) cs p) \<longrightarrow>
        first_has (an_fst an ! i) (char_at cs p) \<or> an_nul an ! i \<and> r = p)"
| "first_claim an cs (GStar ws x p) r \<longleftrightarrow>
     (fine an ws x \<longrightarrow> (\<forall>s. start_at (an_rules an) cs ws p False s \<longrightarrow>
        first_has (an_first an x) (char_at cs s) \<or> r = p \<or> r = s))"
| "first_claim an cs (GPrec ws atom os p ml) r \<longleftrightarrow>
     (\<forall>levels. os = table_ops levels \<longrightarrow> fine an ws (EPrec atom levels) \<longrightarrow> (ws \<longrightarrow> fixed (an_rules an) cs p) \<longrightarrow>
        first_has (an_first an (EPrec atom levels)) (char_at cs p))"
| "first_claim an cs g r \<longleftrightarrow> True"

definition ref_claims :: "analysis \<Rightarrow> int list \<Rightarrow> nat \<Rightarrow> bool" where
  "ref_claims an cs f \<longleftrightarrow> (\<forall>g r. peg (an_rules an) cs f g = Some r \<longrightarrow> 0 \<le> r \<longrightarrow> first_claim an cs g r)"

lemma claim: "ref_claims an cs f \<Longrightarrow> peg (an_rules an) cs f g = Some r \<Longrightarrow> 0 \<le> r \<Longrightarrow> first_claim an cs g r"
  by (simp add: ref_claims_def)

lemma an_first_ok: "an_ok an \<Longrightarrow> first_ok (an_first an e)"
  unfolding an_first_def by (rule first_of_ok) (auto simp: an_ok_def)

lemma seq_claim:
  assumes "ref_claims an cs f" and "start_at (an_rules an) cs ws p skd s" and "list_all (fine an ws) xs"
    and "ref_seq (peg (an_rules an) cs f) ws xs q skd' = Some r" and "0 \<le> r"
    and "q = p \<and> skd' = skd \<or> (q = p \<or> q = s) \<and> \<not> skd'"
  shows "seq_has (an_rules an) (an_nul an) (an_fst an) xs (char_at cs s) \<or>
    list_all (an_nullable an) xs \<and> (r = p \<or> r = s)"
  using assms(3-)
proof (induction xs arbitrary: q skd')
  case Nil
  then show ?case by auto
next
  case (Cons x xs)
  obtain r1 where r1: "peg (an_rules an) cs f (GExp ws x q skd') = Some r1"
      "(if r1 < 0 then Some (-1) else ref_seq (peg (an_rules an) cs f) ws xs r1 False) = Some r"
    using Cons.prems(2) by (auto simp: bind_eq_Some_conv)
  have p1: "0 \<le> r1" "ref_seq (peg (an_rules an) cs f) ws xs r1 False = Some r"
    using r1(2) Cons.prems(3) by (auto split: if_splits)
  have st: "start_at (an_rules an) cs ws q skd' s" using Cons.prems(4) assms(2) start_next [OF assms(2), of q] by auto
  have "starts_or_empty an cs x q s r1" using claim [OF assms(1) r1(1) p1(1)] Cons.prems(1) st by simp
  then consider "first_has (an_first an x) (char_at cs s)" | "an_nullable an x" "r1 = p \<or> r1 = s"
    using Cons.prems(4) by (auto simp: starts_or_empty_def)
  then show ?case
  proof cases
    case 1
    then show ?thesis by (simp add: an_first_def)
  next
    case 2
    then show ?thesis using Cons.IH [of r1 False] Cons.prems(1,3) p1 by (auto simp: an_nullable_def)
  qed
qed

lemma alt_claim:
  assumes "ref_alt (peg rs cs f) ws xs p skd = Some r" and "0 \<le> r"
  shows "\<exists>x \<in> set xs. peg rs cs f (GExp ws x p skd) = Some r"
  using assms by (induction xs) (auto simp: bind_eq_Some_conv split: if_splits)

lemma prefix_claim:
  assumes "ref_prefix (peg rs cs f) ws p os = Some (pl, pe)" and "0 \<le> pl"
  shows "0 \<le> pe \<and> (\<exists>fx lev e. (fx, lev, e) \<in> set os \<and> peg rs cs f (GExp ws e p True) = Some pe)"
  using assms by (induction os) (auto simp: bind_eq_Some_conv split: if_splits, blast+)

lemma first_ref_exp:
  assumes "an_ok an" and "ref_claims an cs f" and "ref_exp (an_rules an) cs (peg (an_rules an) cs f) ws e p skd = Some r"
    and "0 \<le> r" and "fine an ws e" and "start_at (an_rules an) cs ws p skd s"
  shows "starts_or_empty an cs e p s r"
proof -
  let ?rs = "an_rules an"
  note st = start_is [OF _ assms(6)]
  note ok = an_first_ok [OF assms(1), unfolded an_first_def]
  show ?thesis
  proof (cases e)
    case (ELit l t ci)
    show ?thesis
    proof (cases l)
      case Nil
      then show ?thesis using assms(3) ELit by (simp add: ref_exp_def starts_or_empty_def an_nullable_def)
    next
      case (Cons c l')
      obtain x where "ref_start (peg ?rs cs f) ws p skd = Some x" "lit_here cs x ci l"
        using assms(3,4) ELit Cons by (auto simp: ref_exp_def bind_eq_Some_conv split: if_splits)
      then have "lit_here cs s ci (c # l')" using st Cons by simp
      from lit_first [OF this] show ?thesis
        using assms(5) ELit Cons by (simp add: starts_or_empty_def an_first_def)
    qed
  next
    case (EClass ranges neg t)
    then obtain x where "ref_start (peg ?rs cs f) ws p skd = Some x" "in_class ranges neg (char_at cs x)"
      using assms(3,4) by (auto simp: ref_exp_def bind_eq_Some_conv split: if_splits)
    then show ?thesis using st EClass by (auto simp: starts_or_empty_def an_first_def intro: first_ranges_class)
  next
    case EAny
    then obtain x where "ref_start (peg ?rs cs f) ws p skd = Some x" "0 \<le> char_at cs x"
      using assms(3,4) by (auto simp: ref_exp_def bind_eq_Some_conv split: if_splits)
    then show ?thesis using st EAny by (auto simp: starts_or_empty_def an_first_def)
  next
    case (ERef n)
    then obtain i x where i: "rule_index ?rs n = Some i" "ref_start (peg ?rs cs f) ws p skd = Some x"
        "peg ?rs cs f (GRule i x) = Some r"
      using assms(3) by (auto simp: ref_exp_def bind_eq_Some_conv split: option.splits)
    have x: "x = s" using st i(2) by simp
    have "rule_ws (?rs ! i) \<longrightarrow> fixed ?rs cs s" using assms(5) ERef i(1) start_fixed [OF assms(6)] by auto
    then have "first_has (an_fst an ! i) (char_at cs s) \<or> an_nul an ! i \<and> r = s"
      using claim [OF assms(2) i(3) assms(4)] x rule_index_name [OF i(1)] by simp
    then show ?thesis using ERef i(1) by (auto simp: starts_or_empty_def an_first_def an_nullable_def)
  next
    case (ESeq xs)
    then have "ref_seq (peg ?rs cs f) ws xs p skd = Some r" using assms(3) by (simp add: ref_exp_def)
    from seq_claim [OF assms(2,6) _ this assms(4)] show ?thesis
      using ESeq assms(5) first_seq_has [OF ok, of first_empty xs "char_at cs s"]
      by (auto simp: starts_or_empty_def an_first_def an_nullable_def [abs_def])
  next
    case (EAlt xs)
    then have "ref_alt (peg ?rs cs f) ws xs p skd = Some r" using assms(3) by (simp add: ref_exp_def)
    from alt_claim [OF this assms(4)] obtain x where x: "x \<in> set xs" "peg ?rs cs f (GExp ws x p skd) = Some r" by blast
    have "starts_or_empty an cs x p s r"
      using claim [OF assms(2) x(2) assms(4)] assms(5,6) EAlt x(1) by (auto simp: list_all_iff)
    then show ?thesis
      using EAlt x(1) first_fold_has [of xs "first_of ?rs (an_nul an) (an_fst an)" first_empty "char_at cs s"] ok
      by (auto simp: starts_or_empty_def an_first_def an_nullable_def list_ex_iff)
  next
    case (EStar x)
    then have "peg ?rs cs f (GStar ws x p) = Some r" using assms(3) by (simp add: ref_exp_def)
    note c = claim [OF assms(2) this assms(4)]
    have "skd \<Longrightarrow> start_at ?rs cs ws p False s" using start_next [OF assms(6), of p] by simp
    then have "start_at ?rs cs ws p False s" using assms(6) by (cases skd) auto
    then show ?thesis using c EStar assms(5) by (auto simp: starts_or_empty_def an_first_def an_nullable_def)
  next
    case (EPlus x)
    then obtain r1 where r1: "peg ?rs cs f (GExp ws x p skd) = Some r1" "0 \<le> r1" "peg ?rs cs f (GStar ws x r1) = Some r"
      using assms(3,4) by (auto simp: ref_exp_def bind_eq_Some_conv split: if_splits)
    have "starts_or_empty an cs x p s r1" using claim [OF assms(2) r1(1,2)] assms(5,6) EPlus by simp
    then consider "first_has (an_first an x) (char_at cs s)" | "an_nullable an x" "r1 = p \<or> r1 = s"
      by (auto simp: starts_or_empty_def)
    then show ?thesis
    proof cases
      case 1
      then show ?thesis using EPlus by (simp add: starts_or_empty_def an_first_def)
    next
      case 2
      have "start_at ?rs cs ws r1 False s" using start_next [OF assms(6) 2(2)] .
      then show ?thesis
        using claim [OF assms(2) r1(3) assms(4)] 2 EPlus assms(5)
        by (auto simp: starts_or_empty_def an_first_def an_nullable_def)
    qed
  next
    case (EOpt x)
    then obtain r1 where r1: "peg ?rs cs f (GExp ws x p skd) = Some r1" "r = (if r1 \<ge> 0 then r1 else p)"
      using assms(3) by (auto simp: ref_exp_def bind_eq_Some_conv)
    then show ?thesis
      using claim [OF assms(2) r1(1)] assms(5,6) EOpt by (auto simp: starts_or_empty_def an_first_def an_nullable_def)
  next
    case (EAnd x)
    then show ?thesis using assms(3,4)
      by (auto simp: ref_exp_def bind_eq_Some_conv starts_or_empty_def an_nullable_def split: if_splits)
  next
    case (ENot x)
    then show ?thesis using assms(3,4)
      by (auto simp: ref_exp_def bind_eq_Some_conv starts_or_empty_def an_nullable_def split: if_splits)
  next
    case (ELabel n x)
    then have "peg ?rs cs f (GExp ws x p skd) = Some r" using assms(3) by (simp add: ref_exp_def)
    from claim [OF assms(2) this assms(4)] show ?thesis
      using assms(5,6) ELabel by (auto simp: starts_or_empty_def an_first_def an_nullable_def)
  next
    case (EPrec atom levels)
    then obtain x where x: "ref_start (peg ?rs cs f) ws p skd = Some x" "peg ?rs cs f (GPrec ws atom (table_ops levels) x 0) = Some r"
      using assms(3) by (auto simp: ref_exp_def bind_eq_Some_conv)
    have "x = s" using st x(1) by simp
    then show ?thesis
      using claim [OF assms(2) x(2) assms(4)] assms(5) EPrec start_fixed [OF assms(6)] by (simp add: starts_or_empty_def)
  qed
qed

lemma ref_claims_all:
  assumes "an_ok an" and "fine_rules an"
  shows "ref_claims an cs f"
proof (induction f)
  case 0
  then show ?case by (simp add: ref_claims_def)
next
  case (Suc f)
  let ?rs = "an_rules an"
  show ?case
    unfolding ref_claims_def
  proof (intro allI impI)
    fix g r
    assume g: "peg ?rs cs (Suc f) g = Some r" and r: "(0 :: int) \<le> r"
    show "first_claim an cs g r"
    proof (cases g)
      case (GExp ws e p skd)
      then show ?thesis using first_ref_exp [OF assms(1) Suc.IH _ r] g by (simp add: ref_step_def)
    next
      case (GRule i p)
      then have c: "peg ?rs cs f (GExp (rule_ws (?rs ! i)) (ri_e (?rs ! i)) p True) = Some r" using g by (simp add: ref_step_def)
      show ?thesis
        unfolding GRule first_claim.simps
      proof (intro impI)
        assume i: "i < length ?rs" and fx: "rule_ws (?rs ! i) \<longrightarrow> fixed ?rs cs p"
        have "fine an (rule_ws (?rs ! i)) (ri_e (?rs ! i))" using assms(2) i by (simp add: fine_rules_def)
        then have "starts_or_empty an cs (ri_e (?rs ! i)) p p r"
          using claim [OF Suc.IH c r] fx by (simp add: start_skd)
        then show "first_has (an_fst an ! i) (char_at cs p) \<or> an_nul an ! i \<and> r = p"
          using assms(1) i by (auto simp: starts_or_empty_def an_ok_def)
      qed
    next
      case (GStar ws x p)
      then obtain r1 where r1: "peg ?rs cs f (GExp ws x p False) = Some r1"
          "(if r1 < 0 \<or> r1 \<le> p then Some p else peg ?rs cs f (GStar ws x r1)) = Some r"
        using g by (auto simp: ref_step_def bind_eq_Some_conv)
      show ?thesis
        unfolding GStar first_claim.simps
      proof (intro impI allI)
        fix s
        assume fx: "fine an ws x" and s: "start_at ?rs cs ws p False s"
        show "first_has (an_first an x) (char_at cs s) \<or> r = p \<or> r = s"
        proof (cases "r1 < 0 \<or> r1 \<le> p")
          case True
          then show ?thesis using r1(2) by simp
        next
          case False
          then have "starts_or_empty an cs x p s r1" using claim [OF Suc.IH r1(1)] fx s by simp
          then consider "first_has (an_first an x) (char_at cs s)" | "r1 = s" using False by (auto simp: starts_or_empty_def)
          then show ?thesis
          proof cases
            case 2
            have "start_at ?rs cs ws s False s" using start_next [OF s] by simp
            then show ?thesis using claim [OF Suc.IH _ r, of "GStar ws x r1"] r1(2) False 2 fx by auto
          qed simp
        qed
      qed
    next
      case (GPrec ws atom os p ml)
      show ?thesis
        unfolding GPrec first_claim.simps
      proof (intro impI allI)
        fix levels
        assume os: "os = table_ops levels" and fn: "fine an ws (EPrec atom levels)" and fx: "ws \<longrightarrow> fixed ?rs cs p"
        have ok: "first_ok (first_of ?rs (an_nul an) (an_fst an) x)" for x
          using an_first_ok [OF assms(1)] by (simp add: an_first_def)
        note fh = first_prec_has [of "first_of ?rs (an_nul an) (an_fst an)" "first_of ?rs (an_nul an) (an_fst an) atom" levels "char_at cs p", OF ok ok]
        obtain pl pe q where c: "ref_prefix (peg ?rs cs f) ws p (with_fix (\<lambda>f. f = Prefix) os) = Some (pl, pe)"
            "(if pl \<ge> 0 then do { x \<leftarrow> ref_sk (peg ?rs cs f) ws pe; peg ?rs cs f (GPrec ws atom os x (nat pl)) }
              else peg ?rs cs f (GExp ws atom p True)) = Some q"
            "(if q \<ge> 0 then peg ?rs cs f (GTail ws atom os q ml) else Some q) = Some r"
          using g GPrec by (auto simp: ref_step_def bind_eq_Some_conv)
        have q: "0 \<le> q" using c(3) r by (auto split: if_splits)
        show "first_has (an_first an (EPrec atom levels)) (char_at cs p)"
        proof (cases "pl \<ge> 0")
          case False
          then have "peg ?rs cs f (GExp ws atom p True) = Some q" using c(2) by simp
          from claim [OF Suc.IH this q] have "starts_or_empty an cs atom p p q" using fn fx by (simp add: start_skd)
          then show ?thesis using fn fh by (simp add: starts_or_empty_def an_first_def)
        next
          case True
          obtain lev e where e: "(Prefix, lev, e) \<in> set os" "peg ?rs cs f (GExp ws e p True) = Some pe" "0 \<le> pe"
            using prefix_claim [OF c(1) True] by (auto simp: with_fix_def)
          obtain os' where os': "(''prefix'', os') \<in> set levels" "e \<in> set os'" using table_prefix e(1) os by blast
          have "fine an ws e" using table_fine e(1) os fn by fastforce
          then have "starts_or_empty an cs e p p pe" using claim [OF Suc.IH e(2,3)] fx by (simp add: start_skd)
          then consider "first_has (an_first an e) (char_at cs p)" | "pe = p" by (auto simp: starts_or_empty_def)
          then show ?thesis
          proof cases
            case 1
            then show ?thesis using fh os' by (auto simp: an_first_def)
          next
            case 2
            obtain x where x: "ref_sk (peg ?rs cs f) ws p = Some x" "peg ?rs cs f (GPrec ws atom os x (nat pl)) = Some q"
              using c(2) True 2 by (auto simp: bind_eq_Some_conv)
            have "x = p" using x(1) fx by (auto simp: ref_sk_def fixed_def dest: peg_means split: if_splits)
            then show ?thesis using claim [OF Suc.IH x(2) q] os fn fx by simp
          qed
        qed
      qed
    qed simp_all
  qed
qed

end
