(* ===== verification/PegBuild.thy ===== *)
theory PegBuild
  imports PegSafe PegFirst
begin

text \<open>
  What \<open>build\<close> makes of a grammar: a flat grammar that is well formed, in which every rule's body stands
  for the expression the rule was written as, specialised loops and guards included.
\<close>

section \<open>An id stands for an expression\<close>

text \<open>In arrays \<open>X\<close> and \<open>T\<close>; \<open>tk\<close> says whether the rule is a token's, which is where loops are specialised.\<close>

inductive repr :: "analysis \<Rightarrow> xexpr list \<Rightarrow> prec_table list \<Rightarrow> bool \<Rightarrow> nat \<Rightarrow> pexp \<Rightarrow> bool" for an X T tk where
  r_empty: "i < length X \<Longrightarrow> X ! i = XEmpty \<Longrightarrow> repr an X T tk i (ELit [] s ci)"
| r_lit: "i < length X \<Longrightarrow> X ! i = XLit (map (fold_code ci) l) ci d \<Longrightarrow> l \<noteq> [] \<Longrightarrow> repr an X T tk i (ELit l s ci)"
| r_class: "i < length X \<Longrightarrow> X ! i = XClass (of_class rg neg) d \<Longrightarrow> repr an X T tk i (EClass rg neg src)"
| r_any: "i < length X \<Longrightarrow> X ! i = XAny \<Longrightarrow> repr an X T tk i EAny"
| r_ref: "i < length X \<Longrightarrow> X ! i = XRef r \<Longrightarrow> rule_index (an_rules an) n = Some r \<Longrightarrow> repr an X T tk i (ERef n)"
| r_seq: "i < length X \<Longrightarrow> X ! i = XSeq is \<Longrightarrow> list_all2 (repr an X T tk) is es \<Longrightarrow> repr an X T tk i (ESeq es)"
| r_alt: "i < length X \<Longrightarrow> X ! i = XAlt is (alt_guards an es) \<Longrightarrow> list_all2 (repr an X T tk) is es \<Longrightarrow>
    repr an X T tk i (EAlt es)"
| r_star: "i < length X \<Longrightarrow> X ! i = XStar j \<Longrightarrow> repr an X T tk j e \<Longrightarrow> repr an X T tk i (EStar e)"
| r_run: "i < length X \<Longrightarrow> X ! i = XStarClass (of_class rg neg) d \<Longrightarrow> tk \<Longrightarrow> repr an X T tk i (EStar (EClass rg neg src))"
| r_lead: "i < length X \<Longrightarrow> X ! i = XStarLead (of_class rg neg) j k \<Longrightarrow> tk \<Longrightarrow>
    repr an X T tk j (if es = [] then e else EAlt (e # es)) \<Longrightarrow> repr an X T tk k (EAlt (EClass rg neg src # e # es)) \<Longrightarrow>
    repr an X T tk i (EStar (EAlt (EClass rg neg src # e # es)))"
| r_plus: "i < length X \<Longrightarrow> X ! i = XPlus j \<Longrightarrow> repr an X T tk j e \<Longrightarrow> repr an X T tk i (EPlus e)"
| r_opt: "i < length X \<Longrightarrow> X ! i = XOpt j \<Longrightarrow> repr an X T tk j e \<Longrightarrow> repr an X T tk i (EOpt e)"
| r_and: "i < length X \<Longrightarrow> X ! i = XAnd j \<Longrightarrow> repr an X T tk j e \<Longrightarrow> repr an X T tk i (EAnd e)"
| r_not: "i < length X \<Longrightarrow> X ! i = XNot j (e = EAny) \<Longrightarrow> repr an X T tk j e \<Longrightarrow> repr an X T tk i (ENot e)"
| r_label: "i < length X \<Longrightarrow> X ! i = XLabel k j w ls \<Longrightarrow> repr an X T tk j e \<Longrightarrow> repr an X T tk i (ELabel n e)"
| r_prec: "i < length X \<Longrightarrow> X ! i = XPrec t \<Longrightarrow> t < length T \<Longrightarrow> repr an X T tk (pr_atom (T ! t)) atom \<Longrightarrow>
    list_all2 (\<lambda>o' q. po_fix o' = fst q \<and> po_lev o' = fst (snd q) \<and> repr an X T tk (po_e o') (snd (snd q)))
      (pr_ops (T ! t)) (table_ops levels) \<Longrightarrow>
    repr an X T tk i (EPrec atom levels)"

lemma repr_more: "repr an X T tk i e \<Longrightarrow> repr an (X @ X') (T @ T') tk i e"
proof (induction rule: repr.induct)
  case (r_seq i "is" es)
  then show ?case by (intro repr.r_seq) (auto simp: nth_append elim: list.rel_mono_strong)
next
  case (r_alt i "is" es)
  then show ?case by (intro repr.r_alt) (auto simp: nth_append elim: list.rel_mono_strong)
next
  case (r_prec i t atom levels)
  then show ?case by (intro repr.r_prec [where t = t]) (auto simp: nth_append elim: list.rel_mono_strong)
qed (rule repr.intros; (simp add: nth_append; fail | assumption))+

section \<open>Arrays that are well formed\<close>

definition x_fits :: "nat \<Rightarrow> prec_table list \<Rightarrow> nat \<Rightarrow> xexpr \<Rightarrow> bool" where
  "x_fits n T i e \<longleftrightarrow>
     (\<forall>j \<in> set (x_parts e). j < i) \<and>
     (case e of
        XLit cs _ _ \<Rightarrow> cs \<noteq> [] \<and> (\<forall>c \<in> set cs. 0 \<le> c)
      | XRef r \<Rightarrow> r < n
      | XPrec t \<Rightarrow> t < length T \<and> pr_atom (T ! t) < i \<and> (\<forall>o' \<in> set (pr_ops (T ! t)). po_e o' < i)
      | _ \<Rightarrow> True)"

lemma x_fits_ok: "x_ok g i e \<longleftrightarrow> x_fits (length (rules g)) (precs g) i e"
  by (simp add: x_ok_def x_fits_def)

lemma x_fits_more: "x_fits n T i e \<Longrightarrow> x_fits n (T @ T') i e"
  by (auto simp: x_fits_def nth_append split: xexpr.splits)

text \<open>The builder's arrays, and that a step only adds to them.\<close>

definition b_ok :: "nat \<Rightarrow> builder \<Rightarrow> bool" where
  "b_ok n b \<longleftrightarrow>
     (\<forall>i < length (b_exprs b). x_fits n (b_precs b) i (b_exprs b ! i)) \<and>
     (\<forall>t \<in> set (b_precs b). pr_atom t < length (b_exprs b) \<and> (\<forall>o' \<in> set (pr_ops t). po_e o' < length (b_exprs b)))"

definition adds :: "builder \<Rightarrow> builder \<Rightarrow> bool" where
  "adds b b' \<longleftrightarrow>
     (\<exists>x. b_exprs b' = b_exprs b @ x) \<and> (\<exists>x. b_precs b' = b_precs b @ x) \<and> b_rules b' = b_rules b \<and>
     in_token b' = in_token b"

lemma adds_refl [simp]: "adds b b"
  by (simp add: adds_def)

lemma adds_trans [trans]: "adds b b' \<Longrightarrow> adds b' b'' \<Longrightarrow> adds b b''"
  by (auto simp: adds_def)

lemma adds_length: "adds b b' \<Longrightarrow> length (b_exprs b) \<le> length (b_exprs b')"
  by (auto simp: adds_def)

lemma adds_token: "adds b b' \<Longrightarrow> in_token b' = in_token b"
  by (simp add: adds_def)

text \<open>Naming a kind or a description touches neither array.\<close>

definition same_arrays :: "builder \<Rightarrow> builder \<Rightarrow> bool" where
  "same_arrays b b' \<longleftrightarrow>
     b_exprs b' = b_exprs b \<and> b_precs b' = b_precs b \<and> b_rules b' = b_rules b \<and> in_token b' = in_token b"

lemma same_kind: "same_arrays b (snd (b_kind n b))"
  by (auto simp: same_arrays_def b_kind_def Let_def split: option.split)

lemma same_desc: "same_arrays b (snd (b_desc n b))"
  by (auto simp: same_arrays_def b_desc_def Let_def split: option.split)

lemma same_trans: "same_arrays b b' \<Longrightarrow> same_arrays b' b'' \<Longrightarrow> same_arrays b b''"
  by (simp add: same_arrays_def)

lemma same_kinds: "same_arrays b (snd (b_kinds_of ns b))"
proof (induction ns arbitrary: b)
  case (Cons n ns)
  have "snd (b_kinds_of (n # ns) b) = snd (b_kinds_of ns (snd (b_kind n b)))" by (simp add: Let_def split: prod.split)
  then show ?case using same_trans [OF same_kind Cons.IH] by simp
qed (simp add: same_arrays_def)

lemma same_adds: "same_arrays b b' \<Longrightarrow> adds b b'"
  by (simp add: same_arrays_def adds_def)

lemma same_b_ok: "same_arrays b b' \<Longrightarrow> b_ok n b' = b_ok n b"
  by (simp add: same_arrays_def b_ok_def)

lemma push_ok:
  assumes "b_ok n b" and "x_fits n (b_precs b) (length (b_exprs b)) e" and "b_push e b = (i, b')"
  shows "b_ok n b'" and "adds b b'" and "i = length (b_exprs b)" and "b_exprs b' = b_exprs b @ [e]" and "b_precs b' = b_precs b"
    and "i < length (b_exprs b')" and "b_exprs b' ! i = e"
  using assms by (auto simp: b_push_def b_ok_def adds_def nth_append less_Suc_eq)

section \<open>Building keeps it\<close>

fun lits_ok :: "pexp \<Rightarrow> bool" where
  "lits_ok (ELit l _ _) \<longleftrightarrow> (\<forall>c \<in> set l. 0 \<le> c)"
| "lits_ok (ESeq xs) \<longleftrightarrow> list_all lits_ok xs"
| "lits_ok (EAlt xs) \<longleftrightarrow> list_all lits_ok xs"
| "lits_ok (EStar x) \<longleftrightarrow> lits_ok x"
| "lits_ok (EPlus x) \<longleftrightarrow> lits_ok x"
| "lits_ok (EOpt x) \<longleftrightarrow> lits_ok x"
| "lits_ok (EAnd x) \<longleftrightarrow> lits_ok x"
| "lits_ok (ENot x) \<longleftrightarrow> lits_ok x"
| "lits_ok (ELabel _ x) \<longleftrightarrow> lits_ok x"
| "lits_ok (EPrec a levels) \<longleftrightarrow> lits_ok a \<and> list_all (\<lambda>(_, os). list_all lits_ok os) levels"
| "lits_ok _ \<longleftrightarrow> True"

definition op_repr :: "analysis \<Rightarrow> xexpr list \<Rightarrow> prec_table list \<Rightarrow> bool \<Rightarrow> prec_op \<times> int \<Rightarrow> op \<times> int \<Rightarrow> bool" where
  "op_repr an X T tk x q \<longleftrightarrow>
     po_fix (fst x) = fst (fst q) \<and> po_lev (fst x) = fst (snd (fst q)) \<and> repr an X T tk (po_e (fst x)) (snd (snd (fst q))) \<and>
     snd x = snd q"

lemma op_repr_more: "op_repr an X T tk x q \<Longrightarrow> op_repr an (X @ X') (T @ T') tk x q"
  by (simp add: op_repr_def repr_more)

lemma repr_less: "repr an X T tk i e \<Longrightarrow> i < length X"
  by (erule repr.cases) simp_all

lemma repr_adds: "repr an (b_exprs b) (b_precs b) tk i e \<Longrightarrow> adds b b' \<Longrightarrow> repr an (b_exprs b') (b_precs b') tk i e"
  by (auto simp: adds_def repr_more)

lemma op_repr_adds:
  "op_repr an (b_exprs b) (b_precs b) tk x q \<Longrightarrow> adds b b' \<Longrightarrow> op_repr an (b_exprs b') (b_precs b') tk x q"
  by (auto simp: adds_def op_repr_more)

definition flat :: "analysis \<Rightarrow> builder \<Rightarrow> builder \<Rightarrow> nat \<Rightarrow> pexp \<Rightarrow> bool" where
  "flat an b b' i e \<longleftrightarrow>
     b_ok (length (an_rules an)) b' \<and> adds b b' \<and> repr an (b_exprs b') (b_precs b') (in_token b) i e"

definition flats :: "analysis \<Rightarrow> builder \<Rightarrow> builder \<Rightarrow> nat list \<Rightarrow> pexp list \<Rightarrow> bool" where
  "flats an b b' is es \<longleftrightarrow>
     b_ok (length (an_rules an)) b' \<and> adds b b' \<and> list_all2 (repr an (b_exprs b') (b_precs b') (in_token b)) is es"

definition flat_ops :: "analysis \<Rightarrow> builder \<Rightarrow> builder \<Rightarrow> (prec_op \<times> int) list \<Rightarrow> (op \<times> int) list \<Rightarrow> bool" where
  "flat_ops an b b' xs qs \<longleftrightarrow>
     b_ok (length (an_rules an)) b' \<and> adds b b' \<and> list_all2 (op_repr an (b_exprs b') (b_precs b') (in_token b)) xs qs"

text \<open>One more element onto the arrays, made of what is there.\<close>

lemma flat_pushed:
  assumes "Inr (b_push x b') = Inr (i, b'')" and "b_ok (length (an_rules an)) b'" and "adds b b'"
    and "x_fits (length (an_rules an)) (b_precs b') (length (b_exprs b')) x"
    and "repr an (b_exprs b' @ [x]) (b_precs b') (in_token b) (length (b_exprs b')) e"
  shows "flat an b b'' i e"
proof -
  have "b_push x b' = (i, b'')" using assms(1) by simp
  note push = push_ok [OF assms(2,4) this]
  show ?thesis using push(1,3,4,5) adds_trans [OF assms(3) push(2)] assms(5) by (simp add: flat_def)
qed

lemma repr_snoc: "repr an X T tk i e \<Longrightarrow> repr an (X @ [x]) T tk i e"
  using repr_more [of an X T tk i e "[x]" "[]"] by simp

lemma reprs_snoc: "list_all2 (repr an X T tk) is es \<Longrightarrow> list_all2 (repr an (X @ [x]) T tk) is es"
  by (erule list.rel_mono_strong) (rule repr_snoc)

lemma reprs_less: "list_all2 (repr an X T tk) is es \<Longrightarrow> \<forall>i \<in> set is. i < length X"
  by (induction rule: list_all2_induct) (auto dest: repr_less)

lemma sort_key_rel:
  "list_all2 (\<lambda>x y. R x y \<and> snd x = snd y) xs ys \<Longrightarrow>
     list_all2 (\<lambda>x y. R x y \<and> snd x = (snd y :: int)) (sort_key snd xs) (sort_key snd ys)"
proof (induction rule: list_all2_induct)
  case (Cons x xs y ys)
  have "list_all2 (\<lambda>x y. R x y \<and> snd x = snd y) (insort_key snd x us) (insort_key snd y vs)"
    if "list_all2 (\<lambda>x y. R x y \<and> snd x = (snd y :: int)) us vs" for us vs
    using that Cons.hyps by (induction rule: list_all2_induct) auto
  then show ?case using Cons.IH by simp
qed simp

definition flattens :: "analysis \<Rightarrow> pexp \<Rightarrow> bool" where
  "flattens an e \<longleftrightarrow>
     (\<forall>b i b'. flatten an e b = Inr (i, b') \<longrightarrow> lits_ok e \<longrightarrow> b_ok (length (an_rules an)) b \<longrightarrow> flat an b b' i e)"

lemma flattensD:
  "flattens an e \<Longrightarrow> flatten an e b = Inr (i, b') \<Longrightarrow> lits_ok e \<Longrightarrow> b_ok (length (an_rules an)) b \<Longrightarrow> flat an b b' i e"
  by (simp add: flattens_def)

lemma flatten_all_ok:
  "\<forall>e \<in> set es. flattens an e \<Longrightarrow> flatten_all an es b = Inr (is, b') \<Longrightarrow> list_all lits_ok es \<Longrightarrow>
     b_ok (length (an_rules an)) b \<Longrightarrow> flats an b b' is es"
proof (induction es arbitrary: b "is" b')
  case Nil
  then show ?case by (simp add: flats_def)
next
  case (Cons x xs)
  then obtain j b1 js where f: "flatten an x b = Inr (j, b1)" "flatten_all an xs b1 = Inr (js, b')" "is = j # js"
    by (auto split: sum.splits prod.splits)
  have k: "flat an b b1 j x" using Cons.prems f(1) flattensD by auto
  then have "flats an b1 b' js xs" using Cons f by (simp add: flat_def)
  then show ?case using k f(3) adds_trans by (auto simp: flat_def flats_def adds_token intro: repr_adds)
qed

lemma flatten_ops_ok:
  "\<forall>e \<in> set es. flattens an e \<Longrightarrow> flatten_ops an f lev es b = Inr (xs, b') \<Longrightarrow> list_all lits_ok es \<Longrightarrow>
     b_ok (length (an_rules an)) b \<Longrightarrow> flat_ops an b b' xs (map (\<lambda>x. ((f, lev, x), op_key x)) es)"
proof (induction es arbitrary: b xs b')
  case Nil
  then show ?case by (simp add: flat_ops_def)
next
  case (Cons x es)
  then obtain j b1 ops where f: "flatten an x b = Inr (j, b1)" "flatten_ops an f lev es b1 = Inr (ops, b')"
      "xs = (\<lparr>po_fix = f, po_lev = lev, po_e = j\<rparr>, op_key x) # ops"
    by (auto split: sum.splits prod.splits)
  have k: "flat an b b1 j x" using Cons.prems f(1) flattensD by auto
  then have "flat_ops an b1 b' ops (map (\<lambda>x. ((f, lev, x), op_key x)) es)" using Cons f by (simp add: flat_def)
  then show ?case
    using k f(3) adds_trans by (auto simp: flat_def flat_ops_def adds_token op_repr_def intro: repr_adds)
qed

lemma flatten_levels_ok:
  "\<forall>(_, es) \<in> set levels. \<forall>e \<in> set es. flattens an e \<Longrightarrow> flatten_levels an lev levels b = Inr (xs, b') \<Longrightarrow>
     list_all (\<lambda>(_, os). list_all lits_ok os) levels \<Longrightarrow> b_ok (length (an_rules an)) b \<Longrightarrow>
     flat_ops an b b' xs (level_ops lev levels)"
proof (induction levels arbitrary: lev b xs b')
  case Nil
  then show ?case by (simp add: flat_ops_def)
next
  case (Cons l levels)
  obtain assoc es where l: "l = (assoc, es)" by fastforce
  obtain f ops1 b1 ops2 where f: "fix_of assoc = Inr f" "flatten_ops an f lev es b = Inr (ops1, b1)"
      "flatten_levels an (lev + 1) levels b1 = Inr (ops2, b')" "xs = ops1 @ ops2"
    using Cons.prems(2) l by (auto split: sum.splits prod.splits)
  have k: "flat_ops an b b1 ops1 (map (\<lambda>x. ((f, lev, x), op_key x)) es)"
    using flatten_ops_ok [OF _ f(2)] Cons.prems l by simp
  then have ks: "flat_ops an b1 b' ops2 (level_ops (lev + 1) levels)" using Cons.IH [OF _ f(3)] Cons.prems by (simp add: flat_ops_def)
  have "list_all2 (op_repr an (b_exprs b') (b_precs b') (in_token b)) ops1 (map (\<lambda>x. ((f, lev, x), op_key x)) es)"
    using k ks by (auto simp: flat_ops_def intro: op_repr_adds elim!: list.rel_mono_strong)
  then show ?case
    using k ks f adds_trans l by (auto simp: flat_ops_def adds_token fix_or_def intro!: list_all2_appendI)
qed

text \<open>An expression with one part.\<close>

lemma flatten_one:
  assumes "flatten an e b = (case flatten an x b of Inl s \<Rightarrow> Inl s | Inr (j, b) \<Rightarrow> Inr (b_push (F j) b))"
    and "flatten an e b = Inr (i, b')" and "flattens an x" and "lits_ok x" and "b_ok (length (an_rules an)) b"
    and "\<And>n T k j. j < k \<Longrightarrow> x_fits n T k (F j)"
    and "\<And>X T k j. k < length X \<Longrightarrow> X ! k = F j \<Longrightarrow> repr an X T (in_token b) j x \<Longrightarrow> repr an X T (in_token b) k e"
  shows "flat an b b' i e"
proof -
  obtain j b1 where f: "flatten an x b = Inr (j, b1)" "Inr (b_push (F j) b1) = Inr (i, b')"
    using assms(1,2) by (auto split: sum.splits prod.splits)
  have k: "flat an b b1 j x" using flattensD [OF assms(3) f(1) assms(4,5)] .
  then have r: "repr an (b_exprs b1) (b_precs b1) (in_token b) j x" by (simp add: flat_def)
  have "repr an (b_exprs b1 @ [F j]) (b_precs b1) (in_token b) (length (b_exprs b1)) e"
    using assms(7) [OF _ _ repr_snoc [OF r]] by simp
  from flat_pushed [OF f(2) _ _ assms(6) [OF repr_less [OF r]] this] show ?thesis using k by (simp add: flat_def)
qed

lemma flatten_star:
  assumes "\<And>y. size y < size (EStar x) \<Longrightarrow> flattens an y"
    and "flatten an (EStar x) b = Inr (i, b')" and "lits_ok x" and b: "b_ok (length (an_rules an)) b"
  shows "flat an b b' i (EStar x)"
proof -
  have x: "flattens an x" using assms(1) by simp
  consider (run) ranges neg src where "in_token b" "x = EClass ranges neg src"
    | (lead) ranges neg src y ys where "in_token b" "x = EAlt (EClass ranges neg src # y # ys)"
    | (general) "flatten an (EStar x) b = (case flatten an x b of Inl e \<Rightarrow> Inl e | Inr (i, b) \<Rightarrow> Inr (b_push (XStar i) b))"
  proof (cases "in_token b")
    case True
    note unfold = flatten.simps(7) [of an x b]
    show ?thesis
    proof (cases x)
      case (EAlt xs)
      show ?thesis
        using that(2,3) unfold unfolding EAlt
        by (cases xs rule: remdups_adj.cases; cases "hd xs") (simp_all add: True del: flatten.simps)
    qed (use True that(1,3) unfold in \<open>simp_all del: flatten.simps\<close>)
  qed (use that(3) in simp)
  then show ?thesis
  proof cases
    case run
    obtain d b1 where d: "b_desc src b = (d, b1)" by fastforce
    have b1: "same_arrays b b1" using same_desc [of b src] d by simp
    show ?thesis
      by (rule flat_pushed [of "XStarClass (of_class ranges neg) d" b1])
        (use assms run d b1 in \<open>auto simp: same_adds same_b_ok x_fits_def intro!: repr.r_run\<close>)
  next
    case lead
    define z where "z = (if ys = [] then y else EAlt (y # ys))"
    obtain j b1 k b2 where f: "flatten an z b = Inr (j, b1)" "flatten an x b1 = Inr (k, b2)"
        "Inr (b_push (XStarLead (of_class ranges neg) j k) b2) = Inr (i, b')"
      using assms(2) lead by (auto simp: z_def split: sum.splits prod.splits)
    have z: "flattens an z" using assms(1) lead by (auto simp: z_def)
    have k1: "flat an b b1 j z" using flattensD [OF z f(1) _ b] assms(3) lead by (auto simp: z_def)
    then have k2: "flat an b1 b2 k x" using flattensD [OF x f(2) assms(3)] by (simp add: flat_def)
    have r: "repr an (b_exprs b2) (b_precs b2) (in_token b) j z" "repr an (b_exprs b2) (b_precs b2) (in_token b) k x"
      using k1 k2 by (auto simp: flat_def adds_token intro: repr_adds)
    show ?thesis
    proof (rule flat_pushed [OF f(3)])
      show "repr an (b_exprs b2 @ [XStarLead (of_class ranges neg) j k]) (b_precs b2) (in_token b) (length (b_exprs b2)) (EStar x)"
        using lead(1) repr_snoc [OF r(1)] repr_snoc [OF r(2)] unfolding lead(2) z_def by (intro repr.r_lead) auto
      show "x_fits (length (an_rules an)) (b_precs b2) (length (b_exprs b2)) (XStarLead (of_class ranges neg) j k)"
        using repr_less [OF r(1)] repr_less [OF r(2)] by (simp add: x_fits_def)
    qed (use k1 k2 adds_trans in \<open>auto simp: flat_def\<close>)
  next
    case general
    show ?thesis by (rule flatten_one [OF general assms(2) x assms(3) b]) (auto simp: x_fits_def intro: repr.r_star)
  qed
qed

lemma flatten_label:
  assumes "flattens an x" and "flatten an (ELabel name x) b = Inr (i, b')" and "lits_ok x" and "b_ok (length (an_rules an)) b"
  shows "flat an b b' i (ELabel name x)"
proof -
  obtain ls b1 k b2 where n: "b_kinds_of (list_labels (an_rules an) x) b = (ls, b1)" "b_kind name b1 = (k, b2)" by fastforce
  have b2: "same_arrays b b2"
    using same_trans [OF same_kinds [of b "list_labels (an_rules an) x"] same_kind [of _ name]] n by simp
  obtain j b3 where f: "flatten an x b2 = Inr (j, b3)"
      "Inr (b_push (XLabel k j (label_wraps (an_rules an) x) ls) b3) = Inr (i, b')"
    using assms(2) n by (auto split: sum.splits prod.splits)
  have "flat an b2 b3 j x" using flattensD [OF assms(1) f(1) assms(3)] assms(4) b2 by (simp add: same_b_ok)
  then have k: "flat an b b3 j x" using b2 adds_trans [OF same_adds [OF b2]] by (simp add: flat_def same_arrays_def)
  show ?thesis
    by (rule flat_pushed [OF f(2)])
      (use k in \<open>auto simp: flat_def x_fits_def dest: repr_less intro!: repr.r_label [OF _ _ repr_snoc]\<close>)
qed

lemma flatten_prec:
  assumes "\<And>y. size y < size (EPrec atom levels) \<Longrightarrow> flattens an y"
    and "flatten an (EPrec atom levels) b = Inr (i, b')" and "lits_ok (EPrec atom levels)" and "b_ok (length (an_rules an)) b"
  shows "flat an b b' i (EPrec atom levels)"
proof -
  let ?n = "length (an_rules an)" and ?tk = "in_token b"
  obtain a b1 ops b2 where f: "flatten an atom b = Inr (a, b1)" "flatten_levels an 0 levels b1 = Inr (ops, b2)"
    using assms(2) by (auto split: sum.splits prod.splits)
  define t where "t = \<lparr>pr_atom = a, pr_ops = map fst (sort_key snd ops), pr_kind = rule_kind b2\<rparr>"
  define b3 where "b3 = b2\<lparr>b_precs := b_precs b2 @ [t]\<rparr>"
  let ?x = "XPrec (length (b_precs b2))"
  have push: "Inr (b_push ?x b3) = Inr (i, b')" using assms(2) f by (simp add: t_def b3_def Let_def)
  have k: "flat an b b1 a atom" using flattensD [OF assms(1) f(1)] assms(3,4) by simp
  have "\<forall>(_, es) \<in> set levels. \<forall>e \<in> set es. flattens an e"
  proof (clarify, rule assms(1))
    fix s es e
    assume "(s, es) \<in> set levels" "e \<in> set es"
    then have "size e < Suc (size_list size es)" "size_list size es < Suc (size_list (size_prod (\<lambda>_. 0) (size_list size)) levels)"
      by (auto simp: less_Suc_eq_le size_list_estimation' intro!: size_list_estimation')
    then show "size e < size (EPrec atom levels)" by simp
  qed
  from flatten_levels_ok [OF this f(2)] have ks: "flat_ops an b1 b2 ops (level_ops 0 levels)"
    using k assms(3) by (simp add: flat_def)
  have tk: "in_token b1 = ?tk" using k by (simp add: flat_def adds_token)
  have a2: "repr an (b_exprs b2) (b_precs b2) ?tk a atom" using k ks by (auto simp: flat_def flat_ops_def intro: repr_adds)
  let ?op = "op_repr an (b_exprs b2) (b_precs b2) ?tk"
  have "list_all2 ?op ops (level_ops 0 levels)" using ks tk by (simp add: flat_ops_def)
  then have "list_all2 (\<lambda>x y. ?op x y \<and> snd x = snd y) ops (level_ops 0 levels)"
    by (rule list.rel_mono_strong) (simp add: op_repr_def)
  from sort_key_rel [OF this] have o2: "list_all2 ?op (sort_key snd ops) (sort_key snd (level_ops 0 levels))"
    by (rule list.rel_mono_strong) simp
  have less: "\<forall>x \<in> set (sort_key snd ops). po_e (fst x) < length (b_exprs b2)"
    using o2 by (induction rule: list_all2_induct) (auto simp: op_repr_def dest: repr_less)
  have b3: "b_ok ?n b3" using ks less repr_less [OF a2] by (auto simp: flat_ops_def b_ok_def b3_def t_def x_fits_more)
  have ops: "list_all2 (\<lambda>o' q. po_fix o' = fst q \<and> po_lev o' = fst (snd q) \<and>
      repr an (b_exprs b3 @ [?x]) (b_precs b3) ?tk (po_e o') (snd (snd q))) (pr_ops t) (table_ops levels)"
    using o2 unfolding t_def table_ops_def prec_table.simps list_all2_map1 list_all2_map2
    by (rule list.rel_mono_strong) (auto simp: op_repr_def b3_def intro: repr_more)
  show ?thesis
  proof (rule flat_pushed [OF push b3])
    show "adds b b3" using k ks adds_trans [of b b1 b2] by (auto simp: flat_def flat_ops_def adds_def b3_def)
    show "x_fits ?n (b_precs b3) (length (b_exprs b3)) ?x" using less repr_less [OF a2] by (auto simp: x_fits_def b3_def t_def)
    show "repr an (b_exprs b3 @ [?x]) (b_precs b3) ?tk (length (b_exprs b3)) (EPrec atom levels)"
      using repr_more [OF a2] ops by (intro repr.r_prec [where t = "length (b_precs b2)"]) (auto simp: b3_def t_def nth_append)
  qed
qed

lemma flatten_lit:
  assumes "flatten an (ELit l s ci) b = Inr (i, b')" and "lits_ok (ELit l s ci)" and "b_ok (length (an_rules an)) b"
  shows "flat an b b' i (ELit l s ci)"
proof (cases "l = []")
  case True
  then show ?thesis using assms by (auto intro!: flat_pushed [of XEmpty b] repr.r_empty simp: x_fits_def)
next
  case False
  obtain d b1 where d: "b_desc (quote s) b = (d, b1)" by fastforce
  have b1: "same_arrays b b1" using same_desc [of b "quote s"] d by simp
  show ?thesis
    by (rule flat_pushed [of "XLit (map (fold_code ci) l) ci d" b1])
      (use assms False d b1 in \<open>auto simp: same_adds same_b_ok x_fits_def fold_code_def lower_def intro!: repr.r_lit\<close>)
qed

lemma flatten_class:
  assumes "flatten an (EClass ranges neg src) b = Inr (i, b')" and "b_ok (length (an_rules an)) b"
  shows "flat an b b' i (EClass ranges neg src)"
proof -
  obtain d b1 where d: "b_desc src b = (d, b1)" by fastforce
  have b1: "same_arrays b b1" using same_desc [of b src] d by simp
  show ?thesis
    by (rule flat_pushed [of "XClass (of_class ranges neg) d" b1])
      (use assms d b1 in \<open>auto simp: same_adds same_b_ok x_fits_def intro!: repr.r_class\<close>)
qed

lemma flatten_list:
  assumes "\<forall>x \<in> set xs. flattens an x" and "list_all lits_ok xs" and "b_ok (length (an_rules an)) b"
    and "(case flatten_all an xs b of Inl e \<Rightarrow> Inl e | Inr (ids, b) \<Rightarrow> Inr (b_push (F ids) b)) = Inr (i, b')"
    and "\<And>n T k ids. \<forall>j \<in> set ids. j < k \<Longrightarrow> x_fits n T k (F ids)"
    and "\<And>X T k ids. k < length X \<Longrightarrow> X ! k = F ids \<Longrightarrow> list_all2 (repr an X T (in_token b)) ids xs \<Longrightarrow>
      repr an X T (in_token b) k e"
  shows "flat an b b' i e"
proof -
  obtain ids b1 where f: "flatten_all an xs b = Inr (ids, b1)" "Inr (b_push (F ids) b1) = Inr (i, b')"
    using assms(4) by (auto split: sum.splits prod.splits)
  have k: "flats an b b1 ids xs" using flatten_all_ok [OF assms(1) f(1) assms(2,3)] .
  then have r: "list_all2 (repr an (b_exprs b1) (b_precs b1) (in_token b)) ids xs" by (simp add: flats_def)
  have "repr an (b_exprs b1 @ [F ids]) (b_precs b1) (in_token b) (length (b_exprs b1)) e"
    using assms(6) [OF _ _ reprs_snoc [OF r]] by simp
  from flat_pushed [OF f(2) _ _ assms(5) [OF reprs_less [OF r]] this] show ?thesis using k by (simp add: flats_def)
qed

lemma flatten_ok: "flattens an e"
proof (induction e rule: measure_induct_rule [of size])
  case (less e)
  show ?case
    unfolding flattens_def
  proof (intro allI impI)
    fix b i b'
    assume f: "flatten an e b = Inr (i, b')" and l: "lits_ok e" and b: "b_ok (length (an_rules an)) b"
    show "flat an b b' i e"
    proof (cases e)
      case (ELit codes s ci)
      then show ?thesis using flatten_lit f l b by blast
    next
      case (EClass ranges neg src)
      then show ?thesis using flatten_class f b by blast
    next
      case EAny
      then show ?thesis using f b by (auto intro!: flat_pushed [of XAny b] repr.r_any simp: x_fits_def)
    next
      case (ERef n)
      then obtain r where r: "rule_index (an_rules an) n = Some r" using f by (auto split: option.splits)
      then show ?thesis using f b ERef rule_index_name [OF r]
        by (auto intro!: flat_pushed [of "XRef r" b] repr.r_ref simp: x_fits_def)
    next
      case (ESeq xs)
      have "\<forall>x \<in> set xs. flattens an x" using less ESeq by (auto simp: less_Suc_eq_le intro: size_list_estimation')
      then show ?thesis
        by (rule flatten_list [where F = XSeq]) (use f l b ESeq in \<open>auto simp: x_fits_def intro: repr.r_seq\<close>)
    next
      case (EAlt xs)
      have "\<forall>x \<in> set xs. flattens an x" using less EAlt by (auto simp: less_Suc_eq_le intro: size_list_estimation')
      then show ?thesis
        by (rule flatten_list [where F = "\<lambda>ids. XAlt ids (alt_guards an xs)"])
          (use f l b EAlt in \<open>auto simp: x_fits_def intro: repr.r_alt\<close>)
    next
      case (EStar x)
      then show ?thesis using flatten_star [of x an b i b'] less f l b by simp
    next
      case (EPlus x)
      show ?thesis
        by (rule flatten_one [where x = x and F = XPlus])
          (use less f l b EPlus in \<open>auto simp: x_fits_def intro: repr.r_plus\<close>)
    next
      case (EOpt x)
      show ?thesis
        by (rule flatten_one [where x = x and F = XOpt])
          (use less f l b EOpt in \<open>auto simp: x_fits_def intro: repr.r_opt\<close>)
    next
      case (EAnd x)
      show ?thesis
        by (rule flatten_one [where x = x and F = XAnd])
          (use less f l b EAnd in \<open>auto simp: x_fits_def intro: repr.r_and\<close>)
    next
      case (ENot x)
      show ?thesis
        by (rule flatten_one [where x = x and F = "\<lambda>j. XNot j (x = EAny)"])
          (use less f l b ENot in \<open>auto simp: x_fits_def intro: repr.r_not\<close>)
    next
      case (ELabel name x)
      then show ?thesis using flatten_label [of an x name b i b'] less f l b by simp
    next
      case (EPrec atom levels)
      then show ?thesis using flatten_prec [of atom levels an b i b'] less f l b by simp
    qed
  qed
qed

section \<open>The whole grammar\<close>

definition rule_stands ::
  "rule_in list \<Rightarrow> string list \<Rightarrow> string list \<Rightarrow> analysis \<Rightarrow> xexpr list \<Rightarrow> prec_table list \<Rightarrow> nat \<Rightarrow> xrule \<Rightarrow> bool" where
  "rule_stands rs memo heads an X T i x \<longleftrightarrow>
     xr_token x = ri_token (rs ! i) \<and> xr_is_skip x = (ri_name (rs ! i) = ''skip'') \<and>
     xr_slot x = find (\<lambda>k. memo ! k = ri_name (rs ! i)) [0..<length memo] \<and> xr_lr_head x = (ri_name (rs ! i) \<in> set heads) \<and>
     (\<forall>t. xr_prec x = Some t \<longrightarrow> t < length T) \<and> repr an X T (\<not> rule_ws (rs ! i)) (xr_body x) (ri_e (rs ! i))"

definition built :: "rule_in list \<Rightarrow> string list \<Rightarrow> string list \<Rightarrow> analysis \<Rightarrow> 'f grammar \<Rightarrow> bool" where
  "built rs memo heads an g \<longleftrightarrow>
     an_rules an = rs \<and> length (rules g) = length rs \<and> nslots g = length memo * 2 \<and> skip_rule g = skip_index rs \<and>
     skip_class g = (case skip_index rs of Some i \<Rightarrow> skip_class_of (ri_e (rs ! i)) | None \<Rightarrow> None) \<and>
     (\<forall>i < length rs. rule_stands rs memo heads an (exprs g) (precs g) i (rules g ! i))"

lemma rule_stands_more:
  "rule_stands rs memo heads an X T i x \<Longrightarrow> rule_stands rs memo heads an (X @ X') (T @ T') i x"
  by (auto simp: rule_stands_def repr_more)

lemma b_ok_rules [simp]:
  "b_ok n (b\<lparr>b_rules := rs\<rparr>) = b_ok n b" "b_ok n (b\<lparr>rule_kind := k, in_token := t\<rparr>) = b_ok n b"
  by (simp_all add: b_ok_def)

definition more_built ::
  "rule_in list \<Rightarrow> string list \<Rightarrow> string list \<Rightarrow> analysis \<Rightarrow> nat list \<Rightarrow> builder \<Rightarrow> builder \<Rightarrow> bool" where
  "more_built rs memo heads an is b b' \<longleftrightarrow>
     b_ok (length rs) b' \<and> (\<exists>x. b_exprs b' = b_exprs b @ x) \<and> (\<exists>x. b_precs b' = b_precs b @ x) \<and>
     (\<exists>xs. b_rules b' = b_rules b @ xs \<and> list_all2 (rule_stands rs memo heads an (b_exprs b') (b_precs b')) is xs)"

lemma build_rule_ok:
  assumes "build_rule rs an memo heads i b = Inr b'" and "an_rules an = rs" and "lits_ok (ri_e (rs ! i))"
    and "b_ok (length rs) b"
  shows "more_built rs memo heads an [i] b b'"
proof -
  define r where "r = rs ! i"
  define b0 where "b0 = b\<lparr>rule_kind := Some i, in_token := ri_token r \<or> ri_name r = ''skip''\<rparr>"
  obtain body b1 where f: "flatten an (ri_e r) b0 = Inr (body, b1)"
    using assms(1) by (auto simp: build_rule_def r_def b0_def Let_def split: sum.splits prod.splits)
  obtain d b2 where d: "b_desc (case ri_desc r of Some x \<Rightarrow> x | None \<Rightarrow> ri_name r) b1 = (d, b2)" by fastforce
  define lb where "lb = (if \<not> ri_silent r \<and> found_labels rs (ri_e r) \<noteq> [] then
      (case b_kinds_of (list_labels rs (ri_e r)) b2 of (ls, b) \<Rightarrow> (Some ls, b)) else (None, b2))"
  have k: "flat an b0 b1 body (ri_e r)"
    using flattensD [OF flatten_ok f] assms(2-4) by (simp add: r_def b0_def)
  have "same_arrays b1 b2" using same_desc [of b1] d by (metis snd_conv)
  moreover have "same_arrays b2 (snd lb)"
    using same_kinds [of b2 "list_labels rs (ri_e r)"] by (auto simp: lb_def same_arrays_def split: prod.split)
  ultimately have b3: "same_arrays b1 (snd lb)" by (rule same_trans)
  note eq = assms(1) [unfolded build_rule_def Let_def, folded r_def, folded b0_def, unfolded f sum.case prod.case d, folded lb_def]
  obtain x where x: "b' = (snd lb)\<lparr>b_rules := b_rules (snd lb) @ [x]\<rparr>" "xr_token x = ri_token r"
      "xr_is_skip x = (ri_name r = ''skip'')" "xr_slot x = find (\<lambda>k. memo ! k = ri_name r) [0..<length memo]"
      "xr_lr_head x = (ri_name r \<in> set heads)" "xr_body x = body"
      "xr_prec x = (case b_exprs b2 ! body of XPrec p \<Rightarrow> if ri_silent r then None else Some p | _ \<Rightarrow> None)"
    using eq by (cases lb; cases "find (\<lambda>k. memo ! k = ri_name r) [0..<length memo]") fastforce+
  have less: "body < length (b_exprs b1)" using k by (auto simp: flat_def dest: repr_less)
  have "x_fits (length rs) (b_precs b1) body (b_exprs b1 ! body)"
    using k less assms(2) by (simp add: flat_def b_ok_def)
  then have p: "xr_prec x = Some t \<Longrightarrow> t < length (b_precs b1)" for t
    using x(7) \<open>same_arrays b1 b2\<close> by (auto simp: x_fits_def same_arrays_def split: xexpr.splits if_splits)
  have tok: "in_token b0 = (\<not> rule_ws r)" by (auto simp: b0_def rule_ws_def)
  have "rule_stands rs memo heads an (b_exprs b1) (b_precs b1) i x"
    using x p k tok by (simp add: rule_stands_def r_def flat_def)
  then show ?thesis
    using k b3 x(1) assms(2) by (auto simp: more_built_def flat_def adds_def same_arrays_def same_b_ok b0_def b_ok_def)
qed

lemma build_rules_ok:
  "build_rules rs an memo heads is b = Inr b' \<Longrightarrow> an_rules an = rs \<Longrightarrow> \<forall>i \<in> set is. lits_ok (ri_e (rs ! i)) \<Longrightarrow>
     b_ok (length rs) b \<Longrightarrow> more_built rs memo heads an is b b'"
proof (induction "is" arbitrary: b)
  case Nil
  then show ?case by (simp add: more_built_def)
next
  case (Cons i "is")
  then obtain b1 where b1: "build_rule rs an memo heads i b = Inr b1" "build_rules rs an memo heads is b1 = Inr b'"
    by (auto split: sum.splits)
  have k: "more_built rs memo heads an [i] b b1" using build_rule_ok [OF b1(1)] Cons.prems by simp
  then have ks: "more_built rs memo heads an is b1 b'" using Cons b1(2) by (simp add: more_built_def)
  obtain x xs where x: "b_rules b1 = b_rules b @ [x]" "rule_stands rs memo heads an (b_exprs b1) (b_precs b1) i x"
      "b_rules b' = b_rules b1 @ xs" "list_all2 (rule_stands rs memo heads an (b_exprs b') (b_precs b')) is xs"
    using k ks by (auto simp: more_built_def list_all2_Cons1)
  obtain y z where g: "b_exprs b' = b_exprs b1 @ y" "b_precs b' = b_precs b1 @ z" using ks by (auto simp: more_built_def)
  have "rule_stands rs memo heads an (b_exprs b') (b_precs b') i x" using rule_stands_more [OF x(2)] g by simp
  then show ?case using k ks x by (auto simp: more_built_def)
qed

lemma find_index_less: "find P [0..<n] = Some i \<Longrightarrow> i < n"
  by (auto simp: find_Some_iff)

text \<open>A grammar that builds is well formed, and stands for the rules it was built from.\<close>

theorem build_ok:
  assumes "build rs memo heads acts = Some (Inr g)" and "\<forall>r \<in> set rs. lits_ok (ri_e r)"
  obtains an where "analyse rs = Some an" and "an_ok an" and "built rs memo heads an g" and "grammar_ok g"
proof -
  obtain an where an: "analyse rs = Some an" "an_rules an = rs" "an_ok an" using analyse_ends by blast
  obtain e b1 a b2 b3 where b: "b_desc ''end of input'' builder_new = (e, b1)" "b_desc ''any character'' b1 = (a, b2)"
      "b3 = snd (b_kinds_of (map ri_name rs) b2)"
    by fastforce
  obtain b' where b': "build_rules rs an memo heads [0..<length rs] b3 = Inr b'" "exprs g = b_exprs b'" "rules g = b_rules b'"
      "precs g = b_precs b'" "skip_rule g = skip_index rs" "nslots g = length memo * 2"
      "skip_class g = (case skip_index rs of Some i \<Rightarrow> skip_class_of (ri_e (rs ! i)) | None \<Rightarrow> None)"
    using assms(1) an(1) b by (auto simp: build_def Let_def skip_index_def split: sum.splits)
  have s3: "same_arrays builder_new b3"
    using same_trans [OF same_trans [OF same_desc [of builder_new "''end of input''"] same_desc [of _ "''any character''"]]
        same_kinds [of _ "map ri_name rs"]] b by simp
  then have "b_ok (length rs) b3" by (simp add: same_b_ok) (simp add: b_ok_def builder_new_def)
  from build_rules_ok [OF b'(1) an(2) _ this] assms(2)
  have k: "more_built rs memo heads an [0..<length rs] b3 b'" by (auto simp: all_set_conv_all_nth)
  have r: "list_all2 (rule_stands rs memo heads an (exprs g) (precs g)) [0..<length rs] (rules g)"
    using k s3 b' by (auto simp: more_built_def same_arrays_def builder_new_def)
  then have st: "length (rules g) = length rs" "\<forall>i < length rs. rule_stands rs memo heads an (exprs g) (precs g) i (rules g ! i)"
    by (auto simp: list_all2_conv_all_nth)
  have 1: "built rs memo heads an g" using an(2) b' st by (simp add: built_def)
  have "xr_body x < length (exprs g) \<and> (\<forall>s. xr_slot x = Some s \<longrightarrow> s * 2 + 1 < nslots g) \<and>
      (\<forall>t. xr_prec x = Some t \<longrightarrow> t < length (precs g))" if "x \<in> set (rules g)" for x
    using that st b'(6) by (auto simp: in_set_conv_nth rule_stands_def dest!: repr_less find_index_less) 
  moreover have "b_ok (length rs) b'" using k by (simp add: more_built_def)
  moreover have "\<forall>i. skip_rule g = Some i \<longrightarrow> i < length rs" using b'(5) by (auto simp: skip_index_def dest: find_index_less)
  ultimately have "grammar_ok g" using st(1) b' by (simp add: grammar_ok_def b_ok_def x_fits_ok)
  with 1 show thesis using that an by blast
qed

end
