(* ===== verification/PegFuel.thy ===== *)
theory PegFuel
  imports PegBuild
begin

text \<open>
  More fuel never changes an answer of the matcher: each of its functions is monotone in the run it
  makes its calls with.
\<close>

section \<open>Answers that extend answers\<close>

definition le :: "'a option \<Rightarrow> 'a option \<Rightarrow> bool" where
  "le a b \<longleftrightarrow> (\<forall>x. a = Some x \<longrightarrow> b = Some x)"

definition runs_le :: "run \<Rightarrow> run \<Rightarrow> bool" where
  "runs_le c c' \<longleftrightarrow> (\<forall>k m. le (c k m) (c' k m))"

lemma le_refl [simp, intro]: "le a a"
  by (simp add: le_def)

lemma le_bind: "le a a' \<Longrightarrow> (\<And>x. le (k x) (k' x)) \<Longrightarrow> le (Option.bind a k) (Option.bind a' k')"
  by (cases a) (auto simp: le_def)

lemma le_if: "(b \<Longrightarrow> le x x') \<Longrightarrow> (\<not> b \<Longrightarrow> le y y') \<Longrightarrow> le (if b then x else y) (if b then x' else y')"
  by simp

lemma le_prod: "(\<And>x y. le (k x y) (k' x y)) \<Longrightarrow> le (case p of (x, y) \<Rightarrow> k x y) (case p of (x, y) \<Rightarrow> k' x y)"
  by (cases p) simp

lemma le_prod_at:
  "(\<And>x y. le (k x y z) (k' x y z)) \<Longrightarrow> le ((case p of (x, y) \<Rightarrow> k x y) z) ((case p of (x, y) \<Rightarrow> k' x y) z)"
  by (cases p) simp

lemma le_option:
  "le n n' \<Longrightarrow> (\<And>x. le (k x) (k' x)) \<Longrightarrow> le (case p of None \<Rightarrow> n | Some x \<Rightarrow> k x) (case p of None \<Rightarrow> n' | Some x \<Rightarrow> k' x)"
  by (cases p) simp_all

lemma le_let: "(\<And>x. le (k x) (k' x)) \<Longrightarrow> le (Let a k) (Let a k')"
  by simp

lemma le_run: "runs_le c c' \<Longrightarrow> le (c k m) (c' k m)"
  by (simp add: runs_le_def)

lemmas le_rules = le_refl le_bind le_if le_prod le_prod_at le_option le_let

section \<open>The matcher's functions\<close>

lemma le_at_pos:
  assumes "runs_le c c'"
  shows "le (at_pos P c x p skd m) (at_pos P c' x p skd m)"
  unfolding at_pos_def by (intro le_rules le_run [OF assms])

lemma le_sk:
  assumes "runs_le c c'"
  shows "le (sk P c x p m) (sk P c' x p m)"
  unfolding sk_def by (intro le_rules le_run [OF assms])

lemma le_rule_k_body:
  assumes "runs_le c c'"
  shows "le (rule_k_body P c t r p m) (rule_k_body P c' t r p m)"
  unfolding rule_k_body_def by (intro le_rules le_run [OF assms])

lemma le_rule_k_wrapped:
  assumes "runs_le c c'"
  shows "le (rule_k_wrapped P c t r p m) (rule_k_wrapped P c' t r p m)"
  unfolding rule_k_wrapped_def by (intro le_rules le_run [OF assms] le_rule_k_body [OF assms])

lemma le_rule_b_body:
  assumes "runs_le c c'"
  shows "le (rule_b_body P c r p m) (rule_b_body P c' r p m)"
  unfolding rule_b_body_def by (intro le_rules le_run [OF assms])

lemma le_rule_b_wrapped:
  assumes "runs_le c c'"
  shows "le (rule_b_wrapped P c r p m) (rule_b_wrapped P c' r p m)"
  unfolding rule_b_wrapped_def by (intro le_rules le_run [OF assms] le_rule_b_body [OF assms])

lemma le_seq:
  assumes "runs_le c c'"
  shows "le (seq_items c b t is q skd x m) (seq_items c' b t is q skd x m)"
proof (induction "is" arbitrary: q skd m)
  case (Cons i "is")
  then show ?case unfolding seq_items.simps by (intro le_rules le_run [OF assms])
qed simp

lemma le_alt:
  assumes "runs_le c c'"
  shows "le (alt_items c b t is q skd x m) (alt_items c' b t is q skd x m)"
proof (induction "is" arbitrary: m)
  case (Cons i "is")
  then show ?case unfolding alt_items.simps by (intro le_rules le_run [OF assms])
qed simp

lemma le_prefix:
  assumes "runs_le c c'"
  shows "le (prefix_scan c t p x os m) (prefix_scan c' t p x os m)"
proof (induction os arbitrary: m)
  case (Cons i "is")
  then show ?case unfolding prefix_scan.simps by (intro le_rules le_run [OF assms])
qed simp

lemma le_postfix:
  assumes "runs_le c c'"
  shows "le (postfix_scan c t ml p x os m) (postfix_scan c' t ml p x os m)"
proof (induction os arbitrary: m)
  case (Cons i "is")
  then show ?case unfolding postfix_scan.simps by (intro le_rules le_run [OF assms])
qed simp

lemma le_infix:
  assumes "runs_le c c'"
  shows "le (infix_scan P c t o' ml p x os m) (infix_scan P c' t o' ml p x os m)"
proof (induction os arbitrary: m)
  case (Cons i "is")
  then show ?case unfolding infix_scan.simps by (intro le_rules le_run [OF assms] le_sk [OF assms])
qed simp

lemma le_ev_ref:
  assumes "runs_le c c'"
  shows "le (ev_ref P c b t r p x m) (ev_ref P c' b t r p x m)"
  unfolding ev_ref_def by (intro le_rules le_run [OF assms])

lemma le_ev_label:
  assumes "runs_le c c'"
  shows "le (ev_label P c t k e w ls p skd x m) (ev_label P c' t k e w ls p skd x m)"
  unfolding ev_label_def by (intro le_rules le_run [OF assms] le_at_pos [OF assms])

lemma le_ev:
  assumes "runs_le c c'"
  shows "le (ev P c b t e p skd x m) (ev P c' b t e p skd x m)"
proof (cases "exprs (gr P) ! e")
  case (XAlt items guards)
  show ?thesis
    unfolding ev_def XAlt xexpr.case
    by (cases t; cases guards; simp only: prod.case bool.case option.case)
      (intro le_rules le_at_pos [OF assms] le_alt [OF assms])+
qed (simp only: ev_def xexpr.case; intro le_rules le_run [OF assms] le_at_pos [OF assms] le_seq [OF assms] le_ev_ref [OF assms]
    le_ev_label [OF assms])+

lemma le_prec_head_b:
  assumes "runs_le c c'"
  shows "le (prec_head_b P c t p x m) (prec_head_b P c' t p x m)"
  unfolding prec_head_b_def by (intro le_rules le_run [OF assms] le_prefix [OF assms] le_sk [OF assms])

lemma le_step:
  assumes "runs_le c c'"
  shows "le (step P c k m) (step P c' k m)"
proof (cases k)
  case (PrecB t p ml x)
  then show ?thesis unfolding step_def PrecB task.case prec_b_def
    by (intro le_rules le_run [OF assms] le_prec_head_b [OF assms])
next
  case (TailB t p ml x base q)
  then show ?thesis unfolding step_def TailB task.case tail_b_body_def
    by (intro le_rules le_run [OF assms] le_postfix [OF assms] le_infix [OF assms] le_sk [OF assms])
next
  case (PrecK t i p ml x)
  then show ?thesis unfolding step_def PrecK task.case prec_k_def
    by (intro le_rules le_run [OF assms] le_prefix [OF assms] le_sk [OF assms])
next
  case (TailK t i ml x q)
  then show ?thesis unfolding step_def TailK task.case tail_k_body_def
    by (intro le_rules le_run [OF assms] le_postfix [OF assms] le_infix [OF assms] le_sk [OF assms])
qed (simp only: step_def task.case skip_body_def skip_rule_body_def rule_k_def grow_k_body_def rule_b_def grow_b_body_def star_body_def
    lead_body_def; intro le_rules le_run [OF assms] le_rule_k_body [OF assms] le_rule_k_wrapped [OF assms]
    le_rule_b_body [OF assms] le_rule_b_wrapped [OF assms] le_ev [OF assms])+

lemma exec_le: "runs_le (exec P f) (exec P (f + j))"
proof (induction f)
  case 0
  then show ?case by (simp add: runs_le_def le_def)
next
  case (Suc f)
  then show ?case using le_step by (auto simp: runs_le_def)
qed

lemma exec_more: "exec P f k m = Some x \<Longrightarrow> f \<le> f' \<Longrightarrow> exec P f' k m = Some x"
  using exec_le [of P f "f' - f"] by (cases x) (auto simp: runs_le_def le_def)

end
