(* ===== verification/PegShift.thy ===== *)
theory PegShift
  imports PegFirst
begin

text \<open>
  Facts about the reference alone: no goal answers a place before its own; skip leaves what it has
  skipped to; an expression that cannot match nothing moves; and where an expression starts, before a skip
  or after it, does not change what it matches.
\<close>

section \<open>Forward only\<close>

fun goal_at :: "goal \<Rightarrow> int" where
  "goal_at (GSkip p) = p"
| "goal_at (GRule _ p) = p"
| "goal_at (GExp _ _ p _) = p"
| "goal_at (GStar _ _ p) = p"
| "goal_at (GPrec _ _ _ p _) = p"
| "goal_at (GTail _ _ _ p _) = p"

fun goal_ends :: "goal \<Rightarrow> int \<Rightarrow> bool" where
  "goal_ends (GSkip p) r \<longleftrightarrow> p \<le> r"
| "goal_ends (GStar _ _ p) r \<longleftrightarrow> p \<le> r"
| "goal_ends (GTail _ _ _ p _) r \<longleftrightarrow> p \<le> r"
| "goal_ends g r \<longleftrightarrow> r = -1 \<or> goal_at g \<le> r"

definition forward :: "ref \<Rightarrow> bool" where
  "forward call \<longleftrightarrow> (\<forall>g r. call g = Some r \<longrightarrow> goal_ends g r)"

lemma forwardD: "forward call \<Longrightarrow> call g = Some r \<Longrightarrow> goal_ends g r"
  by (simp add: forward_def)

lemma start_forward: "forward call \<Longrightarrow> ref_start call ws p skd = Some x \<Longrightarrow> p \<le> x"
  by (auto simp: ref_start_def dest: forwardD split: if_splits)

lemma sk_forward: "forward call \<Longrightarrow> ref_sk call ws p = Some x \<Longrightarrow> p \<le> x"
  by (auto simp: ref_sk_def dest: forwardD split: if_splits)

lemma seq_forward: "forward call \<Longrightarrow> ref_seq call ws es q skd = Some r \<Longrightarrow> r = -1 \<or> q \<le> r"
proof (induction es arbitrary: q skd)
  case (Cons e es)
  then obtain r1 where r1: "call (GExp ws e q skd) = Some r1" "(if r1 < 0 then Some (-1) else ref_seq call ws es r1 False) = Some r"
    by (auto simp: bind_eq_Some_conv)
  show ?case using forwardD [OF Cons.prems(1) r1(1)] Cons.IH [OF Cons.prems(1), of r1 False] r1(2) by (auto split: if_splits)
qed simp

lemma alt_forward: "forward call \<Longrightarrow> ref_alt call ws es p skd = Some r \<Longrightarrow> r = -1 \<or> p \<le> r"
  by (induction es) (auto simp: bind_eq_Some_conv dest!: forwardD split: if_splits)

lemma prefix_forward: "forward call \<Longrightarrow> ref_prefix call ws p os = Some (pl, pe) \<Longrightarrow> 0 \<le> pl \<Longrightarrow> 0 \<le> pe \<and> p \<le> pe"
  by (induction os) (auto simp: bind_eq_Some_conv dest!: forwardD split: if_splits)

lemma postfix_forward: "forward call \<Longrightarrow> ref_postfix call ws ml x os = Some (Some r) \<Longrightarrow> x \<le> r \<and> 0 \<le> r"
  by (induction os) (auto simp: bind_eq_Some_conv dest!: forwardD split: if_splits)

lemma infix_forward:
  assumes "forward call" and "ref_infix call ws (GPrec ws atom all) ml x os = Some (Some r)"
  shows "x \<le> r \<and> 0 \<le> r"
  using assms(2)
proof (induction os)
  case (Cons o' os)
  obtain f lev e where o': "o' = (f, lev, e)" by (cases o') auto
  show ?case
  proof (cases "ml \<le> lev")
    case True
    then obtain r1 where r1: "call (GExp ws e x True) = Some r1"
        "(if 0 \<le> r1 then do { q \<leftarrow> ref_sk call ws r1; v \<leftarrow> call (GPrec ws atom all q (above f lev));
            if 0 \<le> v then Some (Some v) else ref_infix call ws (GPrec ws atom all) ml x os }
          else ref_infix call ws (GPrec ws atom all) ml x os) = Some (Some r)"
      using Cons.prems o' by (auto simp: bind_eq_Some_conv)
    show ?thesis
    proof (cases "0 \<le> r1")
      case True
      then obtain q v where q: "ref_sk call ws r1 = Some q" "call (GPrec ws atom all q (above f lev)) = Some v"
          "(if 0 \<le> v then Some (Some v) else ref_infix call ws (GPrec ws atom all) ml x os) = Some (Some r)"
        using r1(2) by (auto simp: bind_eq_Some_conv)
      have "x \<le> r1" using forwardD [OF assms(1) r1(1)] True by simp
      moreover have "r1 \<le> q" using sk_forward [OF assms(1) q(1)] .
      ultimately show ?thesis using forwardD [OF assms(1) q(2)] q(3) Cons.IH by (auto split: if_splits)
    next
      case False
      then show ?thesis using r1(2) Cons.IH by simp
    qed
  next
    case False
    then show ?thesis using Cons o' by simp
  qed
qed simp

lemma exp_forward:
  assumes "forward call" and "ref_exp rs cs call ws e p skd = Some r"
  shows "r = -1 \<or> p \<le> r"
proof (cases e)
  case (EPlus x)
  then obtain r1 where "call (GExp ws x p skd) = Some r1" "(if r1 < 0 then Some (-1) else call (GStar ws x r1)) = Some r"
    using assms(2) by (auto simp: ref_exp_def bind_eq_Some_conv)
  then show ?thesis using forwardD [OF assms(1), of "GExp ws x p skd" r1] forwardD [OF assms(1), of "GStar ws x r1" r]
    by (auto split: if_splits)
next
  case (ERef n)
  then obtain i x where "ref_start call ws p skd = Some x" "call (GRule i x) = Some r"
    using assms(2) by (auto simp: ref_exp_def bind_eq_Some_conv split: option.splits)
  then show ?thesis using start_forward [OF assms(1)] forwardD [OF assms(1)] by fastforce
next
  case (EPrec atom levels)
  then obtain x where "ref_start call ws p skd = Some x" "call (GPrec ws atom (table_ops levels) x 0) = Some r"
    using assms(2) by (auto simp: ref_exp_def bind_eq_Some_conv)
  then show ?thesis using start_forward [OF assms(1)] forwardD [OF assms(1)] by fastforce
next
  case (EStar x)
  then show ?thesis using assms(2) forwardD [OF assms(1), of "GStar ws x p" r] by (auto simp: ref_exp_def)
next
  case (ELabel n x)
  then show ?thesis using assms(2) forwardD [OF assms(1), of "GExp ws x p skd" r] by (auto simp: ref_exp_def)
next
  case (EOpt x)
  then show ?thesis using assms forwardD [OF assms(1), of "GExp ws x p skd"]
    by (auto simp: ref_exp_def bind_eq_Some_conv split: if_splits)
qed (use assms seq_forward alt_forward start_forward in
    \<open>fastforce simp: ref_exp_def bind_eq_Some_conv split: if_splits\<close>)+

lemma step_forward:
  assumes "forward call" and "ref_step rs cs call g = Some r"
  shows "goal_ends g r"
proof (cases g)
  case (GSkip p)
  then show ?thesis
    using assms(2) forwardD [OF assms(1)] by (fastforce simp: ref_step_def bind_eq_Some_conv split: option.splits if_splits)
next
  case (GRule i p)
  then show ?thesis using assms(2) forwardD [OF assms(1), of _ r] by (fastforce simp: ref_step_def)
next
  case (GExp ws e p skd)
  then show ?thesis using assms(2) exp_forward [OF assms(1)] by (simp add: ref_step_def)
next
  case (GStar ws x p)
  then show ?thesis
    using assms(2) forwardD [OF assms(1)] by (fastforce simp: ref_step_def bind_eq_Some_conv split: if_splits)
next
  case (GPrec ws atom os p ml)
  obtain pl pe q where c: "ref_prefix call ws p (with_fix (\<lambda>f. f = Prefix) os) = Some (pl, pe)"
      "(if pl \<ge> 0 then do { x \<leftarrow> ref_sk call ws pe; call (GPrec ws atom os x (nat pl)) } else call (GExp ws atom p True)) = Some q"
      "(if q \<ge> 0 then call (GTail ws atom os q ml) else Some q) = Some r"
    using assms(2) GPrec by (auto simp: ref_step_def bind_eq_Some_conv)
  have "q = -1 \<or> p \<le> q"
  proof (cases "pl \<ge> 0")
    case True
    then obtain x where x: "ref_sk call ws pe = Some x" "call (GPrec ws atom os x (nat pl)) = Some q"
      using c(2) by (auto simp: bind_eq_Some_conv)
    show ?thesis
      using prefix_forward [OF assms(1) c(1) True] sk_forward [OF assms(1) x(1)] forwardD [OF assms(1) x(2)] by auto
  next
    case False
    then show ?thesis using c(2) forwardD [OF assms(1), of "GExp ws atom p True" q] by simp
  qed
  then show ?thesis using GPrec c(3) forwardD [OF assms(1), of "GTail ws atom os q ml" r] by (auto split: if_splits)
next
  case (GTail ws atom os q ml)
  obtain x post where c: "ref_sk call ws q = Some x" "ref_postfix call ws ml x (with_fix (\<lambda>f. f = Postfix) os) = Some post"
      "(case post of Some r \<Rightarrow> call (GTail ws atom os r ml)
        | None \<Rightarrow> do { inf \<leftarrow> ref_infix call ws (GPrec ws atom os) ml x (with_fix infix_fix os);
            case inf of Some v \<Rightarrow> call (GTail ws atom os v ml) | None \<Rightarrow> Some q }) = Some r"
    using assms(2) GTail by (auto simp: ref_step_def bind_eq_Some_conv)
  have x: "q \<le> x" using sk_forward [OF assms(1) c(1)] .
  have t: "call (GTail ws atom os v ml) = Some r \<Longrightarrow> v \<le> r" for v using forwardD [OF assms(1), of "GTail ws atom os v ml" r] by simp
  show ?thesis
  proof (cases post)
    case (Some v)
    then show ?thesis using postfix_forward [OF assms(1)] c(2,3) x t GTail by fastforce
  next
    case None
    then obtain inf where inf: "ref_infix call ws (GPrec ws atom os) ml x (with_fix infix_fix os) = Some inf"
        "(case inf of Some v \<Rightarrow> call (GTail ws atom os v ml) | None \<Rightarrow> Some q) = Some r"
      using c(3) by (auto simp: bind_eq_Some_conv)
    then show ?thesis
      using infix_forward [OF assms(1)] x t GTail by (cases inf) fastforce+
  qed
qed

lemma peg_forward: "forward (peg rs cs f)"
proof (induction f)
  case 0
  then show ?case by (simp add: forward_def)
next
  case (Suc f)
  then show ?case using step_forward by (auto simp: forward_def)
qed

lemmas peg_ends = forwardD [OF peg_forward]

section \<open>Where skip stops\<close>

lemma peg_le: "peg rs cs f g = Some v \<Longrightarrow> f \<le> f' \<Longrightarrow> peg rs cs f' g = Some v"
  using peg_more [of rs cs f "f' - f"] by (simp add: extends_def)

lemma skip_idem: "peg rs cs f (GSkip p) = Some s \<Longrightarrow> peg rs cs f (GSkip s) = Some s"
proof (induction f arbitrary: p)
  case (Suc f)
  show ?case
  proof (cases "skip_index rs")
    case None
    then show ?thesis using Suc.prems by (simp add: ref_step_def)
  next
    case (Some i)
    then obtain r where r: "peg rs cs f (GRule i p) = Some r" "(if r \<le> p then Some p else peg rs cs f (GSkip r)) = Some s"
      using Suc.prems by (auto simp: ref_step_def bind_eq_Some_conv)
    show ?thesis
    proof (cases "r \<le> p")
      case True
      then show ?thesis using Suc.prems r(2) by simp
    next
      case False
      then have "peg rs cs f (GSkip r) = Some s" using r(2) by simp
      from Suc.IH [OF this] show ?thesis by (rule peg_le) simp
    qed
  qed
qed simp

lemma skip_fixed: "peg rs cs f (GSkip p) = Some s \<Longrightarrow> fixed rs cs s"
  using skip_idem means_fun by (fastforce simp: fixed_def means_def)

lemma skip_means_fixed: "means rs cs (GSkip p) s \<Longrightarrow> fixed rs cs s"
  by (auto simp: means_def dest: skip_fixed)

section \<open>What cannot match nothing moves\<close>

fun goal_moves :: "analysis \<Rightarrow> goal \<Rightarrow> int \<Rightarrow> bool" where
  "goal_moves an (GExp _ e p _) r \<longleftrightarrow> (\<not> an_nullable an e \<longrightarrow> p < r)"
| "goal_moves an (GRule i p) r \<longleftrightarrow> (i < length (an_rules an) \<and> \<not> an_nul an ! i \<longrightarrow> p < r)"
| "goal_moves an (GPrec _ atom _ p _) r \<longleftrightarrow> (\<not> an_nullable an atom \<longrightarrow> p < r)"
| "goal_moves an g r \<longleftrightarrow> True"

definition ref_moves :: "analysis \<Rightarrow> int list \<Rightarrow> nat \<Rightarrow> bool" where
  "ref_moves an cs f \<longleftrightarrow> (\<forall>g r. peg (an_rules an) cs f g = Some r \<longrightarrow> 0 \<le> r \<longrightarrow> goal_moves an g r)"

lemma movesD: "ref_moves an cs f \<Longrightarrow> peg (an_rules an) cs f g = Some r \<Longrightarrow> 0 \<le> r \<Longrightarrow> goal_moves an g r"
  by (simp add: ref_moves_def)

lemma seq_moves:
  assumes "ref_moves an cs f" and "ref_seq (peg (an_rules an) cs f) ws xs q skd = Some r" and "0 \<le> r"
    and "\<not> list_all (an_nullable an) xs"
  shows "q < r"
  using assms(2-)
proof (induction xs arbitrary: q skd)
  case (Cons x xs)
  then obtain r1 where r1: "peg (an_rules an) cs f (GExp ws x q skd) = Some r1" "0 \<le> r1"
      "ref_seq (peg (an_rules an) cs f) ws xs r1 False = Some r"
    by (auto simp: bind_eq_Some_conv split: if_splits)
  have le: "q \<le> r1" "r1 \<le> r" using peg_ends [OF r1(1)] seq_forward [OF peg_forward r1(3)] r1(2) Cons.prems(2) by auto
  show ?case
  proof (cases "an_nullable an x")
    case True
    then show ?thesis using Cons.IH [OF r1(3)] Cons.prems le by simp
  next
    case False
    then show ?thesis using movesD [OF assms(1) r1(1,2)] le by simp
  qed
qed simp

lemma exp_moves:
  assumes "an_ok an" and "ref_moves an cs f" and "ref_exp (an_rules an) cs (peg (an_rules an) cs f) ws e p skd = Some r"
    and "0 \<le> r" and "\<not> an_nullable an e"
  shows "p < r"
proof -
  let ?rs = "an_rules an"
  note st = start_forward [OF peg_forward]
  show ?thesis
  proof (cases e)
    case (ELit l t ci)
    then obtain x where x: "ref_start (peg ?rs cs f) ws p skd = Some x" "r = (if lit_here cs x ci l then x + int (length l) else -1)"
      using assms(3,5) by (auto simp: ref_exp_def bind_eq_Some_conv an_nullable_def)
    have "r = x + int (length l)" using x(2) assms(4) by (simp split: if_splits)
    moreover have "length l > 0" using ELit assms(5) by (simp add: an_nullable_def)
    ultimately show ?thesis using st [OF x(1)] by linarith
  next
    case (ERef n)
    then obtain i x where i: "rule_index ?rs n = Some i" "ref_start (peg ?rs cs f) ws p skd = Some x"
        "peg ?rs cs f (GRule i x) = Some r"
      using assms(3) by (auto simp: ref_exp_def bind_eq_Some_conv split: option.splits)
    then show ?thesis
      using st [OF i(2)] movesD [OF assms(2) i(3) assms(4)] rule_index_name [OF i(1)] assms(5) ERef by (simp add: an_nullable_def)
  next
    case (ESeq xs)
    then show ?thesis using seq_moves [OF assms(2) _ assms(4)] assms(3,5) by (auto simp: ref_exp_def an_nullable_def [abs_def])
  next
    case (EAlt xs)
    then have "ref_alt (peg ?rs cs f) ws xs p skd = Some r" using assms(3) by (simp add: ref_exp_def)
    from alt_claim [OF this assms(4)] obtain x where "x \<in> set xs" "peg ?rs cs f (GExp ws x p skd) = Some r" by blast
    then show ?thesis using movesD [OF assms(2) _ assms(4)] assms(5) EAlt by (fastforce simp: an_nullable_def list_ex_iff)
  next
    case (EPlus x)
    then obtain r1 where r1: "peg ?rs cs f (GExp ws x p skd) = Some r1" "0 \<le> r1" "peg ?rs cs f (GStar ws x r1) = Some r"
      using assms(3,4) by (auto simp: ref_exp_def bind_eq_Some_conv split: if_splits)
    then show ?thesis
      using movesD [OF assms(2) r1(1,2)] peg_ends [OF r1(3)] assms(5) EPlus by (auto simp: an_nullable_def)
  next
    case (ELabel n x)
    then have "peg ?rs cs f (GExp ws x p skd) = Some r" using assms(3) by (simp add: ref_exp_def)
    from movesD [OF assms(2) this assms(4)] show ?thesis using assms(5) ELabel by (simp add: an_nullable_def)
  next
    case (EPrec atom levels)
    then obtain x where x: "ref_start (peg ?rs cs f) ws p skd = Some x" "peg ?rs cs f (GPrec ws atom (table_ops levels) x 0) = Some r"
      using assms(3) by (auto simp: ref_exp_def bind_eq_Some_conv)
    then show ?thesis
      using st [OF x(1)] movesD [OF assms(2) x(2) assms(4)] assms(5) EPrec by (simp add: an_nullable_def)
  qed (use assms st in \<open>fastforce simp: ref_exp_def bind_eq_Some_conv an_nullable_def split: if_splits\<close>)+
qed

lemma moves_all:
  assumes "an_ok an"
  shows "ref_moves an cs f"
proof (induction f)
  case 0
  then show ?case by (simp add: ref_moves_def)
next
  case (Suc f)
  let ?rs = "an_rules an"
  show ?case
    unfolding ref_moves_def
  proof (intro allI impI)
    fix g r
    assume g: "peg ?rs cs (Suc f) g = Some r" and r: "(0 :: int) \<le> r"
    show "goal_moves an g r"
    proof (cases g)
      case (GExp ws e p skd)
      then show ?thesis using exp_moves [OF assms Suc.IH _ r] g by (simp add: ref_step_def)
    next
      case (GRule i p)
      then have "peg ?rs cs f (GExp (rule_ws (?rs ! i)) (ri_e (?rs ! i)) p True) = Some r" using g by (simp add: ref_step_def)
      from movesD [OF Suc.IH this r] show ?thesis using assms GRule by (auto simp: an_ok_def)
    next
      case (GPrec ws atom os p ml)
      obtain pl pe q where c: "ref_prefix (peg ?rs cs f) ws p (with_fix (\<lambda>f. f = Prefix) os) = Some (pl, pe)"
          "(if pl \<ge> 0 then do { x \<leftarrow> ref_sk (peg ?rs cs f) ws pe; peg ?rs cs f (GPrec ws atom os x (nat pl)) }
            else peg ?rs cs f (GExp ws atom p True)) = Some q"
          "(if q \<ge> 0 then peg ?rs cs f (GTail ws atom os q ml) else Some q) = Some r"
        using g GPrec by (auto simp: ref_step_def bind_eq_Some_conv)
      have q: "0 \<le> q" "q \<le> r" using c(3) r peg_ends [of ?rs cs f "GTail ws atom os q ml" r] by (auto split: if_splits)
      have "\<not> an_nullable an atom \<Longrightarrow> p < q"
      proof (cases "pl \<ge> 0")
        case True
        then obtain x where x: "ref_sk (peg ?rs cs f) ws pe = Some x" "peg ?rs cs f (GPrec ws atom os x (nat pl)) = Some q"
          using c(2) by (auto simp: bind_eq_Some_conv)
        assume "\<not> an_nullable an atom"
        then show ?thesis
          using movesD [OF Suc.IH x(2) q(1)] prefix_forward [OF peg_forward c(1) True] sk_forward [OF peg_forward x(1)] by simp
      next
        case False
        assume "\<not> an_nullable an atom"
        then show ?thesis using False c(2) movesD [OF Suc.IH _ q(1), of "GExp ws atom p True"] by simp
      qed
      then show ?thesis using GPrec q by auto
    qed simp_all
  qed
qed

section \<open>Before a skip or after it\<close>

text \<open>Where nothing is skipped, having skipped says nothing.\<close>

lemma skd_plain: "peg rs cs f (GExp False e p a) = peg rs cs f (GExp False e p b)"
proof (induction f arbitrary: e p a b)
  case (Suc f)
  have start: "ref_start (peg rs cs f) False p a = ref_start (peg rs cs f) False p b" by (simp add: ref_start_def)
  have seq: "ref_seq (peg rs cs f) False xs p a = ref_seq (peg rs cs f) False xs p b" for xs
    by (cases xs) (simp_all add: Suc.IH [of _ p a b])
  have alt: "ref_alt (peg rs cs f) False xs p a = ref_alt (peg rs cs f) False xs p b" for xs
    by (induction xs) (simp_all add: Suc.IH [of _ p a b] cong: if_cong)
  show ?case by (cases e) (simp_all add: ref_step_def ref_exp_def start seq alt Suc.IH [of _ p a b] cong: option.case_cong if_cong)
qed simp

text \<open>
  Skip leads from \<open>p\<close> to \<open>s\<close>. From \<open>s\<close> an expression answers what it answers from \<open>p\<close>, except that having
  matched nothing it ends where it began.
\<close>

definition moved :: "int \<Rightarrow> int \<Rightarrow> int \<Rightarrow> int \<Rightarrow> bool" where
  "moved p s r r' \<longleftrightarrow> r < 0 \<and> r' = r \<or> s < r \<and> r' = r \<or> (r = p \<or> r = s) \<and> r' = s"

lemma moved_same: "r = -1 \<or> s \<le> r \<Longrightarrow> moved p s r r"
  by (auto simp: moved_def)

definition shifts :: "rule_in list \<Rightarrow> int list \<Rightarrow> nat \<Rightarrow> int \<Rightarrow> int \<Rightarrow> bool" where
  "shifts rs cs f p s \<longleftrightarrow>
     (\<forall>e r b. peg rs cs f (GExp True e p False) = Some r \<longrightarrow>
        (\<exists>r'. peg rs cs f (GExp True e s b) = Some r' \<and> moved p s r r')) \<and>
     (\<forall>x r. peg rs cs f (GStar True x p) = Some r \<longrightarrow> (\<exists>r'. peg rs cs f (GStar True x s) = Some r' \<and> moved p s r r'))"

lemma shift_exp:
  "shifts rs cs f p s \<Longrightarrow> peg rs cs f (GExp True e p False) = Some r \<Longrightarrow>
     \<exists>r'. peg rs cs f (GExp True e s b) = Some r' \<and> moved p s r r'"
  by (simp add: shifts_def)

lemma shift_start:
  assumes "means rs cs (GSkip p) s" and "ref_start (peg rs cs f) True p False = Some x"
  shows "x = s \<and> ref_start (peg rs cs f) True s b = Some s"
proof -
  have x: "peg rs cs f (GSkip p) = Some x" using assms(2) by (simp add: ref_start_def)
  then have "x = s" using means_fun [OF assms(1)] peg_means by blast
  then show ?thesis using skip_idem [OF x] by (simp add: ref_start_def)
qed

lemma shift_seq:
  assumes "shifts rs cs f p s" and "ref_seq (peg rs cs f) True xs p False = Some r" and "0 \<le> p" and "p \<le> s"
  shows "\<exists>r'. ref_seq (peg rs cs f) True xs s b = Some r' \<and> moved p s r r'"
  using assms(2)
proof (induction xs arbitrary: b)
  case Nil
  then show ?case by (simp add: moved_def)
next
  case (Cons x xs)
  obtain r1 where r1: "peg rs cs f (GExp True x p False) = Some r1"
      "(if r1 < 0 then Some (-1) else ref_seq (peg rs cs f) True xs r1 False) = Some r"
    using Cons.prems by (auto simp: bind_eq_Some_conv)
  obtain r2 where r2: "peg rs cs f (GExp True x s b) = Some r2" "moved p s r1 r2"
    using shift_exp [OF assms(1) r1(1)] by blast
  consider "r1 < 0" "r2 = r1" | "s < r1" "r2 = r1" | "r1 = p" "r2 = s" | "r1 = s" "r2 = s"
    using r2(2) by (auto simp: moved_def)
  then show ?case
  proof cases
    case 1
    then show ?thesis using r1(2) r2(1) by (simp add: moved_def)
  next
    case 2
    then have "ref_seq (peg rs cs f) True xs r1 False = Some r" using r1(2) assms(3,4) by simp
    then show ?thesis using r2(1) 2 assms(3,4) seq_forward [OF peg_forward] by (fastforce intro: moved_same)
  next
    case 3
    then show ?thesis using r1(2) r2(1) assms(3,4) Cons.IH [of False] by auto
  next
    case 4
    then have "ref_seq (peg rs cs f) True xs s False = Some r" using r1(2) assms(3,4) by simp
    then show ?thesis using r2(1) 4 assms(3,4) seq_forward [OF peg_forward] by (fastforce intro: moved_same)
  qed
qed

lemma shift_alt:
  assumes "shifts rs cs f p s" and "ref_alt (peg rs cs f) True xs p False = Some r" and "0 \<le> p" and "p \<le> s"
  shows "\<exists>r'. ref_alt (peg rs cs f) True xs s b = Some r' \<and> moved p s r r'"
  using assms(2)
proof (induction xs)
  case Nil
  then show ?case by (simp add: moved_def)
next
  case (Cons x xs)
  obtain r1 where r1: "peg rs cs f (GExp True x p False) = Some r1"
      "(if r1 \<ge> 0 then Some r1 else ref_alt (peg rs cs f) True xs p False) = Some r"
    using Cons.prems by (auto simp: bind_eq_Some_conv)
  obtain r2 where r2: "peg rs cs f (GExp True x s b) = Some r2" "moved p s r1 r2"
    using shift_exp [OF assms(1) r1(1)] by blast
  have "0 \<le> r2 \<longleftrightarrow> 0 \<le> r1" using r2(2) assms(3,4) by (auto simp: moved_def)
  then show ?case using r1(2) r2 Cons.IH by (auto split: if_splits)
qed

lemma shift_step_exp:
  assumes "shifts rs cs f p s" and "means rs cs (GSkip p) s" and "0 \<le> p" and "p \<le> s"
    and "ref_exp rs cs (peg rs cs f) True e p False = Some r"
  shows "\<exists>r'. ref_exp rs cs (peg rs cs f) True e s b = Some r' \<and> moved p s r r'"
proof -
  note st = shift_start [OF assms(2), where b = b]
  note ex = shift_exp [OF assms(1), where b = b]
  show ?thesis
  proof (cases e)
    case (ELit l t ci)
    show ?thesis
    proof (cases "l = []")
      case True
      then show ?thesis using assms(5) ELit by (simp add: ref_exp_def moved_def)
    next
      case False
      then obtain x where x: "ref_start (peg rs cs f) True p False = Some x" "r = (if lit_here cs x ci l then x + int (length l) else -1)"
        using assms(5) ELit by (auto simp: ref_exp_def bind_eq_Some_conv)
      then show ?thesis using st [OF x(1)] False ELit by (auto simp: ref_exp_def intro: moved_same)
    qed
  next
    case (EClass ranges neg t)
    then obtain x where x: "ref_start (peg rs cs f) True p False = Some x" "r = (if in_class ranges neg (char_at cs x) then x + 1 else -1)"
      using assms(5) by (auto simp: ref_exp_def bind_eq_Some_conv)
    then show ?thesis using st [OF x(1)] EClass by (auto simp: ref_exp_def intro: moved_same)
  next
    case EAny
    then obtain x where x: "ref_start (peg rs cs f) True p False = Some x" "r = (if 0 \<le> char_at cs x then x + 1 else -1)"
      using assms(5) by (auto simp: ref_exp_def bind_eq_Some_conv)
    then show ?thesis using st [OF x(1)] EAny by (auto simp: ref_exp_def intro: moved_same)
  next
    case (ERef n)
    then obtain i x where x: "rule_index rs n = Some i" "ref_start (peg rs cs f) True p False = Some x" "peg rs cs f (GRule i x) = Some r"
      using assms(5) by (auto simp: ref_exp_def bind_eq_Some_conv split: option.splits)
    then show ?thesis using st [OF x(2)] peg_ends [OF x(3)] ERef by (auto simp: ref_exp_def intro!: moved_same)
  next
    case (ESeq xs)
    then show ?thesis using shift_seq [OF assms(1) _ assms(3,4)] assms(5) by (simp add: ref_exp_def)
  next
    case (EAlt xs)
    then show ?thesis using shift_alt [OF assms(1) _ assms(3,4)] assms(5) by (simp add: ref_exp_def)
  next
    case (EStar x)
    then show ?thesis using assms(1,5) by (simp add: ref_exp_def shifts_def)
  next
    case (EPlus x)
    then obtain r1 where r1: "peg rs cs f (GExp True x p False) = Some r1"
        "(if r1 < 0 then Some (-1) else peg rs cs f (GStar True x r1)) = Some r"
      using assms(5) by (auto simp: ref_exp_def bind_eq_Some_conv)
    obtain r2 where r2: "peg rs cs f (GExp True x s b) = Some r2" "moved p s r1 r2" using ex [OF r1(1)] by blast
    have same: "peg rs cs f (GStar True x v) = Some r \<Longrightarrow> s \<le> v \<Longrightarrow> moved p s r r" for v
      using peg_ends [of rs cs f "GStar True x v" r] by (auto intro: moved_same)
    have shifted: "peg rs cs f (GStar True x p) = Some r \<Longrightarrow> \<exists>r'. peg rs cs f (GStar True x s) = Some r' \<and> moved p s r r'"
      using assms(1) by (simp add: shifts_def)
    show ?thesis
      using r1(2) r2 assms(3,4) EPlus same shifted by (fastforce simp: ref_exp_def moved_def split: if_splits)
  next
    case (EOpt x)
    then obtain r1 where r1: "peg rs cs f (GExp True x p False) = Some r1" "r = (if r1 \<ge> 0 then r1 else p)"
      using assms(5) by (auto simp: ref_exp_def bind_eq_Some_conv)
    then show ?thesis using ex [OF r1(1)] assms(3,4) EOpt by (auto simp: ref_exp_def moved_def)
  next
    case (EAnd x)
    then obtain r1 where r1: "peg rs cs f (GExp True x p False) = Some r1" "r = (if r1 \<ge> 0 then p else -1)"
      using assms(5) by (auto simp: ref_exp_def bind_eq_Some_conv)
    then show ?thesis using ex [OF r1(1)] assms(3,4) EAnd by (auto simp: ref_exp_def moved_def)
  next
    case (ENot x)
    then obtain r1 where r1: "peg rs cs f (GExp True x p False) = Some r1" "r = (if r1 \<ge> 0 then -1 else p)"
      using assms(5) by (auto simp: ref_exp_def bind_eq_Some_conv)
    then show ?thesis using ex [OF r1(1)] assms(3,4) ENot by (auto simp: ref_exp_def moved_def)
  next
    case (ELabel n x)
    then show ?thesis using ex assms(5) by (simp add: ref_exp_def)
  next
    case (EPrec atom levels)
    then obtain x where x: "ref_start (peg rs cs f) True p False = Some x" "peg rs cs f (GPrec True atom (table_ops levels) x 0) = Some r"
      using assms(5) by (auto simp: ref_exp_def bind_eq_Some_conv)
    then show ?thesis using st [OF x(1)] peg_ends [OF x(2)] EPrec by (auto simp: ref_exp_def intro!: moved_same)
  qed
qed

lemma shift_step_star:
  assumes "shifts rs cs f p s" and "0 \<le> p" and "p \<le> s" and "peg rs cs (Suc f) (GStar True x p) = Some r"
  shows "\<exists>r'. peg rs cs (Suc f) (GStar True x s) = Some r' \<and> moved p s r r'"
proof -
  obtain r1 where r1: "peg rs cs f (GExp True x p False) = Some r1"
      "(if r1 < 0 \<or> r1 \<le> p then Some p else peg rs cs f (GStar True x r1)) = Some r"
    using assms(4) by (auto simp: ref_step_def bind_eq_Some_conv)
  obtain r2 where r2: "peg rs cs f (GExp True x s False) = Some r2" "moved p s r1 r2"
    using shift_exp [OF assms(1) r1(1)] by blast
  have s: "peg rs cs (Suc f) (GStar True x s) = (if r2 < 0 \<or> r2 \<le> s then Some s else peg rs cs f (GStar True x r2))"
    using r2(1) by (simp add: ref_step_def)
  consider "r1 < 0" "r2 = r1" | "s < r1" "r2 = r1" | "r1 = p" "r2 = s" | "r1 = s" "r1 \<noteq> p" "r2 = s"
    using r2(2) by (cases "r1 = p") (auto simp: moved_def)
  then show ?thesis
  proof cases
    case 1
    then show ?thesis using s r1(2) by (simp add: moved_def)
  next
    case 2
    then have g: "peg rs cs f (GStar True x r1) = Some r" using r1(2) assms by simp
    then show ?thesis using s 2 peg_ends [OF g] assms(2,3) by (auto intro: moved_same)
  next
    case 3
    then show ?thesis using s r1(2) by (simp add: moved_def)
  next
    case 4
    then have g: "peg rs cs f (GStar True x s) = Some r" using r1(2) assms by simp
    have "means rs cs (GStar True x s) s" using s 4 peg_means [of rs cs "Suc f"] by simp
    then have "r = s" using means_fun peg_means [OF g] by blast
    then show ?thesis using s 4 by (simp add: moved_def)
  qed
qed

lemma shifts_all:
  assumes "means rs cs (GSkip p) s" and "0 \<le> p" and "p \<le> s"
  shows "shifts rs cs f p s"
proof (induction f)
  case 0
  then show ?case by (simp add: shifts_def)
next
  case (Suc f)
  show ?case
    unfolding shifts_def [of rs cs "Suc f"]
    using shift_step_exp [OF Suc assms] shift_step_star [OF Suc assms(2,3)] by (simp add: ref_step_def)
qed

lemma shifted:
  assumes "peg rs cs f (GExp True e p False) = Some r" and "means rs cs (GSkip p) s" and "0 \<le> p"
  shows "\<exists>r'. peg rs cs f (GExp True e s b) = Some r' \<and> moved p s r r'"
proof -
  have "p \<le> s" using assms(2) peg_ends by (fastforce simp: means_def)
  from shift_exp [OF shifts_all [OF assms(2,3) this] assms(1)] show ?thesis .
qed

end
