(* ===== verification/PegServe.thy ===== *)
theory PegServe
  imports PegFuel PegShift
begin

text \<open>
  When a task of the matcher serves a goal of the reference, and what holds of its parts: skips, sequences,
  ordered choices with their guards. The reference's fuel bounds the matcher's nesting.
\<close>

section \<open>Tasks that serve goals\<close>

definition stood :: "analysis \<Rightarrow> 'f parser \<Rightarrow> bool \<Rightarrow> nat \<Rightarrow> pexp \<Rightarrow> bool" where
  "stood an P w e x \<longleftrightarrow> repr an (exprs (gr P)) (precs (gr P)) (\<not> w) e x \<and> fine an w x"

definition ops_stood :: "analysis \<Rightarrow> 'f parser \<Rightarrow> bool \<Rightarrow> prec_op list \<Rightarrow> op list \<Rightarrow> bool" where
  "ops_stood an P w os qs \<longleftrightarrow>
     list_all2 (\<lambda>o' q. po_fix o' = fst q \<and> po_lev o' = fst (snd q) \<and> stood an P w (po_e o') (snd (snd q))) os qs"

definition table_stood :: "analysis \<Rightarrow> 'f parser \<Rightarrow> bool \<Rightarrow> nat \<Rightarrow> pexp \<Rightarrow> op list \<Rightarrow> bool" where
  "table_stood an P w i atom os \<longleftrightarrow>
     i < length (precs (gr P)) \<and> stood an P w (pr_atom (precs (gr P) ! i)) atom \<and>
     ops_stood an P w (pr_ops (precs (gr P) ! i)) os"

text \<open>\<open>W\<close> says whether rules that skip may be under way.\<close>

fun serves :: "analysis \<Rightarrow> 'f parser \<Rightarrow> bool \<Rightarrow> task \<Rightarrow> goal \<Rightarrow> bool" where
  "serves an P W (Skip p) (GSkip q) \<longleftrightarrow> q = p \<and> 0 \<le> p"
| "serves an P W (SkipRule r p) (GSkip q) \<longleftrightarrow> q = p \<and> 0 \<le> p \<and> skip_rule (gr P) = Some r"
| "serves an P W (RuleK t r p) (GRule i q) \<longleftrightarrow>
     i = r \<and> q = p \<and> 0 \<le> p \<and> r < length (an_rules an) \<and>
     (rule_ws (an_rules an ! r) \<longrightarrow> W \<and> fixed (an_rules an) (codes P) p)"
| "serves an P W (Ev b t e p skd c) (GExp w x q a) \<longleftrightarrow>
     \<not> b \<and> w = ws c \<and> (w \<longrightarrow> W) \<and> q = p \<and> a = skd \<and> 0 \<le> p \<and> (w \<and> skd \<longrightarrow> fixed (an_rules an) (codes P) p) \<and>
     stood an P w e x"
| "serves an P W (Star b t e p c) (GStar w x q) \<longleftrightarrow> \<not> b \<and> w = ws c \<and> (w \<longrightarrow> W) \<and> q = p \<and> 0 \<le> p \<and> stood an P w e x"
| "serves an P W (Lead b t lead rest p c) (GStar w x q) \<longleftrightarrow>
     \<not> b \<and> \<not> ws c \<and> \<not> w \<and> q = p \<and> 0 \<le> p \<and>
     (\<exists>rg neg src e es. x = EAlt (EClass rg neg src # e # es) \<and> lead = of_class rg neg \<and>
        stood an P False rest (if es = [] then e else EAlt (e # es)))"
| "serves an P W (PrecK t i p ml c) (GPrec w atom os q l) \<longleftrightarrow>
     w = ws c \<and> (w \<longrightarrow> W \<and> fixed (an_rules an) (codes P) p) \<and> q = p \<and> l = ml \<and> 0 \<le> p \<and> table_stood an P w i atom os"
| "serves an P W (TailK t i ml c p) (GTail w atom os q l) \<longleftrightarrow>
     w = ws c \<and> (w \<longrightarrow> W) \<and> q = p \<and> l = ml \<and> 0 \<le> p \<and> table_stood an P w i atom os"
| "serves an P W k g \<longleftrightarrow> False"

section \<open>What a run keeps\<close>

text \<open>An entry of the memo is the rule's answer there.\<close>

definition cache_ok :: "rule_in list \<Rightarrow> 'f parser \<Rightarrow> machine \<Rightarrow> bool" where
  "cache_ok rs P m \<longleftrightarrow>
     length (cache m) = nslots (gr P) \<and>
     (\<forall>i < length rs. \<forall>s. xr_slot (rules (gr P) ! i) = Some s \<longrightarrow>
        (\<forall>p v. cache m ! (s * 2 + 1) = (p, v) \<longrightarrow> 0 \<le> p \<longrightarrow> (\<forall>w. means rs (codes P) (GRule i p) w \<longrightarrow> v = w)))"

definition good :: "rule_in list \<Rightarrow> 'f parser \<Rightarrow> nat \<Rightarrow> machine \<Rightarrow> bool" where
  "good rs P d m \<longleftrightarrow> cache_ok rs P m \<and> \<not> too_deep m \<and> depth m + d \<le> max_depth P"

definition stays :: "rule_in list \<Rightarrow> 'f parser \<Rightarrow> machine \<Rightarrow> machine \<Rightarrow> bool" where
  "stays rs P m m' \<longleftrightarrow> cache_ok rs P m' \<and> \<not> too_deep m' \<and> depth m' = depth m"

definition gives :: "rule_in list \<Rightarrow> 'f parser \<Rightarrow> machine \<Rightarrow> ('a \<times> machine) option \<Rightarrow> 'a \<Rightarrow> bool" where
  "gives rs P m r w \<longleftrightarrow> (\<exists>m'. r = Some (w, m') \<and> stays rs P m m')"

lemma good_stays: "good rs P d m \<Longrightarrow> stays rs P m m' \<Longrightarrow> good rs P d m'"
  by (simp add: good_def stays_def)

lemma good_self: "good rs P d m \<Longrightarrow> stays rs P m m"
  by (simp add: good_def stays_def)

lemma good_less: "good rs P d m \<Longrightarrow> d' \<le> d \<Longrightarrow> good rs P d' m"
  by (simp add: good_def)

lemma stays_trans: "stays rs P m m' \<Longrightarrow> stays rs P m' m'' \<Longrightarrow> stays rs P m m''"
  by (simp add: stays_def)

lemma cache_ok_cong: "cache m' = cache m \<Longrightarrow> cache_ok rs P m' = cache_ok rs P m"
  by (simp add: cache_ok_def)

lemma note_parts [simp]:
  "cache (fail_at x i m) = cache m" "too_deep (fail_at x i m) = too_deep m" "depth (fail_at x i m) = depth m"
  "cache (fail_cx c x i m) = cache m" "too_deep (fail_cx c x i m) = too_deep m" "depth (fail_cx c x i m) = depth m"
  "cache (okk a b m) = cache m" "too_deep (okk a b m) = too_deep m" "depth (okk a b m) = depth m"
  "cache (mute_end s p r i t m) = cache m" "too_deep (mute_end s p r i t m) = too_deep m"
  "depth (mute_end s p r i t m) = depth m"
  by (auto simp: fail_at_def fail_cx_def okk_def mute_end_def Let_def)

lemma stays_notes [simp]:
  "stays rs P m (fail_at x i m') = stays rs P m m'" "stays rs P m (fail_cx c x i m') = stays rs P m m'"
  "stays rs P m (okk a b m') = stays rs P m m'" "stays rs P m (mute_end s p r i t m') = stays rs P m m'"
  by (simp_all add: stays_def cache_ok_def)

lemma gives_some [simp]: "gives rs P m (Some (w, m')) w' \<longleftrightarrow> w = w' \<and> stays rs P m m'"
  by (auto simp: gives_def)

lemma gives_bind:
  assumes "gives rs P m r w" and "\<And>m'. stays rs P m m' \<Longrightarrow> gives rs P m' (k w m') v"
  shows "gives rs P m (Option.bind r (\<lambda>(x, m). k x m)) v"
  using assms stays_trans by (fastforce simp: gives_def)

text \<open>A run that serves the reference's answers with \<open>f\<close> fuel, given \<open>d\<close> levels of nesting.\<close>

definition serving :: "analysis \<Rightarrow> 'f parser \<Rightarrow> bool \<Rightarrow> (task \<Rightarrow> bool) \<Rightarrow> nat \<Rightarrow> nat \<Rightarrow> run \<Rightarrow> bool" where
  "serving an P W C f d call \<longleftrightarrow>
     (\<forall>k g w m. C k \<longrightarrow> serves an P W k g \<longrightarrow> peg (an_rules an) (codes P) f g = Some w \<longrightarrow> good (an_rules an) P d m \<longrightarrow>
        gives (an_rules an) P m (call k m) w)"

lemma servingD:
  "serving an P W C f d call \<Longrightarrow> serves an P W k g \<Longrightarrow> C k \<Longrightarrow> peg (an_rules an) (codes P) f g = Some w \<Longrightarrow>
     good (an_rules an) P d m \<Longrightarrow> gives (an_rules an) P m (call k m) w"
  by (simp add: serving_def)

definition ready :: "string list \<Rightarrow> analysis \<Rightarrow> 'f parser \<Rightarrow> bool" where
  "ready memo an P \<longleftrightarrow>
     built (an_rules an) memo [] an (gr P) \<and> an_ok an \<and> fine_rules an \<and> distinct (map ri_name (an_rules an)) \<and>
     (\<forall>c \<in> set (codes P). c \<le> 1114111)"

abbreviation anything :: "task \<Rightarrow> bool" where
  "anything k \<equiv> True"

lemma code_char: "code_at P p = char_at (codes P) p"
  by (simp add: code_at_def char_at_def)

lemma lit_same: "lit_at P x ci (map (fold_code ci) l) = lit_here (codes P) x ci l"
  by (induction l arbitrary: x) (simp_all add: code_char)

section \<open>Skip\<close>

lemma ready_skip:
  assumes "ready memo an P"
  shows "skip_rule (gr P) = skip_index (an_rules an)"
    and "skip_index (an_rules an) = Some i \<Longrightarrow> i < length (an_rules an) \<and> \<not> rule_ws (an_rules an ! i)"
    and "skip_class (gr P) = (case skip_index (an_rules an) of Some i \<Rightarrow> skip_class_of (ri_e (an_rules an ! i)) | None \<Rightarrow> None)"
  using assms by (auto simp: ready_def built_def skip_index_def find_Some_iff rule_ws_def)

lemma at_pos_gives:
  assumes "ready memo an P" and "serving an P W C f d call" and "\<And>p. C (Skip p)" and "good (an_rules an) P d m" and "0 \<le> p"
    and "ref_start (peg (an_rules an) (codes P) f) (ws c) p skd = Some x"
  shows "gives (an_rules an) P m (at_pos P call c p skd m) x"
proof (cases "ws c \<and> \<not> skd")
  case False
  then show ?thesis using assms(6) good_self [OF assms(4)] by (auto simp: at_pos_def ref_start_def)
next
  case True
  then have g: "peg (an_rules an) (codes P) f (GSkip p) = Some x" using assms(6) by (simp add: ref_start_def)
  show ?thesis
  proof (cases "skip_rule (gr P)")
    case None
    then have "x = p" using g ready_skip(1) [OF assms(1)] by (cases f) (simp_all add: ref_step_def)
    then show ?thesis using None good_self [OF assms(4)] by (simp add: at_pos_def)
  next
    case (Some r)
    then show ?thesis using True servingD [OF assms(2) _ assms(3) g assms(4), of p] assms(5) by (simp add: at_pos_def)
  qed
qed

lemma start_facts:
  assumes "ref_start (peg rs cs f) w p skd = Some x"
  shows "p \<le> x" and "w \<Longrightarrow> (skd \<Longrightarrow> fixed rs cs p) \<Longrightarrow> fixed rs cs x"
  using start_forward [OF peg_forward assms] skip_fixed assms by (auto simp: ref_start_def split: if_splits)

lemma sk_at: "sk P call c v m = at_pos P call c v False m"
  by (simp add: sk_def at_pos_def)

lemma ref_sk_start: "ref_sk call w p = ref_start call w p False"
  by (simp add: ref_sk_def ref_start_def)

section \<open>The parts of an expression\<close>

lemma ev_call:
  assumes "serving an P W anything f d call" and "good (an_rules an) P d m"
    and "peg (an_rules an) (codes P) f (GExp (ws c) x p skd) = Some r" and "stood an P (ws c) e x" and "0 \<le> p" and "ws c \<longrightarrow> W"
    and "ws c \<and> skd \<longrightarrow> fixed (an_rules an) (codes P) p"
  shows "gives (an_rules an) P m (call (Ev False t e p skd c) m) r"
  using servingD [OF assms(1) _ _ assms(3,2), of "Ev False t e p skd c"] assms(4-) by simp

lemma seq_gives:
  assumes "serving an P W anything f d call" and "good (an_rules an) P d m" and "list_all2 (stood an P (ws c)) is es"
    and "ref_seq (peg (an_rules an) (codes P) f) (ws c) es q skd = Some v" and "0 \<le> q" and "ws c \<longrightarrow> W"
    and "ws c \<and> skd \<longrightarrow> fixed (an_rules an) (codes P) q"
  shows "gives (an_rules an) P m (seq_items call False t is q skd c m) v"
  using assms(3,2,4-)
proof (induction arbitrary: q skd m rule: list_all2_induct)
  case Nil
  then show ?case by (simp add: good_self)
next
  case (Cons e es x xs)
  obtain r where r: "peg (an_rules an) (codes P) f (GExp (ws c) x q skd) = Some r"
      "(if r < 0 then Some (-1) else ref_seq (peg (an_rules an) (codes P) f) (ws c) xs r False) = Some v"
    using Cons.prems(2) by (auto simp: bind_eq_Some_conv)
  show ?case
    unfolding seq_items.simps
  proof (rule gives_bind [OF ev_call [OF assms(1) Cons.prems(1) r(1) Cons.hyps(1) Cons.prems(3-5)]])
    fix m'
    assume m': "stays (an_rules an) P m m'"
    have g: "good (an_rules an) P d m'" using good_stays [OF Cons.prems(1) m'] .
    show "gives (an_rules an) P m' (if r < 0 then Some (-1, m') else seq_items call False t es r False c m') v"
      using r(2) good_self [OF g] Cons.IH [OF g, of r False] Cons.prems(4) by (auto split: if_splits)
  qed
qed

lemma alt_gives:
  assumes "serving an P W anything f d call" and "good (an_rules an) P d m" and "list_all2 (stood an P (ws c)) is es"
    and "ref_alt (peg (an_rules an) (codes P) f) (ws c) es q skd = Some v" and "0 \<le> q" and "ws c \<longrightarrow> W"
    and "ws c \<and> skd \<longrightarrow> fixed (an_rules an) (codes P) q"
  shows "gives (an_rules an) P m (alt_items call False t is q skd c m) v"
  using assms(3,2,4)
proof (induction arbitrary: m rule: list_all2_induct)
  case Nil
  then show ?case by (simp add: good_self)
next
  case (Cons e es x xs)
  obtain r where r: "peg (an_rules an) (codes P) f (GExp (ws c) x q skd) = Some r"
      "(if r \<ge> 0 then Some r else ref_alt (peg (an_rules an) (codes P) f) (ws c) xs q skd) = Some v"
    using Cons.prems(2) by (auto simp: bind_eq_Some_conv)
  show ?case
    unfolding alt_items.simps
  proof (rule gives_bind [OF ev_call [OF assms(1) Cons.prems(1) r(1) Cons.hyps(1) assms(5-)]])
    fix m'
    assume m': "stays (an_rules an) P m m'"
    have g: "good (an_rules an) P d m'" using good_stays [OF Cons.prems(1) m'] .
    show "gives (an_rules an) P m' (if r \<ge> 0 then Some (r, m') else alt_items call False t es q skd c m') v"
      using r(2) good_self [OF g] Cons.IH [OF g] by (auto split: if_splits)
  qed
qed

definition alt_guard :: "analysis \<Rightarrow> pexp \<Rightarrow> charset option" where
  "alt_guard an x = (case x of EClass _ _ _ \<Rightarrow> None | ELit _ _ _ \<Rightarrow> None | other \<Rightarrow> guard (an_first an other))"

lemma alt_guards_map: "alt_guards an es = (if list_ex (an_nullable an) es then None else Some (map (alt_guard an) es))"
  by (simp add: alt_guards_def alt_guard_def [abs_def])

text \<open>With guards: an alternative the guard passes over would have failed.\<close>

lemma guard_passes:
  assumes "ready memo an P" and "peg (an_rules an) (codes P) f (GExp w x p skd) = Some r" and "0 \<le> r" and "fine an w x"
    and "start_at (an_rules an) (codes P) w p skd s" and "\<not> an_nullable an x"
  shows "guard_ok (alt_guard an x) (char_at (codes P) s)"
proof -
  have an: "an_ok an" "fine_rules an" "\<forall>c \<in> set (codes P). c \<le> 1114111" using assms(1) by (simp_all add: ready_def)
  have "starts_or_empty an (codes P) x p s r"
    using claim [OF ref_claims_all [OF an(1,2)] assms(2,3)] assms(4,5) by simp
  then have h: "first_has (an_first an x) (char_at (codes P) s)" using assms(6) by (simp add: starts_or_empty_def)
  then have "0 \<le> char_at (codes P) s" by (simp add: first_has_def)
  from guard_exact [OF an_first_ok [OF an(1)] this char_le [OF an(3)]] h
  have "guard_ok (guard (an_first an x)) (char_at (codes P) s)" by (auto simp: guard_ok_def split: option.splits)
  then show ?thesis by (auto simp: guard_ok_def alt_guard_def split: pexp.split)
qed

lemma moved_start:
  assumes "start_at (an_rules an) (codes P) w p skd s" and "peg (an_rules an) (codes P) f (GExp w x p skd) = Some r"
    and "an_ok an" and "\<not> an_nullable an x" and "0 \<le> p" and "w \<and> \<not> skd \<longrightarrow> means (an_rules an) (codes P) (GSkip p) s"
  shows "peg (an_rules an) (codes P) f (GExp w x s True) = Some r"
proof (cases "w \<and> \<not> skd")
  case False
  have s: "s = p" using assms(1) False by (auto simp: start_at_def split: if_splits)
  show ?thesis
  proof (cases w)
    case True
    then show ?thesis using s assms(2) False by simp
  next
    case False
    then show ?thesis using s assms(2) skd_plain [of "an_rules an" "codes P" f x p skd True] by simp
  qed
next
  case True
  then obtain r' where r': "peg (an_rules an) (codes P) f (GExp w x s True) = Some r'" "moved p s r r'"
    using shifted [of "an_rules an" "codes P" f x p r s True] assms(2,5,6) by auto
  have "r' \<noteq> s \<or> r < 0"
    using movesD [OF moves_all [OF assms(3)] r'(1)] assms(4,5) peg_ends [OF assms(2)] r'(2) True assms(6)
      peg_ends [of "an_rules an" "codes P" _ "GSkip p" s]
    by (fastforce simp: moved_def means_def)
  then show ?thesis using r' assms(5) by (auto simp: moved_def)
qed

lemma guarded_gives:
  assumes "ready memo an P" and "serving an P W anything f d call" and "good (an_rules an) P d m"
    and "list_all2 (stood an P (ws c)) is es" and "\<forall>x \<in> set es. \<not> an_nullable an x"
    and "ref_alt (peg (an_rules an) (codes P) f) (ws c) es p skd = Some v" and "0 \<le> p" and "p \<le> s" and "ws c \<longrightarrow> W"
    and "start_at (an_rules an) (codes P) (ws c) p skd s"
    and "ws c \<and> \<not> skd \<longrightarrow> means (an_rules an) (codes P) (GSkip p) s"
  shows "gives (an_rules an) P m (alt_items call False t (guarded (code_at P s) is
      (map (alt_guard an) es)) s True c m) v"
  using assms(4,3,5,6)
proof (induction arbitrary: m rule: list_all2_induct)
  case Nil
  then show ?case by (simp add: good_self guarded_def)
next
  case (Cons e es x xs)
  obtain r where r: "peg (an_rules an) (codes P) f (GExp (ws c) x p skd) = Some r"
      "(if r \<ge> 0 then Some r else ref_alt (peg (an_rules an) (codes P) f) (ws c) xs p skd) = Some v"
    using Cons.prems(3) by (auto simp: bind_eq_Some_conv)
  have x: "fine an (ws c) x" "\<not> an_nullable an x" using Cons by (auto simp: stood_def)
  have an: "an_ok an" using assms(1) by (simp add: ready_def)
  show ?case
  proof (cases "guard_ok (alt_guard an x) (code_at P s)")
    case False
    then have "\<not> 0 \<le> r" using guard_passes [OF assms(1) r(1) _ x(1) assms(10) x(2)] by (auto simp: code_char)
    then show ?thesis using False r(2) Cons.IH [OF Cons.prems(1)] Cons.prems(2) by (simp add: guarded_def)
  next
    case True
    have s: "peg (an_rules an) (codes P) f (GExp (ws c) x s True) = Some r"
      using moved_start [OF assms(10) r(1) an x(2) assms(7,11)] .
    have fx: "ws c \<and> True \<longrightarrow> fixed (an_rules an) (codes P) s" using start_fixed [OF assms(10)] by simp
    have "gives (an_rules an) P m (call (Ev False t e s True c) m) r"
      using ev_call [OF assms(2) Cons.prems(1) s Cons.hyps(1) _ assms(9) fx] assms(7,8) by simp
    then have "gives (an_rules an) P m (alt_items call False t (e # guarded (code_at P s) es
        (map (alt_guard an) xs)) s True c m) v"
      unfolding alt_items.simps
    proof (rule gives_bind)
      fix m'
      assume m': "stays (an_rules an) P m m'"
      have g: "good (an_rules an) P d m'" using good_stays [OF Cons.prems(1) m'] .
      show "gives (an_rules an) P m' (if r \<ge> 0 then Some (r, m') else alt_items call False t (guarded (code_at P s) es
        (map (alt_guard an) xs)) s True c m') v"
        using r(2) good_self [OF g] Cons.IH [OF g] Cons.prems(2) by (auto split: if_splits)
    qed
    then show ?thesis using True by (simp add: guarded_def)
  qed
qed

end
