(* ===== verification/PegAgree.thy ===== *)
theory PegAgree
  imports PegServe
begin

text \<open>
  The matcher agrees with the reference: recognising or noting, with the memo, the guards of an ordered
  choice, the loops run in place and the limit on nesting, it answers what the grammar means, whenever the
  grammar means anything and the limit is not met. The proof follows the reference's fuel.
\<close>

section \<open>Loops run in place\<close>

lemma run_class_start: "p \<le> run_class P cls p"
proof (induction P cls p rule: run_class.induct)
  case (1 P cls q)
  then show ?case by (subst run_class.simps) auto
qed

text \<open>A repeated class is run over its characters.\<close>

lemma run_class_star:
  "peg rs (codes P) f (GStar False (EClass rg neg src) p) = Some w \<Longrightarrow> 0 \<le> p \<Longrightarrow> run_class P (of_class rg neg) p = w"
proof (induction f arbitrary: p)
  case (Suc f)
  obtain r where r: "peg rs (codes P) f (GExp False (EClass rg neg src) p False) = Some r"
      "(if r < 0 \<or> r \<le> p then Some p else peg rs (codes P) f (GStar False (EClass rg neg src) r)) = Some w"
    using Suc.prems(1) by (auto simp: ref_step_def bind_eq_Some_conv)
  have e: "r = (if has (of_class rg neg) (code_at P p) then p + 1 else -1)"
    using r(1) by (cases f) (auto simp: ref_step_def ref_exp_def ref_start_def has_class code_char)
  show ?case
  proof (cases "has (of_class rg neg) (code_at P p)")
    case True
    then show ?thesis using r(2) e Suc.IH [of "p + 1"] Suc.prems(2) by (subst run_class.simps) simp
  next
    case False
    then show ?thesis using r(2) e by (subst run_class.simps) simp
  qed
qed simp

text \<open>A \<open>skip\<close> that is a repeated class is one run.\<close>

lemma skip_class_body:
  assumes "skip_class_of e = Some cls"
  obtains rg neg src where "cls = of_class rg neg" and "e = EStar (EClass rg neg src) \<or> e = EPlus (EClass rg neg src)"
  using assms by (auto simp: skip_class_of_def split: pexp.splits)

lemma run_class_stop: "\<not> has cls (code_at P (run_class P cls p))"
proof (induction P cls p rule: run_class.induct)
  case (1 P cls q)
  then show ?case by (subst run_class.simps) auto
qed

lemma run_class_here: "\<not> has cls (code_at P p) \<Longrightarrow> run_class P cls p = p"
  by (subst run_class.simps) simp

lemma skip_body_run:
  assumes "skip_class_of e = Some cls" and "peg rs (codes P) f (GExp False e p True) = Some r" and "0 \<le> p"
  shows "r = run_class P cls p \<or> r = -1 \<and> run_class P cls p = p"
proof -
  obtain rg neg src where e: "cls = of_class rg neg" "e = EStar (EClass rg neg src) \<or> e = EPlus (EClass rg neg src)"
    using skip_class_body [OF assms(1)] .
  obtain f' where f: "f = Suc f'" using assms(2) by (cases f) auto
  from e(2) show ?thesis
  proof
    assume "e = EStar (EClass rg neg src)"
    then have "peg rs (codes P) f' (GStar False (EClass rg neg src) p) = Some r"
      using assms(2) f by (simp add: ref_step_def ref_exp_def)
    then show ?thesis using run_class_star e(1) assms(3) by metis
  next
    assume "e = EPlus (EClass rg neg src)"
    then obtain r1 where r1: "peg rs (codes P) f' (GExp False (EClass rg neg src) p True) = Some r1"
        "(if r1 < 0 then Some (-1) else peg rs (codes P) f' (GStar False (EClass rg neg src) r1)) = Some r"
      using assms(2) f by (auto simp: ref_step_def ref_exp_def bind_eq_Some_conv)
    have h: "r1 = (if has cls (code_at P p) then p + 1 else -1)"
      using r1(1) e(1) by (cases f') (auto simp: ref_step_def ref_exp_def ref_start_def has_class code_char)
    show ?thesis
    proof (cases "has cls (code_at P p)")
      case True
      then have "peg rs (codes P) f' (GStar False (EClass rg neg src) (p + 1)) = Some r" using r1(2) h assms(3) by simp
      from run_class_star [OF this] have "run_class P cls (p + 1) = r" using e(1) assms(3) by simp
      then show ?thesis using True by (subst run_class.simps) simp
    next
      case False
      then show ?thesis using r1(2) h run_class_here [OF False] by simp
    qed
  qed
qed

lemma skip_class_run:
  assumes "ready memo an P" and "skip_class (gr P) = Some cls"
    and "peg (an_rules an) (codes P) f (GSkip p) = Some s" and "0 \<le> p"
  shows "run_class P cls p = s"
  using assms(3,4)
proof (induction f arbitrary: p)
  case (Suc f)
  obtain i where i: "skip_index (an_rules an) = Some i" "skip_class_of (ri_e (an_rules an ! i)) = Some cls"
    using ready_skip(3) [OF assms(1)] assms(2) by (auto split: option.splits)
  have nows: "\<not> rule_ws (an_rules an ! i)" using ready_skip(2) [OF assms(1) i(1)] by simp
  obtain r where r: "peg (an_rules an) (codes P) f (GRule i p) = Some r"
      "(if r \<le> p then Some p else peg (an_rules an) (codes P) f (GSkip r)) = Some s"
    using Suc.prems(1) i(1) by (auto simp: ref_step_def bind_eq_Some_conv)
  obtain f' where "peg (an_rules an) (codes P) f' (GExp False (ri_e (an_rules an ! i)) p True) = Some r"
    using r(1) nows by (cases f) (auto simp: ref_step_def)
  from skip_body_run [OF i(2) this Suc.prems(2)] have "r = run_class P cls p \<or> r = -1 \<and> run_class P cls p = p" .
  then show ?case
  proof
    assume e: "r = run_class P cls p"
    show ?thesis
    proof (cases "r \<le> p")
      case True
      then show ?thesis using r(2) e run_class_start [of p P cls] by simp
    next
      case False
      then have "run_class P cls r = s" using r(2) Suc.IH [of r] Suc.prems(2) by simp
      then show ?thesis using e run_class_here [OF run_class_stop] by metis
    qed
  next
    assume "r = -1 \<and> run_class P cls p = p"
    then show ?thesis using r(2) Suc.prems(2) by simp
  qed
qed simp

section \<open>Precedence tables\<close>

lemma ops_filter:
  "ops_stood an P w os qs \<Longrightarrow> ops_stood an P w (filter (\<lambda>o'. F (po_fix o')) os) (with_fix F qs)"
  unfolding ops_stood_def with_fix_def by (induction rule: list_all2_induct) auto

lemma prefix_gives:
  assumes "serving an P W anything f d call" and "good (an_rules an) P d m" and "ops_stood an P (ws c) os qs"
    and "ref_prefix (peg (an_rules an) (codes P) f) (ws c) p qs = Some v" and "0 \<le> p" and "ws c \<longrightarrow> W"
    and "ws c \<longrightarrow> fixed (an_rules an) (codes P) p"
  shows "gives (an_rules an) P m (prefix_scan call t p c os m) v"
  using assms(3) [unfolded ops_stood_def] assms(2,4)
proof (induction arbitrary: m rule: list_all2_induct)
  case Nil
  then show ?case by (simp add: good_self)
next
  case (Cons o' os q qs)
  obtain fx lev x where q: "q = (fx, lev, x)" by (cases q) auto
  obtain r where r: "peg (an_rules an) (codes P) f (GExp (ws c) x p True) = Some r"
      "(if r \<ge> 0 then Some (int lev, r) else ref_prefix (peg (an_rules an) (codes P) f) (ws c) p qs) = Some v"
    using Cons.prems(2) q by (auto simp: bind_eq_Some_conv)
  have st: "stood an P (ws c) (po_e o') x" "po_lev o' = lev" using Cons.hyps(1) q by auto
  show ?case
    unfolding prefix_scan.simps
  proof (rule gives_bind [OF ev_call [OF assms(1) Cons.prems(1) r(1) st(1) assms(5,6)]])
    show "ws c \<and> True \<longrightarrow> fixed (an_rules an) (codes P) p" using assms(7) by simp
    fix m'
    assume m': "stays (an_rules an) P m m'"
    have g: "good (an_rules an) P d m'" using good_stays [OF Cons.prems(1) m'] .
    show "gives (an_rules an) P m' (if r \<ge> 0 then Some ((int (po_lev o'), r), m') else prefix_scan call t p c os m') v"
      using r(2) st(2) good_self [OF g] Cons.IH [OF g] by (auto split: if_splits)
  qed
qed

lemma postfix_gives:
  assumes "serving an P W anything f d call" and "good (an_rules an) P d m" and "ops_stood an P (ws c) os qs"
    and "ref_postfix (peg (an_rules an) (codes P) f) (ws c) ml p qs = Some v" and "0 \<le> p" and "ws c \<longrightarrow> W"
    and "ws c \<longrightarrow> fixed (an_rules an) (codes P) p"
  shows "gives (an_rules an) P m (postfix_scan call t ml p c os m) v"
  using assms(3) [unfolded ops_stood_def] assms(2,4)
proof (induction arbitrary: m rule: list_all2_induct)
  case Nil
  then show ?case by (simp add: good_self)
next
  case (Cons o' os q qs)
  obtain fx lev x where q: "q = (fx, lev, x)" by (cases q) auto
  have st: "stood an P (ws c) (po_e o') x" "po_lev o' = lev" using Cons.hyps(1) q by auto
  show ?case
  proof (cases "ml \<le> lev")
    case False
    then show ?thesis using Cons st(2) q by simp
  next
    case True
    then obtain r where r: "peg (an_rules an) (codes P) f (GExp (ws c) x p True) = Some r"
        "(if r \<ge> 0 then Some (Some r) else ref_postfix (peg (an_rules an) (codes P) f) (ws c) ml p qs) = Some v"
      using Cons.prems(2) q by (auto simp: bind_eq_Some_conv)
    have fx: "ws c \<and> True \<longrightarrow> fixed (an_rules an) (codes P) p" using assms(7) by simp
    have "gives (an_rules an) P m (do { (r, m) \<leftarrow> call (Ev False t (po_e o') p True c) m;
        if r \<ge> 0 then Some (Some r, m) else postfix_scan call t ml p c os m }) v"
    proof (rule gives_bind [OF ev_call [OF assms(1) Cons.prems(1) r(1) st(1) assms(5,6) fx]])
      fix m'
      assume m': "stays (an_rules an) P m m'"
      have g: "good (an_rules an) P d m'" using good_stays [OF Cons.prems(1) m'] .
      show "gives (an_rules an) P m' (if r \<ge> 0 then Some (Some r, m') else postfix_scan call t ml p c os m') v"
        using r(2) good_self [OF g] Cons.IH [OF g] by (auto split: if_splits)
    qed
    then show ?thesis using True st(2) by simp
  qed
qed

lemma sk_gives:
  assumes "ready memo an P" and "serving an P W anything f d call" and "good (an_rules an) P d m" and "0 \<le> p"
    and "ref_sk (peg (an_rules an) (codes P) f) (ws c) p = Some x"
  shows "gives (an_rules an) P m (sk P call c p m) x"
  using at_pos_gives [OF assms(1,2) _ assms(3,4), of c False x] assms(5) by (simp add: sk_at ref_sk_start)

lemma sk_facts:
  assumes "ref_sk (peg rs cs f) w p = Some x"
  shows "p \<le> x" and "w \<longrightarrow> fixed rs cs x"
  using start_facts [of rs cs f w p False x] assms by (auto simp: ref_sk_start)

text \<open>What answers the operator's end and its operand's is what the reference answers of the operand.\<close>

definition gives_inf :: "rule_in list \<Rightarrow> 'f parser \<Rightarrow> machine \<Rightarrow> ((int \<times> int) option \<times> machine) option \<Rightarrow> int option \<Rightarrow> bool" where
  "gives_inf rs P m r w \<longleftrightarrow> (\<exists>m' u. r = Some (u, m') \<and> map_option snd u = w \<and> stays rs P m m')"

lemma gives_inf_bind:
  assumes "gives rs P m r w" and "\<And>m'. stays rs P m m' \<Longrightarrow> gives_inf rs P m' (k w m') v"
  shows "gives_inf rs P m (Option.bind r (\<lambda>(x, m). k x m)) v"
  using assms stays_trans by (fastforce simp: gives_def gives_inf_def)

lemma infix_gives:
  assumes "ready memo an P" and "serving an P W anything f d call" and "good (an_rules an) P d m"
    and "ops_stood an P (ws c) os qs" and "table_stood an P (ws c) i atom all"
    and "ref_infix (peg (an_rules an) (codes P) f) (ws c) (GPrec (ws c) atom all) ml p qs = Some v" and "0 \<le> p" and "ws c \<longrightarrow> W"
    and "ws c \<longrightarrow> fixed (an_rules an) (codes P) p"
  shows "gives_inf (an_rules an) P m (infix_scan P call t (\<lambda>from1 lev. PrecK t i from1 lev c) ml p c os m) v"
  using assms(4) [unfolded ops_stood_def] assms(3,6)
proof (induction arbitrary: m rule: list_all2_induct)
  case Nil
  then show ?case using good_self [OF Nil.prems(1)] by (simp add: gives_inf_def)
next
  case (Cons o' os q qs)
  let ?ref = "peg (an_rules an) (codes P) f" and ?run = "\<lambda>m. infix_scan P call t (\<lambda>from1 lev. PrecK t i from1 lev c) ml p c os m"
  obtain fx lev x where q: "q = (fx, lev, x)" by (cases q) auto
  have st: "stood an P (ws c) (po_e o') x" "po_lev o' = lev" "next_level o' = above fx lev"
    using Cons.hyps(1) q by (auto simp: next_level_def above_def)
  show ?case
  proof (cases "ml \<le> lev")
    case False
    then show ?thesis using Cons st(2) q by simp
  next
    case True
    then obtain r where r: "?ref (GExp (ws c) x p True) = Some r"
        "(if r \<ge> 0 then do { q \<leftarrow> ref_sk ?ref (ws c) r; v \<leftarrow> ?ref (GPrec (ws c) atom all q (above fx lev));
            if v \<ge> 0 then Some (Some v) else ref_infix ?ref (ws c) (GPrec (ws c) atom all) ml p qs }
          else ref_infix ?ref (ws c) (GPrec (ws c) atom all) ml p qs) = Some v"
      using Cons.prems(2) q by (auto simp: bind_eq_Some_conv)
    have fx: "ws c \<and> True \<longrightarrow> fixed (an_rules an) (codes P) p" using assms(9) by simp
    have "gives_inf (an_rules an) P m (do { (r, m) \<leftarrow> call (Ev False t (po_e o') p True c) m;
        if r \<ge> 0 then do { (from1, m) \<leftarrow> sk P call c r m; (v, m) \<leftarrow> call (PrecK t i from1 (next_level o') c) m;
            if v \<ge> 0 then Some (Some (r, v), m) else ?run m }
        else ?run m }) v"
    proof (rule gives_inf_bind [OF ev_call [OF assms(2) Cons.prems(1) r(1) st(1) assms(7,8) fx]])
      fix m1
      assume m1: "stays (an_rules an) P m m1"
      have g1: "good (an_rules an) P d m1" using good_stays [OF Cons.prems(1) m1] .
      show "gives_inf (an_rules an) P m1 (if r \<ge> 0 then do { (from1, m) \<leftarrow> sk P call c r m1;
          (v, m) \<leftarrow> call (PrecK t i from1 (next_level o') c) m; if v \<ge> 0 then Some (Some (r, v), m) else ?run m }
        else ?run m1) v"
      proof (cases "r \<ge> 0")
        case False
        then show ?thesis using r(2) Cons.IH [OF g1] by simp
      next
        case rpos: True
        then obtain y u where y: "ref_sk ?ref (ws c) r = Some y" "?ref (GPrec (ws c) atom all y (above fx lev)) = Some u"
            "(if u \<ge> 0 then Some (Some u) else ref_infix ?ref (ws c) (GPrec (ws c) atom all) ml p qs) = Some v"
          using r(2) by (auto simp: bind_eq_Some_conv)
        have "gives_inf (an_rules an) P m1 (do { (from1, m) \<leftarrow> sk P call c r m1;
          (v, m) \<leftarrow> call (PrecK t i from1 (next_level o') c) m; if v \<ge> 0 then Some (Some (r, v), m) else ?run m }) v"
        proof (rule gives_inf_bind [OF sk_gives [OF assms(1,2) g1 rpos y(1)]])
          fix m2
          assume m2: "stays (an_rules an) P m1 m2"
          have g2: "good (an_rules an) P d m2" using good_stays [OF g1 m2] .
          have "serves an P W (PrecK t i y (next_level o') c) (GPrec (ws c) atom all y (above fx lev))"
            using sk_facts [OF y(1)] rpos assms(5,8) st(3) by simp
          from servingD [OF assms(2) this _ y(2) g2]
          show "gives_inf (an_rules an) P m2 (do { (v, m) \<leftarrow> call (PrecK t i y (next_level o') c) m2;
              if v \<ge> 0 then Some (Some (r, v), m) else ?run m }) v"
          proof (rule gives_inf_bind)
            fix m3
            assume m3: "stays (an_rules an) P m2 m3"
            have g3: "good (an_rules an) P d m3" using good_stays [OF g2 m3] .
            show "gives_inf (an_rules an) P m3 (if u \<ge> 0 then Some (Some (r, u), m3) else ?run m3) v"
              using y(3) Cons.IH [OF g3] good_self [OF g3] by (auto simp: gives_inf_def split: if_splits)
          qed simp
        qed
        then show ?thesis using rpos by simp
      qed
    qed
    then show ?thesis using True st(2) by simp
  qed
qed

section \<open>An expression\<close>

text \<open>Skip answers from every place; an ordered choice with guards asks it before it tries an alternative.\<close>

definition skipping :: "analysis \<Rightarrow> 'f parser \<Rightarrow> nat \<Rightarrow> run \<Rightarrow> bool" where
  "skipping an P d call \<longleftrightarrow>
     (\<forall>p m. 0 \<le> p \<longrightarrow> good (an_rules an) P d m \<longrightarrow>
        (\<exists>s. means (an_rules an) (codes P) (GSkip p) s \<and> gives (an_rules an) P m (call (Skip p) m) s))"

lemma means_forward: "means rs cs (GSkip p) s \<Longrightarrow> p \<le> s"
  by (auto simp: means_def dest: peg_ends)

lemma guard_start:
  assumes "ready memo an P" and "W \<Longrightarrow> skipping an P d call" and "good (an_rules an) P d m" and "0 \<le> p" and "ws c \<longrightarrow> W"
    and "ws c \<and> skd \<longrightarrow> fixed (an_rules an) (codes P) p"
  obtains s where "gives (an_rules an) P m (at_pos P call c p skd m) s" and "p \<le> s"
    and "start_at (an_rules an) (codes P) (ws c) p skd s" and "ws c \<and> \<not> skd \<longrightarrow> means (an_rules an) (codes P) (GSkip p) s"
proof (cases "ws c \<and> \<not> skd")
  case False
  then have "ws c \<longrightarrow> fixed (an_rules an) (codes P) p" using assms(6) by blast
  then have "start_at (an_rules an) (codes P) (ws c) p skd p" using False by (auto simp: start_at_def)
  moreover have "gives (an_rules an) P m (at_pos P call c p skd m) p"
    using False good_self [OF assms(3)] by (auto simp: at_pos_def)
  ultimately show ?thesis using that [of p] False by blast
next
  case True
  obtain s where s: "means (an_rules an) (codes P) (GSkip p) s" "gives (an_rules an) P m (at_pos P call c p skd m) s"
  proof (cases "skip_rule (gr P)")
    case None
    then have "peg (an_rules an) (codes P) (Suc 0) (GSkip p) = Some p"
      using ready_skip(1) [OF assms(1)] by (simp add: ref_step_def)
    from peg_means [OF this] show ?thesis using that [of p] None good_self [OF assms(3)] by (simp add: at_pos_def)
  next
    case (Some r)
    then show ?thesis using that assms(2-5) True by (auto simp: skipping_def at_pos_def)
  qed
  then have "start_at (an_rules an) (codes P) (ws c) p skd s"
    using True means_fun skip_means_fixed by (fastforce simp: start_at_def)
  then show ?thesis using that [OF s(2) means_forward [OF s(1)]] s(1) by simp
qed

lemma test_gives:
  assumes "gives rs P m (at_pos P call c p skd m) y"
  shows "gives rs P m (do { (x, m) \<leftarrow> at_pos P call c p skd m; test_end t c x (b x) (ok x) i m }) (if ok y then b y else -1)"
proof (rule gives_bind [OF assms])
  fix m'
  assume "stays rs P m m'"
  then have "stays rs P m' m'" by (simp add: stays_def)
  then show "gives rs P m' (test_end t c y (b y) (ok y) i m') (if ok y then b y else -1)" by (simp add: test_end_def)
qed

lemma not_any_gives:
  assumes "ready memo an P" and "serving an P W anything f d call" and "good (an_rules an) P d m" and "0 \<le> p"
    and "peg (an_rules an) (codes P) f (GExp (ws c) EAny p skd) = Some r"
  shows "\<exists>x. gives (an_rules an) P m (at_pos P call c p skd m) x"
proof -
  obtain f' x where f: "f = Suc f'" "ref_start (peg (an_rules an) (codes P) f') (ws c) p skd = Some x"
    using assms(5) by (cases f) (auto simp: ref_step_def ref_exp_def bind_eq_Some_conv)
  have "ref_start (peg (an_rules an) (codes P) f) (ws c) p skd = Some x"
    using start_ext [OF peg_more [of _ _ f' 1] f(2)] f(1) by simp
  from at_pos_gives [OF assms(1,2) _ assms(3,4) this] show ?thesis by blast
qed

lemma alt_expr_gives:
  assumes "ready memo an P" and "serving an P W anything f d call" and "W \<Longrightarrow> skipping an P d call"
    and "good (an_rules an) P d m" and "ref_alt (peg (an_rules an) (codes P) f) (ws c) es p skd = Some v"
    and "list_all2 (stood an P (ws c)) is es" and "exprs (gr P) ! e = XAlt is (alt_guards an es)" and "0 \<le> p" and "ws c \<longrightarrow> W"
    and "ws c \<and> skd \<longrightarrow> fixed (an_rules an) (codes P) p"
  shows "gives (an_rules an) P m (ev P call False t e p skd c m) v"
proof (cases "t \<or> list_ex (an_nullable an) es")
  case True
  have "ev P call False t e p skd c m = alt_items call False t is p skd c m"
    using True by (auto simp: ev_def assms(7) alt_guards_map split: bool.split)
  then show ?thesis using alt_gives [OF assms(2,4,6,5,8,9,10)] by simp
next
  case False
  then have nn: "\<forall>x \<in> set es. \<not> an_nullable an x" by (simp add: list_ex_iff)
  obtain s where s: "gives (an_rules an) P m (at_pos P call c p skd m) s" "p \<le> s"
      "start_at (an_rules an) (codes P) (ws c) p skd s" "ws c \<and> \<not> skd \<longrightarrow> means (an_rules an) (codes P) (GSkip p) s"
    using guard_start [OF assms(1,3,4,8,9,10)] .
  have "ev P call False t e p skd c m =
      do { (x, m) \<leftarrow> at_pos P call c p skd m;
        alt_items call False t (guarded (code_at P x) is (map (alt_guard an) es)) x True c m }"
    using False by (simp add: ev_def assms(7) alt_guards_map)
  then show ?thesis
    using gives_bind [OF s(1), of "\<lambda>x m. alt_items call False t (guarded (code_at P x) is (map (alt_guard an) es)) x True c m" v]
      guarded_gives [OF assms(1,2) good_stays [OF assms(4)] assms(6) nn assms(5,8) s(2) assms(9) s(3,4)] by simp
qed

lemma ev_gives:
  assumes "ready memo an P" and "serving an P W anything f d call" and "W \<Longrightarrow> skipping an P d call"
    and "good (an_rules an) P d m" and "ref_exp (an_rules an) (codes P) (peg (an_rules an) (codes P) f) (ws c) x p skd = Some v"
    and "stood an P (ws c) e x" and "0 \<le> p" and "ws c \<longrightarrow> W" and "ws c \<and> skd \<longrightarrow> fixed (an_rules an) (codes P) p"
  shows "gives (an_rules an) P m (ev P call False t e p skd c m) v"
proof -
  let ?rs = "an_rules an" and ?ref = "peg (an_rules an) (codes P) f"
  note self = good_self [OF assms(4)]
  note sub = ev_call [OF assms(2,4) _ _ assms(7,8,9)]
  note at = at_pos_gives [OF assms(1,2) _ assms(4,7)]
  have fine: "fine an (ws c) x" using assms(6) by (simp add: stood_def)
  have "repr an (exprs (gr P)) (precs (gr P)) (\<not> ws c) e x" using assms(6) by (simp add: stood_def)
  then show ?thesis
  proof (cases rule: repr.cases)
    case (r_empty s ci)
    then show ?thesis using assms(5) self by (simp add: ev_def ref_exp_def)
  next
    case (r_lit ci l i s)
    then obtain y where y: "ref_start ?ref (ws c) p skd = Some y" "v = (if lit_here (codes P) y ci l then y + int (length l) else -1)"
      using assms(5) by (auto simp: ref_exp_def bind_eq_Some_conv)
    show ?thesis
      using test_gives [OF at [OF _ y(1)], of t "\<lambda>x. x + int (length l)" "\<lambda>x. lit_here (codes P) x ci l" i] y(2) r_lit(3)
      by (simp add: ev_def lit_same)
  next
    case (r_class rg neg i s)
    then obtain y where y: "ref_start ?ref (ws c) p skd = Some y" "v = (if in_class rg neg (char_at (codes P) y) then y + 1 else -1)"
      using assms(5) by (auto simp: ref_exp_def bind_eq_Some_conv)
    show ?thesis
      using test_gives [OF at [OF _ y(1)], of t "\<lambda>x. x + 1" "\<lambda>x. in_class rg neg (char_at (codes P) x)" i] y(2) r_class(3)
      by (simp add: ev_def has_class code_char)
  next
    case r_any
    then obtain y where y: "ref_start ?ref (ws c) p skd = Some y" "v = (if 0 \<le> char_at (codes P) y then y + 1 else -1)"
      using assms(5) by (auto simp: ref_exp_def bind_eq_Some_conv)
    show ?thesis
      using test_gives [OF at [OF _ y(1)], of t "\<lambda>x. x + 1" "\<lambda>x. 0 \<le> char_at (codes P) x" "any_desc (gr P)"] y(2) r_any(3)
      by (simp add: ev_def code_char)
  next
    case (r_ref r n)
    then obtain y where y: "ref_start ?ref (ws c) p skd = Some y" "?ref (GRule r y) = Some v"
      using assms(5) by (auto simp: ref_exp_def bind_eq_Some_conv)
    have "serves an P W (RuleK (t \<and> \<not> inner c) r y) (GRule r y)"
      using start_facts [OF y(1)] assms(7-9) rule_index_name [OF r_ref(4)] fine r_ref(1,4) by auto
    note run = servingD [OF assms(2) this _ y(2)]
    show ?thesis
      using gives_bind [OF at [OF _ y(1)], of "\<lambda>x m. call (RuleK (t \<and> \<not> inner c) r x) m" v]
        run good_stays [OF assms(4)] r_ref(3) by (simp add: ev_def ev_ref_def [abs_def])
  next
    case (r_seq "is" es)
    have "list_all2 (stood an P (ws c)) is es"
      using r_seq(4) fine r_seq(1) by (auto simp: stood_def list_all2_conv_all_nth list_all_length)
    moreover have "ref_seq ?ref (ws c) es p skd = Some v" using assms(5) r_seq(1) by (simp add: ref_exp_def)
    ultimately have "gives ?rs P m (seq_items call False t is p skd c m) v"
      using seq_gives [OF assms(2,4) _ _ assms(7,8,9)] by blast
    then show ?thesis using r_seq(3) by (auto simp: ev_def gives_def bind_eq_Some_conv)
  next
    case (r_alt "is" es)
    have "list_all2 (stood an P (ws c)) is es"
      using r_alt(4) fine r_alt(1) by (auto simp: stood_def list_all2_conv_all_nth list_all_length)
    moreover have "ref_alt ?ref (ws c) es p skd = Some v" using assms(5) r_alt(1) by (simp add: ref_exp_def)
    ultimately show ?thesis using alt_expr_gives [OF assms(1-4) _ _ r_alt(3) assms(7-9)] by blast
  next
    case (r_star j x')
    have "serves an P W (Star False t j p c) (GStar (ws c) x' p)" using r_star fine assms(7,8) by (simp add: stood_def)
    from servingD [OF assms(2) this _ _ assms(4)] show ?thesis using assms(5) r_star(1,3) by (simp add: ev_def ref_exp_def)
  next
    case (r_run rg neg i s)
    have "?ref (GStar False (EClass rg neg s) p) = Some v" using assms(5) r_run(1,4) by (simp add: ref_exp_def)
    from run_class_star [OF this assms(7)] show ?thesis using r_run(3) self by (simp add: ev_def Let_def)
  next
    case (r_lead rg neg j k es x' s)
    have g: "?ref (GStar False x p') = Some v" if "x = EAlt (EClass rg neg s # x' # es)" "p' = p" for x p'
      using assms(5) r_lead(1,4) that by (simp add: ref_exp_def)
    have "serves an P W (if t then Star False t k p c else Lead False t (of_class rg neg) j p c)
        (GStar False (EAlt (EClass rg neg s # x' # es)) p)"
      using r_lead fine assms(7,8) by (auto simp: stood_def)
    from servingD [OF assms(2) this _ g [OF refl refl] assms(4)] show ?thesis using r_lead(3) by (cases t) (simp_all add: ev_def)
  next
    case (r_plus j x')
    then obtain r where r: "?ref (GExp (ws c) x' p skd) = Some r" "(if r < 0 then Some (-1) else ?ref (GStar (ws c) x' r)) = Some v"
      using assms(5) by (auto simp: ref_exp_def bind_eq_Some_conv)
    have st: "stood an P (ws c) j x'" using r_plus fine by (simp add: stood_def)
    have "gives ?rs P m' (if r < 0 then Some (-1, m') else call (Star False t j r c) m') v" if m': "stays ?rs P m m'" for m'
      using r(2) servingD [OF assms(2) _ _ _ good_stays [OF assms(4) m'], of "Star False t j r c" "GStar (ws c) x' r" v] st assms(8)
        good_self [OF good_stays [OF assms(4) m']] by (auto split: if_splits)
    from gives_bind [OF sub [OF r(1) st], of "\<lambda>f m. if f < 0 then Some (-1, m) else call (Star False t j f c) m", OF this]
    show ?thesis using r_plus(3) by (simp add: ev_def)
  next
    case (r_opt j x')
    then obtain r where r: "?ref (GExp (ws c) x' p skd) = Some r" "v = (if r \<ge> 0 then r else p)"
      using assms(5) by (auto simp: ref_exp_def bind_eq_Some_conv)
    have st: "stood an P (ws c) j x'" using r_opt fine by (simp add: stood_def)
    from gives_bind [OF sub [OF r(1) st], of "\<lambda>r m. Some (if r \<ge> 0 then r else p, m)" v]
    show ?thesis using r_opt(3) r(2) good_self [OF good_stays [OF assms(4)]] by (simp add: ev_def)
  next
    case (r_and j x')
    then obtain r where r: "?ref (GExp (ws c) x' p skd) = Some r" "v = (if r \<ge> 0 then p else -1)"
      using assms(5) by (auto simp: ref_exp_def bind_eq_Some_conv)
    have st: "stood an P (ws c) j x'" using r_and fine by (simp add: stood_def)
    from gives_bind [OF sub [OF r(1) st], of "\<lambda>r m. Some (if r \<ge> 0 then p else -1, m)" v]
    show ?thesis using r_and(3) r(2) good_self [OF good_stays [OF assms(4)]] by (simp add: ev_def)
  next
    case (r_not j x')
    then obtain r where r: "?ref (GExp (ws c) x' p skd) = Some r" "v = (if r \<ge> 0 then -1 else p)"
      using assms(5) by (auto simp: ref_exp_def bind_eq_Some_conv)
    have st: "stood an P (ws c) j x'" using r_not fine by (simp add: stood_def)
    let ?k = "\<lambda>r m. if r \<ge> 0 then (if t \<and> x' = EAny then
        do { (x, m) \<leftarrow> at_pos P call c p skd m; Some (-1, fail_at x (end_desc (gr P)) m) } else Some (-1, m)) else Some (p, m)"
    have "gives ?rs P m' (?k r m') v" if m': "stays ?rs P m m'" for m'
    proof (cases "r \<ge> 0 \<and> t \<and> x' = EAny")
      case False
      then show ?thesis using r(2) good_self [OF good_stays [OF assms(4) m']] by auto
    next
      case True
      then obtain y where y: "gives ?rs P m' (at_pos P call c p skd m') y"
        using not_any_gives [OF assms(1,2) good_stays [OF assms(4) m'] assms(7), of c skd r] r(1) by auto
      from gives_bind [OF y, of "\<lambda>x m. Some (-1 :: int, fail_at x (end_desc (gr P)) m)" "-1"]
      show ?thesis using True r(2) good_self [OF good_stays [OF good_stays [OF assms(4) m']]] by simp
    qed
    from gives_bind [OF sub [OF r(1) st, of False], of ?k v, OF this] show ?thesis using r_not(3) by (simp add: ev_def)
  next
    case (r_label k j w ls x' n)
    have st: "stood an P (ws c) j x'" using r_label fine by (simp add: stood_def)
    show ?thesis using sub [OF _ st] assms(5) r_label(1,3) by (simp add: ev_def ref_exp_def)
  next
    case (r_prec i atom levels)
    then obtain y where y: "ref_start ?ref (ws c) p skd = Some y" "?ref (GPrec (ws c) atom (table_ops levels) y 0) = Some v"
      using assms(5) by (auto simp: ref_exp_def bind_eq_Some_conv)
    have "fine an (ws c) (snd (snd q))" if "q \<in> set (table_ops levels)" for q
      using table_fine [of an "ws c" levels "fst q" "fst (snd q)" "snd (snd q)"] that fine r_prec(1) by simp
    then have "ops_stood an P (ws c) (pr_ops (precs (gr P) ! i)) (table_ops levels)"
      unfolding ops_stood_def stood_def using list.rel_mono_strong [OF r_prec(6)] by fastforce
    then have "table_stood an P (ws c) i atom (table_ops levels)"
      using r_prec fine by (simp add: table_stood_def stood_def)
    then have "serves an P W (PrecK t i y 0 c) (GPrec (ws c) atom (table_ops levels) y 0)"
      using start_facts [OF y(1)] assms(7-9) by auto
    note run = servingD [OF assms(2) this _ y(2)]
    show ?thesis
      using gives_bind [OF at [OF _ y(1)], of "\<lambda>x m. call (PrecK t i x 0 c) m" v] run good_stays [OF assms(4)] r_prec(3)
      by (simp add: ev_def)
  qed
qed

section \<open>A step\<close>

lemma star_gives:
  assumes "serving an P W anything f d call" and "good (an_rules an) P d m"
    and "serves an P W (Star b t e p c) (GStar w x q)" and "peg (an_rules an) (codes P) (Suc f) (GStar w x q) = Some v"
  shows "gives (an_rules an) P m (star_body call b t e p c m) v"
proof -
  let ?ref = "peg (an_rules an) (codes P) f"
  have a: "\<not> b" "w = ws c" "ws c \<longrightarrow> W" "q = p" "0 \<le> p" "stood an P (ws c) e x" using assms(3) by auto
  obtain r where r: "?ref (GExp (ws c) x p False) = Some r" "(if r < 0 \<or> r \<le> p then Some p else ?ref (GStar (ws c) x r)) = Some v"
    using assms(4) a by (auto simp: ref_step_def bind_eq_Some_conv)
  have "gives (an_rules an) P m (do { (r, m) \<leftarrow> call (Ev False t e p False c) m; if r \<le> p then Some (p, m) else call (Star False t e r c) m }) v"
  proof (rule gives_bind [OF ev_call [OF assms(1,2) r(1) a(6,5,3)]])
    fix m'
    assume m': "stays (an_rules an) P m m'"
    show "gives (an_rules an) P m' (if r \<le> p then Some (p, m') else call (Star False t e r c) m') v"
      using r(2) servingD [OF assms(1) _ _ _ good_stays [OF assms(2) m'], of "Star False t e r c" "GStar (ws c) x r" v] a
        good_self [OF good_stays [OF assms(2) m']] by (auto split: if_splits)
  qed simp
  then show ?thesis using a(1) by (simp add: star_body_def)
qed

lemma lead_rest:
  assumes "peg rs (codes P) f (GExp False (EAlt (EClass rg neg src # e # es)) p False) = Some r" and "0 \<le> p"
  shows "if has (of_class rg neg) (code_at P p) then r = p + 1
    else peg rs (codes P) f (GExp False (if es = [] then e else EAlt (e # es)) p False) = Some r"
proof -
  obtain f' where f: "f = Suc f'" using assms(1) by (cases f) auto
  obtain r1 where r1: "peg rs (codes P) f' (GExp False (EClass rg neg src) p False) = Some r1"
      "(if r1 \<ge> 0 then Some r1 else ref_alt (peg rs (codes P) f') False (e # es) p False) = Some r"
    using assms(1) f by (auto simp: ref_step_def ref_exp_def bind_eq_Some_conv)
  have c: "r1 = (if has (of_class rg neg) (code_at P p) then p + 1 else -1)"
    using r1(1) by (cases f') (auto simp: ref_step_def ref_exp_def ref_start_def has_class code_char)
  show ?thesis
  proof (cases "has (of_class rg neg) (code_at P p)")
    case True
    then show ?thesis using c r1(2) assms(2) by simp
  next
    case False
    then have alt: "ref_alt (peg rs (codes P) f') False (e # es) p False = Some r" using c r1(2) by simp
    show ?thesis
    proof (cases "es = []")
      case True
      then obtain r2 where r2: "peg rs (codes P) f' (GExp False e p False) = Some r2" "r = (if r2 \<ge> 0 then r2 else -1)"
        using alt by (auto simp: bind_eq_Some_conv split: if_splits)
      then have "r = r2" using peg_ends [OF r2(1)] assms(2) by auto
      then show ?thesis using peg_le [OF r2(1), of f] f True False by simp
    next
      case nonempty: False
      then show ?thesis using alt f False by (simp add: ref_step_def ref_exp_def del: ref_alt.simps)
    qed
  qed
qed

lemma lead_gives:
  assumes "serving an P W anything f d call" and "good (an_rules an) P d m"
    and "serves an P W (Lead b t lead rest p c) (GStar w x q)" and "peg (an_rules an) (codes P) (Suc f) (GStar w x q) = Some v"
  shows "gives (an_rules an) P m (lead_body P call b t lead rest p c m) v"
proof -
  let ?ref = "peg (an_rules an) (codes P) f"
  obtain rg neg src e es where x: "x = EAlt (EClass rg neg src # e # es)" "lead = of_class rg neg"
      "stood an P False rest (if es = [] then e else EAlt (e # es))"
    using assms(3) by auto
  have a: "\<not> b" "\<not> ws c" "w = False" "q = p" "0 \<le> p" using assms(3) by auto
  obtain r where r: "?ref (GExp False x p False) = Some r" "(if r < 0 \<or> r \<le> p then Some p else ?ref (GStar False x r)) = Some v"
    using assms(4) a by (auto simp: ref_step_def bind_eq_Some_conv)
  have again: "serves an P W (Lead False t lead rest y c) (GStar False x y)" if "0 \<le> y" for y
    using x a that by auto
  show ?thesis
  proof (cases "has lead (code_at P p)")
    case True
    then have "r = p + 1" using lead_rest [OF r(1) [unfolded x(1)] a(5)] x(2) by simp
    then have "?ref (GStar False x (p + 1)) = Some v" using r(2) a(5) by simp
    from servingD [OF assms(1) again _ this assms(2)] show ?thesis using a True by (simp add: lead_body_def)
  next
    case False
    then have e: "?ref (GExp False (if es = [] then e else EAlt (e # es)) p False) = Some r"
      using lead_rest [OF r(1) [unfolded x(1)] a(5)] x(2) by simp
    have "gives (an_rules an) P m (do { (r, m) \<leftarrow> call (Ev False t rest p False c) m;
        if r \<le> p then Some (p, m) else call (Lead False t lead rest r c) m }) v"
    proof (rule gives_bind [OF ev_call [OF assms(1,2), of c _ p False r rest t]])
      fix m'
      assume m': "stays (an_rules an) P m m'"
      show "gives (an_rules an) P m' (if r \<le> p then Some (p, m') else call (Lead False t lead rest r c) m') v"
        using r(2) servingD [OF assms(1) again _ _ good_stays [OF assms(2) m'], of r v] a
          good_self [OF good_stays [OF assms(2) m']] by (auto split: if_splits)
    qed (use e x(3) a in auto)
    then show ?thesis using a False by (simp add: lead_body_def)
  qed
qed

lemma skip_rule_gives:
  assumes "ready memo an P" and "serving an P W anything f d call" and "good (an_rules an) P d m"
    and "serves an P W (SkipRule i p) (GSkip q)" and "peg (an_rules an) (codes P) (Suc f) (GSkip q) = Some v"
  shows "gives (an_rules an) P m (skip_rule_body call i p m) v"
proof -
  let ?ref = "peg (an_rules an) (codes P) f"
  have a: "q = p" "0 \<le> p" "skip_rule (gr P) = Some i" using assms(4) by auto
  have i: "skip_index (an_rules an) = Some i" using ready_skip(1) [OF assms(1)] a(3) by simp
  obtain r where r: "?ref (GRule i p) = Some r" "(if r \<le> p then Some p else ?ref (GSkip r)) = Some v"
    using assms(5) a i by (auto simp: ref_step_def bind_eq_Some_conv)
  have "serves an P W (RuleK False i p) (GRule i p)" using ready_skip(2) [OF assms(1) i] a by simp
  from servingD [OF assms(2) this _ r(1) assms(3)]
  show ?thesis
    unfolding skip_rule_body_def
  proof (rule gives_bind)
    fix m'
    assume m': "stays (an_rules an) P m m'"
    show "gives (an_rules an) P m' (if r \<le> p then Some (p, m') else call (SkipRule i r) m') v"
      using r(2) servingD [OF assms(2) _ _ _ good_stays [OF assms(3) m'], of "SkipRule i r" "GSkip r" v] a
        good_self [OF good_stays [OF assms(3) m']] by (auto split: if_splits)
  qed simp
qed

lemma skip_gives:
  assumes "ready memo an P" and "serving an P W (\<lambda>k. \<forall>p. k \<noteq> Skip p) f d call" and "good (an_rules an) P d m" and "0 \<le> p"
    and "peg (an_rules an) (codes P) f (GSkip p) = Some v"
  shows "gives (an_rules an) P m (skip_body P call p m) v"
proof (cases "skip_class (gr P)")
  case (Some cls)
  then show ?thesis
    using skip_class_run [OF assms(1) Some assms(5,4)] good_self [OF assms(3)] by (simp add: skip_body_def)
next
  case None
  show ?thesis
  proof (cases "skip_rule (gr P)")
    case (Some r)
    then show ?thesis
      using servingD [OF assms(2) _ _ assms(5,3), of "SkipRule r p"] None assms(4) by (simp add: skip_body_def)
  next
    case no: None
    then have "v = p" using assms(5) ready_skip(1) [OF assms(1)] by (cases f) (simp_all add: ref_step_def)
    then show ?thesis using None no good_self [OF assms(3)] by (simp add: skip_body_def)
  qed
qed

section \<open>Rules\<close>

lemma cache_ok_depth [simp]: "cache_ok rs P (m\<lparr>depth := n\<rparr>) = cache_ok rs P m" "cache_ok rs P (leave m) = cache_ok rs P m"
  by (simp_all add: cache_ok_def leave_def)

lemma leave_parts [simp]: "too_deep (leave m) = too_deep m" "depth (leave m) = depth m - 1"
  by (simp_all add: leave_def)

lemma enter_good:
  assumes "good rs P (Suc d) m"
  shows "enter P m = (True, m\<lparr>depth := depth m + 1\<rparr>)" and "good rs P d (m\<lparr>depth := depth m + 1\<rparr>)"
  using assms by (simp_all add: good_def enter_def Let_def)

lemma gives_leave:
  assumes "gives rs P (m\<lparr>depth := depth m + 1\<rparr>) r v"
  shows "gives rs P m (do { (x, m) \<leftarrow> r; Some (x, leave m) }) v"
  using assms by (auto simp: gives_def stays_def)

lemma find_upt: "find F [0..<n] = Some i \<Longrightarrow> i < n \<and> F i"
  by (auto simp: find_Some_iff)

lemma ready_rule:
  assumes "ready memo an P" and "i < length (an_rules an)"
  defines "x \<equiv> rules (gr P) ! i" and "r \<equiv> an_rules an ! i"
  shows "xr_token x = ri_token r" and "xr_is_skip x = (ri_name r = ''skip'')" and "\<not> xr_lr_head x"
    and "xr_slot x = Some s \<Longrightarrow> s * 2 + 1 < nslots (gr P) \<and> memo ! s = ri_name r"
    and "stood an P (rule_ws r) (xr_body x) (ri_e r)"
proof -
  have st: "rule_stands (an_rules an) memo [] an (exprs (gr P)) (precs (gr P)) i x"
    using assms by (simp add: ready_def built_def)
  have n: "nslots (gr P) = length memo * 2" using assms by (simp add: ready_def built_def)
  show "xr_token x = ri_token r" "xr_is_skip x = (ri_name r = ''skip'')" "\<not> xr_lr_head x"
    using st by (simp_all add: rule_stands_def r_def)
  show "stood an P (rule_ws r) (xr_body x) (ri_e r)"
    using st assms by (auto simp: rule_stands_def stood_def r_def ready_def fine_rules_def)
  show "xr_slot x = Some s \<Longrightarrow> s * 2 + 1 < nslots (gr P) \<and> memo ! s = ri_name r"
    using st n find_upt [of "\<lambda>k. memo ! k = ri_name r" "length memo" s] by (simp add: rule_stands_def r_def)
qed

lemma rule_body_gives:
  assumes "ready memo an P" and "serving an P W anything f d call" and "good (an_rules an) P d m"
    and "serves an P W (RuleK t r p) (GRule r p)" and "\<not> xr_is_skip (rules (gr P) ! r)"
    and "peg (an_rules an) (codes P) (Suc f) (GRule r p) = Some v"
  shows "gives (an_rules an) P m (rule_k_body P call t r p m) v"
proof -
  let ?x = "rules (gr P) ! r" and ?r = "an_rules an ! r"
  have a: "0 \<le> p" "r < length (an_rules an)" "rule_ws ?r \<longrightarrow> W \<and> fixed (an_rules an) (codes P) p" using assms(4) by auto
  note rr = ready_rule [OF assms(1) a(2)]
  have e: "peg (an_rules an) (codes P) f (GExp (rule_ws ?r) (ri_e ?r) p True) = Some v" using assms(6) by (simp add: ref_step_def)
  have tok: "rule_ws ?r = (\<not> xr_token ?x)" using rr(1,2) assms(5) by (simp add: rule_ws_def)
  have sub: "gives (an_rules an) P m (call (Ev False t' (xr_body ?x) p True c) m) v" if "ws c = (\<not> xr_token ?x)" for c t'
    using ev_call [OF assms(2,3) _ _ a(1), of c "ri_e ?r" True v "xr_body ?x" t'] e rr(5) a(3) tok that by simp
  have neg: "v < 0 \<Longrightarrow> v = -1" using peg_ends [OF assms(6)] a(1) by auto
  have then_some: "gives (an_rules an) P m (do { (res, m) \<leftarrow> call (Ev False t' (xr_body ?x) p True c) m; Some (g res, h res m) }) v"
    if "ws c = (\<not> xr_token ?x)" "g v = v" "\<And>m'. stays (an_rules an) P m m' \<Longrightarrow> stays (an_rules an) P m' (h v m')" for c t' g h
    using gives_bind [OF sub [OF that(1)], of "\<lambda>res m. Some (g res, h res m)" v] that(2,3) by simp
  show ?thesis
  proof (cases "xr_token ?x \<and> t")
    case True
    let ?c = "\<lparr>ws = False, inner = True, tok = p\<rparr>" and ?k = "\<lambda>res m. mute_end (far m, expected m) p res (xr_desc ?x) True"
    have "gives (an_rules an) P m (do { (res, m') \<leftarrow> call (Ev False True (xr_body ?x) p True ?c) m;
        if res < 0 then Some (-1, mute_end (far m, expected m) p res (xr_desc ?x) True m')
        else Some (res, okk p res (mute_end (far m, expected m) p res (xr_desc ?x) True m')) }) v"
      by (rule gives_bind [OF sub]) (use True neg good_self [OF good_stays [OF assms(3)]] in auto)
    then show ?thesis using True by (simp add: rule_k_body_def Let_def)
  next
    case False
    then show ?thesis
      using sub [of cx_token False] sub [of cx_rule t] good_self [OF good_stays [OF assms(3)]]
        then_some [of cx_rule "\<lambda>x. x" "\<lambda>res m'. mute_end (far m, expected m) p res (xr_desc ?x) False m'" True]
      by (auto simp: rule_k_body_def Let_def cx_token_def cx_rule_def)
  qed
qed

text \<open>Two rules never share a slot, so an entry of the memo is always its rule's.\<close>

lemma slot_rule:
  assumes "ready memo an P" and "i < length (an_rules an)" and "j < length (an_rules an)"
    and "xr_slot (rules (gr P) ! i) = Some s" and "xr_slot (rules (gr P) ! j) = Some s"
  shows "i = j"
proof -
  have "ri_name (an_rules an ! i) = ri_name (an_rules an ! j)"
    using ready_rule(4) [OF assms(1,2,4)] ready_rule(4) [OF assms(1,3,5)] by simp
  moreover have "distinct (map ri_name (an_rules an))" using assms(1) by (simp add: ready_def)
  ultimately show ?thesis using assms(2,3) nth_eq_iff_index_eq [of "map ri_name (an_rules an)" i j] by simp
qed

lemma cache_okD:
  "cache_ok rs P m \<Longrightarrow> i < length rs \<Longrightarrow> xr_slot (rules (gr P) ! i) = Some s \<Longrightarrow> cache m ! (s * 2 + 1) = (p, v) \<Longrightarrow>
     0 \<le> p \<Longrightarrow> means rs (codes P) (GRule i p) w \<Longrightarrow> v = w"
  unfolding cache_ok_def by blast

lemma cache_store:
  assumes "ready memo an P" and "cache_ok (an_rules an) P m" and "r < length (an_rules an)"
    and "xr_slot (rules (gr P) ! r) = Some s" and "means (an_rules an) (codes P) (GRule r p) v"
  shows "cache_ok (an_rules an) P (m\<lparr>cache := (cache m)[s * 2 + 1 := (p, v)]\<rparr>)"
proof -
  have len: "length (cache m) = nslots (gr P)" using assms(2) by (simp add: cache_ok_def)
  have less: "s * 2 + 1 < length (cache m)" using ready_rule(4) [OF assms(1,3,4)] len by simp
  show ?thesis
    unfolding cache_ok_def
  proof (intro conjI allI impI)
    fix i s' p' v' w
    assume i: "i < length (an_rules an)" "xr_slot (rules (gr P) ! i) = Some s'"
      and c: "cache (m\<lparr>cache := (cache m)[s * 2 + 1 := (p, v)]\<rparr>) ! (s' * 2 + 1) = (p', v')" "0 \<le> p'"
        "means (an_rules an) (codes P) (GRule i p') w"
    show "v' = w"
    proof (cases "s' = s")
      case True
      then have "i = r" using slot_rule [OF assms(1) i(1) assms(3) i(2)] assms(4) by simp
      then show ?thesis using c(1,3) True less means_fun [OF assms(5)] by simp
    next
      case False
      then have "cache m ! (s' * 2 + 1) = (p', v')" using c(1) by simp
      from cache_okD [OF assms(2) i this c(2,3)] show ?thesis .
    qed
  qed (simp add: len)
qed

lemma rule_gives:
  assumes "ready memo an P" and "serving an P W anything f d call" and "good (an_rules an) P (Suc d) m"
    and "serves an P W (RuleK t r p) g" and "peg (an_rules an) (codes P) (Suc f) g = Some v"
  shows "gives (an_rules an) P m (rule_k P call t r p m) v"
proof -
  let ?x = "rules (gr P) ! r" and ?r = "an_rules an ! r" and ?m = "m\<lparr>depth := depth m + 1\<rparr>"
  have g: "g = GRule r p" using assms(4) by (cases g) auto
  have a: "0 \<le> p" "r < length (an_rules an)" using assms(4) g by auto
  note rr = ready_rule [OF assms(1) a(2)]
  note m = enter_good [OF assms(3)]
  have w: "gives (an_rules an) P ?m (rule_k_wrapped P call t r p ?m) v"
  proof (cases "xr_is_skip ?x")
    case True
    then have nows: "\<not> rule_ws ?r" using rr(2) by (simp add: rule_ws_def)
    have "peg (an_rules an) (codes P) f (GExp False (ri_e ?r) p True) = Some v"
      using assms(5) g nows by (simp add: ref_step_def)
    then have "gives (an_rules an) P ?m (call (Ev False False (xr_body ?x) p True cx_token) ?m) v"
      using ev_call [OF assms(2) m(2) _ _ a(1), of cx_token "ri_e ?r" True v "xr_body ?x" False] rr(5) nows
      by (simp add: cx_token_def)
    then show ?thesis using True by (simp add: rule_k_wrapped_def Let_def)
  next
    case False
    note body = rule_body_gives [OF assms(1,2) m(2) assms(4) [unfolded g] False assms(5) [unfolded g]]
    show ?thesis
    proof (cases "xr_slot ?x")
      case None
      then show ?thesis using body False by (simp add: rule_k_wrapped_def Let_def)
    next
      case (Some s)
      obtain cp cv where c: "cache m ! (s * 2 + 1) = (cp, cv)" by fastforce
      have mean: "means (an_rules an) (codes P) (GRule r p) v" using peg_means [OF assms(5)] g by simp
      show ?thesis
      proof (cases "cp = p")
        case True
        have "cache_ok (an_rules an) P m" using assms(3) by (simp add: good_def)
        from cache_okD [OF this a(2) Some c] have "cv = v" using True a(1) mean by simp
        then show ?thesis using True c Some False rr(3) good_self [OF m(2)] by (simp add: rule_k_wrapped_def Let_def)
      next
        case miss: False
        have "gives (an_rules an) P ?m (do { (v, m) \<leftarrow> rule_k_body P call t r p ?m;
            Some (v, m\<lparr>cache := (cache m)[s * 2 + 1 := (p, v)]\<rparr>) }) v"
          by (rule gives_bind [OF body]) (use cache_store [OF assms(1) _ a(2) Some mean] in \<open>simp add: stays_def\<close>)
        then show ?thesis using miss c Some False rr(3) by (simp add: rule_k_wrapped_def Let_def)
      qed
    qed
  qed
  show ?thesis using gives_leave [OF w] m(1) by (simp add: rule_k_def)
qed

section \<open>Tables\<close>

lemma infix_same: "is_infix = infix_fix"
  by (simp add: fun_eq_iff is_infix_def infix_fix_def)

lemma prec_gives:
  assumes "ready memo an P" and "serving an P W anything f d call" and "good (an_rules an) P (Suc d) m"
    and "serves an P W (PrecK t i p ml c) (GPrec w atom os q l)"
    and "peg (an_rules an) (codes P) (Suc f) (GPrec w atom os q l) = Some v"
  shows "gives (an_rules an) P m (prec_k P call t i p ml c m) v"
proof -
  let ?ref = "peg (an_rules an) (codes P) f" and ?pr = "precs (gr P) ! i" and ?m = "m\<lparr>depth := depth m + 1\<rparr>"
  have a: "w = ws c" "ws c \<longrightarrow> W" "ws c \<longrightarrow> fixed (an_rules an) (codes P) p" "q = p" "l = ml" "0 \<le> p"
      "table_stood an P (ws c) i atom os"
    using assms(4) by auto
  obtain pl pe r where r: "ref_prefix ?ref (ws c) p (with_fix (\<lambda>f. f = Prefix) os) = Some (pl, pe)"
      "(if pl \<ge> 0 then do { x \<leftarrow> ref_sk ?ref (ws c) pe; ?ref (GPrec (ws c) atom os x (nat pl)) } else ?ref (GExp (ws c) atom p True)) = Some r"
      "(if r \<ge> 0 then ?ref (GTail (ws c) atom os r ml) else Some r) = Some v"
    using assms(5) a by (auto simp: ref_step_def bind_eq_Some_conv)
  have st: "ops_stood an P (ws c) (ops_with (\<lambda>f. f = Prefix) ?pr) (with_fix (\<lambda>f. f = Prefix) os)" "stood an P (ws c) (pr_atom ?pr) atom"
    using a(7) ops_filter by (auto simp: table_stood_def ops_with_def)
  note m = enter_good [OF assms(3)]
  define head where "head = (\<lambda>x m. if fst x \<ge> 0 then do { (from1, m) \<leftarrow> sk P call c (snd x) m; call (PrecK t i from1 (nat (fst x)) c) m }
      else call (Ev False t (pr_atom ?pr) p True c) m)"
  have tail: "gives (an_rules an) P m2 (if r \<ge> 0 then call (TailK t i ml c r) m2 else Some (r, m2)) v"
    if "good (an_rules an) P d m2" for m2
    using servingD [OF assms(2) _ _ _ that, of "TailK t i ml c r" "GTail (ws c) atom os r ml" v] r(3) a good_self [OF that]
    by (auto split: if_splits)
  have head: "gives (an_rules an) P m1 (head (pl, pe) m1) r" if g: "good (an_rules an) P d m1" for m1
  proof (cases "pl \<ge> 0")
    case False
    then show ?thesis
      using r(2) ev_call [OF assms(2) g _ st(2) a(6,2), of True r t] a(3) by (simp add: head_def)
  next
    case True
    then obtain x where x: "ref_sk ?ref (ws c) pe = Some x" "?ref (GPrec (ws c) atom os x (nat pl)) = Some r"
      using r(2) by (auto simp: bind_eq_Some_conv)
    have pe: "0 \<le> pe" using prefix_forward [OF peg_forward r(1) True] by simp
    have s: "serves an P W (PrecK t i x (nat pl) c) (GPrec (ws c) atom os x (nat pl))"
      using sk_facts [OF x(1)] pe a by auto
    from gives_bind [OF sk_gives [OF assms(1,2) g pe x(1)], of "\<lambda>x m. call (PrecK t i x (nat pl) c) m" r]
    show ?thesis using True servingD [OF assms(2) s _ x(2) good_stays [OF g]] by (simp add: head_def)
  qed
  have "gives (an_rules an) P ?m (do { (x, m) \<leftarrow> prefix_scan call t p c (ops_with (\<lambda>f. f = Prefix) ?pr) ?m;
      (q, m) \<leftarrow> head x m; (if q \<ge> 0 then call (TailK t i ml c q) m else Some (q, m)) }) v"
  proof (rule gives_bind [OF prefix_gives [OF assms(2) m(2) st(1) r(1) a(6,2,3)]])
    fix m1
    assume m1: "stays (an_rules an) P ?m m1"
    have g1: "good (an_rules an) P d m1" using good_stays [OF m(2) m1] .
    show "gives (an_rules an) P m1 (do { (q, m) \<leftarrow> head (pl, pe) m1; (if q \<ge> 0 then call (TailK t i ml c q) m else Some (q, m)) }) v"
      by (rule gives_bind [OF head [OF g1]]) (rule tail, rule good_stays [OF g1])
  qed
  from gives_leave [OF this] show ?thesis
    by (simp add: prec_k_def m(1) head_def split_def Let_def)
qed

lemma tail_gives:
  assumes "ready memo an P" and "serving an P W anything f d call" and "good (an_rules an) P d m"
    and "serves an P W (TailK t i ml c p) (GTail w atom os q l)"
    and "peg (an_rules an) (codes P) (Suc f) (GTail w atom os q l) = Some v"
  shows "gives (an_rules an) P m (tail_k_body P call t i ml c p m) v"
proof -
  let ?ref = "peg (an_rules an) (codes P) f" and ?pr = "precs (gr P) ! i"
  have a: "w = ws c" "ws c \<longrightarrow> W" "q = p" "l = ml" "0 \<le> p" "table_stood an P (ws c) i atom os" using assms(4) by auto
  obtain x post where r: "ref_sk ?ref (ws c) p = Some x" "ref_postfix ?ref (ws c) ml x (with_fix (\<lambda>f. f = Postfix) os) = Some post"
      "(case post of Some r \<Rightarrow> ?ref (GTail (ws c) atom os r ml)
        | None \<Rightarrow> do { inf \<leftarrow> ref_infix ?ref (ws c) (GPrec (ws c) atom os) ml x (with_fix infix_fix os);
            case inf of Some v \<Rightarrow> ?ref (GTail (ws c) atom os v ml) | None \<Rightarrow> Some p }) = Some v"
    using assms(5) a by (auto simp: ref_step_def bind_eq_Some_conv)
  have st: "ops_stood an P (ws c) (ops_with (\<lambda>f. f = Postfix) ?pr) (with_fix (\<lambda>f. f = Postfix) os)"
      "ops_stood an P (ws c) (ops_with is_infix ?pr) (with_fix infix_fix os)"
    using a(6) ops_filter by (auto simp: table_stood_def ops_with_def infix_same)
  have x: "0 \<le> x" "ws c \<longrightarrow> fixed (an_rules an) (codes P) x" using sk_facts [OF r(1)] a(5) by auto
  have again: "gives (an_rules an) P m1 (call (TailK t i ml c u) m1) v"
    if "good (an_rules an) P d m1" "?ref (GTail (ws c) atom os u ml) = Some v" "0 \<le> u" for m1 u
    using servingD [OF assms(2) _ _ that(2,1), of "TailK t i ml c u"] a that(3) by simp
  define rest where "rest = (\<lambda>post m. case post of Some r \<Rightarrow> call (TailK t i ml c r) m
    | None \<Rightarrow> do { (inf, m) \<leftarrow> infix_scan P call t (\<lambda>from1 lev. PrecK t i from1 lev c) ml x c (ops_with is_infix ?pr) m;
        case inf of Some (r, v) \<Rightarrow> call (TailK t i ml c v) m | None \<Rightarrow> Some (p, m) })"
  have rest: "gives (an_rules an) P m2 (rest post m2) v" if g: "good (an_rules an) P d m2" for m2
  proof (cases post)
    case (Some u)
    then show ?thesis using r(2,3) again [OF g] postfix_forward [OF peg_forward] by (auto simp: rest_def)
  next
    case None
    then obtain inf where inf: "ref_infix ?ref (ws c) (GPrec (ws c) atom os) ml x (with_fix infix_fix os) = Some inf"
        "(case inf of Some v \<Rightarrow> ?ref (GTail (ws c) atom os v ml) | None \<Rightarrow> Some p) = Some v"
      using r(3) by (auto simp: bind_eq_Some_conv)
    obtain m3 u where u: "infix_scan P call t (\<lambda>from1 lev. PrecK t i from1 lev c) ml x c (ops_with is_infix ?pr) m2 = Some (u, m3)"
        "map_option snd u = inf" "stays (an_rules an) P m2 m3"
      using infix_gives [OF assms(1,2) g st(2) a(6) inf(1) x(1) a(2) x(2), of t] by (auto simp: gives_inf_def)
    have g3: "good (an_rules an) P d m3" using good_stays [OF g u(3)] .
    have pos: "inf = Some y \<Longrightarrow> 0 \<le> y" for y using infix_forward [OF peg_forward] inf(1) by blast
    have "gives (an_rules an) P m3 (case u of Some (r, v) \<Rightarrow> call (TailK t i ml c v) m3 | None \<Rightarrow> Some (p, m3)) v"
      using inf(2) u(2) again [OF g3] pos good_self [OF g3] by (cases u) auto
    then show ?thesis using None u(1,3) stays_trans by (fastforce simp: rest_def gives_def)
  qed
  have "gives (an_rules an) P m (do { (x', m) \<leftarrow> sk P call c p m;
      (post, m) \<leftarrow> postfix_scan call t ml x' c (ops_with (\<lambda>f. f = Postfix) ?pr) m; (if x' = x then rest post m else None) }) v"
  proof (rule gives_bind [OF sk_gives [OF assms(1-3) a(5) r(1)]])
    fix m1
    assume "stays (an_rules an) P m m1"
    then have g1: "good (an_rules an) P d m1" using good_stays [OF assms(3)] by blast
    show "gives (an_rules an) P m1 (do { (post, m) \<leftarrow> postfix_scan call t ml x c (ops_with (\<lambda>f. f = Postfix) ?pr) m1;
        (if x = x then rest post m else None) }) v"
      by (rule gives_bind [OF postfix_gives [OF assms(2) g1 st(1) r(2) x(1) a(2) x(2)]])
        (use rest [OF good_stays [OF g1]] in simp)
  qed
  moreover obtain m1 where "sk P call c p m = Some (x, m1)"
    using sk_gives [OF assms(1-3) a(5) r(1)] by (auto simp: gives_def)
  ultimately show ?thesis by (simp add: tail_k_body_def rest_def Let_def)
qed

section \<open>Every run\<close>

definition no_skip :: "task \<Rightarrow> bool" where
  "no_skip k \<longleftrightarrow> (\<forall>p. k \<noteq> Skip p)"

lemma step_serves:
  assumes "ready memo an P" and "serving an P W anything f d call" and "W \<Longrightarrow> skipping an P d call"
  shows "serving an P W no_skip (Suc f) (Suc d) (step P call)"
  unfolding serving_def
proof (intro allI impI)
  fix k g v m
  assume k: "no_skip k" "serves an P W k g" and g: "peg (an_rules an) (codes P) (Suc f) g = Some v"
    and m: "good (an_rules an) P (Suc d) m"
  have m': "good (an_rules an) P d m" using good_less [OF m] by simp
  show "gives (an_rules an) P m (step P call k m) v"
  proof (cases k)
    case (Skip p)
    then show ?thesis using k(1) by (simp add: no_skip_def)
  next
    case (SkipRule r p)
    then obtain q where "g = GSkip q" using k(2) by (cases g) auto
    then show ?thesis using skip_rule_gives [OF assms(1,2) m' k(2) [unfolded SkipRule \<open>g = GSkip q\<close>]] g SkipRule by (simp add: step_def)
  next
    case (RuleK t r p)
    then show ?thesis using rule_gives [OF assms(1,2) m _ g] k(2) by (simp add: step_def)
  next
    case (Ev b t e p skd c)
    then obtain w x where x: "g = GExp w x p skd" "\<not> b" "w = ws c" using k(2) by (cases g) auto
    then show ?thesis
      using ev_gives [OF assms m', of c x p skd v e t] k(2) g Ev by (simp add: step_def ref_step_def)
  next
    case (Star b t e p c)
    then obtain w x q where "g = GStar w x q" using k(2) by (cases g) auto
    then show ?thesis using star_gives [OF assms(2) m' k(2) [unfolded Star \<open>g = GStar w x q\<close>]] g Star by (simp add: step_def)
  next
    case (Lead b t lead rest p c)
    then obtain w x q where "g = GStar w x q" using k(2) by (cases g) auto
    then show ?thesis using lead_gives [OF assms(2) m' k(2) [unfolded Lead \<open>g = GStar w x q\<close>]] g Lead by (simp add: step_def)
  next
    case (PrecK t i p ml c)
    then obtain w a os q l where "g = GPrec w a os q l" using k(2) by (cases g) auto
    then show ?thesis
      using prec_gives [OF assms(1,2) m k(2) [unfolded PrecK \<open>g = GPrec w a os q l\<close>]] g PrecK by (simp add: step_def)
  next
    case (TailK t i ml c p)
    then obtain w a os q l where "g = GTail w a os q l" using k(2) by (cases g) auto
    then show ?thesis
      using tail_gives [OF assms(1,2) m' k(2) [unfolded TailK \<open>g = GTail w a os q l\<close>]] g TailK by (simp add: step_def)
  qed (use k(2) in \<open>cases g; simp\<close>)+
qed

lemma serving_more:
  assumes "serving an P W C f d (exec P F)" and "F \<le> F'"
  shows "serving an P W C f d (exec P F')"
  using assms exec_more [OF _ assms(2)] by (fastforce simp: serving_def gives_def)

lemma skip_serves:
  assumes "ready memo an P" and "serving an P W no_skip f d (exec P F)"
  shows "serving an P W anything f d (exec P (Suc F))"
  unfolding serving_def
proof (intro allI impI)
  fix k g v m
  assume k: "serves an P W k g" and g: "peg (an_rules an) (codes P) f g = Some v" and m: "good (an_rules an) P d m"
  show "gives (an_rules an) P m (exec P (Suc F) k m) v"
  proof (cases "no_skip k")
    case True
    then show ?thesis using servingD [OF serving_more [OF assms(2), of "Suc F"] k True g m] by simp
  next
    case False
    then obtain p where p: "k = Skip p" by (auto simp: no_skip_def)
    then have "g = GSkip p" "0 \<le> p" using k by (cases g; simp)+
    then show ?thesis
      using skip_gives [OF assms(1) assms(2) [unfolded no_skip_def [abs_def]] m, of p v] g p by (simp add: step_def)
  qed
qed

lemma skipping_less: "skipping an P d' call \<Longrightarrow> d' \<le> d \<Longrightarrow> skipping an P d call"
  unfolding skipping_def using good_less [of "an_rules an" P d _ d'] by blast

lemma sim:
  assumes "ready memo an P" and "\<And>F. W \<Longrightarrow> 2 * K < F \<Longrightarrow> skipping an P K (exec P F)"
  shows "serving an P W no_skip f (f + K) (exec P (2 * (f + K)))"
proof (induction f)
  case 0
  then show ?case by (simp add: serving_def)
next
  case (Suc f)
  let ?F = "Suc (2 * (f + K))"
  have "W \<Longrightarrow> skipping an P (f + K) (exec P ?F)"
    using skipping_less [OF assms(2) [of ?F], of "f + K"] by simp
  from step_serves [OF assms(1) skip_serves [OF assms(1) Suc] this]
  have s: "serving an P W no_skip (Suc f) (Suc (f + K)) (step P (exec P ?F))" .
  have "2 * (Suc f + K) = Suc ?F" "Suc f + K = Suc (f + K)" by simp_all
  moreover have "exec P (Suc ?F) = step P (exec P ?F)" by (intro ext) (rule exec.simps(2))
  ultimately show ?case using s by (simp only:)
qed

text \<open>Skip ends everywhere, with \<open>S\<close> fuel.\<close>

definition skips_end :: "rule_in list \<Rightarrow> int list \<Rightarrow> nat \<Rightarrow> bool" where
  "skips_end rs cs S \<longleftrightarrow> (\<forall>p \<ge> 0. \<exists>s. peg rs cs S (GSkip p) = Some s)"

text \<open>A \<open>skip\<close> that is a repeated class always ends.\<close>

lemma class_star_ends:
  "0 \<le> p \<Longrightarrow> length cs - nat p + 2 \<le> k \<Longrightarrow>
     \<exists>w. peg rs cs k (GStar False (EClass rg neg src) p) = Some w \<and> p \<le> w \<and> (p < w \<longrightarrow> nat p < length cs)"
proof (induction k arbitrary: p)
  case (Suc k)
  then obtain k' where k': "k = Suc k'" by (cases k) auto
  have e: "peg rs cs k (GExp False (EClass rg neg src) p False) = Some (if in_class rg neg (char_at cs p) then p + 1 else -1)"
    unfolding k' by (simp add: ref_step_def ref_exp_def ref_start_def)
  show ?case
  proof (cases "in_class rg neg (char_at cs p)")
    case True
    then have "nat p < length cs" by (simp add: in_class_def char_at_def split: if_splits)
    then have "length cs - nat (p + 1) + 2 \<le> k" using Suc.prems by (simp add: nat_add_distrib)
    from Suc.IH [OF _ this] Suc.prems(1) obtain w where
      "peg rs cs k (GStar False (EClass rg neg src) (p + 1)) = Some w" "p + 1 \<le> w" by auto
    then show ?thesis using e True \<open>nat p < length cs\<close> Suc.prems(1) by (simp add: ref_step_def)
  next
    case False
    then show ?thesis using e by (simp add: ref_step_def)
  qed
qed simp

lemma class_body_ends:
  assumes "skip_class_of e = Some cls" and "0 \<le> p" and "length cs - nat p + 3 \<le> k"
  shows "\<exists>w. peg rs cs k (GExp False e p True) = Some w \<and> (p < w \<longrightarrow> nat p < length cs)"
proof -
  obtain k' where k': "k = Suc k'" using assms(3) by (cases k) auto
  obtain rg neg src where e: "e = EStar (EClass rg neg src) \<or> e = EPlus (EClass rg neg src)"
    using skip_class_body [OF assms(1)] by metis
  note star = class_star_ends [of _ cs k' rs rg neg src]
  from e show ?thesis
  proof
    assume "e = EStar (EClass rg neg src)"
    then show ?thesis using star [OF assms(2)] assms(3) k' by (auto simp: ref_step_def ref_exp_def)
  next
    assume e: "e = EPlus (EClass rg neg src)"
    obtain k'' where k'': "k' = Suc k''" using assms(3) k' by (cases k') auto
    have h: "peg rs cs k' (GExp False (EClass rg neg src) p True) = Some (if in_class rg neg (char_at cs p) then p + 1 else -1)"
      unfolding k'' by (simp add: ref_step_def ref_exp_def ref_start_def)
    show ?thesis
    proof (cases "in_class rg neg (char_at cs p)")
      case True
      then have "nat p < length cs" by (simp add: in_class_def char_at_def split: if_splits)
      then have "length cs - nat (p + 1) + 2 \<le> k'" using assms(3) k' by (simp add: nat_add_distrib)
      from star [OF _ this] assms(2) show ?thesis
        using h True e k' \<open>nat p < length cs\<close> by (auto simp: ref_step_def ref_exp_def)
    next
      case False
      then show ?thesis using h e k' assms(2) by (simp add: ref_step_def ref_exp_def)
    qed
  qed
qed

lemma class_skip_ends:
  assumes "skip_index rs = Some i" and "skip_class_of (ri_e (rs ! i)) = Some cls"
  shows "0 \<le> p \<Longrightarrow> length cs - nat p + 5 \<le> k \<Longrightarrow> \<exists>s. peg rs cs k (GSkip p) = Some s"
proof (induction k arbitrary: p)
  case (Suc k)
  obtain k' where k': "k = Suc k'" using Suc.prems by (cases k) auto
  have "\<not> rule_ws (rs ! i)" using assms(1) by (auto simp: skip_index_def find_Some_iff rule_ws_def)
  then obtain r where r: "peg rs cs k (GRule i p) = Some r" "p < r \<longrightarrow> nat p < length cs"
    using class_body_ends [OF assms(2) Suc.prems(1), of cs k' rs] Suc.prems(2) k' by (auto simp: ref_step_def)
  show ?case
  proof (cases "r \<le> p")
    case True
    then show ?thesis using r assms(1) by (simp add: ref_step_def)
  next
    case False
    then have "length cs - nat r + 5 \<le> k" using Suc.prems r(2) by linarith
    from Suc.IH [OF _ this] show ?thesis using r(1) assms(1) False Suc.prems(1) by (auto simp: ref_step_def)
  qed
qed simp

lemma skips_end_class:
  "skip_index rs = Some i \<Longrightarrow> skip_class_of (ri_e (rs ! i)) = Some cls \<Longrightarrow> skips_end rs cs (length cs + 5)"
  using class_skip_ends by (simp add: skips_end_def)

lemma skips_end_none: "skip_index rs = None \<Longrightarrow> skips_end rs cs 1"
  by (simp add: skips_end_def ref_step_def)

lemma skipping_all:
  assumes "ready memo an P" and "skips_end (an_rules an) (codes P) S" and "2 * S < F"
  shows "skipping an P S (exec P F)"
  unfolding skipping_def
proof (intro allI impI)
  fix p m
  assume p: "(0 :: int) \<le> p" and m: "good (an_rules an) P S m"
  obtain s where s: "peg (an_rules an) (codes P) S (GSkip p) = Some s" using assms(2) p by (auto simp: skips_end_def)
  have "serving an P False no_skip S S (exec P (2 * S))" using sim [OF assms(1), of False 0 S] by simp
  from serving_more [OF skip_serves [OF assms(1) this], of F] assms(3)
  have "serving an P False anything S S (exec P F)" by simp
  from servingD [OF this _ _ s m, of "Skip p"] p
  show "\<exists>s. means (an_rules an) (codes P) (GSkip p) s \<and> gives (an_rules an) P m (exec P F (Skip p) m) s"
    using peg_means [OF s] by auto
qed

lemma agrees:
  assumes "ready memo an P" and "skips_end (an_rules an) (codes P) S" and "2 * (f + S) < F"
  shows "serving an P True anything f (f + S) (exec P F)"
proof -
  have "serving an P True no_skip f (f + S) (exec P (2 * (f + S)))"
    using sim [OF assms(1), of True S f] skipping_all [OF assms(1,2)] by simp
  from serving_more [OF skip_serves [OF assms(1) this], of F] assms(3) show ?thesis by simp
qed

section \<open>A whole parse\<close>

lemma reset_good:
  assumes "length (cache m) = nslots (gr P)" and "\<not> too_deep m" and "depth m + d \<le> max_depth P" and "ready memo an P"
  shows "good (an_rules an) P d (reset P t m)"
proof -
  have "cache_ok (an_rules an) P (reset P t m)"
    unfolding cache_ok_def
  proof (intro conjI allI impI)
    fix i s p v w
    assume i: "i < length (an_rules an)" "xr_slot (rules (gr P) ! i) = Some s"
      and c: "cache (reset P t m) ! (s * 2 + 1) = (p, v)" "(0 :: int) \<le> p"
    have "s * 2 + 1 < nslots (gr P)" using ready_rule(4) [OF assms(4) i] by simp
    then have "cache (reset P t m) ! (s * 2 + 1) = (-1, -1)" by (simp add: reset_def assms(1))
    with c have "p = -1" by simp
    with c(2) show "v = w" by simp
  qed (simp add: reset_def assms(1))
  then show ?thesis using assms(2,3) by (simp add: good_def reset_def)
qed

lemma skip_at_gives:
  assumes "ready memo an P" and "serving an P W anything f d (exec P F)" and "good (an_rules an) P d m" and "0 \<le> p"
    and "peg (an_rules an) (codes P) f (GSkip p) = Some s"
  shows "gives (an_rules an) P m (skip_at P F p m) s"
proof (cases "skip_rule (gr P)")
  case None
  then have "s = p" using assms(5) ready_skip(1) [OF assms(1)] by (cases f) (simp_all add: ref_step_def)
  then show ?thesis using None good_self [OF assms(3)] by (simp add: skip_at_def)
next
  case (Some r)
  then show ?thesis using servingD [OF assms(2) _ _ assms(5,3), of "Skip p"] assms(4) by (simp add: skip_at_def)
qed

lemma accepts_gives:
  assumes "ready memo an P" and "serving an P True anything f d (exec P F)"
    and "length (cache m) = nslots (gr P)" and "\<not> too_deep m" and "depth m + d \<le> max_depth P"
    and "start < length (an_rules an)" and "codes P \<noteq> []" and "peg_accepts (an_rules an) (codes P) f start = Some ok"
  shows "map_option fst (accepts P F start m) = Some ok"
proof -
  let ?ref = "peg (an_rules an) (codes P) f"
  obtain p r where r: "?ref (GSkip 0) = Some p" "?ref (GRule start p) = Some r"
      "(if r \<ge> 0 then do { e \<leftarrow> ?ref (GSkip r); Some (e = int (length (codes P)) - 1) } else Some False) = Some ok"
    using assms(8) by (auto simp: peg_accepts_def bind_eq_Some_conv)
  have p: "0 \<le> p" "fixed (an_rules an) (codes P) p" using peg_ends [OF r(1)] skip_fixed [OF r(1)] by simp_all
  let ?m = "reset P False m"
  have m: "good (an_rules an) P d ?m" using reset_good [OF assms(3-5,1)] .
  define rest where "rest = (\<lambda>r m. if r \<ge> 0 then do { (e, m) \<leftarrow> skip_at P F r m; Some (e = in_len P, m) } else Some (False, m))"
  have "gives (an_rules an) P ?m (do { (from1, m) \<leftarrow> skip_at P F 0 ?m; (r, m) \<leftarrow> exec P F (RuleK False start from1) m; rest r m }) ok"
  proof (rule gives_bind [OF skip_at_gives [OF assms(1,2) m _ r(1)]])
    fix m1
    assume m1: "stays (an_rules an) P ?m m1"
    have g1: "good (an_rules an) P d m1" using good_stays [OF m m1] .
    have "serves an P True (RuleK False start p) (GRule start p)" using p assms(6) by simp
    from servingD [OF assms(2) this _ r(2) g1]
    show "gives (an_rules an) P m1 (do { (r, m) \<leftarrow> exec P F (RuleK False start p) m1; rest r m }) ok"
    proof (rule gives_bind)
      fix m2
      assume m2: "stays (an_rules an) P m1 m2"
      have g2: "good (an_rules an) P d m2" using good_stays [OF g1 m2] .
      show "gives (an_rules an) P m2 (rest r m2) ok"
      proof (cases "r \<ge> 0")
        case False
        then show ?thesis using r(3) good_self [OF g2] by (simp add: rest_def)
      next
        case True
        then obtain e where e: "?ref (GSkip r) = Some e" "ok = (e = in_len P)"
          using r(3) by (auto simp: bind_eq_Some_conv in_len_def)
        from gives_bind [OF skip_at_gives [OF assms(1,2) g2 True e(1)], of "\<lambda>e m. Some (e = in_len P, m)" ok]
        show ?thesis using True e(2) good_self [OF good_stays [OF g2]] by (simp add: rest_def)
      qed
    qed simp
  qed simp
  then show ?thesis by (auto simp: gives_def accepts_def rest_def Let_def)
qed

text \<open>What the builder makes of a fine grammar is ready.\<close>

lemma fine_lits: "fine an w e \<Longrightarrow> lits_ok e"
  by (induction an w e rule: fine.induct) (auto simp: list_all_iff)

lemma ready_built:
  assumes "build rs memo [] acts = Some (Inr (gr P))" and "analyse rs = Some an" and "fine_rules an"
    and "distinct (map ri_name rs)" and "\<forall>c \<in> set (codes P). c \<le> 1114111"
  shows "ready memo an P" and "an_rules an = rs"
proof -
  obtain an' where "analyse rs = Some an'" "an_rules an' = rs" "an_ok an'" using analyse_ends by blast
  with assms(2) have an: "an_rules an = rs" "an_ok an" by simp_all
  have "\<forall>r \<in> set rs. lits_ok (ri_e r)" using assms(3) fine_lits an(1) by (auto simp: fine_rules_def)
  with build_ok [OF assms(1)] assms(2) have "built rs memo [] an (gr P)" by (metis option.inject)
  then show "ready memo an P" "an_rules an = rs" using an assms(3-5) by (simp_all add: ready_def)
qed

lemma new_good:
  assumes "ready memo an P" and "d \<le> max_depth P"
  shows "good (an_rules an) P d (machine_new P)"
proof -
  have "reset P False (machine_new P) = machine_new P" by (simp add: reset_def machine_new_def)
  then show ?thesis using reset_good [OF _ _ _ assms(1), of "machine_new P" d False] assms(2) by (simp add: machine_new_def)
qed

lemma accepts_new:
  assumes "ready memo an P" and "an_rules an = rs" and "skips_end rs (codes P) S"
    and "peg_accepts rs (codes P) f start = Some ok" and "start < length rs" and "codes P \<noteq> []"
    and "f + S \<le> max_depth P" and "2 * (f + S) < F"
  shows "map_option fst (accepts P F start (machine_new P)) = Some ok"
proof -
  have "serving an P True anything f (f + S) (exec P F)" using agrees [OF assms(1)] assms(2,3,8) by simp
  from accepts_gives [OF assms(1) this] assms(2,4-7) show ?thesis by (simp add: machine_new_def)
qed

end
