(* ===== verification/PegEnds.thy ===== *)
theory PegEnds
  imports PegAgree
begin

text \<open>
  When a grammar's meaning is total: a grammar without left recursion, whose prefix and postfix operators
  consume, answers every goal, and skipping ends with the same fuel everywhere. With the agreement of the
  matcher and the meaning this makes every parse of such a grammar end.
\<close>

section \<open>All the fuel at once\<close>

text \<open>The answers of the reference, whatever fuel they take, as one oracle.\<close>

definition lim :: "rule_in list \<Rightarrow> int list \<Rightarrow> ref" where
  "lim rs cs g = (if \<exists>v. means rs cs g v then Some (THE v. means rs cs g v) else None)"

lemma lim_means: "lim rs cs g = Some v \<longleftrightarrow> means rs cs g v"
proof
  assume "means rs cs g v"
  then show "lim rs cs g = Some v" using means_fun by (auto simp: lim_def)
next
  assume l: "lim rs cs g = Some v"
  then obtain w where w: "means rs cs g w" by (auto simp: lim_def split: if_splits)
  then have "(THE v. means rs cs g v) = w" using means_fun by blast
  with w l show "means rs cs g v" by (auto simp: lim_def split: if_splits)
qed

text \<open>What a computation over the oracle answers, it answers with some fuel.\<close>

definition finitely :: "rule_in list \<Rightarrow> int list \<Rightarrow> (ref \<Rightarrow> 'a option) \<Rightarrow> bool" where
  "finitely rs cs F \<longleftrightarrow> (\<forall>v. F (lim rs cs) = Some v \<longrightarrow> (\<exists>f. \<forall>k. F (peg rs cs (f + k)) = Some v))"

lemma finitely_const [intro!]: "finitely rs cs (\<lambda>c. a)"
  by (simp add: finitely_def)

lemma finitely_call [intro!]: "finitely rs cs (\<lambda>c. c g)"
proof -
  have "means rs cs g v \<Longrightarrow> \<exists>f. \<forall>k. peg rs cs (f + k) g = Some v" for v
    using peg_more by (fastforce simp: means_def extends_def)
  then show ?thesis by (simp add: finitely_def lim_means)
qed

lemma finitely_bind [intro!]:
  assumes "finitely rs cs F" and "\<And>x. finitely rs cs (\<lambda>c. G x c)"
  shows "finitely rs cs (\<lambda>c. Option.bind (F c) (\<lambda>x. G x c))"
  unfolding finitely_def
proof (intro allI impI)
  fix v
  assume "Option.bind (F (lim rs cs)) (\<lambda>x. G x (lim rs cs)) = Some v"
  then obtain x where x: "F (lim rs cs) = Some x" "G x (lim rs cs) = Some v" by (auto simp: bind_eq_Some_conv)
  obtain f1 where 1: "F (peg rs cs (f1 + k)) = Some x" for k using assms(1) x(1) unfolding finitely_def by blast
  obtain f2 where 2: "G x (peg rs cs (f2 + k)) = Some v" for k using assms(2) x(2) unfolding finitely_def by blast
  have "Option.bind (F (peg rs cs (f1 + f2 + k))) (\<lambda>x. G x (peg rs cs (f1 + f2 + k))) = Some v" for k
    using 1 [of "f2 + k"] 2 [of "f1 + k"] by (simp add: add.assoc add.left_commute)
  then show "\<exists>f. \<forall>k. Option.bind (F (peg rs cs (f + k))) (\<lambda>x. G x (peg rs cs (f + k))) = Some v" by blast
qed

lemma finitely_if [intro!]: "finitely rs cs F \<Longrightarrow> finitely rs cs G \<Longrightarrow> finitely rs cs (\<lambda>c. if b then F c else G c)"
  by (cases b) simp_all

lemma finitely_option [intro!]:
  "finitely rs cs F \<Longrightarrow> (\<And>x. finitely rs cs (\<lambda>c. G x c)) \<Longrightarrow>
     finitely rs cs (\<lambda>c. case a of None \<Rightarrow> F c | Some x \<Rightarrow> G x c)"
  by (cases a) simp_all

lemma finitely_pair [intro!]: "(\<And>x y. finitely rs cs (\<lambda>c. G x y c)) \<Longrightarrow> finitely rs cs (\<lambda>c. case a of (x, y) \<Rightarrow> G x y c)"
  by (cases a) simp

lemma finitely_parts [intro!]:
  "finitely rs cs (\<lambda>c. ref_start c w p skd)" "finitely rs cs (\<lambda>c. ref_sk c w p)"
  by (auto simp: ref_start_def ref_sk_def)

lemma finitely_seq [intro!]: "finitely rs cs (\<lambda>c. ref_seq c w es q skd)"
  by (induction es arbitrary: q skd) auto

lemma finitely_alt [intro!]: "finitely rs cs (\<lambda>c. ref_alt c w es p skd)"
  by (induction es) auto

lemma finitely_scans [intro!]:
  "finitely rs cs (\<lambda>c. ref_prefix c w p os)" "finitely rs cs (\<lambda>c. ref_postfix c w ml p os)"
  "finitely rs cs (\<lambda>c. ref_infix c w g ml p os)"
  by (induction os) auto

lemma finitely_exp [intro!]: "finitely rs cs (\<lambda>c. ref_exp rs cs c w e p skd)"
  by (cases e) (auto simp: ref_exp_def)

lemma finitely_step: "finitely rs cs (\<lambda>c. ref_step rs cs c g)"
  by (cases g) (auto simp: ref_step_def)

lemma lim_step:
  assumes "ref_step rs cs (lim rs cs) g = Some v"
  shows "means rs cs g v"
proof -
  obtain f where "ref_step rs cs (peg rs cs (f + 0)) g = Some v" using finitely_step assms unfolding finitely_def by blast
  then show ?thesis unfolding means_unfold by auto
qed

definition ends :: "rule_in list \<Rightarrow> int list \<Rightarrow> goal \<Rightarrow> bool" where
  "ends rs cs g \<longleftrightarrow> lim rs cs g \<noteq> None"

lemma ends_stepI: "ref_step rs cs (lim rs cs) g \<noteq> None \<Longrightarrow> ends rs cs g"
  using lim_step by (fastforce simp: ends_def lim_means)

lemma bind_ends: "a \<noteq> None \<Longrightarrow> (\<And>x. a = Some x \<Longrightarrow> k x \<noteq> None) \<Longrightarrow> Option.bind a k \<noteq> None"
  by auto

section \<open>At the end of the input\<close>

text \<open>
  Past the input every position is like every other: from \<open>p\<close> and from \<open>p'\<close> a goal answers the same, a failure
  or the position it was asked at.
\<close>

fun goal_lits :: "rule_in list \<Rightarrow> goal \<Rightarrow> bool" where
  "goal_lits rs (GSkip p) \<longleftrightarrow> True"
| "goal_lits rs (GRule i p) \<longleftrightarrow> i < length rs"
| "goal_lits rs (GExp w e p skd) \<longleftrightarrow> lits_ok e"
| "goal_lits rs (GStar w x p) \<longleftrightarrow> lits_ok x"
| "goal_lits rs (GPrec w atom os p ml) \<longleftrightarrow> lits_ok atom \<and> (\<forall>(f, l, e) \<in> set os. lits_ok e)"
| "goal_lits rs (GTail w atom os p ml) \<longleftrightarrow> lits_ok atom \<and> (\<forall>(f, l, e) \<in> set os. lits_ok e)"

fun put :: "int \<Rightarrow> goal \<Rightarrow> goal" where
  "put q (GSkip p) = GSkip q"
| "put q (GRule i p) = GRule i q"
| "put q (GExp w e p skd) = GExp w e q skd"
| "put q (GStar w x p) = GStar w x q"
| "put q (GPrec w atom os p ml) = GPrec w atom os q ml"
| "put q (GTail w atom os p ml) = GTail w atom os q ml"

fun never_fails :: "goal \<Rightarrow> bool" where
  "never_fails (GSkip p) \<longleftrightarrow> True"
| "never_fails (GStar w x p) \<longleftrightarrow> True"
| "never_fails (GTail w atom os p ml) \<longleftrightarrow> True"
| "never_fails g \<longleftrightarrow> False"

definition here :: "int \<Rightarrow> int \<Rightarrow> int \<Rightarrow> int \<Rightarrow> bool" where
  "here p p' x y \<longleftrightarrow> x = p \<and> y = p'"

definition same :: "int \<Rightarrow> int \<Rightarrow> int \<Rightarrow> int \<Rightarrow> bool" where
  "same p p' x y \<longleftrightarrow> x = -1 \<and> y = -1 \<or> x = p \<and> y = p'"

definition alike :: "rule_in list \<Rightarrow> int \<Rightarrow> int \<Rightarrow> ref \<Rightarrow> bool" where
  "alike rs p p' call \<longleftrightarrow> 0 \<le> p \<and> 0 \<le> p' \<and>
     (\<forall>g. goal_lits rs g \<longrightarrow> goal_at g = p \<longrightarrow>
        rel_option (if never_fails g then here p p' else same p p') (call g) (call (put p' g)))"

lemma rel_bind:
  "rel_option R a b \<Longrightarrow> (\<And>x y. R x y \<Longrightarrow> rel_option S (f x) (g y)) \<Longrightarrow> rel_option S (Option.bind a f) (Option.bind b g)"
  by (auto simp: option_rel_Some1 elim!: option.rel_cases)

lemma alike_pos: "alike rs p p' call \<Longrightarrow> 0 \<le> p \<and> 0 \<le> p'"
  by (simp add: alike_def)

lemma alike_goal:
  "alike rs p p' call \<Longrightarrow> goal_lits rs g \<Longrightarrow> goal_at g = p \<Longrightarrow>
     rel_option (if never_fails g then here p p' else same p p') (call g) (call (put p' g))"
  by (simp add: alike_def)

lemma alike_goals:
  assumes "alike rs p p' call"
  shows "rel_option (here p p') (call (GSkip p)) (call (GSkip p'))"
    and "i < length rs \<Longrightarrow> rel_option (same p p') (call (GRule i p)) (call (GRule i p'))"
    and "lits_ok e \<Longrightarrow> rel_option (same p p') (call (GExp w e p skd)) (call (GExp w e p' skd))"
    and "lits_ok e \<Longrightarrow> rel_option (here p p') (call (GStar w e p)) (call (GStar w e p'))"
    and "lits_ok e \<Longrightarrow> \<forall>(f, l, x) \<in> set os. lits_ok x \<Longrightarrow>
      rel_option (same p p') (call (GPrec w e os p ml)) (call (GPrec w e os p' ml))"
    and "lits_ok e \<Longrightarrow> \<forall>(f, l, x) \<in> set os. lits_ok x \<Longrightarrow>
      rel_option (here p p') (call (GTail w e os p ml)) (call (GTail w e os p' ml))"
  using alike_goal [OF assms, of "GSkip p"] alike_goal [OF assms, of "GRule i p"] alike_goal [OF assms, of "GExp w e p skd"]
    alike_goal [OF assms, of "GStar w e p"] alike_goal [OF assms, of "GPrec w e os p ml"]
    alike_goal [OF assms, of "GTail w e os p ml"]
  by simp_all

lemma alike_start:
  assumes "alike rs p p' call"
  shows "rel_option (here p p') (ref_start call w p skd) (ref_start call w p' skd)"
    and "rel_option (here p p') (ref_sk call w p) (ref_sk call w p')"
  using alike_goals(1) [OF assms] by (auto simp: ref_start_def ref_sk_def here_def)

lemma alike_seq:
  assumes "alike rs p p' call"
  shows "list_all lits_ok es \<Longrightarrow> rel_option (same p p') (ref_seq call w es p skd) (ref_seq call w es p' skd)"
proof (induction es arbitrary: skd)
  case (Cons e es)
  show ?case
    unfolding ref_seq.simps
  proof (rule rel_bind [OF alike_goals(3) [OF assms]])
    show "lits_ok e" using Cons.prems by simp
    show "rel_option (same p p') (if x < 0 then Some (-1) else ref_seq call w es x False)
        (if y < 0 then Some (-1) else ref_seq call w es y False)" if "same p p' x y" for x y
      using that Cons alike_pos [OF assms] unfolding same_def [of p p' x y] by (auto simp: same_def [of p p' "-1"])
  qed
qed (simp add: same_def)

lemma alike_alt:
  assumes "alike rs p p' call"
  shows "list_all lits_ok es \<Longrightarrow> rel_option (same p p') (ref_alt call w es p skd) (ref_alt call w es p' skd)"
proof (induction es)
  case (Cons e es)
  show ?case
    unfolding ref_alt.simps
    by (rule rel_bind [OF alike_goals(3) [OF assms]]) (use Cons alike_pos [OF assms] in \<open>auto simp: same_def\<close>)
qed (simp add: same_def)

definition same_op :: "int \<Rightarrow> int \<Rightarrow> int \<times> int \<Rightarrow> int \<times> int \<Rightarrow> bool" where
  "same_op p p' x y \<longleftrightarrow> x = (-1, -1) \<and> y = (-1, -1) \<or> (\<exists>l. 0 \<le> l \<and> x = (l, p) \<and> y = (l, p'))"

lemma alike_prefix:
  assumes "alike rs p p' call"
  shows "\<forall>(f, l, e) \<in> set os. lits_ok e \<Longrightarrow> rel_option (same_op p p') (ref_prefix call w p os) (ref_prefix call w p' os)"
proof (induction os)
  case (Cons o' os)
  obtain f l e where o': "o' = (f, l, e)" by (cases o') auto
  show ?case
    unfolding o' ref_prefix.simps
    by (rule rel_bind [OF alike_goals(3) [OF assms]]) (use Cons o' alike_pos [OF assms] in \<open>auto simp: same_def same_op_def\<close>)
qed (simp add: same_op_def)

lemma alike_postfix:
  assumes "alike rs p p' call"
  shows "\<forall>(f, l, e) \<in> set os. lits_ok e \<Longrightarrow>
    rel_option (rel_option (here p p')) (ref_postfix call w ml p os) (ref_postfix call w ml p' os)"
proof (induction os)
  case (Cons o' os)
  obtain f l e where o': "o' = (f, l, e)" by (cases o') auto
  have "ml \<le> l \<Longrightarrow> ?case"
    unfolding o' ref_postfix.simps
    by (simp, rule rel_bind [OF alike_goals(3) [OF assms]]) (use Cons o' alike_pos [OF assms] in \<open>auto simp: same_def here_def\<close>)
  then show ?case using Cons o' by auto
qed simp

lemma alike_infix:
  assumes "alike rs p p' call" and "\<And>l. rel_option (same p p') (call (g p l)) (call (g p' l))"
  shows "\<forall>(f, l, e) \<in> set os. lits_ok e \<Longrightarrow>
    rel_option (rel_option (here p p')) (ref_infix call w g ml p os) (ref_infix call w g ml p' os)"
proof (induction os)
  case (Cons o' os)
  obtain f l e where o': "o' = (f, l, e)" by (cases o') auto
  have IH: "rel_option (rel_option (here p p')) (ref_infix call w g ml p os) (ref_infix call w g ml p' os)" using Cons by simp
  have rhs: "rel_option (rel_option (here p p'))
      (do { q \<leftarrow> ref_sk call w p; v \<leftarrow> call (g q (above f l)); if v \<ge> 0 then Some (Some v) else ref_infix call w g ml p os })
      (do { q \<leftarrow> ref_sk call w p'; v \<leftarrow> call (g q (above f l)); if v \<ge> 0 then Some (Some v) else ref_infix call w g ml p' os })"
  proof (rule rel_bind [OF alike_start(2) [OF assms(1)]])
    fix x y
    assume "here p p' x y"
    then have x: "x = p" "y = p'" by (simp_all add: here_def)
    show "rel_option (rel_option (here p p'))
      (do { v \<leftarrow> call (g x (above f l)); if v \<ge> 0 then Some (Some v) else ref_infix call w g ml p os })
      (do { v \<leftarrow> call (g y (above f l)); if v \<ge> 0 then Some (Some v) else ref_infix call w g ml p' os })"
      unfolding x by (rule rel_bind [OF assms(2)]) (use IH alike_pos [OF assms(1)] in \<open>auto simp: same_def here_def [of p p' p p']\<close>)
  qed
  have "ml \<le> l \<Longrightarrow> ?case"
    unfolding o' ref_infix.simps
    by (simp, rule rel_bind [OF alike_goals(3) [OF assms(1)]])
      (use Cons.prems o' IH rhs alike_pos [OF assms(1)] in \<open>auto simp: same_def\<close>)
  then show ?case using IH o' by auto
qed simp

lemma lits_with_fix: "\<forall>(f, l, e) \<in> set os. lits_ok e \<Longrightarrow> \<forall>(f, l, e) \<in> set (with_fix F os). lits_ok e"
  by (auto simp: with_fix_def)

lemma table_lits:
  assumes "list_all (\<lambda>(_, os). list_all lits_ok os) levels" and "(f, lev, e) \<in> set (table_ops levels)"
  shows "lits_ok e"
proof -
  have "((f, lev, e), k) \<in> set (level_ops n levels) \<Longrightarrow> lits_ok e" for n k
    using assms(1) by (induction n levels rule: level_ops.induct) (auto simp: list_all_iff)
  then show ?thesis using assms(2) by (auto simp: table_ops_def)
qed

lemma past_end:
  assumes "int (length cs) \<le> p"
  shows "char_at cs p = -1" and "0 \<le> c \<Longrightarrow> lit_here cs p ci (c # l) = False"
proof -
  have "\<not> nat p < length cs" using assms by linarith
  then show 1: "char_at cs p = -1" by (simp add: char_at_def)
  show "0 \<le> c \<Longrightarrow> lit_here cs p ci (c # l) = False"
    by (auto simp: 1 fold_code_def lower_def)
qed

lemma alike_exp:
  assumes "alike rs p p' call" and "int (length cs) \<le> p" and "int (length cs) \<le> p'" and "lits_ok e"
  shows "rel_option (same p p') (ref_exp rs cs call w e p skd) (ref_exp rs cs call w e p' skd)"
proof -
  note g = alike_goals [OF assms(1)] and pos = alike_pos [OF assms(1)]
  note st = alike_start(1) [OF assms(1)] and past = past_end [OF assms(2)] past_end [OF assms(3)]
  show ?thesis
  proof (cases e)
    case (ELit l s ci)
    then show ?thesis
      by (cases l) (use assms(4) past in \<open>auto simp: ref_exp_def same_def here_def intro!: rel_bind [OF st]\<close>)
  next
    case (EClass ranges neg s)
    then show ?thesis using past by (auto simp: ref_exp_def in_class_def same_def here_def intro!: rel_bind [OF st])
  next
    case EAny
    then show ?thesis using past by (auto simp: ref_exp_def same_def here_def intro!: rel_bind [OF st])
  next
    case (ERef n)
    have "rel_option (same p p') (ref_start call w p skd \<bind> (\<lambda>x. call (GRule i x)))
        (ref_start call w p' skd \<bind> (\<lambda>x. call (GRule i x)))" if "rule_index rs n = Some i" for i
      by (rule rel_bind [OF st]) (use g(2) rule_index_name [OF that] in \<open>auto simp: here_def\<close>)
    then show ?thesis using ERef by (auto simp: ref_exp_def split: option.splits)
  next
    case (ESeq xs)
    then show ?thesis using assms(4) alike_seq [OF assms(1)] by (simp add: ref_exp_def)
  next
    case (EAlt xs)
    then show ?thesis using assms(4) alike_alt [OF assms(1)] by (simp add: ref_exp_def)
  next
    case (EStar x)
    then have "rel_option (here p p') (call (GStar w x p)) (call (GStar w x p'))" using assms(4) g(4) by simp
    then have "rel_option (same p p') (call (GStar w x p)) (call (GStar w x p'))"
      by (rule option.rel_mono_strong) (simp add: here_def same_def)
    then show ?thesis using EStar by (simp add: ref_exp_def)
  next
    case (EPlus x)
    then have x: "lits_ok x" using assms(4) by simp
    have "rel_option (same p p') (call (GStar w x p)) (call (GStar w x p'))"
      by (rule option.rel_mono_strong [OF g(4) [OF x]]) (simp add: here_def same_def)
    then show ?thesis using EPlus pos
      by (auto simp: ref_exp_def same_def [of p p' "-1"] same_def [of p p' _ "-1"] intro!: rel_bind [OF g(3) [OF x]])
        (auto simp: same_def)
  next
    case (EOpt x)
    then show ?thesis using assms(4) g(3) pos by (auto simp: ref_exp_def same_def intro!: rel_bind [OF g(3)])
  next
    case (EAnd x)
    then show ?thesis using assms(4) g(3) pos by (auto simp: ref_exp_def same_def intro!: rel_bind [OF g(3)])
  next
    case (ENot x)
    then show ?thesis using assms(4) g(3) pos by (auto simp: ref_exp_def same_def intro!: rel_bind [OF g(3)])
  next
    case (ELabel n x)
    then show ?thesis using assms(4) g(3) by (simp add: ref_exp_def)
  next
    case (EPrec atom levels)
    then have "lits_ok atom" "\<forall>(f, l, x) \<in> set (table_ops levels). lits_ok x" using assms(4) table_lits by auto
    from g(5) [OF this] have "rel_option (same p p') (ref_start call w p skd \<bind> (\<lambda>x. call (GPrec w atom (table_ops levels) x 0)))
        (ref_start call w p' skd \<bind> (\<lambda>x. call (GPrec w atom (table_ops levels) x 0)))"
      by (intro rel_bind [OF st]) (auto simp: here_def)
    then show ?thesis using EPrec by (simp add: ref_exp_def)
  qed
qed

lemma alike_star:
  assumes "alike rs p p' call" and "lits_ok x"
  shows "rel_option (here p p') (ref_step rs cs call (GStar w x p)) (ref_step rs cs call (GStar w x p'))"
  unfolding ref_step_def goal.case
  by (rule rel_bind [OF alike_goals(3) [OF assms]]) (use alike_pos [OF assms(1)] in \<open>auto simp: same_def here_def\<close>)

lemma alike_skip:
  assumes "alike rs p p' call"
  shows "rel_option (here p p') (ref_step rs cs call (GSkip p)) (ref_step rs cs call (GSkip p'))"
proof (cases "skip_index rs")
  case (Some i)
  then have i: "i < length rs" by (auto simp: skip_index_def find_Some_iff)
  show ?thesis
    unfolding ref_step_def goal.case Some option.case
    by (rule rel_bind [OF alike_goals(2) [OF assms i]]) (use alike_pos [OF assms] in \<open>auto simp: same_def here_def\<close>)
qed (simp add: ref_step_def here_def)

lemma alike_table:
  assumes "alike rs p p' call" and "lits_ok atom" and "\<forall>(f, l, x) \<in> set os. lits_ok x"
  shows "rel_option (same p p') (ref_step rs cs call (GPrec w atom os p ml)) (ref_step rs cs call (GPrec w atom os p' ml))"
    and "rel_option (here p p') (ref_step rs cs call (GTail w atom os p ml)) (ref_step rs cs call (GTail w atom os p' ml))"
proof -
  note pos = alike_pos [OF assms(1)] and g = alike_goals [OF assms(1)] and sk = alike_start(2) [OF assms(1)]
  note tail = g(6) [OF assms(2,3)]
  have operand: "rel_option (same p p')
      (if fst x \<ge> 0 then do { y \<leftarrow> ref_sk call w (snd x); call (GPrec w atom os y (nat (fst x))) } else call (GExp w atom p True))
      (if fst y \<ge> 0 then do { z \<leftarrow> ref_sk call w (snd y); call (GPrec w atom os z (nat (fst y))) } else call (GExp w atom p' True))"
    if "same_op p p' x y" for x y
  proof (cases "fst x \<ge> 0")
    case True
    with that obtain l where "x = (l, p)" "y = (l, p')" "0 \<le> l" by (auto simp: same_op_def)
    moreover have "rel_option (same p p') (do { y \<leftarrow> ref_sk call w p; call (GPrec w atom os y (nat l)) })
        (do { z \<leftarrow> ref_sk call w p'; call (GPrec w atom os z (nat l)) })"
      by (rule rel_bind [OF sk]) (use g(5) [OF assms(2,3)] in \<open>simp add: here_def\<close>)
    ultimately show ?thesis by simp
  next
    case False
    with that have "\<not> fst y \<ge> 0" by (auto simp: same_op_def)
    then show ?thesis using False g(3) [OF assms(2)] by simp
  qed
  have "rel_option (same p p') (if x \<ge> 0 then call (GTail w atom os x ml) else Some x)
      (if y \<ge> 0 then call (GTail w atom os y ml) else Some y)" if "same p p' x y" for x y
  proof -
    have "rel_option (same p p') (call (GTail w atom os p ml)) (call (GTail w atom os p' ml))"
      by (rule option.rel_mono_strong [OF tail]) (simp add: here_def same_def)
    then show ?thesis using that pos unfolding same_def [of p p' x y] by (auto simp: same_def [of p p' "-1"])
  qed
  then show "rel_option (same p p') (ref_step rs cs call (GPrec w atom os p ml)) (ref_step rs cs call (GPrec w atom os p' ml))"
    unfolding ref_step_def goal.case split_def
    by (intro rel_bind [OF alike_prefix [OF assms(1) lits_with_fix [OF assms(3)]]] rel_bind [OF operand])
  have "rel_option (here p p')
      (case a of Some r \<Rightarrow> call (GTail w atom os r ml) | None \<Rightarrow> do {
         inf \<leftarrow> ref_infix call w (GPrec w atom os) ml p (with_fix infix_fix os);
         case inf of Some v \<Rightarrow> call (GTail w atom os v ml) | None \<Rightarrow> Some p })
      (case b of Some r \<Rightarrow> call (GTail w atom os r ml) | None \<Rightarrow> do {
         inf \<leftarrow> ref_infix call w (GPrec w atom os) ml p' (with_fix infix_fix os);
         case inf of Some v \<Rightarrow> call (GTail w atom os v ml) | None \<Rightarrow> Some p' })"
    if "rel_option (here p p') a b" for a b
  proof (cases a)
    case None
    have "rel_option (rel_option (here p p')) (ref_infix call w (GPrec w atom os) ml p (with_fix infix_fix os))
        (ref_infix call w (GPrec w atom os) ml p' (with_fix infix_fix os))"
      by (rule alike_infix [OF assms(1) g(5) [OF assms(2,3)] lits_with_fix [OF assms(3)]])
    moreover have "rel_option (here p p') (case x of Some v \<Rightarrow> call (GTail w atom os v ml) | None \<Rightarrow> Some p)
        (case y of Some v \<Rightarrow> call (GTail w atom os v ml) | None \<Rightarrow> Some p')" if "rel_option (here p p') x y" for x y
      using that tail by (cases x; cases y) (simp_all add: here_def [of p p'])
    ultimately show ?thesis using that None by (auto intro!: rel_bind)
  next
    case (Some r)
    then show ?thesis using that tail by (auto simp: option_rel_Some1 here_def)
  qed
  then show "rel_option (here p p') (ref_step rs cs call (GTail w atom os p ml)) (ref_step rs cs call (GTail w atom os p' ml))"
    unfolding ref_step_def goal.case
    by (intro rel_bind [OF sk]) (auto simp: here_def [of p p'] intro!: rel_bind [OF alike_postfix [OF assms(1) lits_with_fix [OF assms(3)]]])
qed

lemma alike_step:
  assumes "alike rs p p' call" and "int (length cs) \<le> p" and "int (length cs) \<le> p'" and "\<forall>r \<in> set rs. lits_ok (ri_e r)"
  shows "alike rs p p' (ref_step rs cs call)"
proof -
  have "rel_option (if never_fails g then here p p' else same p p') (ref_step rs cs call g) (ref_step rs cs call (put p' g))"
    if g: "goal_lits rs g" "goal_at g = p" for g
  proof (cases g)
    case (GSkip q)
    then show ?thesis using g alike_skip [OF assms(1)] by simp
  next
    case (GRule i q)
    then show ?thesis using g assms(4) alike_goals(3) [OF assms(1)] by (simp add: ref_step_def)
  next
    case (GExp w e q skd)
    then show ?thesis using g alike_exp [OF assms(1-3)] by (simp add: ref_step_def)
  next
    case (GStar w x q)
    then show ?thesis using g alike_star [OF assms(1)] by simp
  next
    case (GPrec w atom os q ml)
    then show ?thesis using g alike_table(1) [OF assms(1)] by simp
  next
    case (GTail w atom os q ml)
    then show ?thesis using g alike_table(2) [OF assms(1)] by simp
  qed
  then show ?thesis using alike_pos [OF assms(1)] by (simp add: alike_def)
qed

lemma alike_all:
  assumes "int (length cs) \<le> p" and "int (length cs) \<le> p'" and "\<forall>r \<in> set rs. lits_ok (ri_e r)"
  shows "alike rs p p' (peg rs cs f)"
proof (induction f)
  case 0
  then show ?case using assms by (simp add: alike_def)
next
  case (Suc f)
  have "peg rs cs (Suc f) = ref_step rs cs (peg rs cs f)" by (intro ext) simp
  then show ?case using alike_step [OF Suc assms] by simp
qed

text \<open>So nothing moves there, and one fuel is enough for skipping from any of them.\<close>

lemma past_still:
  assumes "means rs cs g r" and "int (length cs) \<le> goal_at g" and "\<forall>r \<in> set rs. lits_ok (ri_e r)" and "goal_lits rs g"
  shows "r = -1 \<or> r = goal_at g"
proof -
  obtain f where f: "peg rs cs f g = Some r" using assms(1) by (auto simp: means_def)
  have "put (goal_at g) g = g" by (cases g) simp_all
  then have "rel_option (if never_fails g then here (goal_at g) (goal_at g) else same (goal_at g) (goal_at g))
      (peg rs cs f g) (peg rs cs f g)"
    using alike_goal [OF alike_all [OF assms(2,2,3)] assms(4) refl] by metis
  then show ?thesis using f by (auto simp: same_def here_def split: if_splits)
qed

lemma skips_end_all:
  assumes "\<And>p. 0 \<le> p \<Longrightarrow> ends rs cs (GSkip p)" and "\<forall>r \<in> set rs. lits_ok (ri_e r)"
  shows "\<exists>S. skips_end rs cs S"
proof -
  let ?n = "int (length cs)"
  have "\<exists>f s. peg rs cs f (GSkip (int i)) = Some s" for i
    using assms(1) [of "int i"] by (auto simp: ends_def lim_means means_def)
  then obtain F where F: "\<exists>s. peg rs cs (F i) (GSkip (int i)) = Some s" for i by metis
  define S where "S = Max (F ` {0..length cs})"
  have le: "i \<le> length cs \<Longrightarrow> \<exists>s. peg rs cs S (GSkip (int i)) = Some s" for i
    using F [of i] peg_le [of rs cs "F i" _ _ S] by (fastforce simp: S_def)
  have "\<exists>s. peg rs cs S (GSkip p) = Some s" if "0 \<le> p" for p
  proof (cases "p \<le> ?n")
    case True
    then show ?thesis using le [of "nat p"] that by simp
  next
    case False
    then have "rel_option (here ?n p) (peg rs cs S (GSkip ?n)) (peg rs cs S (GSkip p))"
      using alike_goals(1) [OF alike_all [of cs ?n p rs S]] assms(2) by simp
    then show ?thesis using le [of "length cs"] by (auto simp: option_rel_Some1)
  qed
  then show ?thesis by (auto simp: skips_end_def)
qed

section \<open>Grammars whose rules are grounded\<close>

text \<open>
  The rules an expression may call where it stands itself, before anything has been consumed, satisfy \<open>Q\<close>.
\<close>

fun under :: "analysis \<Rightarrow> (nat \<Rightarrow> bool) \<Rightarrow> pexp \<Rightarrow> bool"
and under_seq :: "analysis \<Rightarrow> (nat \<Rightarrow> bool) \<Rightarrow> pexp list \<Rightarrow> bool" where
  "under an Q (ELit _ _ _) \<longleftrightarrow> True"
| "under an Q (EClass _ _ _) \<longleftrightarrow> True"
| "under an Q EAny \<longleftrightarrow> True"
| "under an Q (ERef n) \<longleftrightarrow> (case rule_index (an_rules an) n of Some i \<Rightarrow> Q i | None \<Rightarrow> True)"
| "under an Q (ESeq xs) \<longleftrightarrow> under_seq an Q xs"
| "under an Q (EAlt xs) \<longleftrightarrow> list_all (under an Q) xs"
| "under an Q (EStar x) \<longleftrightarrow> under an Q x"
| "under an Q (EPlus x) \<longleftrightarrow> under an Q x"
| "under an Q (EOpt x) \<longleftrightarrow> under an Q x"
| "under an Q (EAnd x) \<longleftrightarrow> under an Q x"
| "under an Q (ENot x) \<longleftrightarrow> under an Q x"
| "under an Q (ELabel _ x) \<longleftrightarrow> under an Q x"
| "under an Q (EPrec atom levels) \<longleftrightarrow>
     under an Q atom \<and> list_all (\<lambda>(assoc, os). assoc = ''prefix'' \<longrightarrow> list_all (under an Q) os) levels"
| "under_seq an Q [] \<longleftrightarrow> True"
| "under_seq an Q (x # xs) \<longleftrightarrow> under an Q x \<and> (an_nullable an x \<longrightarrow> under_seq an Q xs)"

text \<open>Prefix and postfix operators consume.\<close>

fun ops_move :: "analysis \<Rightarrow> pexp \<Rightarrow> bool" where
  "ops_move an (ESeq xs) \<longleftrightarrow> list_all (ops_move an) xs"
| "ops_move an (EAlt xs) \<longleftrightarrow> list_all (ops_move an) xs"
| "ops_move an (EStar x) \<longleftrightarrow> ops_move an x"
| "ops_move an (EPlus x) \<longleftrightarrow> ops_move an x"
| "ops_move an (EOpt x) \<longleftrightarrow> ops_move an x"
| "ops_move an (EAnd x) \<longleftrightarrow> ops_move an x"
| "ops_move an (ENot x) \<longleftrightarrow> ops_move an x"
| "ops_move an (ELabel _ x) \<longleftrightarrow> ops_move an x"
| "ops_move an (EPrec atom levels) \<longleftrightarrow>
     ops_move an atom \<and>
     list_all (\<lambda>(assoc, os). list_all (\<lambda>x. ops_move an x \<and>
       (assoc = ''prefix'' \<or> assoc = ''postfix'' \<longrightarrow> \<not> an_nullable an x)) os) levels"
| "ops_move an e \<longleftrightarrow> True"

text \<open>
  No left recursion: ranks go down from a rule to the rules it may call where it stands, the skip rule being
  one of them for a rule that skips.
\<close>

definition grounded :: "analysis \<Rightarrow> nat list \<Rightarrow> bool" where
  "grounded an rk \<longleftrightarrow>
     list_all (\<lambda>i. ops_move an (ri_e (an_rules an ! i)) \<and> under an (\<lambda>j. rk ! j < rk ! i) (ri_e (an_rules an ! i)) \<and>
         (rule_ws (an_rules an ! i) \<longrightarrow>
            (case skip_index (an_rules an) of Some s \<Rightarrow> rk ! s < rk ! i | None \<Rightarrow> True)))
       [0..<length (an_rules an)]"

lemma under_mono:
  "under an Q e \<Longrightarrow> (\<And>i. i < length (an_rules an) \<Longrightarrow> Q i \<Longrightarrow> Q' i) \<Longrightarrow> under an Q' e"
  "under_seq an Q xs \<Longrightarrow> (\<And>i. i < length (an_rules an) \<Longrightarrow> Q i \<Longrightarrow> Q' i) \<Longrightarrow> under_seq an Q' xs"
proof (induction an Q e and an Q xs rule: under_under_seq.induct)
  case (4 an Q n)
  then show ?case using rule_index_name [of "an_rules an" n] by (auto split: option.splits)
next
  case (13 an Q atom levels)
  then show ?case by (fastforce simp: list_all_iff)
qed (auto simp: list_all_iff)

lemma under_any: "under an (\<lambda>i. True) e" "under_seq an (\<lambda>i. True) xs"
  by (induction an "\<lambda>i :: nat. True" e and an "\<lambda>i :: nat. True" xs rule: under_under_seq.induct)
    (auto simp: list_all_iff split: option.splits)

fun sane :: "analysis \<Rightarrow> goal \<Rightarrow> bool" where
  "sane an (GSkip p) \<longleftrightarrow> True"
| "sane an (GRule i p) \<longleftrightarrow> i < length (an_rules an)"
| "sane an (GExp w e p skd) \<longleftrightarrow> fine an w e \<and> ops_move an e"
| "sane an (GStar w x p) \<longleftrightarrow> fine an w x \<and> ops_move an x"
| "sane an (GPrec w atom os p ml) \<longleftrightarrow> fine an w atom \<and> ops_move an atom \<and> \<not> an_nullable an atom \<and>
     (\<forall>(f, l, e) \<in> set os. fine an w e \<and> ops_move an e \<and> (f = Prefix \<or> f = Postfix \<longrightarrow> \<not> an_nullable an e))"
| "sane an (GTail w atom os p ml) \<longleftrightarrow> fine an w atom \<and> ops_move an atom \<and> \<not> an_nullable an atom \<and>
     (\<forall>(f, l, e) \<in> set os. fine an w e \<and> ops_move an e \<and> (f = Prefix \<or> f = Postfix \<longrightarrow> \<not> an_nullable an e))"

lemma sane_lits: "sane an g \<Longrightarrow> goal_lits (an_rules an) g"
  by (cases g) (auto dest: fine_lits)

lemma table_sane:
  assumes "list_all (\<lambda>(assoc, os). list_all (\<lambda>x. ops_move an x \<and>
      (assoc = ''prefix'' \<or> assoc = ''postfix'' \<longrightarrow> \<not> an_nullable an x)) os) levels" and "(f, lev, e) \<in> set (table_ops levels)"
  shows "ops_move an e \<and> (f = Prefix \<or> f = Postfix \<longrightarrow> \<not> an_nullable an e)"
proof -
  have "((f, lev, e), k) \<in> set (level_ops n levels) \<Longrightarrow> ops_move an e \<and> (f = Prefix \<or> f = Postfix \<longrightarrow> \<not> an_nullable an e)" for n k
    using assms(1)
    by (induction n levels rule: level_ops.induct) (auto simp: list_all_iff fix_or_def fix_of_def split: if_splits)
  then show ?thesis using assms(2) by (auto simp: table_ops_def)
qed

lemma prec_sane:
  assumes "fine an w (EPrec atom levels)" and "ops_move an (EPrec atom levels)"
  shows "sane an (GPrec w atom (table_ops levels) p ml)"
proof -
  have "fine an w e \<and> ops_move an e \<and> (f = Prefix \<or> f = Postfix \<longrightarrow> \<not> an_nullable an e)"
    if "(f, l, e) \<in> set (table_ops levels)" for f l e
    using assms table_fine [OF _ that, of an w] table_sane [OF _ that, of an] by simp
  then show ?thesis using assms by auto
qed

section \<open>Going on from a position\<close>

definition onward :: "analysis \<Rightarrow> int list \<Rightarrow> int \<Rightarrow> bool" where
  "onward an cs p \<longleftrightarrow> an_ok an \<and> fine_rules an \<and> 0 \<le> p \<and>
     (\<forall>g. sane an g \<longrightarrow> p < goal_at g \<longrightarrow> nat p < length cs \<longrightarrow> ends (an_rules an) cs g)"

definition reach :: "int list \<Rightarrow> int \<Rightarrow> int \<Rightarrow> bool" where
  "reach cs p q \<longleftrightarrow> q = p \<or> p < q \<and> nat p < length cs"

lemma means_ends: "means rs cs g r \<Longrightarrow> goal_ends g r"
  using peg_ends by (auto simp: means_def)

lemma fine_rules_lits: "fine_rules an \<Longrightarrow> \<forall>r \<in> set (an_rules an). lits_ok (ri_e r)"
  using fine_lits by (auto simp: fine_rules_def)

lemma means_moves: "an_ok an \<Longrightarrow> means (an_rules an) cs g r \<Longrightarrow> 0 \<le> r \<Longrightarrow> goal_moves an g r"
  using moves_all movesD by (auto simp: means_def)

lemma reach_next:
  assumes "onward an cs p" and "reach cs p (goal_at g)" and "means (an_rules an) cs g r" and "0 \<le> r" and "sane an g"
  shows "reach cs p r" and "goal_at g \<le> r"
proof -
  show le: "goal_at g \<le> r" using means_ends [OF assms(3)] assms(4) by (cases g) auto
  show "reach cs p r"
  proof (cases "goal_at g = p \<and> \<not> nat p < length cs")
    case True
    have "0 \<le> p" using assms(1) by (simp add: onward_def)
    then have "int (length cs) \<le> goal_at g" using True by linarith
    from past_still [OF assms(3) this fine_rules_lits sane_lits [OF assms(5)]] True assms(1,4)
    show ?thesis by (auto simp: reach_def onward_def)
  next
    case False
    then show ?thesis using assms(2) le by (auto simp: reach_def)
  qed
qed

lemma ends_at:
  "onward an cs p \<Longrightarrow> sane an g \<Longrightarrow> reach cs p (goal_at g) \<Longrightarrow> (goal_at g = p \<Longrightarrow> ends (an_rules an) cs g) \<Longrightarrow>
     ends (an_rules an) cs g"
  by (auto simp: onward_def reach_def)

lemma onward_pos: "onward an cs p \<Longrightarrow> 0 \<le> p"
  by (simp add: onward_def)

lemma reach_self [simp]: "reach cs p p"
  by (simp add: reach_def)

lemma reach_le: "reach cs p q \<Longrightarrow> p \<le> q"
  by (auto simp: reach_def)

lemma ends_lim: "ends rs cs g \<Longrightarrow> lim rs cs g \<noteq> None"
  by (simp add: ends_def)

text \<open>Skipping before a goal.\<close>

lemma skip_on:
  assumes "onward an cs p" and "reach cs p q" and "w \<longrightarrow> ends (an_rules an) cs (GSkip p)"
  shows "ref_sk (lim (an_rules an) cs) w q \<noteq> None"
    and "ref_sk (lim (an_rules an) cs) w q = Some x \<Longrightarrow> reach cs p x \<and> q \<le> x"
    and "ref_start (lim (an_rules an) cs) w q skd \<noteq> None"
    and "ref_start (lim (an_rules an) cs) w q skd = Some x \<Longrightarrow> reach cs p x \<and> q \<le> x"
proof -
  have e: "w \<Longrightarrow> lim (an_rules an) cs (GSkip q) \<noteq> None"
    using ends_at [OF assms(1), of "GSkip q"] assms(2,3) by (auto simp: ends_def)
  have r: "lim (an_rules an) cs (GSkip q) = Some x \<Longrightarrow> reach cs p x \<and> q \<le> x" for x
  proof -
    assume "lim (an_rules an) cs (GSkip q) = Some x"
    then have m: "means (an_rules an) cs (GSkip q) x" by (simp add: lim_means)
    then have "q \<le> x" using means_ends [OF m] by simp
    then have "0 \<le> x" using onward_pos [OF assms(1)] reach_le [OF assms(2)] by simp
    from reach_next [OF assms(1) _ m this] assms(2) show ?thesis by simp
  qed
  show "ref_sk (lim (an_rules an) cs) w q \<noteq> None" "ref_start (lim (an_rules an) cs) w q skd \<noteq> None"
    using e by (auto simp: ref_sk_def ref_start_def)
  show "ref_sk (lim (an_rules an) cs) w q = Some x \<Longrightarrow> reach cs p x \<and> q \<le> x"
    "ref_start (lim (an_rules an) cs) w q skd = Some x \<Longrightarrow> reach cs p x \<and> q \<le> x"
    using r assms(2) by (auto simp: ref_sk_def ref_start_def split: if_splits)
qed

lemma lim_next:
  assumes "onward an cs p" and "reach cs p (goal_at g)" and "lim (an_rules an) cs g = Some r" and "0 \<le> r" and "sane an g"
  shows "reach cs p r" and "goal_at g \<le> r" and "goal_moves an g r"
  using reach_next [OF assms(1,2) _ assms(4,5)] assms(1,3,4) means_moves by (auto simp: lim_means onward_def)

lemma seq_on:
  assumes "onward an cs p" and "\<And>x b. x \<in> set xs \<Longrightarrow> under an Q x \<Longrightarrow> ends (an_rules an) cs (GExp w x p b)"
  shows "list_all (fine an w) xs \<Longrightarrow> list_all (ops_move an) xs \<Longrightarrow> reach cs p q \<Longrightarrow>
    (q = p \<Longrightarrow> under_seq an Q xs) \<Longrightarrow> ref_seq (lim (an_rules an) cs) w xs q skd \<noteq> None"
  using assms(2)
proof (induction xs arbitrary: q skd)
  case (Cons x xs)
  let ?g = "GExp w x q skd"
  have s: "sane an ?g" using Cons.prems(1,2) by simp
  have "ends (an_rules an) cs ?g"
    using ends_at [OF assms(1) s] Cons.prems(3,4) Cons.prems(5) [of x skd] by auto
  then obtain r where r: "lim (an_rules an) cs ?g = Some r" by (auto simp: ends_def)
  show ?case
  proof (cases "r < 0")
    case True
    then show ?thesis using r by simp
  next
    case False
    note n = lim_next [OF assms(1) _ r _ s]
    have "reach cs p r" "q \<le> r" "\<not> an_nullable an x \<longrightarrow> q < r" using n False Cons.prems(3) by simp_all
    moreover from this have "r = p \<Longrightarrow> under_seq an Q xs" using Cons.prems(4) reach_le [OF Cons.prems(3)] by auto
    ultimately have "ref_seq (lim (an_rules an) cs) w xs r False \<noteq> None"
      using Cons.IH Cons.prems(1,2,5) by simp
    then show ?thesis using r False by simp
  qed
qed simp

lemma alt_on:
  "(\<And>x. x \<in> set xs \<Longrightarrow> ends rs cs (GExp w x p skd)) \<Longrightarrow> ref_alt (lim rs cs) w xs p skd \<noteq> None"
proof (induction xs)
  case (Cons x xs)
  obtain r where "lim rs cs (GExp w x p skd) = Some r" using Cons.prems [of x] by (auto simp: ends_def)
  then show ?case using Cons by simp
qed simp

lemma prefix_on:
  "(\<And>f l e. (f, l, e) \<in> set os \<Longrightarrow> ends rs cs (GExp w e p True)) \<Longrightarrow> ref_prefix (lim rs cs) w p os \<noteq> None"
proof (induction os)
  case (Cons o' os)
  obtain f l e where o': "o' = (f, l, e)" by (cases o') auto
  obtain r where "lim rs cs (GExp w e p True) = Some r" using Cons.prems [of f l e] o' by (auto simp: ends_def)
  moreover have "ref_prefix (lim rs cs) w p os \<noteq> None" by (rule Cons.IH) (use Cons.prems in auto)
  ultimately show ?case using o' by simp
qed simp

lemma prefix_which:
  "ref_prefix call w p os = Some (pl, pe) \<Longrightarrow> 0 \<le> pl \<Longrightarrow> 0 \<le> pe \<and> (\<exists>(f, l, e) \<in> set os. call (GExp w e p True) = Some pe)"
  by (induction os) (auto simp: bind_eq_Some_conv split: if_splits)

lemma prec_on:
  assumes "onward an cs p" and "sane an (GPrec w atom os p ml)" and "ends (an_rules an) cs (GExp w atom p True)"
    and "\<And>l e. (Prefix, l, e) \<in> set os \<Longrightarrow> ends (an_rules an) cs (GExp w e p True)"
    and "w \<longrightarrow> ends (an_rules an) cs (GSkip p)"
  shows "ends (an_rules an) cs (GPrec w atom os p ml)"
proof (rule ends_stepI, unfold ref_step_def goal.case, intro bind_ends)
  let ?c = "lim (an_rules an) cs"
  let ?pre = "with_fix (\<lambda>f. f = Prefix) os"
  show "ref_prefix ?c w p ?pre \<noteq> None" by (rule prefix_on) (auto simp: with_fix_def intro: assms(4))
  fix a
  assume a: "ref_prefix ?c w p ?pre = Some a"
  have tail: "(if q \<ge> 0 then ?c (GTail w atom os q ml) else Some q) \<noteq> None" if "reach cs p q" "p < q" for q
    using ends_at [OF assms(1), of "GTail w atom os q ml"] assms(2) that by (auto simp: ends_def)
  show "(case a of (pl, pe) \<Rightarrow>
      do {
        q \<leftarrow> (if pl \<ge> 0 then do { x \<leftarrow> ref_sk ?c w pe; ?c (GPrec w atom os x (nat pl)) } else ?c (GExp w atom p True));
        if q \<ge> 0 then ?c (GTail w atom os q ml) else Some q
      }) \<noteq> None"
  proof (cases a)
    case (Pair pl pe)
    show ?thesis
    proof (cases "pl \<ge> 0")
      case True
      then obtain f l e where e: "(f, l, e) \<in> set ?pre" "?c (GExp w e p True) = Some pe" "0 \<le> pe"
        using prefix_which [of ?c w p ?pre pl pe] a Pair by auto
      then have s: "sane an (GExp w e p True)" "\<not> an_nullable an e" using assms(2) by (auto simp: with_fix_def)
      note n = lim_next [OF assms(1) _ e(2,3) s(1)]
      have pe: "reach cs p pe" "p < pe" using n s(2) by simp_all
      note sk = skip_on [OF assms(1) pe(1) assms(5)]
      obtain x where k: "ref_sk ?c w pe = Some x" using sk(1) by auto
      note x = k conjunct1 [OF sk(2) [OF k]] less_le_trans [OF pe(2) conjunct2 [OF sk(2) [OF k]]]
      have "ends (an_rules an) cs (GPrec w atom os x (nat pl))"
        by (rule ends_at [OF assms(1)]) (use assms(2) x(2,3) in \<open>simp_all only: sane.simps goal_at.simps, simp_all\<close>)
      then obtain q where q: "?c (GPrec w atom os x (nat pl)) = Some q" by (auto simp: ends_def)
      show ?thesis
      proof (cases "q \<ge> 0")
        case True
        have "reach cs p q" "x \<le> q" using lim_next [OF assms(1) _ q True] x(2) assms(2) by auto
        then show ?thesis using tail x(1,3) q Pair \<open>pl \<ge> 0\<close> by simp
      qed (use x(1) q Pair \<open>pl \<ge> 0\<close> in simp)
    next
      case False
      obtain q where q: "?c (GExp w atom p True) = Some q" using assms(3) by (auto simp: ends_def)
      show ?thesis
      proof (cases "q \<ge> 0")
        case True
        have "reach cs p q" "p < q" using lim_next [OF assms(1) _ q True] assms(2) by auto
        then show ?thesis using tail q Pair False by simp
      qed (use q Pair False in simp)
    qed
  qed
qed

lemma postfix_on:
  "(\<And>f l e. (f, l, e) \<in> set os \<Longrightarrow> ends rs cs (GExp w e x True)) \<Longrightarrow> ref_postfix (lim rs cs) w ml x os \<noteq> None"
proof (induction os)
  case (Cons o' os)
  obtain f l e where o': "o' = (f, l, e)" by (cases o') auto
  obtain r where "lim rs cs (GExp w e x True) = Some r" using Cons.prems [of f l e] o' by (auto simp: ends_def)
  moreover have "ref_postfix (lim rs cs) w ml x os \<noteq> None" by (rule Cons.IH) (use Cons.prems in auto)
  ultimately show ?case using o' by simp
qed simp

lemma postfix_which:
  "ref_postfix call w ml x os = Some (Some r) \<Longrightarrow> 0 \<le> r \<and> (\<exists>(f, l, e) \<in> set os. call (GExp w e x True) = Some r)"
  by (induction os) (auto simp: bind_eq_Some_conv split: if_splits)

lemma infix_on:
  assumes "onward an cs p" and "reach cs p x" and "w \<longrightarrow> ends (an_rules an) cs (GSkip p)"
    and "\<And>f l e. (f, l, e) \<in> set os \<Longrightarrow> ends (an_rules an) cs (GExp w e x True) \<and> fine an w e \<and> ops_move an e"
    and "\<And>q l. reach cs p q \<Longrightarrow> ends (an_rules an) cs (GPrec w atom all q l)"
  shows "ref_infix (lim (an_rules an) cs) w (GPrec w atom all) ml x os \<noteq> None"
  using assms(4)
proof (induction os)
  case (Cons o' os)
  obtain f l e where o': "o' = (f, l, e)" by (cases o') auto
  let ?c = "lim (an_rules an) cs"
  have IH: "ref_infix ?c w (GPrec w atom all) ml x os \<noteq> None" by (rule Cons.IH) (use Cons.prems in auto)
  have e: "ends (an_rules an) cs (GExp w e x True)" "sane an (GExp w e x True)" using Cons.prems [of f l e] o' by simp_all
  obtain r where r: "?c (GExp w e x True) = Some r" using e(1) by (auto simp: ends_def)
  show ?case
  proof (cases "ml \<le> l \<and> 0 \<le> r")
    case False
    then show ?thesis using IH r o' by auto
  next
    case True
    have "reach cs p r" using lim_next(1) [OF assms(1) _ r _ e(2)] assms(2) True by simp
    note sk = skip_on(1,2) [OF assms(1) this assms(3)]
    obtain q where q: "ref_sk ?c w r = Some q" using sk(1) by auto
    obtain v where "?c (GPrec w atom all q (above f l)) = Some v"
      using assms(5) [of q "above f l"] sk(2) [OF q] by (auto simp: ends_def)
    then show ?thesis using True r q IH o' by auto
  qed
qed simp

lemma infix_which:
  "ref_infix call w g ml x os = Some (Some v) \<Longrightarrow>
     0 \<le> v \<and> (\<exists>(f, l, e) \<in> set os. \<exists>r q. 0 \<le> r \<and> call (GExp w e x True) = Some r \<and> ref_sk call w r = Some q \<and>
       call (g q (above f l)) = Some v)"
  by (induction call w g ml x os rule: ref_infix.induct) (fastforce simp: bind_eq_Some_conv split: if_splits)+

lemma tail_on:
  assumes "onward an cs p" and "sane an (GTail w atom os p ml)" and "w \<longrightarrow> ends (an_rules an) cs (GSkip p)"
    and "\<And>g. sane an g \<Longrightarrow> reach cs p (goal_at g) \<Longrightarrow> (\<exists>e q b. g = GExp w e q b) \<or> (\<exists>q l. g = GPrec w atom os q l) \<Longrightarrow>
      ends (an_rules an) cs g"
  shows "ends (an_rules an) cs (GTail w atom os p ml)"
proof (rule ends_stepI, unfold ref_step_def goal.case)
  let ?c = "lim (an_rules an) cs"
  let ?post = "with_fix (\<lambda>f. f = Postfix) os" and ?inf = "with_fix infix_fix os"
  have op: "sane an (GExp w e q True)" "f = Postfix \<Longrightarrow> \<not> an_nullable an e" if "(f, l, e) \<in> set os" for f l e q
    using that assms(2) by auto
  have prec: "sane an (GPrec w atom os q l)" for q l using assms(2) by simp
  note sk = skip_on(1,2) [OF assms(1) reach_self assms(3)]
  obtain x where k: "ref_sk ?c w p = Some x" using sk(1) by auto
  note x = conjunct1 [OF sk(2) [OF k]] conjunct2 [OF sk(2) [OF k]]
  have e: "ends (an_rules an) cs (GExp w e x True)" if "(f, l, e) \<in> set os" for f l e
    by (rule assms(4) [OF op(1) [OF that]]) (use x in auto)
  have pr: "ends (an_rules an) cs (GPrec w atom os q l)" if "reach cs p q" for q l
    by (rule assms(4) [OF prec]) (use that in auto)
  have tail: "?c (GTail w atom os r ml) \<noteq> None" if "reach cs p r" "p < r" for r
    using ends_at [OF assms(1), of "GTail w atom os r ml"] assms(2) that by (auto simp: ends_def)
  have "ref_postfix ?c w ml x ?post \<noteq> None" by (rule postfix_on) (auto simp: with_fix_def intro: e)
  then obtain post where post: "ref_postfix ?c w ml x ?post = Some post" by auto
  have "(case post of
      Some r \<Rightarrow> ?c (GTail w atom os r ml)
    | None \<Rightarrow> do { inf \<leftarrow> ref_infix ?c w (GPrec w atom os) ml x ?inf;
                 case inf of Some v \<Rightarrow> ?c (GTail w atom os v ml) | None \<Rightarrow> Some p }) \<noteq> None"
  proof (cases post)
    case (Some r)
    then obtain l e' where r: "(Postfix, l, e') \<in> set os" "?c (GExp w e' x True) = Some r" "0 \<le> r"
      using postfix_which post by (fastforce simp: with_fix_def)
    note n = lim_next [OF assms(1) _ r(2,3) op(1) [OF r(1)]]
    have "reach cs p r" "x < r" using n x(1) op(2) [OF r(1)] by simp_all
    then show ?thesis using tail [of r] x(2) Some by simp
  next
    case None
    have "ref_infix ?c w (GPrec w atom os) ml x ?inf \<noteq> None"
      by (rule infix_on [OF assms(1) x(1) assms(3) _ pr]) (use e op(1) in \<open>auto simp: with_fix_def\<close>)
    then obtain inf where inf: "ref_infix ?c w (GPrec w atom os) ml x ?inf = Some inf" by auto
    show ?thesis
    proof (cases inf)
      case None
      then show ?thesis using inf \<open>post = None\<close> by simp
    next
      case (Some v)
      then obtain f l e' r q where v: "(f, l, e') \<in> set os" "0 \<le> r" "?c (GExp w e' x True) = Some r" "ref_sk ?c w r = Some q"
          "?c (GPrec w atom os q (above f l)) = Some v" "0 \<le> v"
        using infix_which [of ?c w "GPrec w atom os" ml x ?inf v] inf by (fastforce simp: with_fix_def)
      note n = lim_next [OF assms(1) _ v(3,2) op(1) [OF v(1)]]
      have r: "reach cs p r" "x \<le> r" using n x(1) by simp_all
      note q = skip_on(2) [OF assms(1) r(1) assms(3) v(4)]
      note n = lim_next [OF assms(1) _ v(5,6) prec]
      have "reach cs p v" "q < v" using n q assms(2) by simp_all
      then show ?thesis using tail [of v] inf Some \<open>post = None\<close> q r x(2) by simp
    qed
  qed
  then show "(do {
      x \<leftarrow> ref_sk ?c w p;
      post \<leftarrow> ref_postfix ?c w ml x ?post;
      case post of
        Some r \<Rightarrow> ?c (GTail w atom os r ml)
      | None \<Rightarrow> do { inf \<leftarrow> ref_infix ?c w (GPrec w atom os) ml x ?inf;
                   case inf of Some v \<Rightarrow> ?c (GTail w atom os v ml) | None \<Rightarrow> Some p } }) \<noteq> None"
    using k post by simp
qed

lemma star_on:
  assumes "onward an cs p" and "sane an (GStar w x p)" and "ends (an_rules an) cs (GExp w x p False)"
  shows "ends (an_rules an) cs (GStar w x p)"
proof (rule ends_stepI, unfold ref_step_def goal.case)
  let ?c = "lim (an_rules an) cs"
  obtain r where r: "?c (GExp w x p False) = Some r" using assms(3) by (auto simp: ends_def)
  have "?c (GStar w x r) \<noteq> None" if "0 \<le> r" "p < r"
    using ends_at [OF assms(1), of "GStar w x r"] lim_next(1) [OF assms(1) _ r that(1)] assms(2) that(2) by (auto simp: ends_def)
  then show "(do { r \<leftarrow> ?c (GExp w x p False); if r < 0 \<or> r \<le> p then Some p else ?c (GStar w x r) }) \<noteq> None"
    using r by simp
qed

text \<open>An expression answers where the rules it may call there do.\<close>

lemma exp_stepI: "ref_exp rs cs (lim rs cs) w e p skd \<noteq> None \<Longrightarrow> ends rs cs (GExp w e p skd)"
  by (rule ends_stepI) (simp add: ref_step_def)

lemma start_on:
  assumes "onward an cs p" and "w \<longrightarrow> ends (an_rules an) cs (GSkip p)"
    and "\<And>x. reach cs p x \<Longrightarrow> k x \<noteq> None"
  shows "(do { x \<leftarrow> ref_start (lim (an_rules an) cs) w p skd; k x }) \<noteq> None"
  by (rule bind_ends) (use skip_on(3,4) [OF assms(1) reach_self assms(2)] assms(3) in blast)+

lemma exp_on:
  "fine an w e \<Longrightarrow> onward an cs p \<Longrightarrow> ops_move an e \<Longrightarrow> under an (\<lambda>i. ends (an_rules an) cs (GRule i p)) e \<Longrightarrow>
    w \<longrightarrow> ends (an_rules an) cs (GSkip p) \<Longrightarrow> ends (an_rules an) cs (GExp w e p skd)"
proof (induction an w e arbitrary: skd rule: fine.induct)
  case (1 an w l s ci)
  have "(do { x \<leftarrow> ref_start (lim (an_rules an) cs) w p skd; Some (if lit_here cs x ci l then x + int (length l) else -1) }) \<noteq> None"
    by (rule start_on [OF 1(2,5)]) simp
  then show ?case by (intro exp_stepI) (simp add: ref_exp_def)
next
  case (2 an w ranges neg s)
  have "(do { x \<leftarrow> ref_start (lim (an_rules an) cs) w p skd; Some (if in_class ranges neg (char_at cs x) then x + 1 else -1) }) \<noteq> None"
    by (rule start_on [OF 2(2,5)]) simp
  then show ?case by (intro exp_stepI) (simp add: ref_exp_def)
next
  case (3 an w)
  have "(do { x \<leftarrow> ref_start (lim (an_rules an) cs) w p skd; Some (if 0 \<le> char_at cs x then x + 1 else -1) }) \<noteq> None"
    by (rule start_on [OF 3(2,5)]) simp
  then show ?case by (intro exp_stepI) (simp add: ref_exp_def)
next
  case (4 an w n)
  obtain i where i: "rule_index (an_rules an) n = Some i" using 4(1) by (auto split: option.splits)
  have "lim (an_rules an) cs (GRule i x) \<noteq> None" if "reach cs p x" for x
    using ends_at [OF 4(2), of "GRule i x"] that rule_index_name [OF i] 4(4) i by (simp add: ends_def)
  then have "(do { x \<leftarrow> ref_start (lim (an_rules an) cs) w p skd; lim (an_rules an) cs (GRule i x) }) \<noteq> None"
    by (rule start_on [OF 4(2,5)])
  then show ?case by (intro exp_stepI) (simp add: ref_exp_def i)
next
  case (5 an w xs)
  have "ref_seq (lim (an_rules an) cs) w xs p skd \<noteq> None"
  proof (rule seq_on [OF 5(3), of xs "\<lambda>i. ends (an_rules an) cs (GRule i p)"])
    show "ends (an_rules an) cs (GExp w x p b)" if "x \<in> set xs" "under an (\<lambda>i. ends (an_rules an) cs (GRule i p)) x" for x b
      using 5(1) [OF that(1)] 5(2-6) that by (simp add: list_all_iff)
  qed (use 5(2-6) in simp_all)
  then show ?case by (intro exp_stepI) (simp add: ref_exp_def)
next
  case (6 an w xs)
  have "ref_alt (lim (an_rules an) cs) w xs p skd \<noteq> None"
    by (rule alt_on) (use 6 in \<open>simp add: list_all_iff\<close>)
  then show ?case by (intro exp_stepI) (simp add: ref_exp_def)
next
  case (7 an w x)
  have "ends (an_rules an) cs (GStar w x p)" by (rule star_on [OF 7(3)]) (use 7 in simp_all)
  then show ?case by (intro exp_stepI) (simp add: ref_exp_def ends_def)
next
  case (8 an w x)
  let ?c = "lim (an_rules an) cs"
  have s: "sane an (GExp w x p skd)" "sane an (GStar w x q)" for q using 8(2,4) by simp_all
  have e: "ends (an_rules an) cs (GExp w x p b)" for b using 8 by simp
  then obtain r where r: "?c (GExp w x p skd) = Some r" by (auto simp: ends_def)
  have "?c (GStar w x r) \<noteq> None" if "0 \<le> r"
    using ends_at [OF 8(3) s(2)] star_on [OF 8(3) s(2)] e lim_next(1) [OF 8(3) _ r that s(1)] by (auto simp: ends_def)
  then show ?case using r by (intro exp_stepI) (simp add: ref_exp_def)
next
  case (9 an w x)
  then have "ends (an_rules an) cs (GExp w x p skd)" by simp
  then show ?case by (intro exp_stepI) (auto simp: ref_exp_def ends_def)
next
  case (10 an w x)
  then have "ends (an_rules an) cs (GExp w x p skd)" by simp
  then show ?case by (intro exp_stepI) (auto simp: ref_exp_def ends_def)
next
  case (11 an w x)
  then have "ends (an_rules an) cs (GExp w x p skd)" by simp
  then show ?case by (intro exp_stepI) (auto simp: ref_exp_def ends_def)
next
  case (12 an w n x)
  then have "ends (an_rules an) cs (GExp w x p skd)" by simp
  then show ?case by (intro exp_stepI) (auto simp: ref_exp_def ends_def)
next
  case (13 an w atom levels)
  have s: "sane an (GPrec w atom (table_ops levels) q 0)" for q by (rule prec_sane [OF 13(3,5)])
  have a: "ends (an_rules an) cs (GExp w atom p True)" using 13 by simp
  have pre: "ends (an_rules an) cs (GExp w e p True)" if t: "(Prefix, l, e) \<in> set (table_ops levels)" for l e
  proof -
    obtain os where os: "(''prefix'', os) \<in> set levels" "e \<in> set os" using table_prefix [OF t] by blast
    show ?thesis using 13(2) [OF os(1) refl os(2)] 13(3-7) os by (fastforce simp: list_all_iff)
  qed
  have "lim (an_rules an) cs (GPrec w atom (table_ops levels) x 0) \<noteq> None" if "reach cs p x" for x
    using ends_at [OF 13(4) s] prec_on [OF 13(4) s a pre 13(7)] that by (auto simp: ends_def)
  then have "(do { x \<leftarrow> ref_start (lim (an_rules an) cs) w p skd; lim (an_rules an) cs (GPrec w atom (table_ops levels) x 0) }) \<noteq> None"
    by (rule start_on [OF 13(4,7)])
  then show ?case by (intro exp_stepI) (simp add: ref_exp_def)
qed

text \<open>Everything answers at \<open>p\<close> when everything further on does: the rules by rank, then the rest.\<close>

lemma skip_rule_on:
  assumes "onward an cs p" and "\<And>s. skip_index (an_rules an) = Some s \<Longrightarrow> ends (an_rules an) cs (GRule s p)"
  shows "ends (an_rules an) cs (GSkip p)"
proof (rule ends_stepI, unfold ref_step_def goal.case)
  let ?c = "lim (an_rules an) cs"
  show "(case skip_index (an_rules an) of None \<Rightarrow> Some p
      | Some i \<Rightarrow> do { r \<leftarrow> ?c (GRule i p); if r \<le> p then Some p else ?c (GSkip r) }) \<noteq> None"
  proof (cases "skip_index (an_rules an)")
    case (Some i)
    then have i: "sane an (GRule i p)" by (auto simp: skip_index_def find_Some_iff)
    obtain r where r: "?c (GRule i p) = Some r" using assms(2) [OF Some] by (auto simp: ends_def)
    have "?c (GSkip r) \<noteq> None" if "p < r"
    proof -
      have "0 \<le> r" using that onward_pos [OF assms(1)] by simp
      from lim_next(1) [OF assms(1) _ r this i] ends_at [OF assms(1), of "GSkip r"] that show ?thesis by (simp add: ends_def)
    qed
    then show ?thesis using Some r by simp
  qed simp
qed

lemma groundedD:
  assumes "grounded an rk" and "i < length (an_rules an)"
  shows "ops_move an (ri_e (an_rules an ! i))" and "under an (\<lambda>j. rk ! j < rk ! i) (ri_e (an_rules an ! i))"
    and "rule_ws (an_rules an ! i) \<Longrightarrow> skip_index (an_rules an) = Some s \<Longrightarrow> rk ! s < rk ! i"
  using assms by (auto simp: grounded_def list_all_iff)

lemma rules_on:
  assumes "onward an cs p" and "grounded an rk"
  shows "i < length (an_rules an) \<Longrightarrow> ends (an_rules an) cs (GRule i p)"
proof (induction "rk ! i" arbitrary: i rule: less_induct)
  case less
  let ?r = "an_rules an ! i"
  note g = groundedD [OF assms(2) less.prems]
  have f: "fine an (rule_ws ?r) (ri_e ?r)" using assms(1) less.prems by (simp add: onward_def fine_rules_def)
  have u: "under an (\<lambda>j. ends (an_rules an) cs (GRule j p)) (ri_e ?r)"
    by (rule under_mono(1) [OF g(2)]) (use less.hyps in simp)
  have k: "rule_ws ?r \<longrightarrow> ends (an_rules an) cs (GSkip p)"
  proof
    assume w: "rule_ws ?r"
    show "ends (an_rules an) cs (GSkip p)"
    proof (rule skip_rule_on [OF assms(1)])
      fix s
      assume s: "skip_index (an_rules an) = Some s"
      then have "s < length (an_rules an)" by (auto simp: skip_index_def find_Some_iff)
      then show "ends (an_rules an) cs (GRule s p)" using less.hyps g(3) [OF w s] by simp
    qed
  qed
  from exp_on [OF f assms(1) g(1) u k, of True] show ?case
    by (intro ends_stepI) (simp add: ref_step_def ends_def)
qed

lemma all_on:
  assumes "onward an cs p" and "grounded an rk" and "sane an g" and "goal_at g = p"
  shows "ends (an_rules an) cs g"
proof -
  have r: "ends (an_rules an) cs (GRule i p)" if "i < length (an_rules an)" for i
    using rules_on [OF assms(1,2) that] .
  then have k: "ends (an_rules an) cs (GSkip p)"
    by (intro skip_rule_on [OF assms(1)]) (auto simp: skip_index_def find_Some_iff)
  have "under an (\<lambda>j. ends (an_rules an) cs (GRule j p)) e" for e
    by (rule under_mono(1) [OF under_any(1)]) (use r in simp)
  then have e: "ends (an_rules an) cs (GExp w e p skd)" if "fine an w e" "ops_move an e" for w e skd
    using exp_on [OF that(1) assms(1) that(2)] k by blast
  have pr: "ends (an_rules an) cs (GPrec w atom os p ml)" if "sane an (GPrec w atom os p ml)" for w atom os ml
    by (rule prec_on [OF assms(1) that]) (use that e k in auto)
  show ?thesis
  proof (cases g)
    case (GTail w atom os q ml)
    have "ends (an_rules an) cs g'" if "sane an g'" "reach cs p (goal_at g')"
        "(\<exists>e q b. g' = GExp w e q b) \<or> (\<exists>q l. g' = GPrec w atom os q l)" for g'
      by (rule ends_at [OF assms(1) that(1,2)]) (use that e pr in auto)
    then show ?thesis using tail_on [OF assms(1), of w atom os ml] assms(3,4) GTail k by simp
  qed (use assms r k e pr star_on [OF assms(1)] in auto)
qed

text \<open>So every goal of a grounded grammar has an answer.\<close>

lemma all_end:
  assumes "an_ok an" and "fine_rules an" and "grounded an rk"
  shows "sane an g \<Longrightarrow> 0 \<le> goal_at g \<Longrightarrow> ends (an_rules an) cs g"
proof (induction "length cs - nat (goal_at g)" arbitrary: g rule: less_induct)
  case less
  have "ends (an_rules an) cs g'" if "sane an g'" "goal_at g < goal_at g'" "nat (goal_at g) < length cs" for g'
    by (rule less.hyps [OF _ that(1)]) (use that less.prems in linarith)+
  then have "onward an cs (goal_at g)" using assms less.prems(2) by (simp add: onward_def)
  from all_on [OF this assms(3) less.prems(1) refl] show ?case .
qed

lemma meaning_total:
  assumes "an_ok an" and "fine_rules an" and "grounded an rk" and "start < length (an_rules an)"
  shows "\<exists>f ok. peg_accepts (an_rules an) cs f start = Some ok"
proof -
  let ?rs = "an_rules an"
  have "\<exists>f v. peg ?rs cs f g = Some v" if "sane an g" "0 \<le> goal_at g" for g
    using all_end [OF assms(1-3) that, of cs] by (auto simp: ends_def lim_means means_def)
  note e = this
  obtain f1 p where 1: "peg ?rs cs f1 (GSkip 0) = Some p" using e [of "GSkip 0"] by auto
  then have "0 \<le> p" using peg_ends [OF 1] by simp
  then obtain f2 r where 2: "peg ?rs cs f2 (GRule start p) = Some r" using e [of "GRule start p"] assms(4) by auto
  obtain f3 x where 3: "0 \<le> r \<longrightarrow> peg ?rs cs f3 (GSkip r) = Some x" using e [of "GSkip r"] by auto
  let ?f = "f1 + f2 + f3"
  have "peg ?rs cs ?f (GSkip 0) = Some p" "peg ?rs cs ?f (GRule start p) = Some r"
      "0 \<le> r \<longrightarrow> peg ?rs cs ?f (GSkip r) = Some x"
    using peg_le [OF 1, of ?f] peg_le [OF 2, of ?f] peg_le [of ?rs cs f3 "GSkip r" x ?f] 3 by simp_all
  then have "peg_accepts ?rs cs ?f start = Some (if r \<ge> 0 then x = int (length cs) - 1 else False)"
    by (auto simp: peg_accepts_def)
  then show ?thesis by blast
qed

lemma skips_end_grounded:
  assumes "an_ok an" and "fine_rules an" and "grounded an rk"
  shows "\<exists>S. skips_end (an_rules an) cs S"
  using skips_end_all [OF all_end [OF assms] fine_rules_lits [OF assms(2)]] by simp

end
