(* ===== verification/PegLaws.thy ===== *)
theory PegLaws
  imports PegEnds
begin

text \<open>
  What the PEG engine promises, on the machine and on the grammars its builder makes, each with a run of a
  small grammar: nested lists of digits, with spaces skipped. The last section holds a run on which the
  matcher that recognises and the one that builds trees part, and one, of a grammar that is not fine, on
  which the matcher and the grammar's meaning do.
\<close>

section \<open>A grammar to run\<close>

definition sample_rules :: "rule_in list" where
  "sample_rules =
     [\<lparr>ri_name = ''item'', ri_desc = None,
       ri_e = EAlt [EClass [(48, 57)] False ''[0-9]'',
         ESeq [ELit [40] ''('' False, EStar (ERef ''item''), ELit [41] '')'' False]],
       ri_token = False, ri_silent = False\<rparr>,
      \<lparr>ri_name = ''skip'', ri_desc = None, ri_e = EStar (EClass [(32, 32)] False ''[ ]''), ri_token = False,
       ri_silent = True\<rparr>]"

definition sample_an :: analysis where
  "sample_an =
     \<lparr>an_rules = sample_rules, an_nul = [False, True],
      an_fst = [first_ranges [(40, 40), (48, 57)] False, first_ranges [(32, 32)] False]\<rparr>"

definition sample :: "unit grammar" where
  "sample =
     \<lparr>exprs =
        [XClass \<lparr>ascii = [287948901175001088, 0], wide = [], wide_neg = False\<rparr> 2, XLit [40] False 3, XRef 0, XStar 2,
         XLit [41] False 4, XSeq [1, 3, 4],
         XAlt [0, 5] (Some [None, Some \<lparr>ascii = [1099511627776, 0], wide = [], wide_neg = False\<rparr>]),
         XStarClass \<lparr>ascii = [4294967296, 0], wide = [], wide_neg = False\<rparr> 6],
      rules =
        [\<lparr>xr_name = ''item'', xr_kind = 0, xr_token = False, xr_silent = False, xr_is_skip = False, xr_desc = 5,
          xr_has_desc = False, xr_body = 6, xr_slot = None, xr_lr_head = False, xr_prec = None, xr_labels = None\<rparr>,
         \<lparr>xr_name = ''skip'', xr_kind = 1, xr_token = False, xr_silent = True, xr_is_skip = True, xr_desc = 7,
          xr_has_desc = False, xr_body = 7, xr_slot = None, xr_lr_head = False, xr_prec = None, xr_labels = None\<rparr>],
      precs = [], kinds = [''item'', ''skip''],
      descs = [''end of input'', ''any character'', ''[0-9]'', [CHR 0x22, CHR ''('', CHR 0x22],
        [CHR 0x22, CHR '')'', CHR 0x22], ''item'', ''[ ]'', ''skip''],
      end_desc = 0, any_desc = 1, skip_rule = Some 1,
      skip_class = Some \<lparr>ascii = [4294967296, 0], wide = [], wide_neg = False\<rparr>, actions = [None, None], nslots = 0\<rparr>"

lemma sample_analysed: "analyse sample_rules = Some sample_an"
  by code_simp

lemma sample_parts:
  "of_class [(48, 57)] False = \<lparr>ascii = [287948901175001088, 0], wide = [], wide_neg = False\<rparr>"
  "of_class [(32, 32)] False = \<lparr>ascii = [4294967296, 0], wide = [], wide_neg = False\<rparr>"
  "alt_guards sample_an [EClass [(48, 57)] False ''[0-9]'',
     ESeq [ELit [40] ''('' False, EStar (ERef ''item''), ELit [41] '')'' False]] =
   Some [None, Some \<lparr>ascii = [1099511627776, 0], wide = [], wide_neg = False\<rparr>]"
  "rule_index (an_rules sample_an) ''item'' = Some 0" "quote ''('' = [CHR 0x22, CHR ''('', CHR 0x22]"
  "quote '')'' = [CHR 0x22, CHR '')'', CHR 0x22]" "length sample_rules = 2"
  "found_labels sample_rules (ri_e (sample_rules ! 0)) = []"
  "find (\<lambda>i. ri_name (sample_rules ! i) = ''skip'') [0..<2] = Some 1"
  by code_simp+

lemma sample_nth:
  "sample_rules ! 0 =
     \<lparr>ri_name = ''item'', ri_desc = None,
      ri_e = EAlt [EClass [(48, 57)] False ''[0-9]'',
        ESeq [ELit [40] ''('' False, EStar (ERef ''item''), ELit [41] '')'' False]],
      ri_token = False, ri_silent = False\<rparr>"
  "sample_rules ! Suc 0 =
     \<lparr>ri_name = ''skip'', ri_desc = None, ri_e = EStar (EClass [(32, 32)] False ''[ ]''), ri_token = False, ri_silent = True\<rparr>"
  "map ri_name sample_rules = [''item'', ''skip'']"
  by (simp_all add: sample_rules_def)

lemmas building = build_def Let_def b_desc_def builder_new_def b_kind_def build_rule_def b_push_def fold_code_def
  skip_class_of_def upt_rec [of _ 2] upt_rec [of _ "Suc (Suc 0)"]

lemma sample_builds: "build sample_rules [] [] [] = Some (Inr sample)"
  using sample_parts(8)
  by (simp add: building sample_analysed sample_parts(1-7,9) [simplified] sample_nth sample_def)

lemma sample_lits: "\<forall>r \<in> set sample_rules. lits_ok (ri_e r)"
  by (simp add: sample_rules_def)

definition sample_parser :: "unit parser" where
  "sample_parser = \<lparr>gr = sample, codes = [40, 49, 32, 40, 41, 50, 41, -1], max_depth = 60\<rparr>"

lemma sample_ok: "input_ok sample_parser"
  using build_ok [OF sample_builds sample_lits] by (auto simp: input_ok_def sample_parser_def)

section \<open>Bounds and trees\<close>

text \<open>C17: Every tree is a tree: after a parse that answers a node, the arena holds only nodes whose
  children exist, come in order, one after another, inside their parent's span, whose labels and operands
  are children they have, and which lie inside the input.\<close>

theorem trees_nested:
  assumes "input_ok P" and "start < length (rules (gr P))" and "m_ok P m" and "pos P p"
    and "build_tree P f start p m = Some (Some nd, m')"
  shows "nd < length (nodes m') \<and> 0 \<le> n_start (nodes m' ! nd) \<and>
    (\<forall>i < length (nodes m'). node_ok P (take i (nodes m')) (store m') (node_fields m') (nodes m' ! i))"
proof -
  obtain q m1 n m2 e where r: "skip_at P f p (reset P False m) = Some (q, m1)" "exec P f (RuleB start q) m1 = Some (n, m2)"
      "n \<ge> 0" "skip_at P f (end_of m2 n) m2 = Some (e, m')" "nd = nat n"
    using assms(5) by (auto simp: build_tree_def Let_def bind_eq_Some_conv split: if_splits)
  have k1: "kept P (reset P False m) m1" "pos P q"
    using skip_at_ok [OF assms(1) reset_ok [OF assms(3)] assms(4) r(1)] by auto
  have k2: "kept P m1 m2" "node_ans (nodes m2) q n"
    using call_ok [OF exec_ok [OF assms(1)] r(2)] assms(2) k1 kept_ok by auto
  then have n: "nat n < length (nodes m2)" using r(3) by (auto simp: node_ans_def)
  note nk = node_kids [OF kept_ok [OF k2(1)] n]
  have "pos P (end_of m2 n)" using nk spans_le [OF nk(1)] by (auto simp: end_of_def pos_def)
  from skip_at_ok [OF assms(1) kept_ok [OF k2(1)] this r(4)] have k3: "kept P m2 m'" by simp
  have "nodes m' ! nd = nodes m2 ! nd \<and> nd < length (nodes m')"
    using grows_node [OF kept_grows [OF k3] n] r(5) by simp
  then show ?thesis using nk(2) r(5) kept_ok [OF k3] by (simp add: m_ok_def)
qed

text \<open>C18: A match stays in the input: from a position in it, a rule recognised or noting answers a failure
  or a position from there to the end, and the machine is as it was found: its children untouched, its
  memo and its seeds holding only such answers.\<close>

theorem match_in_bounds:
  assumes "input_ok P" and "r < length (rules (gr P))" and "m_ok P m" and "pos P p"
    and "exec P f (RuleK t r p) m = Some (v, m')"
  shows "(v = -1 \<or> p \<le> v \<and> v \<le> in_len P) \<and> stack m' = stack m \<and> m_ok P m'"
  using call_ok [OF exec_ok [OF assms(1)] assms(5)] assms by (auto simp: PegSafe.ends_def kept_def)

lemma trees_nested_witness:
  "\<exists>nd m'. build_tree sample_parser 60 0 0 (machine_new sample_parser) = Some (Some nd, m') \<and> nd < length (nodes m') \<and>
     length (nodes m') = 4 \<and>
     (\<forall>i < length (nodes m'). node_ok sample_parser (take i (nodes m')) (store m') (node_fields m') (nodes m' ! i))"
proof -
  have "map_option (\<lambda>(x, m). (x, length (nodes m))) (build_tree sample_parser 60 0 0 (machine_new sample_parser)) = Some (Some 3, 4)"
    by code_simp
  then obtain m' where r: "build_tree sample_parser 60 0 0 (machine_new sample_parser) = Some (Some 3, m')" "length (nodes m') = 4"
    by auto
  have "0 < length (rules (gr sample_parser))" "pos sample_parser 0" by (simp_all add: sample_parser_def sample_def pos_def in_len_def)
  from trees_nested [OF sample_ok this(1) new_ok this(2) r(1)] show ?thesis using r by blast
qed

lemma match_in_bounds_witness:
  "\<exists>m'. exec sample_parser 60 (RuleK False 0 0) (machine_new sample_parser) = Some (7, m') \<and> stack m' = [] \<and> m_ok sample_parser m'"
proof -
  have "map_option fst (exec sample_parser 60 (RuleK False 0 0) (machine_new sample_parser)) = Some 7" by code_simp
  then obtain m' where r: "exec sample_parser 60 (RuleK False 0 0) (machine_new sample_parser) = Some (7, m')" by auto
  have "0 < length (rules (gr sample_parser))" "pos sample_parser 0" by (simp_all add: sample_parser_def sample_def pos_def in_len_def)
  from match_in_bounds [OF sample_ok this(1) new_ok this(2) r] show ?thesis using r by (simp add: machine_new_def)
qed

section \<open>Classes and analyses\<close>

text \<open>C19: A class as the matcher holds it, a bitmap and the ranges past it, holds exactly the characters of
  the class as it was written, negated or not, and never the end of the input.\<close>

theorem class_exact: "has (of_class ranges neg) c = in_class ranges neg c"
  by (rule has_class)

text \<open>C20: Both loops of the analysis end, whatever the rules refer to, and what they leave is a fixed point:
  no rule's nullability or first set would change if it were computed again.\<close>

theorem analysis_ends: "\<exists>an. analyse rs = Some an \<and> an_rules an = rs \<and> an_ok an"
  by (rule analyse_ends)

section \<open>The matcher and the grammar's meaning\<close>

text \<open>C15: Recognising a whole input answers what the grammar means, for a fine grammar (every name is a rule's;
  tokens and \<open>skip\<close> refer only to tokens and \<open>skip\<close>; a table's atom cannot match nothing; literals hold
  characters, codes from 0) whose rules have distinct names and that is built with no left-recursive heads.
  Where skipping ends from every position within S units of fuel, and the grammar's own reading of the
  input has an answer with f of them, the matcher of the built grammar, from a fresh machine, on an input
  of characters with a nesting limit of at least f + S and more than 2 (f + S) of fuel, gives that
  answer: its memo, its first-character guards, its fast loops and its choice of code change nothing.
  Outside the fine grammars they do: \<open>guard_before_skip\<close>.\<close>

theorem accepts_exact:
  assumes "build rs memo [] acts = Some (Inr g)" and "analyse rs = Some an" and "fine_rules an"
    and "distinct (map ri_name rs)" and "skips_end rs cs S"
    and "cs \<noteq> []" and "\<forall>c \<in> set cs. c \<le> 1114111" and "start < length rs"
    and "peg_accepts rs cs f start = Some ok" and "f + S \<le> limit" and "2 * (f + S) < F"
  shows "map_option fst (accepts \<lparr>gr = g, codes = cs, max_depth = limit\<rparr> F start
    (machine_new \<lparr>gr = g, codes = cs, max_depth = limit\<rparr>)) = Some ok"
proof -
  let ?P = "\<lparr>gr = g, codes = cs, max_depth = limit\<rparr>"
  have r: "ready memo an ?P" "an_rules an = rs" using ready_built [of rs memo acts ?P an] assms(1-4,7) by simp_all
  from accepts_new [OF r] assms(5,6,8-11) show ?thesis by simp
qed


text \<open>C14: Every parse of a grounded grammar ends with what the grammar means: where rules do not recur on the
  left, prefix and postfix operators consume and the grammar is fine, the grammar's reading of any input
  has an answer, and the matcher gives that answer from some nesting limit and some fuel on.\<close>

theorem parse_ends:
  assumes "build rs memo [] acts = Some (Inr g)" and "analyse rs = Some an" and "fine_rules an" and "grounded an rk"
    and "distinct (map ri_name rs)" and "cs \<noteq> []" and "\<forall>c \<in> set cs. c \<le> 1114111" and "start < length rs"
  shows "\<exists>ok d fuel. (\<exists>f. peg_accepts rs cs f start = Some ok) \<and>
    (\<forall>limit \<ge> d. \<forall>F \<ge> fuel. map_option fst (accepts \<lparr>gr = g, codes = cs, max_depth = limit\<rparr> F start
       (machine_new \<lparr>gr = g, codes = cs, max_depth = limit\<rparr>)) = Some ok)"
proof -
  have r: "an_ok an" "an_rules an = rs"
    using ready_built [of rs memo acts "\<lparr>gr = g, codes = cs, max_depth = 0\<rparr>" an] assms(1-3,5,7) by (auto simp: ready_def)
  obtain f ok where f: "peg_accepts rs cs f start = Some ok" using meaning_total [OF r(1) assms(3,4), of start cs] assms(8) r(2) by auto
  obtain S where S: "skips_end rs cs S" using skips_end_grounded [OF r(1) assms(3,4), of cs] r(2) by auto
  have "map_option fst (accepts \<lparr>gr = g, codes = cs, max_depth = limit\<rparr> F start
      (machine_new \<lparr>gr = g, codes = cs, max_depth = limit\<rparr>)) = Some ok" if "f + S \<le> limit" "2 * (f + S) < F" for limit F
    using accepts_new [OF ready_built [of rs memo acts "\<lparr>gr = g, codes = cs, max_depth = limit\<rparr>" an], of S f start ok F]
      assms(1-3,5-8) S f that
    by simp
  then show ?thesis using f by (intro exI [of _ ok] exI [of _ "f + S"] exI [of _ "Suc (2 * (f + S))"]) auto
qed

lemma sample_fine:
  "fine_rules sample_an" "distinct (map ri_name sample_rules)" "skips_end sample_rules cs (length cs + 5)"
proof -
  show "fine_rules sample_an" by code_simp
  show "distinct (map ri_name sample_rules)" by (simp add: sample_nth)
  have "skip_index sample_rules = Some 1" by code_simp
  then show "skips_end sample_rules cs (length cs + 5)" by (rule skips_end_class) (simp add: sample_nth skip_class_of_def)
qed

lemma accepts_exact_witness:
  "map_option fst (accepts sample_parser 200 0 (machine_new sample_parser)) = Some True \<and>
     peg_accepts sample_rules (codes sample_parser) 20 0 = Some True"
proof -
  have r: "peg_accepts sample_rules (codes sample_parser) 20 0 = Some True" by code_simp
  have "start < length sample_rules \<Longrightarrow> start < 2" for start by (simp add: sample_rules_def)
  from accepts_exact [OF sample_builds sample_analysed sample_fine(1,2,3) _ _ _ r, of 60 200] r
  show ?thesis by (simp add: sample_parser_def sample_rules_def)
qed


lemma parse_ends_witness:
  "\<exists>ok d fuel. \<forall>limit \<ge> d. \<forall>F \<ge> fuel.
     map_option fst (accepts \<lparr>gr = sample, codes = [40, 40, -1], max_depth = limit\<rparr> F 0
       (machine_new \<lparr>gr = sample, codes = [40, 40, -1], max_depth = limit\<rparr>)) = Some ok"
proof -
  have "grounded sample_an [1, 0]" by code_simp
  from parse_ends [OF sample_builds sample_analysed sample_fine(1) this sample_fine(2), of "[40, 40, -1]" 0]
  show ?thesis by (auto simp: sample_rules_def)
qed

section \<open>Where the families part\<close>

text \<open>A table whose atom is a number or an expression in brackets, the brackets in the table itself. The
  operand a tree is built for ends where its last child does, before the bracket that closes it, so
  \<open>(1)\<close> is accepted and has no tree.\<close>

definition table_rules :: "rule_in list" where
  "table_rules =
     [\<lparr>ri_name = ''e'', ri_desc = None,
       ri_e = EPrec (EAlt [ERef ''Num'', ESeq [ELit [40] ''('' False, ERef ''e'', ELit [41] '')'' False]])
         [(''left'', [ELit [43] ''+'' False])],
       ri_token = False, ri_silent = False\<rparr>,
      \<lparr>ri_name = ''Num'', ri_desc = None, ri_e = EPlus (EClass [(48, 57)] False ''[0-9]''), ri_token = True,
       ri_silent = False\<rparr>]"

definition table_an :: analysis where
  "table_an =
     \<lparr>an_rules = table_rules, an_nul = [False, False],
      an_fst = [first_ranges [(40, 40), (48, 57)] False, first_ranges [(48, 57)] False]\<rparr>"

definition table :: "unit grammar" where
  "table =
     \<lparr>exprs =
        [XRef 1, XLit [40] False 2, XRef 0, XLit [41] False 3, XSeq [1, 2, 3],
         XAlt [0, 4] (Some [Some \<lparr>ascii = [287948901175001088, 0], wide = [], wide_neg = False\<rparr>,
           Some \<lparr>ascii = [1099511627776, 0], wide = [], wide_neg = False\<rparr>]),
         XLit [43] False 4, XPrec 0, XClass \<lparr>ascii = [287948901175001088, 0], wide = [], wide_neg = False\<rparr> 6, XPlus 8],
      rules =
        [\<lparr>xr_name = ''e'', xr_kind = 0, xr_token = False, xr_silent = False, xr_is_skip = False, xr_desc = 5,
          xr_has_desc = False, xr_body = 7, xr_slot = None, xr_lr_head = False, xr_prec = Some 0, xr_labels = None\<rparr>,
         \<lparr>xr_name = ''Num'', xr_kind = 1, xr_token = True, xr_silent = False, xr_is_skip = False, xr_desc = 7,
          xr_has_desc = False, xr_body = 9, xr_slot = None, xr_lr_head = False, xr_prec = None, xr_labels = None\<rparr>],
      precs = [\<lparr>pr_atom = 5, pr_ops = [\<lparr>po_fix = InfixL, po_lev = 0, po_e = 6\<rparr>], pr_kind = Some 0\<rparr>],
      kinds = [''e'', ''Num''],
      descs = [''end of input'', ''any character'', [CHR 0x22, CHR ''('', CHR 0x22], [CHR 0x22, CHR '')'', CHR 0x22],
        [CHR 0x22, CHR ''+'', CHR 0x22], ''e'', ''[0-9]'', ''Num''],
      end_desc = 0, any_desc = 1, skip_rule = None, skip_class = None, actions = [None, None], nslots = 0\<rparr>"

lemma table_analysed: "analyse table_rules = Some table_an"
  by code_simp

lemma table_parts:
  "of_class [(48, 57)] False = \<lparr>ascii = [287948901175001088, 0], wide = [], wide_neg = False\<rparr>"
  "alt_guards table_an [ERef ''Num'', ESeq [ELit [40] ''('' False, ERef ''e'', ELit [41] '')'' False]] =
   Some [Some \<lparr>ascii = [287948901175001088, 0], wide = [], wide_neg = False\<rparr>,
           Some \<lparr>ascii = [1099511627776, 0], wide = [], wide_neg = False\<rparr>]"
  "rule_index (an_rules table_an) ''e'' = Some 0" "rule_index (an_rules table_an) ''Num'' = Some 1" 
  "quote ''('' = [CHR 0x22, CHR ''('', CHR 0x22]"
  "quote '')'' = [CHR 0x22, CHR '')'', CHR 0x22]"  "quote ''+'' = [CHR 0x22, CHR ''+'', CHR 0x22]" "length table_rules = 2"
  "found_labels table_rules (ri_e (table_rules ! 0)) = []"
  "found_labels table_rules (ri_e (table_rules ! 1)) = []"
  "find (\<lambda>i. ri_name (table_rules ! i) = ''skip'') [0..<2] = None"
  by code_simp+

lemma table_nth:
  "table_rules ! 0 =
     \<lparr>ri_name = ''e'', ri_desc = None,
       ri_e = EPrec (EAlt [ERef ''Num'', ESeq [ELit [40] ''('' False, ERef ''e'', ELit [41] '')'' False]])
         [(''left'', [ELit [43] ''+'' False])],
       ri_token = False, ri_silent = False\<rparr>"
  "table_rules ! Suc 0 =
     \<lparr>ri_name = ''Num'', ri_desc = None, ri_e = EPlus (EClass [(48, 57)] False ''[0-9]''), ri_token = True,
       ri_silent = False\<rparr>"
  "map ri_name table_rules = [''e'', ''Num'']"
  by (simp_all add: table_rules_def)

lemma table_builds: "build table_rules [] [] [] = Some (Inr table)"
  using table_parts(9,10)
  by (simp add: building table_analysed table_parts(1-8,11) [simplified] table_nth table_def fix_of_def op_key_def)

definition table_parser :: "unit parser" where
  "table_parser = \<lparr>gr = table, codes = [40, 49, 41, -1], max_depth = 60\<rparr>"

lemma families_differ:
  "map_option fst (accepts table_parser 40 0 (machine_new table_parser)) = Some True \<and>
     map_option fst (build_tree table_parser 40 0 0 (machine_new table_parser)) = Some None"
  by code_simp

text \<open>A token that refers to a rule that skips is outside the fine grammars, though \<open>peg.ol\<close> takes it. The
  alternative \<open>"a"? "b"\<close> starts, by the analysis, with \<open>a\<close> or \<open>b\<close>; entered from the token, before a space,
  it means to skip first. Its guard looks at the space and passes over it: the grammar reads \<open>x b\<close> and the
  matcher built for it does not.\<close>

definition loose_rules :: "rule_in list" where
  "loose_rules =
     [\<lparr>ri_name = ''T'', ri_desc = None, ri_e = ESeq [ELit [120] ''x'' False, ERef ''r''], ri_token = True, ri_silent = False\<rparr>,
      \<lparr>ri_name = ''r'', ri_desc = None,
       ri_e = EAlt [ESeq [EOpt (ELit [97] ''a'' False), ELit [98] ''b'' False], ELit [99] ''c'' False],
       ri_token = False, ri_silent = False\<rparr>,
      \<lparr>ri_name = ''skip'', ri_desc = None, ri_e = EPlus (EClass [(32, 32)] False ''[ ]''), ri_token = False,
       ri_silent = True\<rparr>]"

definition loose_an :: analysis where
  "loose_an =
     \<lparr>an_rules = loose_rules, an_nul = [False, False, False],
      an_fst = [first_ranges [(120, 120)] False, first_ranges [(97, 99)] False, first_ranges [(32, 32)] False]\<rparr>"

definition loose :: "unit grammar" where
  "loose =
     \<lparr>exprs =
        [XLit [120] False 2, XRef 1, XSeq [0, 1], XLit [97] False 4, XOpt 3, XLit [98] False 5, XSeq [4, 5],
         XLit [99] False 6, XAlt [6, 7] (Some [Some \<lparr>ascii = [0, 25769803776], wide = [], wide_neg = False\<rparr>, None]),
         XClass \<lparr>ascii = [4294967296, 0], wide = [], wide_neg = False\<rparr> 8, XPlus 9],
      rules =
        [\<lparr>xr_name = ''T'', xr_kind = 0, xr_token = True, xr_silent = False, xr_is_skip = False, xr_desc = 3,
          xr_has_desc = False, xr_body = 2, xr_slot = None, xr_lr_head = False, xr_prec = None, xr_labels = None\<rparr>,
         \<lparr>xr_name = ''r'', xr_kind = 1, xr_token = False, xr_silent = False, xr_is_skip = False, xr_desc = 7,
          xr_has_desc = False, xr_body = 8, xr_slot = None, xr_lr_head = False, xr_prec = None, xr_labels = None\<rparr>,
         \<lparr>xr_name = ''skip'', xr_kind = 2, xr_token = False, xr_silent = True, xr_is_skip = True, xr_desc = 9,
          xr_has_desc = False, xr_body = 10, xr_slot = None, xr_lr_head = False, xr_prec = None, xr_labels = None\<rparr>],
      precs = [], kinds = [''T'', ''r'', ''skip''],
      descs = [''end of input'', ''any character'', [CHR 0x22, CHR ''x'', CHR 0x22], ''T'',
        [CHR 0x22, CHR ''a'', CHR 0x22], [CHR 0x22, CHR ''b'', CHR 0x22], [CHR 0x22, CHR ''c'', CHR 0x22], ''r'', ''[ ]'', ''skip''],
      end_desc = 0, any_desc = 1, skip_rule = Some 2,
      skip_class = Some \<lparr>ascii = [4294967296, 0], wide = [], wide_neg = False\<rparr>, actions = [None, None, None], nslots = 0\<rparr>"

lemma loose_analysed: "analyse loose_rules = Some loose_an"
  by code_simp

lemma loose_parts:
  "of_class [(32, 32)] False = \<lparr>ascii = [4294967296, 0], wide = [], wide_neg = False\<rparr>"
  "alt_guards loose_an [ESeq [EOpt (ELit [97] ''a'' False), ELit [98] ''b'' False], ELit [99] ''c'' False] =
   Some [Some \<lparr>ascii = [0, 25769803776], wide = [], wide_neg = False\<rparr>, None]"
  "rule_index (an_rules loose_an) ''r'' = Some 1" "quote ''a'' = [CHR 0x22, CHR ''a'', CHR 0x22]"
  "quote ''b'' = [CHR 0x22, CHR ''b'', CHR 0x22]" "quote ''c'' = [CHR 0x22, CHR ''c'', CHR 0x22]"
  "quote ''x'' = [CHR 0x22, CHR ''x'', CHR 0x22]" "length loose_rules = 3"
  "found_labels loose_rules (ri_e (loose_rules ! 0)) = []"
  "found_labels loose_rules (ri_e (loose_rules ! 1)) = []"
  "found_labels loose_rules (ri_e (loose_rules ! Suc (Suc 0))) = []"
  "find (\<lambda>i. ri_name (loose_rules ! i) = ''skip'') [0..<3] = Some 2"
  by code_simp+

lemma loose_nth:
  "loose_rules ! 0 =
     \<lparr>ri_name = ''T'', ri_desc = None, ri_e = ESeq [ELit [120] ''x'' False, ERef ''r''], ri_token = True, ri_silent = False\<rparr>"
  "loose_rules ! Suc 0 =
     \<lparr>ri_name = ''r'', ri_desc = None,
       ri_e = EAlt [ESeq [EOpt (ELit [97] ''a'' False), ELit [98] ''b'' False], ELit [99] ''c'' False],
       ri_token = False, ri_silent = False\<rparr>"
  "loose_rules ! Suc (Suc 0) =
     \<lparr>ri_name = ''skip'', ri_desc = None, ri_e = EPlus (EClass [(32, 32)] False ''[ ]''), ri_token = False,
       ri_silent = True\<rparr>"
  "map ri_name loose_rules = [''T'', ''r'', ''skip'']"
  by (simp_all add: loose_rules_def)

lemma loose_builds: "build loose_rules [] [] [] = Some (Inr loose)"
  using loose_parts(9-11)
  by (simp add: building upt_rec [of _ 3] loose_analysed loose_parts(1-8,12) [simplified] loose_nth loose_def)

definition loose_parser :: "unit parser" where
  "loose_parser = \<lparr>gr = loose, codes = [120, 32, 98, -1], max_depth = 60\<rparr>"

lemma guard_before_skip:
  "peg_accepts loose_rules (codes loose_parser) 30 0 = Some True \<and> \<not> fine_rules loose_an \<and>
     map_option fst (accepts loose_parser 60 0 (machine_new loose_parser)) = Some False"
  by (intro conjI) code_simp+

end
