(* ===== verification/Spec2Isabelle.thy ===== *)
theory Spec2Isabelle
  imports Sched Net Disk LinLaws Effects OperatorLaws Gate PatternLaws EnvLaws Sharing PegLaws
begin

text \<open>
  olang: a scripting language whose programs can be run inside a simulated world, deterministic from a
  seed, in which a scheduler, a network and disks are the program's to break. This development models
  the parts of the implementation (the Rust crate under \<open>src/\<close>) whose correctness the rest leans on.

  The parts and the theories.

  \<^item> The simulated world (\<open>src/sim/\<close>) is made of machines that share two things: a virtual clock in
    microseconds and a way of drawing random choices that depends only on the seed, the place, the
    instant and the number of the draw there (\<open>Keyed\<close>, in \<open>sched.rs\<close>), so that one fault injected or
    one message more leaves every other draw as it was. \<open>Draws\<close> models the draws at 64 bits,
    \<open>Sched\<close> the cooperative scheduler (tasks, timers, deliveries, the clock, deadlock), \<open>Plan\<close> the
    recording of the faults a run fired and their forced replay (\<open>plan.rs\<close>), \<open>Net\<close> the links and
    partitions between nodes (\<open>net.rs\<close>) and \<open>Disk\<close> a node's disk with its visible and durable state
    (\<open>disk.rs\<close>). \<open>Lin\<close> is the checker of recorded histories (\<open>lin.rs\<close>) and \<open>LinLaws\<close> its proof against
    the definition of linearizability. \<open>F64\<close> is Rust's floating point, as these and the operators use it.

  \<^item> \<open>Effects\<close> is the classification of the builtins (\<open>effects.rs\<close>): which capability a call needs,
    whether a recording captures it, what a simulated world does with it and whether macro expansion
    refuses it.

  \<^item> Capabilities (\<open>caps.rs\<close>, the gates of \<open>interpreter/mod.rs\<close> and their order in \<open>builtin.rs\<close>).
    \<open>Paths\<close> has Rust's paths and the gate's own path functions, with the file system a parameter;
    \<open>Caps\<close> the grants, the manifest's resolution, the table that attributes code to a grant by folder,
    the registry of modules loaded at run time and their scope; \<open>CapsLaws\<close> its laws; \<open>Gate\<close> the gates
    every builtin call passes and what passing them means.

  \<^item> The language's own semantics: \<open>Values\<close> (\<open>ast.rs\<close>) and \<open>Operators\<close> with \<open>OperatorLaws\<close>
    (\<open>interpreter/ops.rs\<close>, and the hooks of \<open>native.rs\<close> that find the module of a native operand); \<open>Patterns\<close> with \<open>PatternLaws\<close>, the one matcher of \<open>match\<close>, \<open>let\<close> and calls
    (\<open>interpreter/patterns.rs\<close>) against a declarative reading of patterns; \<open>Environment\<close> with \<open>EnvLaws\<close>,
    the scopes (\<open>interpreter/environment.rs\<close>) and how a name is looked up through them and through the
    interpreter's tables (\<open>interpreter/mod.rs\<close>); \<open>Sharing\<close>, the writes into a list in place, over a heap whose
    cells have many holders, and what no other holder sees of them.

  \<^item> The standard library's PEG engine (\<open>src/stdlib/peg/\<close>): \<open>PegGrammar\<close>, sets of characters, the reading of a
    grammar's data, the analyses of what can match nothing and of first characters, the building of the
    flat grammar with its guards and specialised loops and its listing (\<open>grammar.rs\<close>); \<open>PegMachine\<close>, the
    matcher in its three families (\<open>machine.rs\<close>); \<open>PegSafe\<close>, what every run keeps; \<open>PegMeaning\<close>, what a
    grammar means, as a reference interpreter of the expressions as written; \<open>PegFirst\<close>, the analyses
    against that meaning; \<open>PegBuild\<close>, the built grammar stands for the written one; \<open>PegFuel\<close>, more fuel gives
    the same answer; \<open>PegShift\<close>, what skipping twice or from elsewhere means; \<open>PegServe\<close> and \<open>PegAgree\<close>, a
    simulation: every task of the two matchers without trees serves a goal of the reference and gives its
    answer; \<open>PegEnds\<close>, grammars whose meaning is total; \<open>PegLaws\<close>, the properties with their runs.

  How the state corresponds. A Rust struct is a record with the struct's fields, an enum a datatype with
  its variants; a \<open>BTreeMap\<close> or \<open>BTreeSet\<close> is an association list or list kept sorted by its insertion
  function (\<open>bt_put\<close>), an \<open>IndexMap\<close> one in insertion order (\<open>ix_put\<close>), both interpretations of the
  locale \<open>assoc_store\<close> of \<open>Prelude\<close>. A method that takes \<open>&mut self\<close> returns the new state; an error is
  the left side of a sum. The scheduler, the network, the disk and the module registry are also
  machines whose operations are a datatype; the locale \<open>inv_machine\<close> proves an invariant of every
  reachable state once and is interpreted on them (\<open>sched_machine\<close>, \<open>disk_machine\<close>,
  \<open>registry_machine\<close>). Grants meet through the locale \<open>grant_meet\<close>, interpreted on file system levels
  and on whole grants.

  Numbers. Draw keys and seeds are 64-bit words, where wrap-around is the point. Counters, times and
  sizes (\<open>u64\<close>) are naturals: none of them can reach \<open>2 ^ 64\<close> before the step limit or the memory runs
  out, and where the code saturates the model does. A language Int is an integer that \<open>checked_int\<close>
  keeps inside 64 bits; a Float is an \<open>f64\<close> rounded as IEEE says. Characters are the first 256 code
  points.

  Parameters. Code that is not under \<open>src/\<close> is an argument: the \<open>rand\<close> crate's conversions of raw draws
  (\<open>rand_lib\<close>, \<open>rng\<close>, whose ranges are the named hypotheses \<open>rand_in_range\<close> and \<open>index_in_range\<close>), what
  two collections being one allocation means (\<open>same_addr\<close>), how a value prints and the memo's hash in the checker (\<open>show\<close>, \<open>key\<close>; that it does not collide is
  the hypothesis \<open>no_collisions\<close>), and the file system (\<open>file_sys\<close>: real paths, links, executables, the working folder, PATH).
  One argument stands for code that is under \<open>src/\<close> and not modelled: the operators the modules of native values
  implement (\<open>mod_binary\<close> and \<open>mod_unary\<close>; data frames, dates, big integers). Nothing is assumed of them, and what is
  proved of results (\<open>results_in_range\<close>) is of operands that hold no native value.

  Loops. Every loop is a total function with a proof that it ends: the scheduler's loop fires a timer in
  each turn that does not answer, the walks over values follow their size, the walk over a path's links
  its depth (the code's own limit of 40). The linearizability search runs on the code's own step budget,
  and answers unknown when it is spent: \<open>verdict_keeps\<close> shows that more steps keep every other answer. The PEG analyses are
  \<open>while_option\<close> loops, which \<open>analysis_ends\<close> shows to end; the matcher can loop for ever on some grammars, so it
  runs on fuel, one unit a call or a loop's turn, and \<open>None\<close> is not having answered; its limit on nesting
  (\<open>MAX_DEPTH\<close>) is a parameter.

  What the lemmas show, theory by theory: \<open>Sched\<close>, the timer queue and the task table agree in every
  reachable state, only runnable tasks run, time does not pass while something can run, wakeups are
  exact and a deadlock is one; \<open>Draws\<close>, draws are isolated from each other; \<open>Plan\<close>, a recorded run
  replays exactly and a forced one fires the plan and nothing else; \<open>Net\<close>, faults are isolated and
  partitions exact; \<open>Disk\<close>, the two namespaces stay consistent through any operations and crashes, a
  crash leaves the durable image, synced data survives, a full disk stays within its limit, and where a rename and a
  crash leave two names of one file; \<open>LinLaws\<close>, the checker's two answers are right and splitting a history
  by key loses nothing; \<open>Effects\<close>, the policies agree; \<open>CapsLaws\<close> and
  \<open>Gate\<close>, no code exceeds the program's grant, what the scope gate lets a module do, an unloaded one is
  powerless, a \<open>--deny\<close> list leaves what its last items say, and where a module's folders can be left; \<open>OperatorLaws\<close>, equality, ranges, division and order; \<open>PatternLaws\<close>, a pattern
  matches exactly the values it describes and the first arm that does is taken; \<open>EnvLaws\<close>, reads are lexical,
  slots are the lookups they stand for, a module's code is closed to the program,
  and where an assignment and a read part; \<open>Sharing\<close>, a list extended or updated in place changes for its own binding
  and for no other holder, and a value moved out is moved and not copied; \<open>PegSafe\<close>, \<open>PegFirst\<close>, \<open>PegBuild\<close> and \<open>PegLaws\<close>, matches stay in the
  input, trees are nested, classes and guards are exact, the analyses end and are sound; \<open>PegServe\<close> and
  \<open>PegAgree\<close>, recognising and noting answer what the grammar means, memo, guards, fast loops and all, for
  grammars without left-recursive heads whose tokens refer to tokens and whose tables' atoms consume
  (\<open>fine_rules\<close>), where skipping ends and the limit on nesting has room; \<open>PegEnds\<close>, for a grammar whose rules are
  ranked so that none recurs on the left and whose prefix and postfix operators consume (\<open>grounded\<close>), the
  reference answers every goal, so every such parse ends with the grammar's answer (\<open>parse_ends\<close>). The family
  that builds trees is not held against the reference, and differs from it on a table whose atom is an
  alternative (\<open>families_differ\<close>); and outside the fine grammars a guard can reject what the grammar reads
  (\<open>guard_before_skip\<close>).

  Not modelled: the parser (generated by a third-party library from a grammar), the bytecode compiler,
  virtual machine and JIT, the tree walker's dispatch, the simulated world's threads, SQLite and HTTP
  around the machines above, the standard library's wrappers of third-party crates, the graphical
  toolkit, the data frames, and the tools over the whole syntax tree.
\<close>

end
